(* ===== verification/Go_Prelude.thy ===== *)
theory Go_Prelude
  imports Main "HOL-Library.Word" "HOL-Library.Sublist"
begin

text \<open>
  Shared vocabulary of the development: Go panics, the outcome of a call that may panic after
  changing its state, byte and integer types, the collections of simp and introduction rules the
  components feed, and generic lemmas about lists and maps.
\<close>

section \<open>Panics and outcomes\<close>

text \<open>
  The panics the modelled code can raise: the Go runtime's own (nil dereference, slice or index out
  of range, failed type assertion), the value \<open>buf.ErrInsufficientSize\<close> that the decoders raise to
  ask for more input, and a panic with any other value, named by a string.
\<close>

datatype panic =
    NilDeref
  | OutOfRange
  | BadAssertion
  | InsufficientSize
  | PanicValue string

text \<open>
  A statement either completes or panics, and a panic keeps the writes made before it: both
  outcomes carry the state.
\<close>

datatype 's outcome = Done 's | Panicked panic 's

fun out_state :: "'s outcome \<Rightarrow> 's" where
  "out_state (Done s) = s"
| "out_state (Panicked _ s) = s"

fun is_done :: "'s outcome \<Rightarrow> bool" where
  "is_done (Done _) = True"
| "is_done (Panicked _ _) = False"

text \<open>Sequencing: the second statement runs only if the first one completed.\<close>

fun and_then :: "'s outcome \<Rightarrow> ('s \<Rightarrow> 's outcome) \<Rightarrow> 's outcome" where
  "and_then (Done s) f = f s"
| "and_then (Panicked e s) f = Panicked e s"

lemma and_then_Done_iff:
  "and_then m f = Done t \<longleftrightarrow> (\<exists>s. m = Done s \<and> f s = Done t)"
  by (cases m) auto

lemma and_then_assoc: "and_then (and_then m f) g = and_then m (\<lambda>s. and_then (f s) g)"
  by (cases m) auto

lemma and_then_return [simp]: "and_then m Done = m"
  by (cases m) auto

text \<open>
  A call that may not return either: None is divergence, \<open>Some\<close> holds the outcome.
\<close>

type_synonym 's run = "'s outcome option"

fun seq_run :: "'s run \<Rightarrow> ('s \<Rightarrow> 's run) \<Rightarrow> 's run" where
  "seq_run None f = None"
| "seq_run (Some (Done s)) f = f s"
| "seq_run (Some (Panicked e s)) f = Some (Panicked e s)"

lemma seq_run_return [simp]: "seq_run m (\<lambda>s. Some (Done s)) = m"
  by (cases m rule: seq_run.cases [of "(_, \<lambda>s. Some (Done s))"]) auto

lemma seq_run_assoc: "seq_run (seq_run m f) g = seq_run m (\<lambda>s. seq_run (f s) g)"
  by (cases m rule: seq_run.cases [of "(_, f)"]) auto

text \<open>The same call for each element of a list, until one does not complete.\<close>

fun run_all :: "('e \<Rightarrow> 's \<Rightarrow> 's run) \<Rightarrow> 'e list \<Rightarrow> 's \<Rightarrow> 's run" where
  "run_all f [] s = Some (Done s)"
| "run_all f (e # es) s = seq_run (f e s) (run_all f es)"

section \<open>Machine integers\<close>

type_synonym byte = "8 word"
type_synonym u16 = "16 word"
type_synonym u32 = "32 word"
type_synonym u64 = "64 word"

text \<open>The conversion \<open>int(x)\<close> of a \<open>uint64\<close> on a 64-bit platform reads it as two's complement.\<close>

definition int_of_u64 :: "u64 \<Rightarrow> int" where
  "int_of_u64 w = sint w"

text \<open>\<open>uint64(n)\<close> of a Go int wraps modulo \<open>2^64\<close>.\<close>

definition u64_of_int :: "int \<Rightarrow> u64" where
  "u64_of_int n = word_of_int n"

lemma unat_bound: "unat (w :: 'w::len word) < 2 ^ LENGTH('w)"
  by (rule unsigned_less)

lemma int_of_u64_of_nat:
  assumes "n < 2 ^ 63"
  shows "int_of_u64 (u64_of_int (int n)) = int n"
proof -
  have "sint (word_of_int (int n) :: u64) = signed_take_bit 63 (int n)"
    by (simp only: sint_sbintrunc') simp
  also have "\<dots> = int n"
    using assms by (simp add: signed_take_bit_int_eq_self_iff)
  finally show ?thesis
    by (simp add: int_of_u64_def u64_of_int_def)
qed

section \<open>Rule collections\<close>

text \<open>Unfolding rules of the step functions, gathered per component.\<close>

named_theorems step_defs "definitions unfolded when a step of a component is evaluated"

text \<open>One preservation rule per operation, for the components with an invariant.\<close>

named_theorems inv_rules "operations preserve the invariant of their component"

section \<open>Lists and maps\<close>

text \<open>The nil-able result of a Go lookup by key in a list of pairs, first match.\<close>

lemma map_of_append_None:
  "map_of xs k = None \<Longrightarrow> map_of (xs @ ys) k = map_of ys k"
  by (simp add: map_add_def)

lemma filter_concat_map:
  "filter P (concat (map f xs)) = concat (map (\<lambda>x. filter P (f x)) xs)"
  by (induction xs) auto

lemma append_eq_take_drop:
  "xs @ ys = zs \<Longrightarrow> n = length xs \<Longrightarrow> xs = take n zs \<and> ys = drop n zs"
  by auto

lemma append_split_longer:
  assumes "xs @ ys = as @ bs" and "length as \<le> length xs"
  shows "\<exists>us. xs = as @ us \<and> bs = us @ ys"
  using assms by (auto simp: append_eq_append_conv2)

lemma append_split_shorter:
  assumes "xs @ ys = as @ bs" and "length xs < length as"
  shows "\<exists>us. us \<noteq> [] \<and> as = xs @ us \<and> ys = us @ bs"
  using assms by (auto simp: append_eq_append_conv2)

lemma butlast_snoc_last: "xs \<noteq> [] \<Longrightarrow> butlast xs @ [last xs] = xs"
  by simp

end
