(* ===== verification/Utils_Queue.thy ===== *)
theory Utils_Queue
  imports Go_Prelude
begin

text \<open>
  The FIFO queue of \<open>utils/queue.go\<close>, a mutex around \<open>container/list\<close>. \<open>Push\<close> puts a value at
  the front of the list and \<open>Pop\<close> takes the value at the back, so the queue is kept newest first.
  A queued value may be nil, and \<open>Pop\<close> answers nil on an empty queue, so both are \<open>option\<close>s.
  Each operation runs under the mutex and is one atomic step.
  The interface \<open>fifo\<close> is what the decoders and the channel's write loop ask of a queue.
\<close>

section \<open>The interface\<close>

locale fifo =
  fixes q_empty :: "'q"
    and q_push :: "'a option \<Rightarrow> 'q \<Rightarrow> 'q"
    and q_pop :: "'q \<Rightarrow> 'a option \<times> 'q"
    and q_size :: "'q \<Rightarrow> nat"
    and q_list :: "'q \<Rightarrow> 'a option list"
  assumes list_empty: "q_list q_empty = []"
    and list_push: "q_list (q_push x q) = q_list q @ [x]"
    and pop_empty: "q_list q = [] \<Longrightarrow> q_pop q = (None, q)"
    and pop_first: "q_list q = x # xs \<Longrightarrow> \<exists>q'. q_pop q = (x, q') \<and> q_list q' = xs"
    and size_list: "q_size q = length (q_list q)"
begin

lemma list_push_all: "q_list (fold q_push xs q) = q_list q @ xs"
  by (induction xs arbitrary: q) (auto simp: list_push)

lemma list_pop: "q_list (snd (q_pop q)) = tl (q_list q)"
  by (cases "q_list q") (auto dest: pop_first simp: pop_empty)

lemma value_pop: "fst (q_pop q) = (case q_list q of [] \<Rightarrow> None | x # _ \<Rightarrow> x)"
  by (cases "q_list q") (auto dest: pop_first simp: pop_empty)

lemma size_pop: "q_size (snd (q_pop q)) = q_size q - 1"
  by (simp add: size_list list_pop)

lemma push_pop_order:
  assumes "q_list q = []"
  shows "\<exists>q'. q_pop (q_push x (q_push y q)) = (y, q') \<and> fst (q_pop q') = x"
  using pop_first [of "q_push x (q_push y q)" y "[x]"] assms
  by (auto simp: list_push value_pop)

end

section \<open>The model of utils.Queue\<close>

text \<open>The field \<open>l\<close>: the elements of the \<open>list.List\<close> from front to back.\<close>

record 'a queue =
  queue_l :: "'a option list"

definition empty_queue :: "'a queue" where
  "empty_queue = \<lparr>queue_l = []\<rparr>"

definition Push :: "'a option \<Rightarrow> 'a queue \<Rightarrow> 'a queue" where
  "Push obj q = q\<lparr>queue_l := obj # queue_l q\<rparr>"

definition Pop :: "'a queue \<Rightarrow> 'a option \<times> 'a queue" where
  "Pop q = (if queue_l q = [] then (None, q) else (last (queue_l q), q\<lparr>queue_l := butlast (queue_l q)\<rparr>))"

definition Size :: "'a queue \<Rightarrow> nat" where
  "Size q = length (queue_l q)"

definition contents :: "'a queue \<Rightarrow> 'a option list" where
  "contents q = rev (queue_l q)"

lemma contents_empty [simp]: "contents empty_queue = []"
  by (simp add: contents_def empty_queue_def)

lemma contents_Push [simp]: "contents (Push x q) = contents q @ [x]"
  by (simp add: contents_def Push_def)

lemma contents_Nil_iff: "contents q = [] \<longleftrightarrow> queue_l q = []"
  by (simp add: contents_def)

lemma Pop_Nil: "contents q = [] \<Longrightarrow> Pop q = (None, q)"
  by (simp add: Pop_def contents_Nil_iff)

lemma Pop_Cons:
  assumes "contents q = x # xs"
  shows "\<exists>q'. Pop q = (x, q') \<and> contents q' = xs"
proof -
  from assms have l: "queue_l q = rev xs @ [x]"
    by (metis contents_def rev.simps(2) rev_rev_ident)
  then show ?thesis
    by (simp add: Pop_def contents_def)
qed

interpretation uq: fifo empty_queue Push Pop Size contents
proof unfold_locales
  show "\<And>q x xs. contents q = x # xs \<Longrightarrow> \<exists>q'. Pop q = (x, q') \<and> contents q' = xs"
    by (rule Pop_Cons)
qed (auto simp: Pop_Nil Size_def contents_def empty_queue_def Push_def Pop_def)

section \<open>The drain loop\<close>

text \<open>
  The decoders empty their queue with
  \<open>for elem := out.Pop(); elem != nil; elem = out.Pop()\<close>: it hands every element to
  \<open>ctx.FireRead\<close> and stops at the first nil, be it the end of the queue or a queued nil.
\<close>

function drain :: "'a queue \<Rightarrow> 'a list \<times> 'a queue" where
  "drain q = (case Pop q of
       (None, q') \<Rightarrow> ([], q')
     | (Some x, q') \<Rightarrow> (let (xs, q'') = drain q' in (x # xs, q'')))"
  by pat_completeness auto
termination
  by (relation "measure Size") (auto simp: Pop_def Size_def split: if_splits)

declare drain.simps [simp del]

lemma drain_contents:
  "fst (drain q) = map the (takeWhile (\<lambda>x. x \<noteq> None) (contents q))"
proof (induction q rule: drain.induct)
  case (1 q)
  show ?case
  proof (cases "contents q")
    case Nil
    then show ?thesis by (simp add: drain.simps [of q] Pop_Nil)
  next
    case (Cons y ys)
    then obtain q' where q': "Pop q = (y, q')" "contents q' = ys"
      using Pop_Cons by blast
    then show ?thesis
      using Cons "1.IH" [OF q'(1) [symmetric]]
      by (cases y) (auto simp: drain.simps [of q] split: prod.splits)
  qed
qed

lemma drain_all:
  assumes "contents q = map Some xs"
  shows "drain q = (xs, q\<lparr>queue_l := []\<rparr>)"
  using assms
proof (induction xs arbitrary: q)
  case Nil
  then show ?case by (simp add: drain.simps [of q] Pop_Nil contents_Nil_iff)
next
  case (Cons x xs)
  then obtain q' where q': "Pop q = (Some x, q')" "contents q' = map Some xs"
    using Pop_Cons [of q "Some x" "map Some xs"] by auto
  then have "drain q' = (xs, q'\<lparr>queue_l := []\<rparr>)" by (intro Cons.IH)
  moreover have "q'\<lparr>queue_l := []\<rparr> = q\<lparr>queue_l := []\<rparr>"
    using q'(1) by (auto simp: Pop_def split: if_splits)
  ultimately show ?case
    using q'(1) by (simp add: drain.simps [of q])
qed

end
