(* ===== verification/Byte_Buf.thy ===== *)
theory Byte_Buf
  imports Go_Prelude
begin

text \<open>
  The byte buffer \<open>buf.ByteBuf\<close> of the package goth-bytebuf is not part of the repository, so it
  is a parameter of the model: a record of the operations the code calls. The locale \<open>bytebuf\<close>
  names what the code relies on: a buffer is read from the front and written at the back, the
  fixed-width integers travel in big-endian order (\<open>utils/varint_test.go\<close> fixes the bytes), and
  a read that asks for more than the buffer holds raises \<open>ErrInsufficientSize\<close> and consumes
  nothing, which is what makes replaying a decoder sound. A buffer is a value here; each operation
  returns the buffer it changed.
\<close>

section \<open>Big-endian integers\<close>

fun be_bytes :: "nat \<Rightarrow> nat \<Rightarrow> byte list" where
  "be_bytes 0 v = []"
| "be_bytes (Suc k) v = of_nat (v div 256 ^ k) # be_bytes k v"

fun be_value :: "byte list \<Rightarrow> nat" where
  "be_value [] = 0"
| "be_value (b # bs) = unat b * 256 ^ length bs + be_value bs"

lemma length_be_bytes [simp]: "length (be_bytes k v) = k"
  by (induction k) auto

lemma be_value_bound: "be_value bs < 256 ^ length bs"
proof (induction bs)
  case (Cons b bs)
  have "be_value (b # bs) < (unat b + 1) * 256 ^ length bs"
    using Cons by simp
  also have "\<dots> \<le> 256 * 256 ^ length bs"
    using unat_bound [of b] by (intro mult_le_mono1) simp
  finally show ?case by simp
qed simp

lemma be_value_bytes: "be_value (be_bytes k v) = v mod 256 ^ k"
proof (induction k)
  case (Suc k)
  have "unat (of_nat (v div 256 ^ k) :: byte) = v div 256 ^ k mod 256"
    by (simp add: unat_of_nat)
  then show ?case
    using Suc mod_mult2_eq [of v "256 ^ k" 256]
    by (simp add: algebra_simps)
qed simp

section \<open>The interface\<close>

record 'b bytebuf_ops =
  EmptyByteBuf :: 'b
  NewByteBuf :: "byte list \<Rightarrow> 'b"
  Bytes :: "'b \<Rightarrow> byte list"
  ReadableBytes :: "'b \<Rightarrow> nat"
  Cap :: "'b \<Rightarrow> nat"
  AppendByte :: "'b \<Rightarrow> byte \<Rightarrow> 'b"
  WriteBytes :: "'b \<Rightarrow> byte list \<Rightarrow> 'b"
  WriteUInt16 :: "'b \<Rightarrow> u16 \<Rightarrow> 'b"
  WriteUInt32 :: "'b \<Rightarrow> u32 \<Rightarrow> 'b"
  WriteUInt64 :: "'b \<Rightarrow> u64 \<Rightarrow> 'b"
  WriteByteBuf :: "'b \<Rightarrow> 'b \<Rightarrow> 'b"
  MustReadByte :: "'b \<Rightarrow> panic + byte \<times> 'b"
  ReadUInt16 :: "'b \<Rightarrow> panic + u16 \<times> 'b"
  ReadUInt32 :: "'b \<Rightarrow> panic + u32 \<times> 'b"
  ReadUInt64 :: "'b \<Rightarrow> panic + u64 \<times> 'b"
  ReadByteBuf :: "'b \<Rightarrow> int \<Rightarrow> panic + 'b \<times> 'b"
  ResetBuf :: "'b \<Rightarrow> 'b"

locale bytebuf =
  fixes ops :: "'b bytebuf_ops"
  assumes bytes_empty: "Bytes ops (EmptyByteBuf ops) = []"
    and bytes_new: "Bytes ops (NewByteBuf ops bs) = bs"
    and readable: "ReadableBytes ops b = length (Bytes ops b)"
    and bytes_append: "Bytes ops (AppendByte ops b x) = Bytes ops b @ [x]"
    and bytes_write: "Bytes ops (WriteBytes ops b bs) = Bytes ops b @ bs"
    and bytes_write16: "Bytes ops (WriteUInt16 ops b v) = Bytes ops b @ be_bytes 2 (unat v)"
    and bytes_write32: "Bytes ops (WriteUInt32 ops b w) = Bytes ops b @ be_bytes 4 (unat w)"
    and bytes_write64: "Bytes ops (WriteUInt64 ops b x64) = Bytes ops b @ be_bytes 8 (unat x64)"
    and bytes_write_buf: "Bytes ops (WriteByteBuf ops b c) = Bytes ops b @ Bytes ops c"
    and bytes_reset: "Bytes ops (ResetBuf ops b) = []"
    and read_byte_short: "Bytes ops b = [] \<Longrightarrow> MustReadByte ops b = Inl InsufficientSize"
    and read_byte: "Bytes ops b = x # bs \<Longrightarrow>
      \<exists>b'. MustReadByte ops b = Inr (x, b') \<and> Bytes ops b' = bs"
    and read16_short: "length (Bytes ops b) < 2 \<Longrightarrow> ReadUInt16 ops b = Inl InsufficientSize"
    and read16: "2 \<le> length (Bytes ops b) \<Longrightarrow>
      \<exists>b'. ReadUInt16 ops b = Inr (of_nat (be_value (take 2 (Bytes ops b))), b')
        \<and> Bytes ops b' = drop 2 (Bytes ops b)"
    and read32_short: "length (Bytes ops b) < 4 \<Longrightarrow> ReadUInt32 ops b = Inl InsufficientSize"
    and read32: "4 \<le> length (Bytes ops b) \<Longrightarrow>
      \<exists>b'. ReadUInt32 ops b = Inr (of_nat (be_value (take 4 (Bytes ops b))), b')
        \<and> Bytes ops b' = drop 4 (Bytes ops b)"
    and read64_short: "length (Bytes ops b) < 8 \<Longrightarrow> ReadUInt64 ops b = Inl InsufficientSize"
    and read64: "8 \<le> length (Bytes ops b) \<Longrightarrow>
      \<exists>b'. ReadUInt64 ops b = Inr (of_nat (be_value (take 8 (Bytes ops b))), b')
        \<and> Bytes ops b' = drop 8 (Bytes ops b)"
    and read_buf_short: "int (length (Bytes ops b)) < n \<Longrightarrow>
      ReadByteBuf ops b n = Inl InsufficientSize"
    and read_buf: "0 \<le> n \<Longrightarrow> n \<le> int (length (Bytes ops b)) \<Longrightarrow>
      \<exists>m b'. ReadByteBuf ops b n = Inr (m, b')
        \<and> Bytes ops m = take (nat n) (Bytes ops b) \<and> Bytes ops b' = drop (nat n) (Bytes ops b)"
begin

lemmas bytes_writes =
  bytes_empty bytes_new bytes_append bytes_write bytes_write16 bytes_write32 bytes_write64
  bytes_write_buf bytes_reset

lemma read_byte_inv:
  assumes "MustReadByte ops b = Inr (x, b')"
  shows "Bytes ops b = x # Bytes ops b'"
  using assms read_byte [of b] read_byte_short [of b] by (cases "Bytes ops b") fastforce+

end

section \<open>An instance\<close>

text \<open>
  The plainest buffer that keeps the laws is its list of readable bytes. The witnesses of the
  properties run on it.
\<close>

definition list_read :: "nat \<Rightarrow> byte list \<Rightarrow> panic + 'w::len word \<times> byte list" where
  "list_read k bs = (if length bs < k then Inl InsufficientSize
     else Inr (of_nat (be_value (take k bs)), drop k bs))"

definition list_bytebuf :: "byte list bytebuf_ops" where
  "list_bytebuf = \<lparr>
     EmptyByteBuf = [],
     NewByteBuf = (\<lambda>bs. bs),
     Bytes = (\<lambda>b. b),
     ReadableBytes = length,
     Cap = length,
     AppendByte = (\<lambda>b x. b @ [x]),
     WriteBytes = (\<lambda>b bs. b @ bs),
     WriteUInt16 = (\<lambda>b v. b @ be_bytes 2 (unat v)),
     WriteUInt32 = (\<lambda>b v. b @ be_bytes 4 (unat v)),
     WriteUInt64 = (\<lambda>b v. b @ be_bytes 8 (unat v)),
     WriteByteBuf = (\<lambda>b c. b @ c),
     MustReadByte = (\<lambda>b. case b of [] \<Rightarrow> Inl InsufficientSize | x # bs \<Rightarrow> Inr (x, bs)),
     ReadUInt16 = list_read 2,
     ReadUInt32 = list_read 4,
     ReadUInt64 = list_read 8,
     ReadByteBuf = (\<lambda>b n. if n < 0 then Inl OutOfRange
       else if int (length b) < n then Inl InsufficientSize
       else Inr (take (nat n) b, drop (nat n) b)),
     ResetBuf = (\<lambda>b. [])\<rparr>"

interpretation lb: bytebuf list_bytebuf
  by unfold_locales (auto simp: list_bytebuf_def list_read_def)

lemma list_bytebuf_sel [simp]:
  "EmptyByteBuf list_bytebuf = []" "NewByteBuf list_bytebuf bs = bs" "Bytes list_bytebuf = (\<lambda>b. b)"
  "ReadableBytes list_bytebuf b = length b" "AppendByte list_bytebuf b x = b @ [x]"
  "WriteBytes list_bytebuf b bs = b @ bs" "WriteByteBuf list_bytebuf b c = b @ c"
  "WriteUInt16 list_bytebuf b v = b @ be_bytes 2 (unat v)"
  "WriteUInt32 list_bytebuf b w = b @ be_bytes 4 (unat w)"
  "WriteUInt64 list_bytebuf b x64 = b @ be_bytes 8 (unat x64)"
  by (simp_all add: list_bytebuf_def)

end
