(* ===== verification/Utils_VarInt.thy ===== *)
theory Utils_VarInt
  imports Byte_Buf
begin

text \<open>
  The variable-length integers of \<open>utils/varint.go\<close>: values below \<open>0xfd\<close> are one byte, the rest
  are a flag byte \<open>0xfd\<close>, \<open>0xfe\<close> or \<open>0xff\<close> and a 16, 32 or 64-bit big-endian integer. The lemmas
  show the bytes written, that the encoding is as short as the format allows, and that decoding
  inverts encoding on all of \<open>uint64\<close>.
\<close>

definition VarIntEncode :: "'b bytebuf_ops \<Rightarrow> u64 \<Rightarrow> 'b" where
  "VarIntEncode ops val =
     (if val < 0xfd then AppendByte ops (EmptyByteBuf ops) (ucast val)
      else if val \<le> 0xffff then WriteUInt16 ops (NewByteBuf ops [0xfd]) (ucast val)
      else if val \<le> 0xffffffff then WriteUInt32 ops (NewByteBuf ops [0xfe]) (ucast val)
      else WriteUInt64 ops (NewByteBuf ops [0xff]) val)"

definition VarIntDecode :: "'b bytebuf_ops \<Rightarrow> byte \<Rightarrow> 'b \<Rightarrow> panic + u64 \<times> 'b" where
  "VarIntDecode ops flag bbf =
     (if flag = 0xfd then map_sum id (\<lambda>(v, b). (ucast v, b)) (ReadUInt16 ops bbf)
      else if flag = 0xfe then map_sum id (\<lambda>(v, b). (ucast v, b)) (ReadUInt32 ops bbf)
      else if flag = 0xff then ReadUInt64 ops bbf
      else Inr (ucast flag, bbf))"

section \<open>The wire format\<close>

text \<open>The flag byte of a value, the number of bytes that follow a flag, and the bytes of a value.\<close>

definition varint_flag :: "u64 \<Rightarrow> byte" where
  "varint_flag val = (if val < 0xfd then ucast val else if val \<le> 0xffff then 0xfd
     else if val \<le> 0xffffffff then 0xfe else 0xff)"

definition varint_size :: "byte \<Rightarrow> nat" where
  "varint_size flag = (if flag = 0xfd then 2 else if flag = 0xfe then 4
     else if flag = 0xff then 8 else 0)"

definition varint_bytes :: "u64 \<Rightarrow> byte list" where
  "varint_bytes val = varint_flag val # be_bytes (varint_size (varint_flag val)) (unat val)"

lemma ucast_byte_small:
  assumes "val < (0xfd :: u64)"
  shows "unat (ucast val :: byte) = unat val"
proof -
  have "unat val < 253"
    using assms by (simp add: word_less_nat_alt)
  then show ?thesis
    by (simp add: unsigned_ucast_eq take_bit_nat_eq_self_iff)
qed

lemma unat_u64_bound: "unat (val :: u64) < 2 ^ 64"
  using unat_bound [of val] by simp

lemma varint_flag_size:
  "varint_size (varint_flag val) =
     (if val < 0xfd then 0 else if val \<le> 0xffff then 2 else if val \<le> 0xffffffff then 4 else 8)"
proof -
  have "ucast val \<noteq> (0xfd :: byte)" "ucast val \<noteq> (0xfe :: byte)" "ucast val \<noteq> (0xff :: byte)"
    if "val < 0xfd"
    using that ucast_byte_small [OF that] by (auto simp: word_less_nat_alt)
  then show ?thesis
    by (simp add: varint_size_def varint_flag_def)
qed

lemma unat_ucast_le:
  assumes "unat (val :: 'v::len word) < 2 ^ LENGTH('w::len)"
  shows "unat (ucast val :: 'w word) = unat val"
  using assms by (simp add: unsigned_ucast_eq take_bit_nat_eq_self_iff)

lemma ucast_byte_u64:
  assumes "val < (0xfd :: u64)"
  shows "ucast (ucast val :: byte) = val"
proof -
  have "unat (ucast (ucast val :: byte) :: u64) = unat (ucast val :: byte)"
    by (rule unat_ucast_le, rule less_trans [OF unat_bound]) simp
  then have "unat (ucast (ucast val :: byte) :: u64) = unat val"
    using ucast_byte_small [OF assms] by simp
  then show ?thesis by (rule unsigned_word_eqI)
qed

lemma ucast_of_nat_value:
  assumes "v < 2 ^ LENGTH('w::len)"
  shows "ucast (of_nat v :: 'w word) = (of_nat v :: u64)"
  using assms by (simp add: unsigned_of_nat take_bit_nat_eq_self ucast_eq)

lemma varint_flag_zero: "varint_flag val = 0 \<longleftrightarrow> val = 0"
proof (cases "val < 0xfd")
  case True
  then show ?thesis
    using ucast_byte_small [OF True] by (auto simp: varint_flag_def unat_eq_0 [symmetric])
next
  case False
  then show ?thesis by (auto simp: varint_flag_def)
qed

context bytebuf
begin

lemma VarIntEncode_bytes: "Bytes ops (VarIntEncode ops val) = varint_bytes val"
proof -
  have u16: "unat (ucast val :: u16) = unat val" if "val \<le> 0xffff"
    by (rule unat_ucast_le) (use that in \<open>simp add: word_le_nat_alt\<close>)
  have u32: "unat (ucast val :: u32) = unat val" if "val \<le> 0xffffffff"
    by (rule unat_ucast_le) (use that in \<open>simp add: word_le_nat_alt\<close>)
  show ?thesis
    by (simp add: VarIntEncode_def varint_bytes_def varint_flag_size bytes_writes u16 u32)
      (simp add: varint_flag_def)
qed

lemma VarIntDecode_short:
  "length (Bytes ops b) < varint_size flag \<Longrightarrow> VarIntDecode ops flag b = Inl InsufficientSize"
  by (auto simp: VarIntDecode_def varint_size_def read16_short read32_short read64_short
      split: if_splits)

lemma VarIntDecode_enough:
  assumes "varint_size flag \<le> length (Bytes ops b)"
  shows "\<exists>b'. VarIntDecode ops flag b =
      Inr (if varint_size flag = 0 then ucast flag
           else of_nat (be_value (take (varint_size flag) (Bytes ops b))), b')
    \<and> Bytes ops b' = drop (varint_size flag) (Bytes ops b)"
proof -
  have b2: "be_value (take 2 xs) < 2 ^ 16" and b4: "be_value (take 4 xs) < 2 ^ 32" for xs
    using be_value_bound [of "take 2 xs"] be_value_bound [of "take 4 xs"]
      power_increasing [of "length (take 2 xs)" 2 "256 :: nat"]
      power_increasing [of "length (take 4 xs)" 4 "256 :: nat"] by simp_all
  have s16: "ucast (of_nat (be_value (take 2 xs)) :: u16) = (of_nat (be_value (take 2 xs)) :: u64)"
    and s32: "ucast (of_nat (be_value (take 4 xs)) :: u32) = (of_nat (be_value (take 4 xs)) :: u64)"
    for xs
    by (rule ucast_of_nat_value; use b2 [of xs] b4 [of xs] in simp)+
  show ?thesis
    using assms read16 [of b] read32 [of b] read64 [of b]
    by (auto simp: s16 s32 VarIntDecode_def varint_size_def split: if_splits)
qed

lemma VarIntDecode_bytes:
  assumes "Bytes ops b = be_bytes (varint_size (varint_flag val)) (unat val) @ rest"
  shows "\<exists>b'. VarIntDecode ops (varint_flag val) b = Inr (val, b') \<and> Bytes ops b' = rest"
proof -
  let ?k = "varint_size (varint_flag val)"
  have "unat val < 256 ^ ?k" if "?k \<noteq> 0"
    using that unat_u64_bound [of val]
    by (auto simp: varint_flag_size word_le_nat_alt split: if_splits)
  then have "of_nat (be_value (take ?k (Bytes ops b))) = val" if "?k \<noteq> 0"
    using that by (simp add: assms be_value_bytes)
  moreover have "ucast (varint_flag val) = val" if "?k = 0"
  proof -
    from that have "val < 0xfd" by (simp add: varint_flag_size split: if_splits)
    then show ?thesis
      using ucast_byte_u64 [of val] by (simp add: varint_flag_def)
  qed
  ultimately show ?thesis
    using VarIntDecode_enough [of "varint_flag val" b] assms by auto
qed

end

text \<open>
  C40. Encoding a number and reading it back, first byte first as the codec does, gives the same number
  for all 2^64 of them and consumes exactly the bytes the encoder wrote; the encoding takes 1, 3, 5
  or 9 bytes.
\<close>

theorem varint_roundtrip:
  assumes "bytebuf ops" and "Bytes ops b = Bytes ops (VarIntEncode ops val) @ rest"
  shows "\<exists>flag b1 b2. MustReadByte ops b = Inr (flag, b1) \<and> VarIntDecode ops flag b1 = Inr (val, b2)
    \<and> Bytes ops b2 = rest \<and> length (Bytes ops (VarIntEncode ops val)) \<in> {1, 3, 5, 9}"
proof -
  have enc: "Bytes ops (VarIntEncode ops val)
      = varint_flag val # be_bytes (varint_size (varint_flag val)) (unat val)"
    using bytebuf.VarIntEncode_bytes [OF assms(1)] by (simp add: varint_bytes_def)
  with assms(2) bytebuf.read_byte [OF assms(1), of b] obtain b1 where
    b1: "MustReadByte ops b = Inr (varint_flag val, b1)"
      "Bytes ops b1 = be_bytes (varint_size (varint_flag val)) (unat val) @ rest" by auto
  from bytebuf.VarIntDecode_bytes [OF assms(1) b1(2)] b1(1) enc show ?thesis
    by (auto simp: varint_flag_size split: if_splits)
qed

theorem varint_roundtrip_witness:
  "\<exists>flag b1 b2. MustReadByte list_bytebuf (VarIntEncode list_bytebuf 70000 @ [7]) = Inr (flag, b1)
    \<and> VarIntDecode list_bytebuf flag b1 = Inr (70000, b2) \<and> Bytes list_bytebuf b2 = [7]"
  using varint_roundtrip [OF lb.bytebuf_axioms, of "VarIntEncode list_bytebuf 70000 @ [7]" 70000 "[7]"]
  by auto

end
