(* ===== verification/Channel_Codec.thy ===== *)
theory Channel_Codec
  imports Utils_Queue Utils_VarInt
begin

text \<open>
  The message codecs of the package \<open>channel\<close>: \<open>ReplayDecoder\<close> (\<open>channel/replaydecoder.go\<close>),
  \<open>ByteToMessageDecoder\<close> and \<open>MessageToByteEncoder\<close>. A decoder is a handler with an input buffer;
  what it hands on with \<open>ctx.FireRead\<close> and \<open>ctx.FireReadCompleted\<close> is the list of events the
  operation returns. The user's \<open>Decode\<close> function is a parameter: given the handler's state and an
  empty out queue it either returns, panics, or does not return (None). The panics that
  \<open>kkpanic.CatchExcept\<close> of goth-panic swallows are the parameter \<open>swallows\<close>.
\<close>

section \<open>Values that travel through a pipeline\<close>

datatype 'b obj = ObjBuf 'b | ObjNil | ObjOther string

datatype 'b fired = FiredRead 'b | FiredReadCompleted

section \<open>ReplayDecoder\<close>

text \<open>
  \<open>rd_in\<close> is the cumulated input, nil until \<open>Added\<close> or \<open>Checkpoint\<close> makes it. The record is
  extensible: a codec embeds \<open>*ReplayDecoder\<close> and adds its own fields.
\<close>

record 'b replay_decoder =
  rd_in :: "'b option"
  rd_state :: int

definition replayDecoderTruncateLen :: int where
  "replayDecoderTruncateLen = 2 ^ 20"

definition NewReplayDecoder :: "int \<Rightarrow> 'b replay_decoder" where
  "NewReplayDecoder state = \<lparr>rd_in = None, rd_state = state\<rparr>"

definition replay_Added ::
  "'b bytebuf_ops \<Rightarrow> ('b, 'z) replay_decoder_scheme \<Rightarrow> ('b, 'z) replay_decoder_scheme" where
  "replay_Added ops h = h\<lparr>rd_in := Some (EmptyByteBuf ops)\<rparr>"

definition Skip :: "'s \<Rightarrow> 's outcome" where
  "Skip h = Panicked InsufficientSize h"

definition Checkpoint ::
  "'b bytebuf_ops \<Rightarrow> int \<Rightarrow> ('b, 'z) replay_decoder_scheme \<Rightarrow> ('b, 'z) replay_decoder_scheme"
  where
  "Checkpoint ops state h =
     (let buffer = (case rd_in h of None \<Rightarrow> EmptyByteBuf ops | Some b \<Rightarrow> b);
          buffer' = (if int (Cap ops buffer) - int (ReadableBytes ops buffer)
                        > replayDecoderTruncateLen
                     then WriteBytes ops (ResetBuf ops buffer) (Bytes ops buffer)
                     else buffer)
      in h\<lparr>rd_state := state, rd_in := Some buffer'\<rparr>)"

text \<open>
  A decoder is run on the handler's state and a queue; the run itself is an \<open>outcome\<close>, because a
  panic keeps what was decoded and pushed before it, or None when it does not return.
\<close>

type_synonym ('h, 'b) decoder = "'h \<Rightarrow> 'b queue \<Rightarrow> ('h \<times> 'b queue) outcome option"

definition replay_Read ::
  "'b bytebuf_ops \<Rightarrow> (panic \<Rightarrow> bool) \<Rightarrow> (('b, 'z) replay_decoder_scheme, 'b) decoder option
     \<Rightarrow> ('b, 'z) replay_decoder_scheme \<Rightarrow> 'b obj
     \<Rightarrow> (('b, 'z) replay_decoder_scheme \<times> 'b fired list) outcome option" where
  "replay_Read ops swallows Decode h obj =
     (case Decode of
        None \<Rightarrow> Some (Done (h, []))
      | Some decode \<Rightarrow>
         (case obj of
            ObjBuf m \<Rightarrow>
             (case rd_in h of
                None \<Rightarrow> Some (Panicked NilDeref (h, []))
              | Some b \<Rightarrow>
                 (case decode (h\<lparr>rd_in := Some (WriteBytes ops b (Bytes ops m))\<rparr>) empty_queue of
                    None \<Rightarrow> None
                  | Some (Panicked e (h', out)) \<Rightarrow>
                      (if swallows e then Some (Done (h', map FiredRead (fst (drain out))))
                       else Some (Panicked e (h', [])))
                  | Some (Done (h', out)) \<Rightarrow> Some (Done (h', map FiredRead (fst (drain out))))))
          | _ \<Rightarrow> Some (Panicked BadAssertion (h, []))))"

section \<open>ByteToMessageDecoder and MessageToByteEncoder\<close>

text \<open>The decode function a \<open>ByteToMessageDecoder\<close> gets by default: it hands its input on.\<close>

definition default_decode :: "'b \<Rightarrow> 'b queue \<Rightarrow> 'b queue outcome option" where
  "default_decode inp out = Some (Done (Push (Some inp) out))"

definition bytes_Added ::
  "('b \<Rightarrow> 'b queue \<Rightarrow> 'b queue outcome option) option
     \<Rightarrow> ('b \<Rightarrow> 'b queue \<Rightarrow> 'b queue outcome option) option" where
  "bytes_Added Decode = (case Decode of None \<Rightarrow> Some default_decode | Some d \<Rightarrow> Some d)"

definition bytes_Read ::
  "('b \<Rightarrow> 'b queue \<Rightarrow> 'b queue outcome option) option \<Rightarrow> 'b obj \<Rightarrow> 'b fired list outcome option"
  where
  "bytes_Read Decode obj =
     (case obj of
        ObjBuf m \<Rightarrow>
         (case Decode of
            None \<Rightarrow> Some (Panicked NilDeref [])
          | Some decode \<Rightarrow>
             (case decode m empty_queue of
                None \<Rightarrow> None
              | Some (Panicked e _) \<Rightarrow> Some (Panicked e [])
              | Some (Done out) \<Rightarrow>
                  Some (Done (map FiredRead (fst (drain out)) @ [FiredReadCompleted]))))
      | _ \<Rightarrow> Some (Panicked BadAssertion []))"

text \<open>
  \<open>MessageToByteEncoder.Write\<close> encodes into a fresh buffer and writes that; the default \<open>encode\<close>
  panics with ``implement me''.
\<close>

definition default_encode :: "'m \<Rightarrow> 'b \<Rightarrow> 'b outcome" where
  "default_encode msg out = Panicked (PanicValue ''implement me'') out"

definition encoder_Added ::
  "('m \<Rightarrow> 'b \<Rightarrow> 'b outcome) option \<Rightarrow> ('m \<Rightarrow> 'b \<Rightarrow> 'b outcome) option" where
  "encoder_Added Encode = (case Encode of None \<Rightarrow> Some default_encode | Some e \<Rightarrow> Some e)"

definition encoder_Write ::
  "'b bytebuf_ops \<Rightarrow> ('m \<Rightarrow> 'b \<Rightarrow> 'b outcome) option \<Rightarrow> 'm \<Rightarrow> 'b list outcome" where
  "encoder_Write ops Encode obj =
     (case Encode of
        None \<Rightarrow> Panicked NilDeref []
      | Some encode \<Rightarrow>
         (case encode obj (EmptyByteBuf ops) of
            Done out \<Rightarrow> Done [out]
          | Panicked e _ \<Rightarrow> Panicked e []))"

section \<open>Facts about the decoders\<close>

lemma Checkpoint_state [simp]: "rd_state (Checkpoint ops state h) = state"
  by (simp add: Checkpoint_def Let_def)

lemma Checkpoint_more: "replay_decoder.more (Checkpoint ops state h) = replay_decoder.more h"
  by (simp add: Checkpoint_def Let_def)

text \<open>The bytes a decoder has still to read; none when its buffer is nil.\<close>

definition unread :: "'b bytebuf_ops \<Rightarrow> ('b, 'z) replay_decoder_scheme \<Rightarrow> byte list" where
  "unread ops h = (case rd_in h of None \<Rightarrow> [] | Some b \<Rightarrow> Bytes ops b)"

context bytebuf
begin

lemma Checkpoint_in: "\<exists>b. rd_in (Checkpoint ops state h) = Some b"
  by (simp add: Checkpoint_def Let_def)

lemma unread_Checkpoint: "unread ops (Checkpoint ops state h) = unread ops h"
  by (auto simp: unread_def Checkpoint_def Let_def bytes_writes split: option.splits)

lemma unread_Added: "unread ops (replay_Added ops h) = []"
  by (simp add: unread_def replay_Added_def bytes_empty)

end

text \<open>The default decoder hands on exactly the buffer it was given, then signals completion.\<close>

lemma bytes_Read_default:
  "bytes_Read (bytes_Added None) (ObjBuf m) = Some (Done [FiredRead m, FiredReadCompleted])"
  by (simp add: bytes_Read_def bytes_Added_def default_decode_def drain_all [of _ "[m]"])

text \<open>
  The compaction that \<open>Checkpoint\<close> does when the buffer's capacity outgrows its readable bytes
  by more than 1 MiB loses nothing: the bytes still to be read are the same before and after, the
  new replay state is the one asked for, and the buffer exists afterwards even when it was nil.
\<close>

theorem checkpoint_keeps_unread:
  assumes "bytebuf ops"
  shows "unread ops (Checkpoint ops state h) = unread ops h
    \<and> rd_state (Checkpoint ops state h) = state
    \<and> rd_in (Checkpoint ops state h) \<noteq> None"
  using bytebuf.Checkpoint_in [OF assms, of state h]
  by (auto simp: bytebuf.unread_Checkpoint [OF assms])

theorem checkpoint_keeps_unread_witness:
  "unread list_bytebuf (Checkpoint list_bytebuf 2 \<lparr>rd_in = Some [1, 2], rd_state = 1\<rparr>) = [1, 2]"
  using checkpoint_keeps_unread [OF lb.bytebuf_axioms, of 2 "\<lparr>rd_in = Some [1, 2], rd_state = 1\<rparr>"]
  by (simp add: unread_def)

end
