(* ===== verification/Simple_Codec.thy ===== *)
theory Simple_Codec
  imports Channel_Codec
begin

text \<open>
  The length-prefixed message codec shared by \<open>gtcp/simpletcp/simplecodec.go\<close> and
  \<open>gudp/simpleudp/simplecodec.go\<close>. On the wire a message is its length as a variable-length
  integer followed by its bytes; the decoder is a three-state machine (FLAG, LENGTH, BODY) run by
  \<open>ReplayDecoder.Read\<close> on whatever arrives. The main result is that decoding inverts encoding
  however the stream is cut: the messages come out complete, in order and once each, except
  the empty ones, which are keep-alives on the wire and are skipped.
\<close>

section \<open>The codec's state and its decode loop\<close>

record 'b simple_codec = "'b replay_decoder" +
  sc_flag :: byte
  sc_length :: u64
  sc_out :: "'b option"

definition FLAG :: int where "FLAG = 1"
definition LEN :: int where "LEN = 2"
definition BODY :: int where "BODY = 3"

definition NewSimpleCodec :: "'b simple_codec" where
  "NewSimpleCodec = \<lparr>rd_in = None, rd_state = FLAG, sc_flag = 0, sc_length = 0, sc_out = None\<rparr>"

text \<open>
  One iteration of \<open>for true\<close>. The argument \<open>in\<close> of \<open>decode\<close> and the field \<open>h.in\<close> are the same
  buffer, so it is read from the state; it is never nil here, because \<open>ReplayDecoder.Read\<close> has
  written to it. A read that lacks bytes panics, and so do \<open>Skip\<close> and a body read that the buffer
  refuses.
\<close>

definition step_flag ::
  "'b bytebuf_ops \<Rightarrow> 'b simple_codec \<Rightarrow> 'b \<Rightarrow> 'b queue \<Rightarrow> ('b simple_codec \<times> 'b queue) outcome"
  where
  "step_flag ops h inp out =
     (if ReadableBytes ops inp < 1 then Skip (h, out)
      else (case MustReadByte ops inp of
              Inl e \<Rightarrow> Panicked e (h, out)
            | Inr (b, inp') \<Rightarrow>
               (let h' = h\<lparr>rd_in := Some inp', sc_flag := b\<rparr>
                in if b = 0 then Done (h', out) else Done (Checkpoint ops LEN h', out))))"

definition step_length ::
  "'b bytebuf_ops \<Rightarrow> 'b simple_codec \<Rightarrow> 'b \<Rightarrow> 'b queue \<Rightarrow> ('b simple_codec \<times> 'b queue) outcome"
  where
  "step_length ops h inp out =
     (case VarIntDecode ops (sc_flag h) inp of
        Inl e \<Rightarrow> Panicked e (h, out)
      | Inr (n, inp') \<Rightarrow> Done (Checkpoint ops BODY (h\<lparr>rd_in := Some inp', sc_length := n\<rparr>), out))"

definition step_body ::
  "'b bytebuf_ops \<Rightarrow> 'b simple_codec \<Rightarrow> 'b \<Rightarrow> 'b queue \<Rightarrow> ('b simple_codec \<times> 'b queue) outcome"
  where
  "step_body ops h inp out =
     (case ReadByteBuf ops inp (int_of_u64 (sc_length h)) of
        Inl e \<Rightarrow> Panicked e (h, out)
      | Inr (m, inp') \<Rightarrow>
          Done (Checkpoint ops FLAG (h\<lparr>rd_in := Some inp', sc_out := Some m\<rparr>), Push (Some m) out))"

definition decode_step ::
  "'b bytebuf_ops \<Rightarrow> 'b simple_codec \<Rightarrow> 'b queue \<Rightarrow> ('b simple_codec \<times> 'b queue) outcome" where
  "decode_step ops h out =
     (case rd_in h of
        None \<Rightarrow> Panicked NilDeref (h, out)
      | Some inp \<Rightarrow>
         (if rd_state h = FLAG then step_flag ops h inp out
          else if rd_state h = LEN then step_length ops h inp out
          else if rd_state h = BODY then step_body ops h inp out
          else Done (h, out)))"

text \<open>The loop: it ends only by a panic, and a state outside the three would spin for ever.\<close>

partial_function (option) decode ::
  "'b bytebuf_ops \<Rightarrow> 'b simple_codec \<Rightarrow> 'b queue \<Rightarrow> ('b simple_codec \<times> 'b queue) outcome option"
  where
  "decode ops h out =
     (case decode_step ops h out of
        Panicked e s \<Rightarrow> Some (Panicked e s)
      | Done s \<Rightarrow> decode ops (fst s) (snd s))"

definition codec_Read ::
  "'b bytebuf_ops \<Rightarrow> (panic \<Rightarrow> bool) \<Rightarrow> 'b simple_codec \<Rightarrow> 'b obj
     \<Rightarrow> ('b simple_codec \<times> 'b fired list) outcome option" where
  "codec_Read ops swallows h obj = replay_Read ops swallows (Some (decode ops)) h obj"

text \<open>
  \<open>Write\<close> of the TCP and the UDP codec: a buffer goes out behind its length, anything else is
  logged. The TCP version asks \<open>reflect.TypeOf(obj).String()\<close> of a nil object, which panics; the UDP
  version tests for nil first. What reaches \<open>ctx.Write\<close> is the list returned.
\<close>

definition encode_msg :: "'b bytebuf_ops \<Rightarrow> 'b \<Rightarrow> 'b" where
  "encode_msg ops m =
     WriteByteBuf ops (VarIntEncode ops (u64_of_int (int (ReadableBytes ops m)))) m"

definition tcp_codec_Write :: "'b bytebuf_ops \<Rightarrow> 'b obj \<Rightarrow> 'b list outcome" where
  "tcp_codec_Write ops obj =
     (case obj of
        ObjBuf m \<Rightarrow> Done [encode_msg ops m]
      | ObjNil \<Rightarrow> Panicked NilDeref []
      | ObjOther t \<Rightarrow> Done [])"

definition udp_codec_Write :: "'b bytebuf_ops \<Rightarrow> 'b obj \<Rightarrow> 'b list outcome" where
  "udp_codec_Write ops obj =
     (case obj of
        ObjBuf m \<Rightarrow> Done [encode_msg ops m]
      | ObjNil \<Rightarrow> Done []
      | ObjOther t \<Rightarrow> Done [])"

section \<open>The wire format\<close>

definition frame :: "byte list \<Rightarrow> byte list" where
  "frame m = varint_bytes (u64_of_int (int (length m))) @ m"

text \<open>
  What a decoder is in the middle of. With \<open>future\<close> the bytes that have not arrived yet, \<open>todo\<close>
  are the messages it will still deliver, the current one first: its unread bytes and the
  future ones are the rest of the current frame followed by the frames of the rest.
\<close>

definition frames :: "byte list list \<Rightarrow> byte list" where
  "frames ms = concat (map frame ms)"

definition sendable :: "byte list list \<Rightarrow> bool" where
  "sendable ms \<longleftrightarrow> (\<forall>m \<in> set ms. length m < 2 ^ 63)"

definition len_word :: "byte list \<Rightarrow> u64" where
  "len_word m = u64_of_int (int (length m))"

fun in_flag :: "byte list \<Rightarrow> byte list list \<Rightarrow> bool" where
  "in_flag stream ms = (stream = frames ms)"

fun in_length :: "byte \<Rightarrow> byte list \<Rightarrow> byte list list \<Rightarrow> bool" where
  "in_length f stream [] = False"
| "in_length f stream (m # ms) = (m \<noteq> [] \<and> f = varint_flag (len_word m)
     \<and> stream = be_bytes (varint_size f) (unat (len_word m)) @ m @ frames ms)"

fun in_body :: "u64 \<Rightarrow> byte list \<Rightarrow> byte list list \<Rightarrow> bool" where
  "in_body n stream [] = False"
| "in_body n stream (m # ms) = (m \<noteq> [] \<and> n = len_word m \<and> stream = m @ frames ms)"

definition midway ::
  "'b bytebuf_ops \<Rightarrow> 'b simple_codec \<Rightarrow> byte list \<Rightarrow> byte list list \<Rightarrow> bool" where
  "midway ops h future todo \<longleftrightarrow> rd_in h \<noteq> None \<and> sendable todo \<and>
     (let stream = unread ops h @ future in
      rd_state h = FLAG \<and> in_flag stream todo
      \<or> rd_state h = LEN \<and> in_length (sc_flag h) stream todo
      \<or> rd_state h = BODY \<and> in_body (sc_length h) stream todo)"

lemma len_word_int: "length m < 2 ^ 63 \<Longrightarrow> int_of_u64 (len_word m) = int (length m)"
  by (simp add: len_word_def int_of_u64_of_nat)

lemma len_word_zero: "length m < 2 ^ 63 \<Longrightarrow> len_word m = 0 \<longleftrightarrow> m = []"
  using len_word_int [of m] by (auto simp: len_word_def u64_of_int_def int_of_u64_def)

lemma frames_Nil [simp]: "frames [] = []"
  by (simp add: frames_def)

lemma frames_Cons [simp]: "frames (m # ms) = frame m @ frames ms"
  by (simp add: frames_def)

lemma frame_eq: "frame m = varint_flag (len_word m)
    # be_bytes (varint_size (varint_flag (len_word m))) (unat (len_word m)) @ m"
  by (simp add: frame_def varint_bytes_def len_word_def)

lemma frame_Nil: "frame [] = [0]"
  by (simp add: frame_eq len_word_def u64_of_int_def varint_flag_def varint_size_def)

lemma frame_nonempty: "frame m \<noteq> []"
  by (simp add: frame_eq)

lemma frames_empty_iff: "frames ms = [] \<longleftrightarrow> ms = []"
  by (cases ms) (auto simp: frame_nonempty)

lemma sendable_Cons [simp]: "sendable (m # ms) \<longleftrightarrow> length m < 2 ^ 63 \<and> sendable ms"
  by (simp add: sendable_def)

section \<open>One step of the decoder\<close>

definition fuel_left :: "'b bytebuf_ops \<Rightarrow> 'b simple_codec \<Rightarrow> nat" where
  "fuel_left ops h = 3 * length (unread ops h)
     + (if rd_state h = FLAG then 2 else if rd_state h = LEN then 1 else 0)"

text \<open>
  The messages \<open>ps\<close> pushed between two points of the decoding are the non-empty ones that are no
  longer to do.
\<close>

definition delivers ::
  "'b bytebuf_ops \<Rightarrow> 'b list \<Rightarrow> byte list list \<Rightarrow> byte list list \<Rightarrow> bool" where
  "delivers ops ps todo todo' \<longleftrightarrow>
     (\<exists>ds. todo = ds @ todo' \<and> map (Bytes ops) ps = filter (\<lambda>m. m \<noteq> []) ds)"

lemma delivers_refl [simp]: "delivers ops [] todo todo"
  by (simp add: delivers_def)

lemma delivers_one:
  "delivers ops ps (m # ms) ms \<longleftrightarrow> map (Bytes ops) ps = (if m = [] then [] else [m])"
  by (auto simp: delivers_def)

lemma delivers_trans:
  assumes "delivers ops ps a b" and "delivers ops qs b c"
  shows "delivers ops (ps @ qs) a c"
proof -
  from assms obtain ds es where "a = ds @ b" "map (Bytes ops) ps = filter (\<lambda>m. m \<noteq> []) ds"
    "b = es @ c" "map (Bytes ops) qs = filter (\<lambda>m. m \<noteq> []) es"
    by (auto simp: delivers_def)
  then show ?thesis
    unfolding delivers_def by (intro exI [of _ "ds @ es"]) simp
qed

text \<open>A decoder is starved when the current message has not arrived completely.\<close>

definition starved :: "byte list \<Rightarrow> byte list list \<Rightarrow> bool" where
  "starved future todo \<longleftrightarrow> todo = [] \<or> length (frames (tl todo)) < length future"

lemmas state_consts = FLAG_def LEN_def BODY_def

text \<open>The outcome of a step from a state midway: starved, or one step further.\<close>

definition good_step ::
  "'b bytebuf_ops \<Rightarrow> 'b simple_codec \<Rightarrow> 'b queue \<Rightarrow> byte list \<Rightarrow> byte list list
     \<Rightarrow> ('b simple_codec \<times> 'b queue) outcome \<Rightarrow> bool" where
  "good_step ops h out future todo r \<longleftrightarrow>
     r = Panicked InsufficientSize (h, out) \<and> starved future todo
     \<or> (\<exists>h' out' ps todo'. r = Done (h', out') \<and> midway ops h' future todo'
          \<and> contents out' = contents out @ map Some ps \<and> delivers ops ps todo todo'
          \<and> fuel_left ops h' < fuel_left ops h)"

context bytebuf
begin

lemma unread_set_in [simp]: "unread ops (h\<lparr>rd_in := Some b\<rparr>) = Bytes ops b"
  by (simp add: unread_def)

lemma unread_sc [simp]:
  "unread ops (sc_flag_update f h) = unread ops h"
  "unread ops (sc_length_update g h) = unread ops h"
  "unread ops (sc_out_update k h) = unread ops h"
  by (simp_all add: unread_def)

lemma Checkpoint_sc [simp]:
  "sc_flag (Checkpoint ops s h) = sc_flag h" "sc_length (Checkpoint ops s h) = sc_length h"
  "rd_in (Checkpoint ops s h) \<noteq> None"
  by (simp_all add: Checkpoint_def Let_def)

lemma good_flag:
  assumes mid: "midway ops h future todo" and st: "rd_state h = FLAG" and b: "rd_in h = Some b"
  shows "good_step ops h out future todo (step_flag ops h b out)"
proof -
  from mid st have stream: "Bytes ops b @ future = frames todo" and ok: "sendable todo"
    by (auto simp: midway_def Let_def state_consts unread_def b)
  show ?thesis
  proof (cases "Bytes ops b")
    case Nil
    with stream have "starved future todo"
      by (cases todo) (auto simp: starved_def frame_nonempty)
    with Nil show ?thesis
      by (simp add: good_step_def step_flag_def readable Skip_def)
  next
    case (Cons x us)
    with stream obtain m ms where todo: "todo = m # ms" by (cases todo) auto
    obtain b' where b': "MustReadByte ops b = Inr (x, b')" "Bytes ops b' = us"
      using read_byte [OF Cons] by blast
    from stream Cons todo have x: "x = varint_flag (len_word m)"
      and us: "us @ future = be_bytes (varint_size x) (unat (len_word m)) @ m @ frames ms"
      by (auto simp: frame_eq)
    from ok todo have len: "length m < 2 ^ 63" by simp
    let ?h = "h\<lparr>rd_in := Some b', sc_flag := x\<rparr>"
    show ?thesis
    proof (cases "x = 0")
      case True
      with x len have m: "m = []" by (simp add: varint_flag_zero len_word_zero)
      with us True have us': "us @ future = frames ms" by (simp add: varint_size_def)
      have mid': "midway ops ?h future ms" and lt: "fuel_left ops ?h < fuel_left ops h"
        using ok todo us' st Cons
        by (simp_all add: midway_def Let_def b' fuel_left_def) (simp add: unread_def b)
      have "delivers ops [] todo ms" by (simp add: todo delivers_one m)
      with mid' lt True Cons show ?thesis
        unfolding good_step_def step_flag_def
        by (intro disjI2 exI [of _ ?h] exI [of _ out] exI [of _ "[]"] exI [of _ ms])
          (simp add: readable b' Let_def)
    next
      case False
      with x len have m: "m \<noteq> []" by (auto simp: varint_flag_zero len_word_zero)
      let ?h' = "Checkpoint ops LEN ?h"
      have mid': "midway ops ?h' future todo" and lt: "fuel_left ops ?h' < fuel_left ops h"
        using ok todo us m st Cons x
        by (simp_all add: midway_def Let_def b' fuel_left_def unread_Checkpoint state_consts)
          (simp add: unread_def b)
      show ?thesis
        unfolding good_step_def step_flag_def using mid' lt False Cons
        by (intro disjI2 exI [of _ ?h'] exI [of _ out] exI [of _ "[]"] exI [of _ todo])
          (simp add: readable b' Let_def)
    qed
  qed
qed

lemma good_length:
  assumes mid: "midway ops h future todo" and st: "rd_state h = LEN" and b: "rd_in h = Some b"
  shows "good_step ops h out future todo (step_length ops h b out)"
proof -
  let ?k = "varint_size (sc_flag h)"
  from mid st obtain m ms where todo: "todo = m # ms" and m: "m \<noteq> []"
    and f: "sc_flag h = varint_flag (len_word m)"
    and stream: "Bytes ops b @ future = be_bytes ?k (unat (len_word m)) @ m @ frames ms"
    and ok: "sendable todo"
    by (cases todo) (auto simp: midway_def Let_def state_consts unread_def b)
  show ?thesis
  proof (cases "length (Bytes ops b) < ?k")
    case True
    then have "starved future todo"
      using arg_cong [OF stream, of length] todo by (simp add: starved_def)
    with True show ?thesis
      by (simp add: good_step_def step_length_def VarIntDecode_short)
  next
    case False
    with append_split_longer [OF stream] obtain us where
      us: "Bytes ops b = be_bytes ?k (unat (len_word m)) @ us" "m @ frames ms = us @ future"
      by auto
    with VarIntDecode_bytes [of b "len_word m" us] f obtain b' where
      b': "VarIntDecode ops (sc_flag h) b = Inr (len_word m, b')" "Bytes ops b' = us"
      by auto
    let ?h' = "Checkpoint ops BODY (h\<lparr>rd_in := Some b', sc_length := len_word m\<rparr>)"
    have "midway ops ?h' future todo" "fuel_left ops ?h' < fuel_left ops h"
      using ok todo us m st
      by (simp_all add: midway_def Let_def b' fuel_left_def unread_Checkpoint state_consts)
        (simp add: unread_def b)
    then show ?thesis
      unfolding good_step_def step_length_def
      by (intro disjI2 exI [of _ ?h'] exI [of _ out] exI [of _ "[]"] exI [of _ todo])
        (simp add: b')
  qed
qed

lemma good_body:
  assumes mid: "midway ops h future todo" and st: "rd_state h = BODY" and b: "rd_in h = Some b"
  shows "good_step ops h out future todo (step_body ops h b out)"
proof -
  from mid st obtain m ms where todo: "todo = m # ms" and m: "m \<noteq> []"
    and n: "sc_length h = len_word m" and stream: "Bytes ops b @ future = m @ frames ms"
    and ok: "sendable todo"
    by (cases todo) (auto simp: midway_def Let_def state_consts unread_def b)
  then have len: "int_of_u64 (sc_length h) = int (length m)"
    by (simp add: len_word_int)
  show ?thesis
  proof (cases "length (Bytes ops b) < length m")
    case True
    then have "starved future todo"
      using arg_cong [OF stream, of length] todo by (simp add: starved_def)
    with True show ?thesis
      by (simp add: good_step_def step_body_def len read_buf_short)
  next
    case False
    with append_split_longer [OF stream] obtain us where
      us: "Bytes ops b = m @ us" "frames ms = us @ future" by auto
    with read_buf [of "int (length m)" b] obtain mb b' where
      b': "ReadByteBuf ops b (int (length m)) = Inr (mb, b')" "Bytes ops mb = m" "Bytes ops b' = us"
      by auto
    let ?h' = "Checkpoint ops FLAG (h\<lparr>rd_in := Some b', sc_out := Some mb\<rparr>)"
    have "midway ops ?h' future ms" "fuel_left ops ?h' < fuel_left ops h"
      using ok todo us m st
      by (simp_all add: midway_def Let_def b' fuel_left_def unread_Checkpoint state_consts)
        (cases m, simp_all add: unread_def b)
    moreover have "delivers ops [mb] todo ms"
      using m by (simp add: todo delivers_one b')
    ultimately show ?thesis
      unfolding good_step_def step_body_def
      by (intro disjI2 exI [of _ ?h'] exI [of _ "Push (Some mb) out"] exI [of _ "[mb]"] exI [of _ ms])
        (simp add: b' len)
  qed
qed

lemma good_decode_step:
  assumes "midway ops h future todo"
  shows "good_step ops h out future todo (decode_step ops h out)"
  using assms good_flag [OF assms] good_length [OF assms] good_body [OF assms]
  by (auto simp: decode_step_def midway_def Let_def state_consts split: option.splits)

text \<open>The whole loop: it stops starved, with everything delivered that had arrived completely.\<close>

lemma decode_good:
  assumes "midway ops h future todo"
  shows "\<exists>h' out' ps todo'. decode ops h out = Some (Panicked InsufficientSize (h', out'))
    \<and> midway ops h' future todo' \<and> contents out' = contents out @ map Some ps
    \<and> delivers ops ps todo todo' \<and> starved future todo'"
  using assms
proof (induction "fuel_left ops h" arbitrary: h out todo rule: less_induct)
  case less
  from good_decode_step [OF less.prems, of out] consider
      "decode_step ops h out = Panicked InsufficientSize (h, out)" "starved future todo"
    | h' out' ps todo' where "decode_step ops h out = Done (h', out')"
      "midway ops h' future todo'" "contents out' = contents out @ map Some ps"
      "delivers ops ps todo todo'" "fuel_left ops h' < fuel_left ops h"
    unfolding good_step_def by blast
  then show ?case
  proof cases
    case 1
    with less.prems show ?thesis
      by (intro exI [of _ h] exI [of _ out] exI [of _ "[]"] exI [of _ todo])
        (simp add: decode.simps)
  next
    case 2
    from less.hyps [OF 2(5,2)] obtain h'' out'' qs todo'' where
      "decode ops h' out' = Some (Panicked InsufficientSize (h'', out''))"
      "midway ops h'' future todo''" "contents out'' = contents out' @ map Some qs"
      "delivers ops qs todo' todo''" "starved future todo''"
      by blast
    with 2 show ?thesis
      by (intro exI [of _ h''] exI [of _ out''] exI [of _ "ps @ qs"] exI [of _ todo''])
        (simp add: decode.simps delivers_trans)
  qed
qed

lemma codec_Read_good:
  assumes mid: "midway ops h (Bytes ops c @ future) todo" and sw: "swallows InsufficientSize"
  shows "\<exists>h' ps todo'. codec_Read ops swallows h (ObjBuf c) = Some (Done (h', map FiredRead ps))
    \<and> midway ops h' future todo' \<and> delivers ops ps todo todo' \<and> starved future todo'"
proof -
  from mid obtain b where b: "rd_in h = Some b" by (auto simp: midway_def)
  let ?h = "h\<lparr>rd_in := Some (WriteBytes ops b (Bytes ops c))\<rparr>"
  have "midway ops ?h future todo"
    using mid by (simp add: midway_def Let_def bytes_write) (simp add: unread_def b)
  from decode_good [OF this, of empty_queue] obtain h' out' ps todo' where
    dec: "decode ops ?h empty_queue = Some (Panicked InsufficientSize (h', out'))"
    and out: "contents out' = map Some ps"
    and rest: "midway ops h' future todo'" "delivers ops ps todo todo'" "starved future todo'"
    by auto
  then show ?thesis
    using drain_all [OF out]
    by (intro exI [of _ h'] exI [of _ ps] exI [of _ todo'])
      (simp add: codec_Read_def replay_Read_def b sw)
qed

lemma encode_msg_frame: "Bytes ops (encode_msg ops m) = frame (Bytes ops m)"
  by (simp add: encode_msg_def bytes_writes VarIntEncode_bytes frame_def readable)

end

section \<open>Streams\<close>

text \<open>
  The channel's read loop hands the decoder one chunk after the other; what the codec fires for
  each is collected. A chunk boundary may fall anywhere.
\<close>

fun feed ::
  "'b bytebuf_ops \<Rightarrow> (panic \<Rightarrow> bool) \<Rightarrow> 'b simple_codec \<Rightarrow> 'b list
     \<Rightarrow> ('b simple_codec \<times> 'b fired list) outcome option" where
  "feed ops swallows h [] = Some (Done (h, []))"
| "feed ops swallows h (c # cs) =
     (case codec_Read ops swallows h (ObjBuf c) of
        Some (Done (h', fs)) \<Rightarrow>
         (case feed ops swallows h' cs of
            Some (Done (h'', gs)) \<Rightarrow> Some (Done (h'', fs @ gs))
          | Some (Panicked e (h'', gs)) \<Rightarrow> Some (Panicked e (h'', fs @ gs))
          | None \<Rightarrow> None)
      | r \<Rightarrow> r)"

text \<open>The codec as the pipeline holds it once \<open>AddLast\<close> has called \<open>Added\<close>.\<close>

definition added_codec :: "'b bytebuf_ops \<Rightarrow> 'b simple_codec" where
  "added_codec ops = replay_Added ops NewSimpleCodec"

definition arrived :: "'b bytebuf_ops \<Rightarrow> 'b list \<Rightarrow> byte list" where
  "arrived ops cs = concat (map (Bytes ops) cs)"

lemma arrived_simps [simp]:
  "arrived ops [] = []" "arrived ops (c # cs) = Bytes ops c @ arrived ops cs"
  by (simp_all add: arrived_def)

context bytebuf
begin

lemma midway_added:
  assumes "stream = frames ms" and "sendable ms"
  shows "midway ops (added_codec ops) stream ms"
  using assms
  by (simp add: midway_def added_codec_def replay_Added_def NewSimpleCodec_def unread_def
      bytes_empty Let_def)

lemma feed_good:
  assumes "midway ops h (arrived ops cs @ future) todo" and "swallows InsufficientSize"
    and "starved (arrived ops cs @ future) todo"
  shows "\<exists>h' ps todo'. feed ops swallows h cs = Some (Done (h', map FiredRead ps))
    \<and> midway ops h' future todo' \<and> delivers ops ps todo todo' \<and> starved future todo'"
  using assms
proof (induction cs arbitrary: h todo)
  case Nil
  then show ?case
    by (intro exI [of _ h] exI [of _ "[]"] exI [of _ todo]) simp
next
  case (Cons c cs)
  from Cons.prems(1) have "midway ops h (Bytes ops c @ (arrived ops cs @ future)) todo" by simp
  from codec_Read_good [where swallows = swallows and c = c and future = "arrived ops cs @ future", OF this Cons.prems(2)]
  obtain h' ps todo' where
    r: "codec_Read ops swallows h (ObjBuf c) = Some (Done (h', map FiredRead ps))"
    "midway ops h' (arrived ops cs @ future) todo'" "delivers ops ps todo todo'"
    "starved (arrived ops cs @ future) todo'"
    by blast
  from Cons.IH [OF r(2) Cons.prems(2) r(4)] obtain h'' qs todo'' where
    "feed ops swallows h' cs = Some (Done (h'', map FiredRead qs))"
    "midway ops h'' future todo''" "delivers ops qs todo' todo''" "starved future todo''"
    by blast
  with r show ?case
    by (intro exI [of _ h''] exI [of _ "ps @ qs"] exI [of _ todo''])
      (simp add: delivers_trans)
qed

lemma midway_idle:
  assumes "midway ops h [] []"
  shows "rd_state h = FLAG \<and> unread ops h = []"
  using assms by (auto simp: midway_def Let_def)

lemma starved_start: "starved (frames ms) ms"
  by (cases ms) (auto simp: starved_def frame_nonempty)

lemma feed_from_start:
  assumes stream: "arrived ops cs @ future = frames ms" and "sendable ms"
    and "swallows InsufficientSize"
  shows "\<exists>h' ps ds todo. feed ops swallows (added_codec ops) cs = Some (Done (h', map FiredRead ps))
    \<and> midway ops h' future todo \<and> starved future todo
    \<and> ms = ds @ todo \<and> map (Bytes ops) ps = filter (\<lambda>m. m \<noteq> []) ds"
  using feed_good [where cs = cs and future = future and h = "added_codec ops" and todo = ms]
    midway_added [OF refl assms(2)] starved_start [of ms] assms(3)
  unfolding stream delivers_def by blast

end

lemma frames_append [simp]: "frames (a @ b) = frames a @ frames b"
  by (simp add: frames_def)

text \<open>A starved decoder has delivered every message whose frame has arrived.\<close>

lemma starved_suffix:
  assumes st: "starved future todo'" and all: "a @ b = ds @ todo'"
    and fut: "length future \<le> length (frames b)"
  shows "\<exists>es. ds = a @ es \<and> b = es @ todo'"
proof (cases "length a \<le> length ds")
  case True
  from append_split_longer [OF all [symmetric] True] show ?thesis by auto
next
  case False
  with append_split_shorter [OF all [symmetric]] obtain us where
    us: "us \<noteq> []" "a = ds @ us" "todo' = us @ b" by auto
  then obtain u us' where "todo' = u # us' @ b" by (cases us) auto
  with st fut show ?thesis by (simp add: starved_def)
qed

lemma feed_inverts:
  assumes "bytebuf ops" and "swallows InsufficientSize"
    and "\<forall>m \<in> set msgs. length (Bytes ops m) < 2 ^ 63"
    and "arrived ops chunks = arrived ops (map (encode_msg ops) msgs)"
  shows "\<exists>h' ps. feed ops swallows (added_codec ops) chunks = Some (Done (h', map FiredRead ps))
    \<and> map (Bytes ops) ps = filter (\<lambda>m. m \<noteq> []) (map (Bytes ops) msgs)
    \<and> rd_state h' = FLAG \<and> unread ops h' = []"
proof -
  let ?ms = "map (Bytes ops) msgs"
  have ok: "sendable ?ms" using assms(3) by (simp add: sendable_def)
  have stream: "arrived ops chunks @ [] = frames ?ms"
    using assms(4)
    by (simp add: arrived_def frames_def bytebuf.encode_msg_frame [OF assms(1)] comp_def)
  from bytebuf.feed_from_start [where swallows = swallows, OF assms(1) stream ok assms(2)] obtain h' ps ds todo where
    r: "feed ops swallows (added_codec ops) chunks = Some (Done (h', map FiredRead ps))"
      "midway ops h' [] todo" "starved [] todo" "?ms = ds @ todo"
      "map (Bytes ops) ps = filter (\<lambda>m. m \<noteq> []) ds"
    by blast
  then have "todo = []" by (simp add: starved_def)
  with r bytebuf.midway_idle [OF assms(1), of h'] show ?thesis by auto
qed

text \<open>
  C2. Decoding inverts encoding for the length-prefixed stream, however it is cut into chunks. If the
  chunks that arrive are, end to end, the encodings of the messages written, then the decoder fires
  exactly the non-empty messages, in order and once each, with their bytes, and is back in its
  initial state with nothing left over: no message is lost, split, merged or duplicated. Empty
  messages are keep-alives and are skipped. Every \<open>Read\<close> returns, so the decode loop
  terminates on such a stream.
\<close>

theorem simple_codec_roundtrip:
  assumes "bytebuf ops" and "swallows InsufficientSize"
    and "\<forall>m \<in> set msgs. length (Bytes ops m) < 2 ^ 63"
    and "arrived ops chunks = arrived ops (map (encode_msg ops) msgs)"
  shows "\<exists>h' ps. feed ops swallows (added_codec ops) chunks = Some (Done (h', map FiredRead ps))
    \<and> map (Bytes ops) ps = filter (\<lambda>m. m \<noteq> []) (map (Bytes ops) msgs)
    \<and> rd_state h' = FLAG \<and> unread ops h' = []"
  using assms by (rule feed_inverts)

text \<open>
  Nothing is delivered early, late or out of order. Whenever a prefix of the stream has arrived,
  cut anywhere, the messages fired so far are the non-empty ones among a prefix of the messages
  sent, and that prefix holds every message whose frame has arrived completely.
\<close>

theorem simple_codec_prompt:
  assumes "bytebuf ops" and "swallows InsufficientSize"
    and "\<forall>m \<in> set (got @ rest). length m < 2 ^ 63"
    and "arrived ops chunks @ future = frames (got @ rest)"
    and "length future \<le> length (frames rest)"
  shows "\<exists>h' ps more todo'. feed ops swallows (added_codec ops) chunks
      = Some (Done (h', map FiredRead ps))
    \<and> rest = more @ todo' \<and> map (Bytes ops) ps = filter (\<lambda>m. m \<noteq> []) (got @ more)"
proof -
  have ok: "sendable (got @ rest)" using assms(3) by (simp add: sendable_def)
  from bytebuf.feed_from_start [where swallows = swallows, OF assms(1,4) ok assms(2)] obtain h' ps ds todo' where
    r: "feed ops swallows (added_codec ops) chunks = Some (Done (h', map FiredRead ps))"
      "starved future todo'" "got @ rest = ds @ todo'"
      "map (Bytes ops) ps = filter (\<lambda>m. m \<noteq> []) ds"
    by blast
  from starved_suffix [OF r(2,3) assms(5)] obtain es where "ds = got @ es" "rest = es @ todo'"
    by blast
  with r(1,4) show ?thesis by auto
qed

text \<open>Three messages, the second empty, in chunks that cut both headers and bodies.\<close>

theorem simple_codec_roundtrip_witness:
  "\<exists>h' ps. feed list_bytebuf (\<lambda>e. e = InsufficientSize) (added_codec list_bytebuf)
      [[2, 1], [2, 0, 1], [3]] = Some (Done (h', map FiredRead ps)) \<and> ps = [[1, 2], [3]]"
proof -
  have "arrived list_bytebuf [[2, 1], [2, 0, 1], [3]]
      = arrived list_bytebuf (map (encode_msg list_bytebuf) [[1, 2], [], [3]])"
    by (simp add: arrived_def encode_msg_def VarIntEncode_def u64_of_int_def)
  from simple_codec_roundtrip [where swallows = "\<lambda>e. e = InsufficientSize",
      OF lb.bytebuf_axioms _ _ this] show ?thesis
    by (auto simp del: feed.simps)
qed

theorem simple_codec_prompt_witness:
  "\<exists>h' ps more todo'. feed list_bytebuf (\<lambda>e. e = InsufficientSize) (added_codec list_bytebuf)
      [[2, 1], [2, 1]] = Some (Done (h', map FiredRead ps))
    \<and> [[3]] = more @ todo' \<and> ps = filter (\<lambda>m. m \<noteq> []) ([1, 2] # more)"
proof -
  have fr: "frame [1, 2] = [2, 1, 2]" "frame [3] = [1, 3]"
    by (simp_all add: frame_def len_word_def varint_bytes_def varint_flag_def varint_size_def u64_of_int_def)
  from simple_codec_prompt [where swallows = "\<lambda>e. e = InsufficientSize", OF lb.bytebuf_axioms, of
      "[[1, 2]]" "[[3]]" "[[2, 1], [2, 1]]" "[3]"]
  show ?thesis by (auto simp: arrived_def frames_def fr simp del: feed.simps)
qed

end
