(* ===== verification/Simple_Codec_Any.thy ===== *)
theory Simple_Codec_Any
  imports Simple_Codec
begin

text \<open>
  The decoder of the simple codec on bytes nobody encoded: whatever a peer sends, decoding stops, and it
  hands out no more than it was sent. \<open>Simple_Codec\<close> has the codec and its behaviour on honest streams.
\<close>

section \<open>One step\<close>

definition decoding :: "'b simple_codec \<Rightarrow> bool" where
  "decoding h \<longleftrightarrow> rd_in h \<noteq> None \<and> (rd_state h = FLAG \<or> rd_state h = LEN \<or> rd_state h = BODY)"

definition size_of :: "'b bytebuf_ops \<Rightarrow> 'b list \<Rightarrow> nat" where
  "size_of ops ps = sum_list (map (\<lambda>p. length (Bytes ops p)) ps)"

lemma size_of_simps [simp]: "size_of ops [] = 0" "size_of ops (p # ps) = length (Bytes ops p) + size_of ops ps"
  "size_of ops (ps @ qs) = size_of ops ps + size_of ops qs"
  by (simp_all add: size_of_def)

text \<open>Every round of the loop, also one with a length of 0, makes this smaller.\<close>

definition to_go :: "'b bytebuf_ops \<Rightarrow> 'b simple_codec \<Rightarrow> nat" where
  "to_go ops h = 3 * length (unread ops h) + (if rd_state h = LEN then 2 else if rd_state h = BODY then 1 else 0)"

definition any_step :: "'b bytebuf_ops \<Rightarrow> 'b simple_codec \<Rightarrow> 'b queue \<Rightarrow> ('b simple_codec \<times> 'b queue) outcome \<Rightarrow> bool" where
  "any_step ops h out r \<longleftrightarrow>
     (\<exists>e. r = Panicked e (h, out) \<and> (e = InsufficientSize \<or> rd_state h = BODY \<and> int_of_u64 (sc_length h) < 0))
     \<or> (\<exists>h' out' ps. r = Done (h', out') \<and> decoding h' \<and> contents out' = contents out @ map Some ps
          \<and> size_of ops ps + length (unread ops h') \<le> length (unread ops h) \<and> to_go ops h' < to_go ops h)"

lemma any_stepI:
  assumes "decoding h'" and "contents out' = contents out @ map Some ps"
    and "size_of ops ps + length (unread ops h') \<le> length (unread ops h)" and "to_go ops h' < to_go ops h"
  shows "any_step ops h out (Done (h', out'))"
  using assms unfolding any_step_def by blast

context bytebuf
begin

lemma decoding_Checkpoint: "s = FLAG \<or> s = LEN \<or> s = BODY \<Longrightarrow> decoding (Checkpoint ops s h)"
  using Checkpoint_in [of s h] by (auto simp: decoding_def)

lemma any_flag:
  assumes "rd_in h = Some b" and "rd_state h = FLAG"
  shows "any_step ops h out (step_flag ops h b out)"
proof (cases "Bytes ops b")
  case Nil
  then show ?thesis by (simp add: any_step_def step_flag_def readable Skip_def)
next
  case (Cons x us)
  obtain b' where b': "MustReadByte ops b = Inr (x, b')" "Bytes ops b' = us"
    using read_byte [OF Cons] by blast
  let ?h = "h\<lparr>rd_in := Some b', sc_flag := x\<rparr>"
  have step: "step_flag ops h b out = Done (if x = 0 then ?h else Checkpoint ops LEN ?h, out)"
    using Cons by (simp add: step_flag_def readable b' Let_def)
  have u: "length (unread ops h) = Suc (length us)" "unread ops ?h = us"
    using assms Cons b' by (simp_all add: unread_def)
  show ?thesis
    unfolding step
  proof (rule any_stepI [where ps = "[]"])
    show "decoding (if x = 0 then ?h else Checkpoint ops LEN ?h)"
      using assms(2) by (cases "x = 0") (simp add: decoding_def, simp add: decoding_Checkpoint)
    show "to_go ops (if x = 0 then ?h else Checkpoint ops LEN ?h) < to_go ops h"
      using u assms(2) by (simp add: to_go_def unread_Checkpoint state_consts)
  qed (use u in \<open>simp_all add: unread_Checkpoint\<close>)
qed

lemma any_length:
  assumes "rd_in h = Some b" and "rd_state h = LEN"
  shows "any_step ops h out (step_length ops h b out)"
proof (cases "length (Bytes ops b) < varint_size (sc_flag h)")
  case True
  then show ?thesis by (simp add: any_step_def step_length_def VarIntDecode_short)
next
  case False
  then obtain n b' where b': "VarIntDecode ops (sc_flag h) b = Inr (n, b')" "length (Bytes ops b') \<le> length (Bytes ops b)"
    using VarIntDecode_enough [of "sc_flag h" b] by auto
  let ?h = "h\<lparr>rd_in := Some b', sc_length := n\<rparr>"
  have u: "unread ops h = Bytes ops b" "unread ops ?h = Bytes ops b'" using assms by (simp_all add: unread_def)
  have step: "step_length ops h b out = Done (Checkpoint ops BODY ?h, out)" by (simp add: step_length_def b')
  show ?thesis
    unfolding step
  proof (rule any_stepI [where ps = "[]"])
    show "to_go ops (Checkpoint ops BODY ?h) < to_go ops h"
      using u b' assms(2) by (simp add: to_go_def unread_Checkpoint state_consts)
  qed (use u b' in \<open>simp_all add: unread_Checkpoint decoding_Checkpoint\<close>)
qed

lemma any_body:
  assumes "rd_in h = Some b" and "rd_state h = BODY"
    and neg: "\<And>n. n < 0 \<Longrightarrow> \<exists>e. ReadByteBuf ops b n = Inl e"
  shows "any_step ops h out (step_body ops h b out)"
proof -
  let ?n = "int_of_u64 (sc_length h)"
  consider "?n < 0" | "0 \<le> ?n" "int (length (Bytes ops b)) < ?n" | "0 \<le> ?n" "?n \<le> int (length (Bytes ops b))" by linarith
  then show ?thesis
  proof cases
    case 1
    with neg [OF 1] assms(2) show ?thesis by (auto simp: any_step_def step_body_def)
  next
    case 2
    then show ?thesis by (simp add: any_step_def step_body_def read_buf_short)
  next
    case 3
    obtain m b' where b': "ReadByteBuf ops b ?n = Inr (m, b')" "Bytes ops m = take (nat ?n) (Bytes ops b)"
      "Bytes ops b' = drop (nat ?n) (Bytes ops b)" using read_buf [OF 3] by blast
    let ?h = "h\<lparr>rd_in := Some b', sc_out := Some m\<rparr>"
    have u: "unread ops h = Bytes ops b" "unread ops ?h = Bytes ops b'" using assms by (simp_all add: unread_def)
    have step: "step_body ops h b out = Done (Checkpoint ops FLAG ?h, Push (Some m) out)"
      by (simp add: step_body_def b')
    show ?thesis
      unfolding step
    proof (rule any_stepI [where ps = "[m]"])
      show "to_go ops (Checkpoint ops FLAG ?h) < to_go ops h"
        using u b' assms(2) by (simp add: to_go_def unread_Checkpoint state_consts)
    qed (use u b' in \<open>simp_all add: unread_Checkpoint decoding_Checkpoint\<close>)
  qed
qed

lemma any_decode_step:
  assumes "decoding h" and "\<And>b n. n < 0 \<Longrightarrow> \<exists>e. ReadByteBuf ops b n = Inl e"
  shows "any_step ops h out (decode_step ops h out)"
proof -
  obtain b where b: "rd_in h = Some b" using assms(1) by (auto simp: decoding_def)
  from assms(1) consider "rd_state h = FLAG" | "rd_state h = LEN" | "rd_state h = BODY" by (auto simp: decoding_def)
  then show ?thesis
    by cases (use b any_flag [OF b] any_length [OF b] any_body [OF b _ assms(2)] in \<open>simp_all add: decode_step_def state_consts\<close>)
qed

section \<open>The loop\<close>

lemma decode_any:
  assumes "decoding h" and "\<And>b n. n < 0 \<Longrightarrow> \<exists>e. ReadByteBuf ops b n = Inl e"
  shows "\<exists>e h' out' ps. decode ops h out = Some (Panicked e (h', out')) \<and> decoding h'
    \<and> contents out' = contents out @ map Some ps \<and> size_of ops ps + length (unread ops h') \<le> length (unread ops h)
    \<and> (e = InsufficientSize \<or> rd_state h' = BODY \<and> int_of_u64 (sc_length h') < 0)"
  using assms(1)
proof (induction "to_go ops h" arbitrary: h out rule: less_induct)
  case less
  from any_decode_step [OF less.prems assms(2), of out] consider
      e where "decode_step ops h out = Panicked e (h, out)"
        "e = InsufficientSize \<or> rd_state h = BODY \<and> int_of_u64 (sc_length h) < 0"
    | h' out' ps where "decode_step ops h out = Done (h', out')" "decoding h'" "contents out' = contents out @ map Some ps"
        "size_of ops ps + length (unread ops h') \<le> length (unread ops h)" "to_go ops h' < to_go ops h"
    unfolding any_step_def by blast
  then show ?case
  proof cases
    case 1
    with less.prems show ?thesis
      by (intro exI [of _ e] exI [of _ h] exI [of _ out] exI [of _ "[]"]) (simp add: decode.simps)
  next
    case 2
    from less.hyps [OF 2(5,2), of out'] obtain e h'' out'' qs where
      "decode ops h' out' = Some (Panicked e (h'', out''))" "decoding h''" "contents out'' = contents out' @ map Some qs"
      "size_of ops qs + length (unread ops h'') \<le> length (unread ops h')"
      "e = InsufficientSize \<or> rd_state h'' = BODY \<and> int_of_u64 (sc_length h'') < 0" by blast
    with 2 show ?thesis
      by (intro exI [of _ e] exI [of _ h''] exI [of _ out''] exI [of _ "ps @ qs"]) (simp add: decode.simps)
  qed
qed

end

text \<open>
  C9. The decoder on any input. Whatever bytes arrive, in whatever of its states, decoding stops: it has
  consumed at least as many bytes as it hands out in messages, what is left is at most what there was, the
  decoder is in one of its three states and can read on, and the only reason to stop beside missing bytes
  is a length that is negative as an int.
\<close>

theorem decoder_survives:
  assumes "bytebuf ops" and "\<And>b n. n < 0 \<Longrightarrow> \<exists>e. ReadByteBuf ops b n = Inl e" and "decoding h"
  shows "\<exists>e h' out' ps. decode ops h out = Some (Panicked e (h', out')) \<and> decoding h'
    \<and> contents out' = contents out @ map Some ps \<and> size_of ops ps + length (unread ops h') \<le> length (unread ops h)
    \<and> (e = InsufficientSize \<or> rd_state h' = BODY \<and> int_of_u64 (sc_length h') < 0)"
  by (rule bytebuf.decode_any [OF assms(1,3,2)])

text \<open>
  A negative length poisons the decoder. The state is BODY when the body read panics, and nothing takes it
  back: every later Read appends its bytes, panics again and hands out nothing, so after nine bytes of a
  peer the connection is dead but not closed, and what the peer sends is kept.
\<close>

theorem negative_length_poisons:
  assumes "bytebuf ops" and "ReadByteBuf ops (WriteBytes ops b (Bytes ops c)) (int_of_u64 (sc_length h)) = Inl e"
    and "rd_in h = Some b" and "rd_state h = BODY" and "\<not> swallows e"
  shows "\<exists>h'. codec_Read ops swallows h (ObjBuf c) = Some (Panicked e (h', [])) \<and> rd_state h' = BODY
    \<and> sc_length h' = sc_length h \<and> unread ops h' = unread ops h @ Bytes ops c"
  using assms(2-5) by (simp add: codec_Read_def replay_Read_def decode.simps decode_step_def state_consts step_body_def
      unread_def bytebuf.bytes_write [OF assms(1)])

theorem decoder_survives_witness:
  "\<exists>e h' out'. decode list_bytebuf (NewSimpleCodec\<lparr>rd_in := Some [255, 255, 0, 0, 0, 0, 0, 0, 0, 1]\<rparr>) empty_queue
      = Some (Panicked e (h', out')) \<and> decoding h'"
proof -
  have neg: "\<exists>e. ReadByteBuf list_bytebuf b n = Inl e" if "n < 0" for b n
    using that by (simp add: list_bytebuf_def)
  have d: "decoding (NewSimpleCodec\<lparr>rd_in := Some [255, 255, 0, 0, 0, 0, 0, 0, 0, 1 :: byte]\<rparr>)"
    by (simp add: decoding_def NewSimpleCodec_def)
  from decoder_survives [OF lb.bytebuf_axioms neg d, of empty_queue] show ?thesis by blast
qed

theorem negative_length_poisons_witness:
  "\<exists>h'. codec_Read list_bytebuf (\<lambda>e. e = InsufficientSize)
      (NewSimpleCodec\<lparr>rd_in := Some [], rd_state := BODY, sc_length := - 1\<rparr>) (ObjBuf [7])
      = Some (Panicked OutOfRange (h', [])) \<and> unread list_bytebuf h' = [7]"
proof -
  have "int_of_u64 (- 1) = - 1" by (simp add: int_of_u64_def)
  then have r: "ReadByteBuf list_bytebuf (WriteBytes list_bytebuf [] (Bytes list_bytebuf [7]))
      (int_of_u64 (sc_length (NewSimpleCodec\<lparr>rd_in := Some [], rd_state := BODY, sc_length := - 1\<rparr>))) = Inl OutOfRange"
    by (simp add: list_bytebuf_def)
  from negative_length_poisons [where swallows = "\<lambda>e. e = InsufficientSize", OF lb.bytebuf_axioms r]
  show ?thesis by (auto simp: unread_def)
qed

end
