(* ===== verification/Utils_BufferPool.thy ===== *)
theory Utils_BufferPool
  imports Go_Prelude
begin

text \<open>
  The byte-buffer pools of \<open>utils/bufferpool.go\<close>. Memory is a map from addresses to bytes and a
  buffer is a slice of it, so that what \<open>clearBuffer\<close> writes through an unsafe pointer, which
  buffers share memory, and what a recycled buffer holds are all visible. \<open>sync.Pool\<close> may hand
  back any pooled buffer or drop it and call \<open>New\<close>; the choice is an argument of \<open>Get\<close>.
  The results: clearing writes zero to the buffer and to nothing else; every buffer handed out is
  clean, of the requested length and disjoint from the others; and a buffer whose requested length
  is not one of the three pool sizes is never pooled again.
\<close>

section \<open>Slices and memory\<close>

record slice =
  sl_base :: nat
  sl_len :: nat
  sl_cap :: nat

type_synonym memory = "nat \<Rightarrow> byte"

definition slice_bytes :: "memory \<Rightarrow> slice \<Rightarrow> byte list" where
  "slice_bytes m s = map (\<lambda>i. m (sl_base s + i)) [0..<sl_len s]"

text \<open>The addresses a slice can reach: its whole capacity.\<close>

definition region :: "slice \<Rightarrow> nat set" where
  "region s = {sl_base s ..< sl_base s + sl_cap s}"

text \<open>\<open>*(*uint64)(ptr) = 0\<close> and \<open>*(*byte)(ptr) = 0\<close>.\<close>

definition store_zeros :: "nat \<Rightarrow> nat \<Rightarrow> memory \<Rightarrow> memory" where
  "store_zeros k ptr m = (\<lambda>a. if ptr \<le> a \<and> a < ptr + k then 0 else m a)"

text \<open>The two loops of \<open>clearBuffer\<close>: whole 8-byte words first, then the remaining bytes.\<close>

fun clear_words :: "memory \<Rightarrow> nat \<Rightarrow> nat \<Rightarrow> memory \<times> nat \<times> nat" where
  "clear_words m ptr n =
     (if 8 \<le> n then clear_words (store_zeros 8 ptr m) (ptr + 8) (n - 8) else (m, ptr, n))"

fun clear_rest :: "memory \<Rightarrow> nat \<Rightarrow> nat \<Rightarrow> memory" where
  "clear_rest m ptr 0 = m"
| "clear_rest m ptr (Suc n) = clear_rest (store_zeros 1 ptr m) (ptr + 1) n"

declare clear_words.simps [simp del]

definition clearBuffer :: "memory \<Rightarrow> slice \<Rightarrow> memory" where
  "clearBuffer m buf =
     (if sl_len buf = 0 then m
      else (case clear_words m (sl_base buf) (sl_len buf) of
              (m', ptr, n) \<Rightarrow> clear_rest m' ptr n))"

lemma store_zeros_0 [simp]: "store_zeros 0 ptr m = m"
  by (rule ext) (auto simp: store_zeros_def)

lemma store_zeros_append:
  "store_zeros j (ptr + k) (store_zeros k ptr m) = store_zeros (k + j) ptr m"
  by (auto simp: store_zeros_def)

lemma clear_rest_eq: "clear_rest m ptr n = store_zeros n ptr m"
proof (induction n arbitrary: m ptr)
  case (Suc n)
  then show ?case using store_zeros_append [of n ptr 1 m] by simp
qed simp

lemma clear_words_eq:
  "clear_words m ptr n =
     (store_zeros (8 * (n div 8)) ptr m, ptr + 8 * (n div 8), n mod 8)"
proof (induction m ptr n rule: clear_words.induct)
  case (1 m ptr n)
  show ?case
  proof (cases "8 \<le> n")
    case True
    then have "n div 8 = Suc ((n - 8) div 8)" "n mod 8 = (n - 8) mod 8"
      by (simp_all add: le_div_geq le_mod_geq)
    with True 1 store_zeros_append [of "8 * ((n - 8) div 8)" ptr 8 m] show ?thesis
      by (simp add: clear_words.simps [of m ptr n])
  next
    case False
    then show ?thesis by (simp add: clear_words.simps [of m ptr n])
  qed
qed

lemma clearBuffer_eq: "clearBuffer m buf = store_zeros (sl_len buf) (sl_base buf) m"
  using store_zeros_append [of "sl_len buf mod 8" "sl_base buf" "8 * (sl_len buf div 8)" m]
  by (auto simp: clearBuffer_def clear_words_eq clear_rest_eq)

text \<open>
  Clearing a buffer through the unsafe pointer is exact: every byte of the slice becomes zero, for
  every length (whole words and a remainder alike), and no other address is written.
\<close>

theorem clear_buffer_exact:
  "clearBuffer m buf a =
     (if sl_base buf \<le> a \<and> a < sl_base buf + sl_len buf then 0 else m a)"
  by (simp add: clearBuffer_eq store_zeros_def)

section \<open>The pools\<close>

text \<open>
  The state: memory, the first address never allocated, and the free buffers of the small, medium
  and large pool. \<open>make([]byte, n)\<close> allocates zeroed memory.
\<close>

record pools =
  mem :: memory
  brk :: nat
  small :: "slice list"
  medium :: "slice list"
  large :: "slice list"

definition make_slice :: "nat \<Rightarrow> pools \<Rightarrow> slice \<times> pools" where
  "make_slice n p =
     (\<lparr>sl_base = brk p, sl_len = n, sl_cap = n\<rparr>,
      p\<lparr>mem := store_zeros n (brk p) (mem p), brk := brk p + n\<rparr>)"

datatype pool_id = Small | Medium | Large

fun pool_size :: "pool_id \<Rightarrow> nat" where
  "pool_size Small = 4 * 1024"
| "pool_size Medium = 16 * 1024"
| "pool_size Large = 64 * 1024"

fun free_of :: "pool_id \<Rightarrow> pools \<Rightarrow> slice list" where
  "free_of Small p = small p"
| "free_of Medium p = medium p"
| "free_of Large p = large p"

fun set_free :: "pool_id \<Rightarrow> slice list \<Rightarrow> pools \<Rightarrow> pools" where
  "set_free Small xs p = p\<lparr>small := xs\<rparr>"
| "set_free Medium xs p = p\<lparr>medium := xs\<rparr>"
| "set_free Large xs p = p\<lparr>large := xs\<rparr>"

text \<open>
  \<open>sync.Pool.Get\<close>: \<open>Some i\<close> takes the \<open>i\<close>-th pooled buffer, \<open>None\<close> (or an index past the end) makes
  a new one.
\<close>

definition pool_take :: "pool_id \<Rightarrow> nat option \<Rightarrow> pools \<Rightarrow> slice \<times> pools" where
  "pool_take k pick p =
     (case pick of
        Some i \<Rightarrow> if i < length (free_of k p)
                  then (free_of k p ! i, set_free k (take i (free_of k p) @ drop (Suc i) (free_of k p)) p)
                  else make_slice (pool_size k) p
      | None \<Rightarrow> make_slice (pool_size k) p)"

definition Get :: "pool_id \<Rightarrow> nat option \<Rightarrow> pools \<Rightarrow> slice \<times> pools" where
  "Get k pick p =
     (case pool_take k pick p of (buf, p') \<Rightarrow> (buf, p'\<lparr>mem := clearBuffer (mem p') buf\<rparr>))"

definition Put :: "pool_id \<Rightarrow> slice \<Rightarrow> pools \<Rightarrow> pools" where
  "Put k buf p = (if sl_len buf = pool_size k then set_free k (buf # free_of k p) p else p)"

text \<open>\<open>buf[:size]\<close> keeps base and capacity; a negative size panics.\<close>

definition GetWithSize ::
  "pool_id \<Rightarrow> nat option \<Rightarrow> int \<Rightarrow> pools \<Rightarrow> (slice + panic) \<times> pools" where
  "GetWithSize k pick sz p =
     (case Get k pick p of (buf, p') \<Rightarrow>
        if int (sl_len buf) < sz
        then (case make_slice (nat sz) p' of (s, p'') \<Rightarrow> (Inl s, p''))
        else if sz < 0 then (Inr OutOfRange, p')
        else (Inl (buf\<lparr>sl_len := nat sz\<rparr>), p'))"

definition GetBufferForSize :: "nat option \<Rightarrow> int \<Rightarrow> pools \<Rightarrow> (slice + panic) \<times> pools" where
  "GetBufferForSize pick sz p =
     (if sz \<le> 4 * 1024 then GetWithSize Small pick sz p
      else if sz \<le> 16 * 1024 then GetWithSize Medium pick sz p
      else if sz \<le> 64 * 1024 then GetWithSize Large pick sz p
      else (case make_slice (nat sz) p of (s, p') \<Rightarrow> (Inl s, p')))"

definition PutBufferForSize :: "slice \<Rightarrow> pools \<Rightarrow> pools" where
  "PutBufferForSize buf p =
     (if sl_len buf = 4 * 1024 then Put Small buf p
      else if sl_len buf = 16 * 1024 then Put Medium buf p
      else if sl_len buf = 64 * 1024 then Put Large buf p
      else p)"

section \<open>Buffers in use do not share memory\<close>

text \<open>
  \<open>used\<close> are the buffers handed out and not put back. All regions of pooled and used buffers lie
  below \<open>brk\<close> and are pairwise disjoint, and a pooled buffer has its pool's size throughout.
\<close>

definition disjoint_regions :: "slice list \<Rightarrow> bool" where
  "disjoint_regions ss \<longleftrightarrow> (\<forall>a. length (filter (\<lambda>s. a \<in> region s) ss) \<le> 1)"

definition pooled :: "pools \<Rightarrow> slice list" where
  "pooled p = small p @ medium p @ large p"

definition slice_ok :: "nat \<Rightarrow> slice \<Rightarrow> bool" where
  "slice_ok b s \<longleftrightarrow> sl_base s + sl_cap s \<le> b \<and> sl_len s \<le> sl_cap s"

definition pools_ok :: "pools \<Rightarrow> slice list \<Rightarrow> bool" where
  "pools_ok p used \<longleftrightarrow> disjoint_regions (pooled p @ used)
     \<and> list_all (slice_ok (brk p)) (pooled p @ used)
     \<and> (\<forall>k. list_all (\<lambda>s. sl_len s = pool_size k) (free_of k p))"

definition no_pools :: pools where
  "no_pools = \<lparr>mem = (\<lambda>_. 0), brk = 0, small = [], medium = [], large = []\<rparr>"

text \<open>Two slices of a disjoint list share no address.\<close>

lemma disjoint_regionsD:
  assumes "disjoint_regions (xs @ s # ys)" and "t \<in> set xs \<union> set ys"
  shows "region s \<inter> region t = {}"
proof (rule ccontr)
  assume "region s \<inter> region t \<noteq> {}"
  then obtain a where a: "a \<in> region s" "a \<in> region t" by blast
  with assms(2) have "filter (\<lambda>s. a \<in> region s) xs \<noteq> [] \<or> filter (\<lambda>s. a \<in> region s) ys \<noteq> []"
    by (auto simp: filter_empty_conv)
  then have "1 < length (filter (\<lambda>s. a \<in> region s) (xs @ s # ys))"
    using a by auto
  with assms(1) show False
    unfolding disjoint_regions_def using not_less by blast
qed

lemma no_pools_ok: "pools_ok no_pools []"
proof -
  have "free_of k no_pools = []" for k by (cases k) (simp_all add: no_pools_def)
  then show ?thesis
    by (simp add: pools_ok_def disjoint_regions_def pooled_def) (simp add: no_pools_def)
qed

lemma region_len [simp]: "region (s\<lparr>sl_len := n\<rparr>) = region s"
  by (simp add: region_def)

lemma free_set_free: "free_of j (set_free k xs p) = (if j = k then xs else free_of j p)"
  by (cases j; cases k) auto

lemma set_free_mem [simp]:
  "mem (set_free k xs p) = mem p" "brk (set_free k xs p) = brk p"
  by (cases k; simp)+

lemma length_filter_pooled:
  "length (filter P (pooled p)) = length (filter P (free_of Small p))
     + length (filter P (free_of Medium p)) + length (filter P (free_of Large p))"
  by (simp add: pooled_def)

lemma set_pooled: "set (pooled p) = (\<Union>k. set (free_of k p))"
proof -
  have "UNIV = {Small, Medium, Large}"
    using pool_id.exhaust by blast
  then have "(\<Union>k. set (free_of k p)) = (\<Union>k \<in> {Small, Medium, Large}. set (free_of k p))"
    by simp
  then show ?thesis by (simp add: pooled_def)
qed

text \<open>
  How many slices of a state hold an address. Taking and putting back move a slice between the
  pool and the used ones and leave these counts alone.
\<close>

definition holders :: "pools \<Rightarrow> slice list \<Rightarrow> nat \<Rightarrow> nat" where
  "holders p used a = length (filter (\<lambda>s. a \<in> region s) (pooled p @ used))"

lemma holders_set_free:
  "holders (set_free k xs p) used a + length (filter (\<lambda>s. a \<in> region s) (free_of k p))
     = holders p used a + length (filter (\<lambda>s. a \<in> region s) xs)"
  by (cases k) (simp_all add: holders_def length_filter_pooled)

lemma disjoint_holders: "disjoint_regions (pooled p @ used) \<longleftrightarrow> (\<forall>a. holders p used a \<le> 1)"
  by (simp add: disjoint_regions_def holders_def)

lemma filter_take_nth_drop:
  assumes "i < length xs"
  shows "length (filter P xs) = length (filter P (take i xs @ drop (Suc i) xs))
    + (if P (xs ! i) then 1 else 0)"
proof -
  have "length (filter P xs) = length (filter P (take i xs @ xs ! i # drop (Suc i) xs))"
    using id_take_nth_drop [OF assms] by metis
  then show ?thesis by simp
qed

section \<open>The operations keep the invariant\<close>

definition pools_inv :: "pools \<Rightarrow> slice list \<Rightarrow> bool" where
  "pools_inv p used \<longleftrightarrow> (\<forall>a. holders p used a \<le> 1)
     \<and> (\<forall>k. \<forall>s \<in> set (free_of k p). slice_ok (brk p) s \<and> sl_len s = pool_size k)
     \<and> (\<forall>s \<in> set used. slice_ok (brk p) s)"

lemma pools_ok_inv: "pools_ok p used \<longleftrightarrow> pools_inv p used"
  by (auto simp: pools_ok_def pools_inv_def disjoint_holders list_all_iff set_pooled)

lemma pools_invI:
  assumes "\<And>a. holders p used a \<le> 1"
    and "\<And>k s. s \<in> set (free_of k p) \<Longrightarrow> slice_ok (brk p) s \<and> sl_len s = pool_size k"
    and "\<And>s. s \<in> set used \<Longrightarrow> slice_ok (brk p) s"
  shows "pools_inv p used"
  using assms by (simp add: pools_inv_def)

lemma pools_invD:
  assumes "pools_inv p used"
  shows "holders p used a \<le> 1"
    and "s \<in> set (free_of k p) \<Longrightarrow> slice_ok (brk p) s"
    and "s \<in> set (free_of k p) \<Longrightarrow> sl_len s = pool_size k"
    and "s \<in> set used \<Longrightarrow> slice_ok (brk p) s"
  using assms by (simp_all add: pools_inv_def)

lemma slice_ok_mono: "slice_ok b s \<Longrightarrow> b \<le> c \<Longrightarrow> slice_ok c s"
  by (simp add: slice_ok_def)

lemma holders_Cons: "holders p (s # used) a = holders p used a + (if a \<in> region s then 1 else 0)"
  by (simp add: holders_def)

lemma make_slice_inv:
  assumes inv: "pools_inv p used" and mk: "make_slice n p = (s, p')"
  shows "pools_inv p' (s # used) \<and> sl_len s = n \<and> sl_cap s = n \<and> sl_base s = brk p
    \<and> mem p' = store_zeros n (brk p) (mem p)"
proof -
  from mk have s: "s = \<lparr>sl_base = brk p, sl_len = n, sl_cap = n\<rparr>"
    and p': "p' = p\<lparr>mem := store_zeros n (brk p) (mem p), brk := brk p + n\<rparr>"
    by (auto simp: make_slice_def)
  have free: "free_of k p' = free_of k p" for k by (cases k) (simp_all add: p')
  have low: "a < brk p" if "(\<exists>k. t \<in> set (free_of k p)) \<or> t \<in> set used" "a \<in> region t" for t a
  proof -
    from that(1) inv have "slice_ok (brk p) t" by (auto simp: pools_inv_def)
    with that(2) show ?thesis by (auto simp: slice_ok_def region_def)
  qed
  have "holders p used a = 0" if "a \<in> region s" for a
  proof -
    have "brk p \<le> a" using that by (simp add: s region_def)
    then have "filter (\<lambda>t. a \<in> region t) (pooled p @ used) = []"
      using low [of _ a] by (auto simp: filter_empty_conv set_pooled)
    then show ?thesis by (simp add: holders_def)
  qed
  moreover have "holders p' used a = holders p used a" for a
    by (simp add: holders_def length_filter_pooled free)
  ultimately have "holders p' (s # used) a \<le> 1" for a
    using inv by (simp add: holders_Cons pools_inv_def)
  moreover have "slice_ok (brk p') t" if "slice_ok (brk p) t" for t
    using slice_ok_mono [OF that] by (simp add: p')
  moreover have "slice_ok (brk p') s" by (simp add: slice_ok_def s p')
  ultimately have "pools_inv p' (s # used)"
    using pools_invD [OF inv] by (intro pools_invI) (auto simp: free)
  then show ?thesis by (simp add: s p')
qed

lemma pool_take_inv:
  assumes inv: "pools_inv p used" and take: "pool_take k pick p = (s, p')"
  shows "pools_inv p' (s # used) \<and> sl_len s = pool_size k
    \<and> (\<forall>a. a \<notin> region s \<longrightarrow> mem p' a = mem p a)"
proof (cases "\<exists>i. pick = Some i \<and> i < length (free_of k p)")
  case True
  then obtain i where i: "pick = Some i" "i < length (free_of k p)" by blast
  let ?rest = "take i (free_of k p) @ drop (Suc i) (free_of k p)"
  from take i have s: "s = free_of k p ! i" and p': "p' = set_free k ?rest p"
    by (auto simp: pool_take_def)
  have "holders p' (s # used) a = holders p used a" for a
    using holders_set_free [of k ?rest p used a] filter_take_nth_drop [OF i(2), of "\<lambda>t. a \<in> region t"]
    by (simp add: holders_Cons p' s)
  moreover have "t \<in> set (free_of j p)" if "t \<in> set (free_of j p')" for t j
    using that by (auto simp: p' free_set_free split: if_splits dest: in_set_takeD in_set_dropD)
  moreover have "s \<in> set (free_of k p)" by (simp add: s i)
  moreover have "brk p' = brk p" "mem p' = mem p" by (simp_all add: p')
  ultimately have "pools_inv p' (s # used)"
    using pools_invD [OF inv] by (intro pools_invI) (auto, blast+)
  then show ?thesis
    using pools_invD(3) [OF inv \<open>s \<in> set (free_of k p)\<close>] \<open>mem p' = mem p\<close> by simp
next
  case False
  then have mk: "make_slice (pool_size k) p = (s, p')"
    using take by (auto simp: pool_take_def split: option.splits if_splits)
  from make_slice_inv [OF inv mk] show ?thesis
    by (auto simp: region_def store_zeros_def)
qed

lemma pools_inv_mem: "pools_inv (p\<lparr>mem := m\<rparr>) used \<longleftrightarrow> pools_inv p used"
proof -
  have "free_of k (p\<lparr>mem := m\<rparr>) = free_of k p" for k by (cases k) simp_all
  then show ?thesis by (simp add: pools_inv_def holders_def length_filter_pooled)
qed

lemma Get_inv:
  assumes inv: "pools_inv p used" and get: "Get k pick p = (s, p')"
  shows "pools_inv p' (s # used) \<and> sl_len s = pool_size k
    \<and> (\<forall>a. a \<notin> region s \<longrightarrow> mem p' a = mem p a)
    \<and> (\<forall>a. sl_base s \<le> a \<longrightarrow> a < sl_base s + sl_len s \<longrightarrow> mem p' a = 0)"
proof -
  from get obtain q where q: "pool_take k pick p = (s, q)"
    and p': "p' = q\<lparr>mem := clearBuffer (mem q) s\<rparr>"
    by (auto simp: Get_def split: prod.splits)
  from pool_take_inv [OF inv q] have
    "pools_inv q (s # used)" "sl_len s = pool_size k"
    "\<forall>a. a \<notin> region s \<longrightarrow> mem q a = mem p a" by auto
  moreover from this(1) have "sl_len s \<le> sl_cap s"
    by (simp add: pools_inv_def slice_ok_def)
  ultimately show ?thesis
    by (auto simp: p' pools_inv_mem clearBuffer_eq store_zeros_def region_def)
qed

lemma pools_inv_shrink:
  assumes "pools_inv p (s # used)" and "n \<le> sl_len s"
  shows "pools_inv p (s\<lparr>sl_len := n\<rparr> # used)"
proof (rule pools_invI)
  show "slice_ok (brk p) t" if "t \<in> set (s\<lparr>sl_len := n\<rparr> # used)" for t
    using that assms(2) pools_invD(4) [OF assms(1), of s] pools_invD(4) [OF assms(1), of t]
    by (auto simp: slice_ok_def)
qed (use pools_invD [OF assms(1)] in \<open>simp_all add: holders_Cons\<close>)

lemma pools_inv_drop:
  assumes "pools_inv p (s # used)"
  shows "pools_inv p used"
proof -
  have "holders p used a \<le> holders p (s # used) a" for a by (simp add: holders_Cons)
  with assms show ?thesis by (auto simp: pools_inv_def intro: le_trans)
qed

lemma pools_inv_drop2:
  assumes "pools_inv p (s # t # used)"
  shows "pools_inv p (s # used)"
proof -
  have "holders p (s # used) a \<le> holders p (s # t # used) a" for a by (simp add: holders_Cons)
  with assms show ?thesis by (auto simp: pools_inv_def intro: le_trans)
qed

lemma slice_bytes_zero:
  assumes "\<forall>a. sl_base s \<le> a \<longrightarrow> a < sl_base s + sl_len s \<longrightarrow> m a = 0"
  shows "slice_bytes m s = replicate (sl_len s) 0"
  using assms by (auto simp: slice_bytes_def intro: nth_equalityI)

text \<open>What a request yields: a clean buffer of the size asked for, in an intact state.\<close>

definition fresh_buffer :: "pools \<Rightarrow> slice list \<Rightarrow> int \<Rightarrow> slice \<Rightarrow> pools \<Rightarrow> bool" where
  "fresh_buffer p used n s p' \<longleftrightarrow> pools_inv p' (s # used) \<and> int (sl_len s) = n
     \<and> slice_bytes (mem p') s = replicate (nat n) 0
     \<and> (\<forall>a. a \<notin> region s \<longrightarrow> (\<exists>t \<in> set used. a \<in> region t) \<longrightarrow> mem p' a = mem p a)"

lemma make_fresh:
  assumes inv: "pools_inv p used" and "0 \<le> n" and mk: "make_slice (nat n) p = (s, p')"
  shows "fresh_buffer p used n s p'"
  using make_slice_inv [OF inv mk] assms(2)
  by (auto simp: fresh_buffer_def slice_bytes_zero store_zeros_def region_def)

lemma GetWithSize_fresh:
  assumes inv: "pools_inv p used" and n: "0 \<le> n"
  shows "\<exists>s p'. GetWithSize k pick n p = (Inl s, p') \<and> fresh_buffer p used n s p'"
proof -
  obtain b q where get: "Get k pick p = (b, q)" by (cases "Get k pick p")
  note g = Get_inv [OF inv get]
  show ?thesis
  proof (cases "int (sl_len b) < n")
    case True
    obtain s p' where mk: "make_slice (nat n) q = (s, p')" by (cases "make_slice (nat n) q")
    from g have inv': "pools_inv q (b # used)" by blast
    have "fresh_buffer q (b # used) n s p'" by (rule make_fresh [OF inv' n mk])
    moreover have "mem q a = mem p a" if "t \<in> set used" "a \<in> region t" for t a
    proof -
      have "holders q (b # used) a \<le> 1" using inv' by (simp add: pools_inv_def)
      moreover have "1 \<le> holders q used a"
        using that by (auto simp: holders_def filter_empty_conv Suc_le_eq)
      ultimately have "a \<notin> region b" by (auto simp: holders_Cons split: if_splits)
      with g show ?thesis by blast
    qed
    moreover have "pools_inv p' (s # used)"
      using \<open>fresh_buffer q (b # used) n s p'\<close> pools_inv_drop2 [of p' s b used]
      by (simp add: fresh_buffer_def)
    ultimately have "fresh_buffer p used n s p'"
      by (auto simp: fresh_buffer_def)
    with True show ?thesis by (simp add: GetWithSize_def get mk)
  next
    case False
    let ?s = "b\<lparr>sl_len := nat n\<rparr>"
    have "slice_bytes (mem q) ?s = replicate (nat n) 0"
      using slice_bytes_zero [of ?s "mem q"] g False n by auto
    moreover have "pools_inv q (?s # used)"
      using g False n by (intro pools_inv_shrink) auto
    ultimately have "fresh_buffer p used n ?s q"
      using g n by (simp add: fresh_buffer_def)
    with False n show ?thesis by (simp add: GetWithSize_def get)
  qed
qed

lemma GetBufferForSize_fresh:
  assumes inv: "pools_inv p used" and n: "0 \<le> n"
  shows "\<exists>s p'. GetBufferForSize pick n p = (Inl s, p') \<and> fresh_buffer p used n s p'"
proof (cases "n \<le> 64 * 1024")
  case True
  then show ?thesis
    using GetWithSize_fresh [OF inv n, of Small pick] GetWithSize_fresh [OF inv n, of Medium pick]
      GetWithSize_fresh [OF inv n, of Large pick]
    by (simp add: GetBufferForSize_def)
next
  case False
  obtain s p' where mk: "make_slice (nat n) p = (s, p')" by (cases "make_slice (nat n) p")
  from make_fresh [OF inv n mk] False mk show ?thesis
    by (simp add: GetBufferForSize_def)
qed

lemma Put_inv:
  assumes "pools_inv p (s # used)"
  shows "pools_inv (Put k s p) used"
proof (cases "sl_len s = pool_size k")
  case True
  have "holders (Put k s p) used a = holders p (s # used) a" for a
    using holders_set_free [of k "s # free_of k p" p used a] True
    by (cases "a \<in> region s") (simp_all add: Put_def holders_Cons)
  with True assms show ?thesis
    by (auto simp: pools_inv_def Put_def free_set_free split: if_splits)
next
  case False
  with pools_inv_drop [OF assms] show ?thesis by (simp add: Put_def)
qed

lemma fresh_private:
  assumes inv: "pools_inv p used" and fresh: "fresh_buffer p used n s p'" and t: "t \<in> set used"
  shows "region s \<inter> region t = {}" and "slice_bytes (mem p') t = slice_bytes (mem p) t"
proof -
  from fresh have "disjoint_regions (pooled p' @ s # used)"
    by (simp add: fresh_buffer_def disjoint_holders pools_inv_def)
  then show sep: "region s \<inter> region t = {}" using disjoint_regionsD t by blast
  have "sl_len t \<le> sl_cap t" using inv t by (simp add: pools_inv_def slice_ok_def)
  then have "sl_base t + i \<in> region t" if "i < sl_len t" for i
    using that by (simp add: region_def)
  then have "mem p' (sl_base t + i) = mem p (sl_base t + i)" if "i < sl_len t" for i
    using that sep t fresh by (auto simp: fresh_buffer_def)
  then show "slice_bytes (mem p') t = slice_bytes (mem p) t" by (simp add: slice_bytes_def)
qed

lemma PutBufferForSize_inv: "pools_inv p (s # used) \<Longrightarrow> pools_inv (PutBufferForSize s p) used"
  using pools_inv_drop [of p s used] Put_inv [of p s used] by (auto simp: PutBufferForSize_def)

text \<open>
  C36. Buffers handed out are clean and private. From any state in which the pooled and used buffers
  do not overlap, a request for \<open>n\<close> bytes (for every \<open>n\<close>, and whatever pooled buffer \<open>sync.Pool\<close>
  picks) yields a buffer of exactly \<open>n\<close> zero bytes that shares no address with any buffer in use
  or pooled, the contents of the buffers in use are untouched, and putting a used buffer back
  keeps the separation.
\<close>

theorem buffers_clean_and_private:
  assumes "pools_ok p used" and "0 \<le> n"
  shows "\<exists>s p'. GetBufferForSize pick n p = (Inl s, p') \<and> pools_ok p' (s # used)
    \<and> slice_bytes (mem p') s = replicate (nat n) 0
    \<and> (\<forall>t \<in> set used. region s \<inter> region t = {} \<and> slice_bytes (mem p') t = slice_bytes (mem p) t)
    \<and> pools_ok (PutBufferForSize s p') used"
proof -
  from assms(1) have inv: "pools_inv p used" by (simp add: pools_ok_inv)
  obtain s p' where get: "GetBufferForSize pick n p = (Inl s, p')"
    and fresh: "fresh_buffer p used n s p'"
    using GetBufferForSize_fresh [OF inv assms(2), of pick] by blast
  moreover have "pools_ok (PutBufferForSize s p') used"
    using fresh PutBufferForSize_inv by (auto simp: fresh_buffer_def pools_ok_inv)
  ultimately show ?thesis
    using get fresh fresh_private [OF inv fresh] by (auto simp: fresh_buffer_def pools_ok_inv)
qed

theorem buffers_clean_and_private_witness:
  "\<exists>s p'. GetBufferForSize None 10 no_pools = (Inl s, p')
    \<and> slice_bytes (mem p') s = replicate 10 0"
  using buffers_clean_and_private [OF no_pools_ok, of 10 None] by auto

text \<open>
  Only buffers of exactly 4, 16 or 64 KiB are recycled. A buffer that \<open>GetBufferForSize\<close> cut from a
  pooled one for any other size is dropped by \<open>PutBufferForSize\<close>: the state after putting it back
  is the state before. The read loop's default buffer size, 1024, is such a size, so each such
  read takes a buffer out of the pool and none comes back.
\<close>

theorem odd_sizes_never_recycled:
  assumes "pools_ok p used" and "0 \<le> n" and "n \<notin> {4 * 1024, 16 * 1024, 64 * 1024}"
    and "GetBufferForSize pick n p = (Inl s, p')"
  shows "PutBufferForSize s p' = p'"
proof -
  from GetBufferForSize_fresh [of p used n pick] assms have "int (sl_len s) = n"
    by (auto simp: fresh_buffer_def pools_ok_inv)
  with assms(2,3) show ?thesis by (auto simp: PutBufferForSize_def)
qed

theorem odd_sizes_never_recycled_witness:
  "\<exists>s p'. GetBufferForSize None 1024 no_pools = (Inl s, p') \<and> PutBufferForSize s p' = p'"
proof -
  obtain s p' where get: "GetBufferForSize None 1024 no_pools = (Inl s, p')"
    using GetWithSize_fresh [of no_pools "[]" 1024 Small None] no_pools_ok
    by (auto simp: GetBufferForSize_def pools_ok_inv)
  show ?thesis
    using odd_sizes_never_recycled [OF no_pools_ok _ _ get] get by auto
qed

end
