(* ===== verification/Channel_Pipeline.thy ===== *)
theory Channel_Pipeline
  imports Go_Prelude
begin

text \<open>
  The handler pipeline of \<open>channel/pipeline.go\<close>: a doubly linked list of handler contexts between a
  head and a tail sentinel, on an explicit heap, because the operations work by pointer surgery and
  some of them misbehave on particular lists. The user's \<open>Added\<close> and \<open>Removed\<close> callbacks are
  arbitrary code that may change the pipeline, not return, or panic; they are the parameter
  \<open>hooks\<close>. The lemmas show that each operation refines the list operation its name promises, and
  the places where it does not: \<open>RemoveFirst\<close> on an empty pipeline, \<open>AddBefore\<close> the head.
\<close>

section \<open>Contexts, handlers and the heap\<close>

type_synonym addr = nat

datatype 'h handler = HeadHandler | TailHandler | UserHandler 'h

record 'h hctx =
  ctx_name :: string
  ctx_handler :: "'h handler option"
  ctx_next :: "addr option"
  ctx_prev :: "addr option"

record 'h pipeline =
  heap :: "addr \<rightharpoonup> 'h hctx"
  head :: addr
  tail :: addr
  fresh :: addr

definition PipelineHeadHandlerContextName :: string where
  "PipelineHeadHandlerContextName = ''DEFAULT_HEAD_HANDLER_CONTEXT''"

definition PipelineTailHandlerContextName :: string where
  "PipelineTailHandlerContextName = ''DEFAULT_TAIL_HANDLER_CONTEXT''"

record 'h hooks =
  on_added :: "'h \<Rightarrow> 'h pipeline \<Rightarrow> 'h pipeline run"
  on_removed :: "'h \<Rightarrow> addr \<Rightarrow> 'h pipeline \<Rightarrow> 'h pipeline run"

text \<open>
  \<open>ctx._handler.Added(p.head)\<close> and \<open>final.handler().Removed(final)\<close>: a nil handler panics, the
  sentinels have the empty methods of \<open>DefaultHandler\<close>.
\<close>

fun call_added :: "'h hooks \<Rightarrow> 'h handler option \<Rightarrow> 'h pipeline \<Rightarrow> 'h pipeline run" where
  "call_added hooks None p = Some (Panicked NilDeref p)"
| "call_added hooks (Some (UserHandler h)) p = on_added hooks h p"
| "call_added hooks (Some _) p = Some (Done p)"

fun call_removed :: "'h hooks \<Rightarrow> 'h handler option \<Rightarrow> addr \<Rightarrow> 'h pipeline \<Rightarrow> 'h pipeline run"
  where
  "call_removed hooks None a p = Some (Panicked NilDeref p)"
| "call_removed hooks (Some (UserHandler h)) a p = on_removed hooks h a p"
| "call_removed hooks (Some _) a p = Some (Done p)"

text \<open>Field access through a possibly nil pointer; writing through nil panics.\<close>

definition next_of :: "'h pipeline \<Rightarrow> addr option \<Rightarrow> addr option" where
  "next_of p a = Option.bind (Option.bind a (heap p)) ctx_next"

definition prev_of :: "'h pipeline \<Rightarrow> addr option \<Rightarrow> addr option" where
  "prev_of p a = Option.bind (Option.bind a (heap p)) ctx_prev"

definition poke ::
  "addr option \<Rightarrow> ('h hctx \<Rightarrow> 'h hctx) \<Rightarrow> 'h pipeline \<Rightarrow> 'h pipeline outcome" where
  "poke a f p = (case Option.bind a (heap p) of
       None \<Rightarrow> Panicked NilDeref p
     | Some c \<Rightarrow> Done (p\<lparr>heap := (heap p)(the a \<mapsto> f c)\<rparr>))"

definition setNext :: "addr option \<Rightarrow> addr option \<Rightarrow> 'h pipeline \<Rightarrow> 'h pipeline outcome" where
  "setNext a n = poke a (\<lambda>c. c\<lparr>ctx_next := n\<rparr>)"

definition setPrev :: "addr option \<Rightarrow> addr option \<Rightarrow> 'h pipeline \<Rightarrow> 'h pipeline outcome" where
  "setPrev a n = poke a (\<lambda>c. c\<lparr>ctx_prev := n\<rparr>)"

section \<open>The operations\<close>

text \<open>\<open>_NewDefaultPipeline\<close>: head and tail, linked to each other.\<close>

definition NewDefaultPipeline :: "'h pipeline" where
  "NewDefaultPipeline =
     \<lparr>heap = [0 \<mapsto> \<lparr>ctx_name = PipelineHeadHandlerContextName, ctx_handler = Some HeadHandler,
                      ctx_next = Some 1, ctx_prev = None\<rparr>,
              1 \<mapsto> \<lparr>ctx_name = PipelineTailHandlerContextName, ctx_handler = Some TailHandler,
                      ctx_next = None, ctx_prev = Some 0\<rparr>],
      head = 0, tail = 1, fresh = 2\<rparr>"

text \<open>
  The part \<open>AddLast\<close> and \<open>AddBefore\<close> share: a new context named \<open>name\<close> in front of \<open>final\<close>,
  linked from both sides, then its handler set and told.
\<close>

definition link_before ::
  "'h hooks \<Rightarrow> addr \<Rightarrow> string \<Rightarrow> 'h handler option \<Rightarrow> 'h pipeline \<Rightarrow> 'h pipeline run" where
  "link_before hooks final name elem p =
     (let a = fresh p;
          p0 = p\<lparr>heap := (heap p)(a \<mapsto> \<lparr>ctx_name = name, ctx_handler = None,
                   ctx_next = Some final, ctx_prev = prev_of p (Some final)\<rparr>),
                 fresh := Suc a\<rparr>
      in seq_run (Some (and_then (and_then (setPrev (next_of p0 (Some a)) (Some a) p0)
                                   (\<lambda>p1. setNext (prev_of p1 (Some a)) (Some a) p1))
                                 (\<lambda>p2. poke (Some a) (\<lambda>c. c\<lparr>ctx_handler := elem\<rparr>) p2)))
                 (call_added hooks elem))"

definition AddLast ::
  "'h hooks \<Rightarrow> string \<Rightarrow> 'h handler option \<Rightarrow> 'h pipeline \<Rightarrow> 'h pipeline run" where
  "AddLast hooks name elem p = link_before hooks (tail p) name elem p"

text \<open>
  The loops \<open>for ctx != nil \{ if ... break; ctx = ctx.next() \}\<close>: the first context from \<open>a\<close> on that
  satisfies \<open>P\<close>, nil if there is none, no result if the list is cyclic without one.
\<close>

partial_function (option) seek ::
  "'h pipeline \<Rightarrow> (addr \<Rightarrow> 'h hctx \<Rightarrow> bool) \<Rightarrow> addr option \<Rightarrow> addr option option" where
  "seek p P a = (case Option.bind a (heap p) of
       None \<Rightarrow> Some None
     | Some c \<Rightarrow> if P (the a) c then Some a else seek p P (ctx_next c))"

definition AddBefore ::
  "'h hooks \<Rightarrow> string \<Rightarrow> string \<Rightarrow> 'h handler option \<Rightarrow> 'h pipeline \<Rightarrow> 'h pipeline run" where
  "AddBefore hooks target name elem p =
     (case seek p (\<lambda>a c. ctx_name c = target) (Some (head p)) of
        None \<Rightarrow> None
      | Some None \<Rightarrow> Some (Done p)
      | Some (Some a) \<Rightarrow> link_before hooks a name elem p)"

definition RemoveFirst :: "'h pipeline \<Rightarrow> 'h pipeline outcome" where
  "RemoveFirst p =
     (let final = Some (head p); nxt = next_of p final in
      if nxt = None then Done p
      else and_then
        (if next_of p nxt \<noteq> None
         then and_then (setPrev (next_of p nxt) final p) (\<lambda>p1. setNext final (next_of p1 nxt) p1)
         else Done p)
        (\<lambda>p2. and_then (setNext nxt None p2) (setPrev nxt None)))"

text \<open>Unlinking \<open>final\<close> and telling its handler, as \<open>Remove\<close> and \<open>RemoveByName\<close> do.\<close>

definition unlink :: "'h hooks \<Rightarrow> addr \<Rightarrow> 'h pipeline \<Rightarrow> 'h pipeline run" where
  "unlink hooks a p =
     seq_run (Some (and_then (setPrev (next_of p (Some a)) (prev_of p (Some a)) p)
                      (\<lambda>p1. setNext (prev_of p1 (Some a)) (next_of p1 (Some a)) p1)))
       (\<lambda>p2. call_removed hooks (Option.bind (heap p2 a) ctx_handler) a p2)"

text \<open>\<open>Remove\<close> stops at the tail sentinel without looking at it; \<open>RemoveByName\<close> skips by name.\<close>

definition Remove :: "'h hooks \<Rightarrow> 'h handler option \<Rightarrow> 'h pipeline \<Rightarrow> 'h pipeline run" where
  "Remove hooks elem p =
     (case seek p (\<lambda>a c. a = tail p \<or> ctx_handler c = elem) (next_of p (Some (head p))) of
        None \<Rightarrow> None
      | Some None \<Rightarrow> Some (Done p)
      | Some (Some a) \<Rightarrow> if a = tail p then Some (Done p) else unlink hooks a p)"

definition RemoveByName :: "'h hooks \<Rightarrow> string \<Rightarrow> 'h pipeline \<Rightarrow> 'h pipeline run" where
  "RemoveByName hooks name p =
     (case seek p (\<lambda>a c. ctx_name c = name \<and> name \<noteq> PipelineHeadHandlerContextName
                            \<and> name \<noteq> PipelineTailHandlerContextName)
             (next_of p (Some (head p))) of
        None \<Rightarrow> None
      | Some None \<Rightarrow> Some (Done p)
      | Some (Some a) \<Rightarrow> unlink hooks a p)"

definition Clear :: "'h pipeline \<Rightarrow> 'h pipeline outcome" where
  "Clear p =
     (let nxt = next_of p (Some (head p)) in
      and_then (if nxt \<noteq> None then setPrev nxt None p else Done p)
        (\<lambda>p1. let prv = prev_of p1 (Some (tail p1)) in
          and_then (if prv \<noteq> None then setNext prv None p1 else Done p1)
            (\<lambda>p2. and_then (setNext (Some (head p2)) (Some (tail p2)) p2)
              (\<lambda>p3. setPrev (Some (tail p3)) (Some (head p3)) p3))))"

lemmas poke_defs = poke_def setNext_def setPrev_def next_of_def prev_of_def

section \<open>Well-formed pipelines\<close>

text \<open>
  \<open>seg h pv xs nx\<close>: the contexts \<open>xs\<close> are linked in order, the first one back to \<open>pv\<close>, the last one
  on to \<open>nx\<close>.
\<close>

fun first_of :: "addr list \<Rightarrow> addr option \<Rightarrow> addr option" where
  "first_of [] nx = nx"
| "first_of (a # as) nx = Some a"

fun last_of :: "addr option \<Rightarrow> addr list \<Rightarrow> addr option" where
  "last_of pv [] = pv"
| "last_of pv (a # as) = last_of (Some a) as"

fun seg :: "(addr \<rightharpoonup> 'h hctx) \<Rightarrow> addr option \<Rightarrow> addr list \<Rightarrow> addr option \<Rightarrow> bool" where
  "seg h pv [] nx = True"
| "seg h pv (a # as) nx = ((case h a of
       None \<Rightarrow> False
     | Some c \<Rightarrow> ctx_prev c = pv \<and> ctx_next c = first_of as nx) \<and> seg h (Some a) as nx)"

lemma first_of_append [simp]: "first_of (xs @ ys) nx = first_of xs (first_of ys nx)"
  by (cases xs) auto

lemma last_of_append [simp]: "last_of pv (xs @ ys) = last_of (last_of pv xs) ys"
  by (induction xs arbitrary: pv) auto

lemma seg_append [simp]:
  "seg h pv (xs @ ys) nx \<longleftrightarrow> seg h pv xs (first_of ys nx) \<and> seg h (last_of pv xs) ys nx"
  by (induction xs arbitrary: pv) (auto split: option.splits)

lemma seg_frame [simp]: "a \<notin> set xs \<Longrightarrow> seg (h(a := c)) pv xs nx = seg h pv xs nx"
  by (induction xs arbitrary: pv) auto

lemma seg_dom: "seg h pv xs nx \<Longrightarrow> set xs \<subseteq> dom h"
  by (induction xs arbitrary: pv) (auto split: option.splits)

text \<open>
  The contexts between the sentinels, in order, and what each of them holds.
\<close>

definition chain :: "'h pipeline \<Rightarrow> addr list \<Rightarrow> addr list" where
  "chain p as = head p # as @ [tail p]"

definition is_sentinel :: "'h pipeline \<Rightarrow> addr \<Rightarrow> string \<Rightarrow> 'h handler \<Rightarrow> bool" where
  "is_sentinel p a name h \<longleftrightarrow>
     (case heap p a of None \<Rightarrow> False | Some c \<Rightarrow> ctx_name c = name \<and> ctx_handler c = Some h)"

definition wf_pipeline :: "'h pipeline \<Rightarrow> addr list \<Rightarrow> bool" where
  "wf_pipeline p as \<longleftrightarrow> seg (heap p) None (chain p as) None \<and> distinct (chain p as)
     \<and> (\<forall>a \<in> dom (heap p). a < fresh p)
     \<and> is_sentinel p (head p) PipelineHeadHandlerContextName HeadHandler
     \<and> is_sentinel p (tail p) PipelineTailHandlerContextName TailHandler"

definition entry :: "'h pipeline \<Rightarrow> addr \<Rightarrow> string \<times> 'h handler option" where
  "entry p a = (case heap p a of None \<Rightarrow> ('''', None) | Some c \<Rightarrow> (ctx_name c, ctx_handler c))"

definition entries :: "'h pipeline \<Rightarrow> addr list \<Rightarrow> (string \<times> 'h handler option) list" where
  "entries p as = map (entry p) as"

text \<open>Splitting a chain at a place between two neighbours \<open>x\<close> and \<open>y\<close>.\<close>

lemma chain_split:
  obtains xs x y ys where "chain p (as1 @ as2) = xs @ x # y # ys" and "xs @ [x] = head p # as1"
    and "y # ys = as2 @ [tail p]" and "y = hd (as2 @ [tail p])" and "x = last (head p # as1)"
proof -
  obtain xs x where x: "head p # as1 = xs @ [x]" by (metis list.discI rev_exhaust)
  obtain y ys where y: "as2 @ [tail p] = y # ys" by (cases as2) auto
  show ?thesis
    by (rule that [of xs x y ys]) (use x y in \<open>auto simp: chain_def\<close>)
qed

lemma wf_cells:
  assumes "wf_pipeline p as" and "chain p as = xs @ x # y # ys"
  obtains cx cy where "heap p x = Some cx" and "heap p y = Some cy"
    and "ctx_next cx = Some y" and "ctx_prev cy = Some x"
    and "ctx_prev cx = last_of None xs" and "ctx_next cy = first_of ys None"
  using assms by (auto simp: wf_pipeline_def split: option.splits)

lemma wf_fresh: "wf_pipeline p as \<Longrightarrow> fresh p \<notin> set (chain p as) \<and> heap p (fresh p) = None"
  using seg_dom [of "heap p" None "chain p as" None] by (fastforce simp: wf_pipeline_def)

lemma entry_cong:
  "(\<And>a. a \<in> set as \<Longrightarrow> entry p a = entry q a) \<Longrightarrow> entries p as = entries q as"
  by (simp add: entries_def)

lemma link_before_run:
  assumes wf: "wf_pipeline p (as1 @ as2)" and y: "y = hd (as2 @ [tail p])"
  shows "\<exists>p'. link_before hooks y name elem p = call_added hooks elem p'
    \<and> wf_pipeline p' (as1 @ fresh p # as2)
    \<and> entries p' (as1 @ fresh p # as2) = entries p as1 @ (name, elem) # entries p as2
    \<and> fresh p' = Suc (fresh p) \<and> head p' = head p \<and> tail p' = tail p"
proof -
  obtain xs x y' ys where ch: "chain p (as1 @ as2) = xs @ x # y' # ys"
    and x: "xs @ [x] = head p # as1" and ys: "y' # ys = as2 @ [tail p]" and y': "y' = y"
    using chain_split [of p as1 as2] y by metis
  from wf_cells [OF wf ch [unfolded y']] obtain cx cy where
    cx: "heap p x = Some cx" "ctx_next cx = Some y" "ctx_prev cx = last_of None xs"
    and cy: "heap p y = Some cy" "ctx_prev cy = Some x" "ctx_next cy = first_of ys None"
    by metis
  let ?a = "fresh p"
  note new = wf_fresh [OF wf, unfolded ch y']
  have dist: "distinct (xs @ x # y # ys)" using wf ch y' by (simp add: wf_pipeline_def)
  define p' where "p' = p\<lparr>fresh := Suc ?a, heap := (heap p)(
      y \<mapsto> cy\<lparr>ctx_prev := Some ?a\<rparr>, x \<mapsto> cx\<lparr>ctx_next := Some ?a\<rparr>,
      ?a \<mapsto> \<lparr>ctx_name = name, ctx_handler = elem, ctx_next = Some y, ctx_prev = Some x\<rparr>)\<rparr>"
  have run: "link_before hooks y name elem p = call_added hooks elem p'"
    using cx cy new dist
    by (simp add: link_before_def Let_def poke_defs p'_def fun_upd_twist [of ?a])
  have seg: "seg (heap p') None (xs @ x # ?a # y # ys) None"
    using wf ch y' new dist cx cy by (simp add: wf_pipeline_def p'_def split: option.splits)
  have ch': "chain p' (as1 @ ?a # as2) = xs @ x # ?a # y # ys"
  proof -
    have "chain p' (as1 @ ?a # as2) = (head p # as1) @ ?a # (as2 @ [tail p])"
      by (simp add: chain_def p'_def)
    also have "\<dots> = (xs @ [x]) @ ?a # (y' # ys)" by (simp only: x ys)
    finally show ?thesis by (simp add: y')
  qed
  have same: "entry p' b = entry p b" if "b \<noteq> ?a" for b
    using that cx cy by (auto simp: entry_def p'_def)
  have "head p \<noteq> ?a" "tail p \<noteq> ?a" "?a \<notin> set as1" "?a \<notin> set as2"
    using wf_fresh [OF wf] by (auto simp: chain_def)
  moreover from this have "wf_pipeline p' (as1 @ ?a # as2)"
    unfolding wf_pipeline_def ch'
    using seg dist new wf same [of "head p"] same [of "tail p"]
    by (auto simp: wf_pipeline_def is_sentinel_def entry_def p'_def cx cy dom_def less_Suc_eq
        split: option.splits if_splits)
  ultimately show ?thesis
    using run same
    by (intro exI [of _ p']) (auto simp: entries_def entry_def p'_def intro!: map_cong)
qed

lemma unlink_run:
  assumes wf: "wf_pipeline p (as1 @ a # as2)"
  shows "\<exists>p'. unlink hooks a p = call_removed hooks (snd (entry p a)) a p'
    \<and> wf_pipeline p' (as1 @ as2) \<and> entries p' (as1 @ as2) = entries p as1 @ entries p as2
    \<and> fresh p' = fresh p \<and> head p' = head p \<and> tail p' = tail p"
proof -
  obtain xs x y ys where ch: "chain p (as1 @ as2) = xs @ x # y # ys"
    and x: "xs @ [x] = head p # as1" and ys: "y # ys = as2 @ [tail p]"
    using chain_split [of p as1 as2] by metis
  have cha: "chain p (as1 @ a # as2) = xs @ x # a # y # ys"
  proof -
    have "chain p (as1 @ a # as2) = (head p # as1) @ a # (as2 @ [tail p])"
      by (simp add: chain_def)
    also have "\<dots> = (xs @ [x]) @ a # (y # ys)" by (simp only: x ys)
    finally show ?thesis by simp
  qed
  from wf_cells [OF wf cha] obtain cx ca where
    cx: "heap p x = Some cx" "ctx_next cx = Some a" "ctx_prev cx = last_of None xs"
    and ca: "heap p a = Some ca" "ctx_prev ca = Some x" "ctx_next ca = Some y"
    by (metis first_of.simps(2))
  from cha have "chain p (as1 @ a # as2) = (xs @ [x]) @ a # y # ys" by simp
  from wf_cells [OF wf this] obtain cy where
    cy: "heap p y = Some cy" "ctx_prev cy = Some a" "ctx_next cy = first_of ys None"
    by metis
  have dist: "distinct (xs @ x # a # y # ys)" using wf cha by (simp add: wf_pipeline_def)
  define p' where "p' = p\<lparr>heap := (heap p)(
      y \<mapsto> cy\<lparr>ctx_prev := Some x\<rparr>, x \<mapsto> cx\<lparr>ctx_next := Some y\<rparr>)\<rparr>"
  have run: "unlink hooks a p = call_removed hooks (snd (entry p a)) a p'"
    using cx ca cy dist by (simp add: unlink_def poke_defs p'_def entry_def)
  have seg: "seg (heap p') None (xs @ x # y # ys) None"
    using wf cha dist cx ca cy by (simp add: wf_pipeline_def p'_def split: option.splits)
  have ch': "chain p' (as1 @ as2) = xs @ x # y # ys"
    using ch by (simp add: chain_def p'_def)
  have same: "entry p' b = entry p b" for b
    using cx cy by (auto simp: entry_def p'_def)
  have "wf_pipeline p' (as1 @ as2)"
    unfolding wf_pipeline_def ch'
    using seg dist wf same [of "head p"] same [of "tail p"]
    by (auto simp: wf_pipeline_def is_sentinel_def entry_def p'_def cx cy dom_def
        split: option.splits if_splits)
  then show ?thesis
    using run same by (intro exI [of _ p']) (simp add: entries_def p'_def)
qed

lemma seek_list:
  assumes "seg (heap p) pv as nx"
  shows "seek p P (first_of as nx) =
    (case find (\<lambda>a. \<exists>c. heap p a = Some c \<and> P a c) as of
       None \<Rightarrow> seek p P nx | Some a \<Rightarrow> Some (Some a))"
  using assms
proof (induction as arbitrary: pv)
  case (Cons a as)
  then show ?case
    by (subst seek.simps) (auto split: option.splits)
qed simp

lemma seek_nil [simp]: "seek p P None = Some None"
  by (simp add: seek.simps)

lemma wf_next_head: "wf_pipeline p as \<Longrightarrow> next_of p (Some (head p)) = first_of (as @ [tail p]) None"
  by (auto simp: wf_pipeline_def chain_def next_of_def split: option.splits)

lemma wf_seg_inner: "wf_pipeline p as \<Longrightarrow> seg (heap p) (Some (head p)) (as @ [tail p]) None"
  by (simp add: wf_pipeline_def chain_def)

lemma wf_cell:
  assumes "wf_pipeline p as" and "a \<in> set (chain p as)"
  obtains c where "heap p a = Some c"
  using assms seg_dom [of "heap p" None "chain p as" None] by (auto simp: wf_pipeline_def)

lemma wf_head_tail:
  assumes "wf_pipeline p as"
  shows "head p \<noteq> tail p" and "head p \<notin> set as" and "tail p \<notin> set as"
    and "entry p (head p) = (PipelineHeadHandlerContextName, Some HeadHandler)"
    and "entry p (tail p) = (PipelineTailHandlerContextName, Some TailHandler)"
  using assms
  by (auto simp: wf_pipeline_def chain_def is_sentinel_def entry_def split: option.splits)

lemma find_split:
  "find P xs = Some x \<longleftrightarrow> (\<exists>ys zs. xs = ys @ x # zs \<and> P x \<and> (\<forall>y \<in> set ys. \<not> P y))"
proof (induction xs)
  case (Cons y xs)
  show ?case
  proof (cases "P y")
    case True
    then show ?thesis
      by (auto simp: Cons_eq_append_conv)
  next
    case False
    then show ?thesis
      using Cons by (auto simp: Cons_eq_append_conv) (metis set_ConsD)+
  qed
qed simp

section \<open>Each operation refines its list operation\<close>

text \<open>
  \<open>AddLast\<close> appends; then the handler's \<open>Added\<close> runs on the linked pipeline.
\<close>

lemma AddLast_run:
  assumes "wf_pipeline p as"
  shows "\<exists>p'. AddLast hooks name elem p = call_added hooks elem p'
    \<and> wf_pipeline p' (as @ [fresh p]) \<and> entries p' (as @ [fresh p]) = entries p as @ [(name, elem)]
    \<and> head p' = head p \<and> tail p' = tail p"
  using link_before_run [of p as "[]" "tail p" hooks name elem] assms
  by (auto simp: AddLast_def entries_def)

lemma RemoveFirst_run:
  assumes wf: "wf_pipeline p (a # as)"
  shows "\<exists>p'. RemoveFirst p = Done p' \<and> wf_pipeline p' as \<and> entries p' as = entries p as
    \<and> head p' = head p \<and> tail p' = tail p"
proof -
  obtain y ys where ys: "as @ [tail p] = y # ys" by (cases as) auto
  have ch: "chain p (a # as) = head p # a # y # ys" by (simp add: chain_def ys)
  from wf ch obtain cx ca cy where
    cx: "heap p (head p) = Some cx" "ctx_next cx = Some a" "ctx_prev cx = None"
    and ca: "heap p a = Some ca" "ctx_prev ca = Some (head p)" "ctx_next ca = Some y"
    and cy: "heap p y = Some cy" "ctx_prev cy = Some a" "ctx_next cy = first_of ys None"
    by (auto simp: wf_pipeline_def split: option.splits)
  have dist: "distinct (head p # a # y # ys)" using wf ch by (simp add: wf_pipeline_def)
  define p' where "p' = p\<lparr>heap := (heap p)(
      y \<mapsto> cy\<lparr>ctx_prev := Some (head p)\<rparr>, head p \<mapsto> cx\<lparr>ctx_next := Some y\<rparr>,
      a \<mapsto> ca\<lparr>ctx_next := None, ctx_prev := None\<rparr>)\<rparr>"
  have run: "RemoveFirst p = Done p'"
    using cx ca cy dist by (simp add: RemoveFirst_def Let_def poke_defs p'_def)
  have ch': "chain p' as = head p # y # ys" by (simp add: chain_def ys p'_def)
  have seg: "seg (heap p') None (head p # y # ys) None"
    using wf ch dist cx ca cy by (simp add: wf_pipeline_def p'_def split: option.splits)
  have same: "entry p' b = entry p b" for b
    using cx ca cy by (auto simp: entry_def p'_def)
  have "wf_pipeline p' as"
    unfolding wf_pipeline_def ch'
    using seg dist wf same [of "head p"] same [of "tail p"]
    by (auto simp: wf_pipeline_def is_sentinel_def entry_def p'_def cx ca cy dom_def
        split: option.splits if_splits)
  then show ?thesis
    using run same by (intro exI [of _ p']) (simp add: entries_def p'_def)
qed

lemma AddBefore_run:
  assumes wf: "wf_pipeline p (as1 @ a # as2)"
    and name: "fst (entry p a) = target"
    and others: "\<forall>b \<in> set (head p # as1). fst (entry p b) \<noteq> target"
  shows "\<exists>p'. AddBefore hooks target name elem p = call_added hooks elem p'
    \<and> wf_pipeline p' (as1 @ fresh p # a # as2)
    \<and> entries p' (as1 @ fresh p # a # as2) = entries p as1 @ (name, elem) # entries p (a # as2)
    \<and> head p' = head p \<and> tail p' = tail p"
proof -
  let ?P = "\<lambda>a c. ctx_name c = target"
  have seg: "seg (heap p) None (chain p (as1 @ a # as2)) None"
    using wf by (simp add: wf_pipeline_def)
  have dom: "\<exists>c. heap p b = Some c" if "b \<in> set (chain p (as1 @ a # as2))" for b
    using wf_cell [OF wf that] by blast
  have "find (\<lambda>a. \<exists>c. heap p a = Some c \<and> ?P a c) (chain p (as1 @ a # as2)) = Some a"
    unfolding find_split
    by (rule exI [of _ "head p # as1"], rule exI [of _ "as2 @ [tail p]"])
      (use name others dom [of a] in \<open>auto simp: chain_def entry_def split: option.splits\<close>)
  then have "seek p ?P (Some (head p)) = Some (Some a)"
    using seek_list [OF seg, of ?P] by (simp add: chain_def)
  then show ?thesis
    using link_before_run [OF wf, of a hooks name elem] by (auto simp: AddBefore_def)
qed

lemma Remove_run:
  assumes wf: "wf_pipeline p (as1 @ a # as2)" and elem: "snd (entry p a) = elem"
    and others: "\<forall>b \<in> set as1. snd (entry p b) \<noteq> elem"
  shows "\<exists>p'. Remove hooks elem p = call_removed hooks elem a p'
    \<and> wf_pipeline p' (as1 @ as2) \<and> entries p' (as1 @ as2) = entries p as1 @ entries p as2
    \<and> head p' = head p \<and> tail p' = tail p"
proof -
  let ?P = "\<lambda>a c. a = tail p \<or> ctx_handler c = elem"
  have a: "a \<noteq> tail p" "tail p \<notin> set as1" using wf_head_tail(3) [OF wf] by auto
  have dom: "\<exists>c. heap p b = Some c" if "b \<in> set (chain p (as1 @ a # as2))" for b
    using wf_cell [OF wf that] by blast
  have "find (\<lambda>a. \<exists>c. heap p a = Some c \<and> ?P a c) ((as1 @ a # as2) @ [tail p]) = Some a"
    unfolding find_split
    by (rule exI [of _ as1], rule exI [of _ "as2 @ [tail p]"])
      (use elem others a dom [of a] in \<open>auto simp: chain_def entry_def split: option.splits\<close>)
  then have "seek p ?P (next_of p (Some (head p))) = Some (Some a)"
    using seek_list [OF wf_seg_inner [OF wf], of ?P] by (simp add: wf_next_head [OF wf])
  then show ?thesis
    using unlink_run [OF wf, of hooks] a elem by (auto simp: Remove_def)
qed

lemma Remove_absent:
  assumes wf: "wf_pipeline p as" and "\<forall>b \<in> set as. snd (entry p b) \<noteq> elem"
  shows "Remove hooks elem p = Some (Done p)"
proof -
  let ?P = "\<lambda>a c. a = tail p \<or> ctx_handler c = elem"
  obtain c where c: "heap p (tail p) = Some c"
    using wf_cell [OF wf, of "tail p"] by (auto simp: chain_def)
  have "find (\<lambda>a. \<exists>c. heap p a = Some c \<and> ?P a c) (as @ [tail p]) = Some (tail p)"
    unfolding find_split
    by (rule exI [of _ as], rule exI [of _ "[]"])
      (use assms(2) wf_head_tail(3) [OF wf] c in \<open>auto simp: entry_def split: option.splits\<close>)
  then have "seek p ?P (next_of p (Some (head p))) = Some (Some (tail p))"
    using seek_list [OF wf_seg_inner [OF wf], of ?P] by (simp add: wf_next_head [OF wf])
  then show ?thesis by (simp add: Remove_def)
qed

lemma RemoveByName_run:
  assumes wf: "wf_pipeline p (as1 @ a # as2)" and name: "fst (entry p a) = name"
    and others: "\<forall>b \<in> set as1. fst (entry p b) \<noteq> name"
    and user: "name \<noteq> PipelineHeadHandlerContextName" "name \<noteq> PipelineTailHandlerContextName"
  shows "\<exists>p'. RemoveByName hooks name p = call_removed hooks (snd (entry p a)) a p'
    \<and> wf_pipeline p' (as1 @ as2) \<and> entries p' (as1 @ as2) = entries p as1 @ entries p as2
    \<and> head p' = head p \<and> tail p' = tail p"
proof -
  let ?P = "\<lambda>a c. ctx_name c = name \<and> name \<noteq> PipelineHeadHandlerContextName
      \<and> name \<noteq> PipelineTailHandlerContextName"
  have dom: "\<exists>c. heap p b = Some c" if "b \<in> set (chain p (as1 @ a # as2))" for b
    using wf_cell [OF wf that] by blast
  have "find (\<lambda>a. \<exists>c. heap p a = Some c \<and> ?P a c) ((as1 @ a # as2) @ [tail p]) = Some a"
    unfolding find_split
    by (rule exI [of _ as1], rule exI [of _ "as2 @ [tail p]"])
      (use name others user dom [of a] in \<open>auto simp: chain_def entry_def split: option.splits\<close>)
  then have "seek p ?P (next_of p (Some (head p))) = Some (Some a)"
    using seek_list [OF wf_seg_inner [OF wf], of ?P] by (simp add: wf_next_head [OF wf])
  then show ?thesis
    using unlink_run [OF wf, of hooks] by (auto simp: RemoveByName_def)
qed

lemma RemoveByName_absent:
  assumes wf: "wf_pipeline p as"
    and "\<forall>b \<in> set as. fst (entry p b) \<noteq> name \<or> name = PipelineHeadHandlerContextName
        \<or> name = PipelineTailHandlerContextName"
  shows "RemoveByName hooks name p = Some (Done p)"
proof -
  let ?P = "\<lambda>a c. ctx_name c = name \<and> name \<noteq> PipelineHeadHandlerContextName
      \<and> name \<noteq> PipelineTailHandlerContextName"
  have "find (\<lambda>a. \<exists>c. heap p a = Some c \<and> ?P a c) (as @ [tail p]) = None"
    using assms(2) wf_head_tail(5) [OF wf]
    by (auto simp: find_None_iff entry_def split: option.splits)
  then have "seek p ?P (next_of p (Some (head p))) = Some None"
    using seek_list [OF wf_seg_inner [OF wf], of ?P] by (simp add: wf_next_head [OF wf])
  then show ?thesis by (simp add: RemoveByName_def)
qed

text \<open>
  \<open>Clear\<close> needs only the sentinels to be in place, not the list between them: it also repairs a
  pipeline whose inner links are broken.
\<close>

definition ends_ok :: "'h pipeline \<Rightarrow> bool" where
  "ends_ok p \<longleftrightarrow> head p \<noteq> tail p \<and> (\<forall>a \<in> dom (heap p). a < fresh p)
     \<and> is_sentinel p (head p) PipelineHeadHandlerContextName HeadHandler
     \<and> is_sentinel p (tail p) PipelineTailHandlerContextName TailHandler
     \<and> prev_of p (Some (head p)) = None \<and> next_of p (Some (tail p)) = None
     \<and> (case next_of p (Some (head p)) of None \<Rightarrow> True | Some a \<Rightarrow> heap p a \<noteq> None)
     \<and> (case prev_of p (Some (tail p)) of None \<Rightarrow> True | Some a \<Rightarrow> heap p a \<noteq> None)"

lemma Clear_run:
  assumes "ends_ok p"
  shows "\<exists>p'. Clear p = Done p' \<and> wf_pipeline p' []"
proof -
  from assms obtain ch ct where
    ch: "heap p (head p) = Some ch" "ctx_prev ch = None" "ctx_name ch = PipelineHeadHandlerContextName"
      "ctx_handler ch = Some HeadHandler"
    and ct: "heap p (tail p) = Some ct" "ctx_next ct = None"
      "ctx_name ct = PipelineTailHandlerContextName" "ctx_handler ct = Some TailHandler"
    by (auto simp: ends_ok_def is_sentinel_def next_of_def prev_of_def split: option.splits)
  have diff: "head p \<noteq> tail p" and small: "\<forall>a \<in> dom (heap p). a < fresh p"
    using assms by (auto simp: ends_ok_def)
  define p1 where "p1 = (case ctx_next ch of None \<Rightarrow> p
      | Some a \<Rightarrow> p\<lparr>heap := (heap p)(a \<mapsto> (the (heap p a))\<lparr>ctx_prev := None\<rparr>)\<rparr>)"
  have s1: "(if next_of p (Some (head p)) \<noteq> None then setPrev (next_of p (Some (head p))) None p
      else Done p) = Done p1"
    using assms ch by (auto simp: ends_ok_def p1_def poke_defs split: option.splits)
  have p1: "head p1 = head p" "tail p1 = tail p" "fresh p1 = fresh p" "dom (heap p1) = dom (heap p)"
    using assms ch by (auto simp: p1_def ends_ok_def next_of_def split: option.splits)
  obtain ch1 ct1 where
    ch1: "heap p1 (head p) = Some ch1" "ctx_prev ch1 = None" "ctx_name ch1 = ctx_name ch"
      "ctx_handler ch1 = ctx_handler ch"
    and ct1: "heap p1 (tail p) = Some ct1" "ctx_next ct1 = None" "ctx_name ct1 = ctx_name ct"
      "ctx_handler ct1 = ctx_handler ct" "ctx_prev ct1 = None \<or> ctx_prev ct1 = ctx_prev ct"
    by (rule that [of "if ctx_next ch = Some (head p) then ch\<lparr>ctx_prev := None\<rparr> else ch"
          "if ctx_next ch = Some (tail p) then ct\<lparr>ctx_prev := None\<rparr> else ct"])
      (use ch ct diff in \<open>auto simp: p1_def split: option.splits\<close>)
  have ok1: "case ctx_prev ct1 of None \<Rightarrow> True | Some a \<Rightarrow> a \<in> dom (heap p1)"
    using assms ct ct1(5) p1(4) by (auto simp: ends_ok_def prev_of_def split: option.splits)
  define p2 where "p2 = (case ctx_prev ct1 of None \<Rightarrow> p1
      | Some a \<Rightarrow> p1\<lparr>heap := (heap p1)(a \<mapsto> (the (heap p1 a))\<lparr>ctx_next := None\<rparr>)\<rparr>)"
  have s2: "(if prev_of p1 (Some (tail p1)) \<noteq> None then setNext (prev_of p1 (Some (tail p1))) None p1
      else Done p1) = Done p2"
    using ct1 p1 ok1 by (auto simp: p2_def poke_defs split: option.splits)
  have p2: "head p2 = head p" "tail p2 = tail p" "fresh p2 = fresh p" "dom (heap p2) = dom (heap p)"
    using ok1 p1 by (auto simp: p2_def split: option.splits)
  obtain ch2 ct2 where
    ch2: "heap p2 (head p) = Some ch2" "ctx_prev ch2 = None" "ctx_name ch2 = ctx_name ch"
      "ctx_handler ch2 = ctx_handler ch"
    and ct2: "heap p2 (tail p) = Some ct2" "ctx_next ct2 = None" "ctx_name ct2 = ctx_name ct"
      "ctx_handler ct2 = ctx_handler ct"
    by (rule that [of "if ctx_prev ct1 = Some (head p) then ch1\<lparr>ctx_next := None\<rparr> else ch1"
          "if ctx_prev ct1 = Some (tail p) then ct1\<lparr>ctx_next := None\<rparr> else ct1"])
      (use ch1 ct1 diff in \<open>auto simp: p2_def split: option.splits\<close>)
  define p3 where "p3 = p2\<lparr>heap := (heap p2)(head p \<mapsto> ch2\<lparr>ctx_next := Some (tail p)\<rparr>,
      tail p \<mapsto> ct2\<lparr>ctx_prev := Some (head p)\<rparr>)\<rparr>"
  have "Clear p = Done p3"
    unfolding Clear_def Let_def s1 and_then.simps s2
    using ch2 ct2 diff p2 by (simp add: poke_defs p3_def)
  moreover have "wf_pipeline p3 []"
    using ch2 ct2 diff p2 ch ct small
    by (auto simp: wf_pipeline_def chain_def is_sentinel_def p3_def)
  ultimately show ?thesis by blast
qed

lemma wf_ends_ok:
  assumes "wf_pipeline p as"
  shows "ends_ok p"
proof -
  have "ctx_next c = None" if "heap p (tail p) = Some c" for c
    using assms that by (auto simp: wf_pipeline_def chain_def split: option.splits)
  moreover have "\<exists>c. heap p b = Some c" if "b \<in> set (chain p as)" for b
    using wf_cell [OF assms that] by blast
  moreover have "next_of p (Some (head p)) \<noteq> None \<longrightarrow> the (next_of p (Some (head p))) \<in> set (chain p as)"
    by (cases as) (auto simp: wf_next_head [OF assms] chain_def)
  moreover obtain b where "b \<in> set (chain p as)" "prev_of p (Some (tail p)) = Some b"
  proof -
    obtain xs x where x: "head p # as = xs @ [x]" by (metis list.discI rev_exhaust)
    then have "chain p as = xs @ [x, tail p]" by (simp add: chain_def flip: append_Cons)
    with assms have "prev_of p (Some (tail p)) = Some x"
      by (auto simp: wf_pipeline_def prev_of_def split: option.splits)
    moreover have "x \<in> set (chain p as)"
      using \<open>chain p as = xs @ [x, tail p]\<close> by simp
    ultimately show ?thesis using that by blast
  qed
  ultimately show ?thesis
    using assms
    by (auto simp: ends_ok_def wf_pipeline_def prev_of_def next_of_def chain_def split: option.splits)
qed

lemma NewDefaultPipeline_wf: "wf_pipeline NewDefaultPipeline []"
  by (auto simp: wf_pipeline_def NewDefaultPipeline_def chain_def is_sentinel_def)

section \<open>The chain interface\<close>

text \<open>
  What code that installs handlers asks of a pipeline: handlers are appended in order and the first
  one can be dropped. \<open>quiet e\<close> says that entry \<open>e\<close>'s own \<open>Added\<close> callback leaves the pipeline
  alone.
\<close>

locale handler_chain =
  fixes holds_chain :: "'p \<Rightarrow> 'e list \<Rightarrow> bool"
    and append_entry :: "'e \<Rightarrow> 'p \<Rightarrow> 'p run"
    and drop_first :: "'p \<Rightarrow> 'p outcome"
    and quiet :: "'e \<Rightarrow> bool"
  assumes append_law: "holds_chain p xs \<Longrightarrow> quiet e \<Longrightarrow>
      \<exists>p'. append_entry e p = Some (Done p') \<and> holds_chain p' (xs @ [e])"
    and drop_law: "holds_chain p (x # xs) \<Longrightarrow> \<exists>p'. drop_first p = Done p' \<and> holds_chain p' xs"
begin

lemma append_all_holds:
  assumes "holds_chain p xs" and "list_all quiet es"
  shows "\<exists>p'. run_all append_entry es p = Some (Done p') \<and> holds_chain p' (xs @ es)"
  using assms
proof (induction es arbitrary: p xs)
  case (Cons e es)
  from append_law [OF Cons.prems(1), of e] Cons.prems(2) obtain p1 where
    "append_entry e p = Some (Done p1)" "holds_chain p1 (xs @ [e])" by auto
  with Cons.IH [of p1 "xs @ [e]"] Cons.prems(2) show ?case by auto
qed simp

lemma append_drop:
  assumes "holds_chain p (x # xs)" and "list_all quiet es"
  shows "\<exists>p'. seq_run (run_all append_entry es p) (\<lambda>q. Some (drop_first q)) = Some (Done p')
    \<and> holds_chain p' (xs @ es)"
proof -
  from append_all_holds [OF assms] obtain p1 where
    p1: "run_all append_entry es p = Some (Done p1)" "holds_chain p1 (x # (xs @ es))" by auto
  from drop_law [OF p1(2)] p1(1) show ?thesis by auto
qed

end

definition holds :: "'h pipeline \<Rightarrow> (string \<times> 'h handler option) list \<Rightarrow> bool" where
  "holds p xs \<longleftrightarrow> (\<exists>as. wf_pipeline p as \<and> entries p as = xs)"

definition add_entry ::
  "'h hooks \<Rightarrow> string \<times> 'h handler option \<Rightarrow> 'h pipeline \<Rightarrow> 'h pipeline run" where
  "add_entry hooks e p = AddLast hooks (fst e) (snd e) p"

definition quiet_entry :: "'h hooks \<Rightarrow> string \<times> 'h handler option \<Rightarrow> bool" where
  "quiet_entry hooks e \<longleftrightarrow> (\<forall>p. call_added hooks (snd e) p = Some (Done p))"

interpretation pl: handler_chain holds "add_entry hooks" RemoveFirst "quiet_entry hooks"
  for hooks
proof
  show "\<exists>p'. add_entry hooks e p = Some (Done p') \<and> holds p' (xs @ [e])"
    if "holds p xs" "quiet_entry hooks e" for p xs e
    using that AddLast_run [of p _ hooks "fst e" "snd e"]
    by (fastforce simp: holds_def add_entry_def quiet_entry_def)
  show "\<exists>p'. RemoveFirst p = Done p' \<and> holds p' xs" if "holds p (x # xs)" for p x xs
    using that RemoveFirst_run [of p] by (fastforce simp: holds_def entries_def)
qed

section \<open>The initializer\<close>

text \<open>
  \<open>DefaultInitializer.Added\<close> of \<open>channel/initializer.go\<close> runs the user's function on the channel,
  then calls \<open>RemoveFirst\<close> to take itself out. The bootstraps install it with
  \<open>AddLast("ROOT", ...)\<close>; the functions of the simple clients and servers add their handlers
  with \<open>AddLast\<close>.
\<close>

definition initializer_Added ::
  "('h pipeline \<Rightarrow> 'h pipeline run) \<Rightarrow> 'h pipeline \<Rightarrow> 'h pipeline run" where
  "initializer_Added f p = seq_run (f p) (\<lambda>p'. Some (RemoveFirst p'))"

definition add_all ::
  "'h hooks \<Rightarrow> (string \<times> 'h handler option) list \<Rightarrow> 'h pipeline \<Rightarrow> 'h pipeline run" where
  "add_all hooks es p = run_all (add_entry hooks) es p"

end
