(* ===== verification/Channel_Pipeline_Use.thy ===== *)
theory Channel_Pipeline_Use
  imports Channel_Pipeline
begin

text \<open>
  What the pipeline of \<open>channel/pipeline.go\<close> promises its callers: any sequence of operations on a
  fresh pipeline does to it what the same sequence does to a plain list of named handlers, apart from
  the two calls that break the links, and the initializer's use of it.
\<close>

section \<open>Programs over a pipeline and over a list\<close>

datatype 'h pipe_op =
    DoAddLast string "'h handler"
  | DoAddBefore string string "'h handler"
  | DoRemoveFirst
  | DoRemove "'h handler"
  | DoRemoveByName string
  | DoClear

fun pipe_step :: "'h hooks \<Rightarrow> 'h pipe_op \<Rightarrow> 'h pipeline \<Rightarrow> 'h pipeline run" where
  "pipe_step hooks (DoAddLast n h) p = AddLast hooks n (Some h) p"
| "pipe_step hooks (DoAddBefore t n h) p = AddBefore hooks t n (Some h) p"
| "pipe_step hooks DoRemoveFirst p = Some (RemoveFirst p)"
| "pipe_step hooks (DoRemove h) p = Remove hooks (Some h) p"
| "pipe_step hooks (DoRemoveByName n) p = RemoveByName hooks n p"
| "pipe_step hooks DoClear p = Some (Clear p)"

type_synonym 'h entry_list = "(string \<times> 'h handler option) list"

text \<open>The list operations: insertion before, and removal of, the first element that satisfies \<open>P\<close>.\<close>

fun insert_before :: "('e \<Rightarrow> bool) \<Rightarrow> bool \<Rightarrow> 'e \<Rightarrow> 'e list \<Rightarrow> 'e list" where
  "insert_before P at_end e [] = (if at_end then [e] else [])"
| "insert_before P at_end e (x # xs) = (if P x then e # x # xs else x # insert_before P at_end e xs)"

fun remove_first :: "('e \<Rightarrow> bool) \<Rightarrow> 'e list \<Rightarrow> 'e list" where
  "remove_first P [] = []"
| "remove_first P (x # xs) = (if P x then xs else x # remove_first P xs)"

definition sentinel_name :: "string \<Rightarrow> bool" where
  "sentinel_name n \<longleftrightarrow> n = PipelineHeadHandlerContextName \<or> n = PipelineTailHandlerContextName"

fun list_step :: "'h pipe_op \<Rightarrow> 'h entry_list \<Rightarrow> 'h entry_list" where
  "list_step (DoAddLast n h) xs = xs @ [(n, Some h)]"
| "list_step (DoAddBefore t n h) xs =
     insert_before (\<lambda>e. fst e = t) (t = PipelineTailHandlerContextName) (n, Some h) xs"
| "list_step DoRemoveFirst xs = tl xs"
| "list_step (DoRemove h) xs = remove_first (\<lambda>e. snd e = Some h) xs"
| "list_step (DoRemoveByName n) xs =
     (if sentinel_name n then xs else remove_first (\<lambda>e. fst e = n) xs)"
| "list_step DoClear xs = []"

text \<open>The two calls that break the links: see \<open>empty_RemoveFirst_breaks\<close>, \<open>AddBefore_head_breaks\<close>.\<close>

fun link_safe :: "'h pipe_op \<Rightarrow> 'h entry_list \<Rightarrow> bool" where
  "link_safe DoRemoveFirst xs = (xs \<noteq> [])"
| "link_safe (DoAddBefore t n h) xs = (t \<noteq> PipelineHeadHandlerContextName)"
| "link_safe _ xs = True"

fun safe_program :: "'h pipe_op list \<Rightarrow> 'h entry_list \<Rightarrow> bool" where
  "safe_program [] xs = True"
| "safe_program (op # ops) xs = (link_safe op xs \<and> safe_program ops (list_step op xs))"

text \<open>Callbacks that leave the pipeline alone; the initializer's does not and is treated below.\<close>

definition quiet_hooks :: "'h hooks \<Rightarrow> bool" where
  "quiet_hooks hooks \<longleftrightarrow> (\<forall>h p. on_added hooks h p = Some (Done p))
     \<and> (\<forall>h a p. on_removed hooks h a p = Some (Done p))"

lemma quiet_added: "quiet_hooks hooks \<Longrightarrow> call_added hooks (Some h) p = Some (Done p)"
  by (cases h) (auto simp: quiet_hooks_def)

lemma quiet_removed: "quiet_hooks hooks \<Longrightarrow> call_removed hooks (Some h) a p = Some (Done p)"
  by (cases h) (auto simp: quiet_hooks_def)

lemma insert_before_split:
  "\<forall>x \<in> set xs. \<not> P x \<Longrightarrow> P y \<Longrightarrow>
     insert_before P b e (xs @ y # ys) = xs @ e # y # ys"
  by (induction xs) auto

lemma insert_before_absent:
  "\<forall>x \<in> set xs. \<not> P x \<Longrightarrow> insert_before P b e xs = xs @ (if b then [e] else [])"
  by (induction xs) auto

lemma remove_first_split:
  "\<forall>x \<in> set xs. \<not> P x \<Longrightarrow> P y \<Longrightarrow> remove_first P (xs @ y # ys) = xs @ ys"
  by (induction xs) auto

lemma remove_first_absent: "\<forall>x \<in> set xs. \<not> P x \<Longrightarrow> remove_first P xs = xs"
  by (induction xs) auto

lemma remove_first_set: "set (remove_first P xs) \<subseteq> set xs"
  by (induction xs) auto

lemma insert_before_set: "set (insert_before P b e xs) \<subseteq> insert e (set xs)"
  by (induction xs) auto

text \<open>Every entry has a handler: the programs install no nil one.\<close>

definition holds_all :: "'h pipeline \<Rightarrow> 'h entry_list \<Rightarrow> bool" where
  "holds_all p xs \<longleftrightarrow> holds p xs \<and> list_all (\<lambda>e. snd e \<noteq> None) xs"

lemma list_step_handlers:
  "list_all (\<lambda>e. snd e \<noteq> None) xs \<Longrightarrow> list_all (\<lambda>e. snd e \<noteq> None) (list_step op xs)"
  using remove_first_set [of _ xs] insert_before_set [of _ _ _ xs] list.set_sel(2) [of xs]
  by (cases op; cases "xs = []") (fastforce simp: list_all_iff)+

lemma first_match:
  "(\<exists>xs y ys. as = xs @ y # ys \<and> P y \<and> (\<forall>x \<in> set xs. \<not> P x)) \<or> (\<forall>x \<in> set as. \<not> P x)"
  using split_list_first_prop [of as P] by blast

lemma entries_split: "entries p (as @ bs) = entries p as @ entries p bs"
  "entries p (a # as) = entry p a # entries p as" "entries p [] = []"
  by (simp_all add: entries_def)

lemma entries_all: "(\<forall>e \<in> set (entries p as). P e) \<longleftrightarrow> (\<forall>a \<in> set as. P (entry p a))"
  by (simp add: entries_def)

lemma entries_setE:
  assumes "e \<in> set (entries p as)"
  obtains a where "a \<in> set as" and "e = entry p a"
  using assms by (auto simp: entries_def)

lemma tail_named: "wf_pipeline p as \<Longrightarrow> heap p (tail p) = Some c \<Longrightarrow>
    ctx_name c = PipelineTailHandlerContextName"
  by (drule wf_head_tail(5)) (simp add: entry_def)

section \<open>One step\<close>

lemma AddBefore_tail_run:
  assumes wf: "wf_pipeline p as"
    and others: "\<forall>b \<in> set as. fst (entry p b) \<noteq> PipelineTailHandlerContextName"
  shows "\<exists>p'. AddBefore hooks PipelineTailHandlerContextName name elem p = call_added hooks elem p'
    \<and> wf_pipeline p' (as @ [fresh p]) \<and> entries p' (as @ [fresh p]) = entries p as @ [(name, elem)]"
proof -
  let ?P = "\<lambda>a c. ctx_name c = PipelineTailHandlerContextName"
  have seg: "seg (heap p) None (chain p as) None"
    using wf by (simp add: wf_pipeline_def)
  obtain c where c: "heap p (tail p) = Some c"
    using wf_cell [OF wf, of "tail p"] by (auto simp: chain_def)
  have ne: "PipelineHeadHandlerContextName \<noteq> PipelineTailHandlerContextName"
    by (simp add: PipelineHeadHandlerContextName_def PipelineTailHandlerContextName_def)
  have "find (\<lambda>a. \<exists>c. heap p a = Some c \<and> ?P a c) (chain p as) = Some (tail p)"
    unfolding find_split
    by (rule exI [of _ "head p # as"], rule exI [of _ "[]"])
      (use others wf_head_tail(4) [OF wf] tail_named [OF wf c] c ne in
        \<open>auto simp: chain_def entry_def split: option.splits\<close>)
  then have "seek p ?P (Some (head p)) = Some (Some (tail p))"
    using seek_list [OF seg, of ?P] by (simp add: chain_def)
  then show ?thesis
    using link_before_run [of p as "[]" "tail p" hooks name elem] wf
    by (auto simp: AddBefore_def entries_def)
qed

lemma AddBefore_absent:
  assumes wf: "wf_pipeline p as" and "\<forall>b \<in> set as. fst (entry p b) \<noteq> target"
    and "\<not> sentinel_name target"
  shows "AddBefore hooks target name elem p = Some (Done p)"
proof -
  let ?P = "\<lambda>a c. ctx_name c = target"
  have seg: "seg (heap p) None (chain p as) None"
    using wf by (simp add: wf_pipeline_def)
  have "find (\<lambda>a. \<exists>c. heap p a = Some c \<and> ?P a c) (chain p as) = None"
    using assms(2,3) wf_head_tail(4,5) [OF wf]
    by (auto simp: find_None_iff chain_def entry_def sentinel_name_def split: option.splits)
  then have "seek p ?P (Some (head p)) = Some None"
    using seek_list [OF seg, of ?P] by (simp add: chain_def)
  then show ?thesis by (simp add: AddBefore_def)
qed

lemma step_AddBefore:
  assumes "holds p xs" and "quiet_hooks hooks" and "link_safe (DoAddBefore t n h) xs"
  shows "\<exists>p'. AddBefore hooks t n (Some h) p = Some (Done p')
    \<and> holds p' (list_step (DoAddBefore t n h) xs)"
proof -
  from assms(1) obtain as where wf: "wf_pipeline p as" and xs: "entries p as = xs"
    by (auto simp: holds_def)
  note q = quiet_added [OF assms(2)]
  show ?thesis
    using first_match [of as "\<lambda>a. fst (entry p a) = t"]
  proof (elim disjE exE conjE)
    fix us a vs assume as: "as = us @ a # vs" and a: "fst (entry p a) = t"
      and us: "\<forall>x \<in> set us. fst (entry p x) \<noteq> t"
    have "\<forall>b \<in> set (head p # us). fst (entry p b) \<noteq> t"
      using us wf_head_tail(4) [OF wf] assms(3) by simp
    from AddBefore_run [OF wf [unfolded as] a this, of hooks n "Some h"] obtain p' where
      "AddBefore hooks t n (Some h) p = Some (Done p')" "wf_pipeline p' (us @ fresh p # a # vs)"
      "entries p' (us @ fresh p # a # vs) = entries p us @ (n, Some h) # entries p (a # vs)"
      using q by auto
    moreover have "list_step (DoAddBefore t n h) xs
        = entries p us @ (n, Some h) # entries p (a # vs)"
      using us a xs as by (auto simp: entries_split intro!: insert_before_split elim!: entries_setE)
    ultimately show ?thesis by (auto simp: holds_def)
  next
    assume none: "\<forall>x \<in> set as. fst (entry p x) \<noteq> t"
    then have ls: "list_step (DoAddBefore t n h) xs
        = xs @ (if t = PipelineTailHandlerContextName then [(n, Some h)] else [])"
      using insert_before_absent [of xs "\<lambda>e. fst e = t"] xs by (auto simp: entries_def)
    show ?thesis
    proof (cases "t = PipelineTailHandlerContextName")
      case True
      then show ?thesis
        using AddBefore_tail_run [OF wf, of hooks n "Some h"] none q ls xs
        by (fastforce simp: holds_def)
    next
      case False
      then have "\<not> sentinel_name t" using assms(3) by (simp add: sentinel_name_def)
      then show ?thesis
        using AddBefore_absent [OF wf none] ls False assms(1) by simp
    qed
  qed
qed

lemma step_Remove:
  assumes "holds p xs" and "quiet_hooks hooks"
  shows "\<exists>p'. Remove hooks (Some h) p = Some (Done p') \<and> holds p' (list_step (DoRemove h) xs)"
proof -
  from assms(1) obtain as where wf: "wf_pipeline p as" and xs: "entries p as = xs"
    by (auto simp: holds_def)
  show ?thesis
    using first_match [of as "\<lambda>a. snd (entry p a) = Some h"]
  proof (elim disjE exE conjE)
    fix us a vs assume as: "as = us @ a # vs" and a: "snd (entry p a) = Some h"
      and us: "\<forall>x \<in> set us. snd (entry p x) \<noteq> Some h"
    moreover have "list_step (DoRemove h) xs = entries p us @ entries p vs"
      using us a xs as by (auto simp: entries_split intro!: remove_first_split elim!: entries_setE)
    ultimately show ?thesis
      using Remove_run [OF wf [unfolded as] a us, of hooks] quiet_removed [OF assms(2)]
      by (fastforce simp: holds_def)
  next
    assume none: "\<forall>x \<in> set as. snd (entry p x) \<noteq> Some h"
    then have "list_step (DoRemove h) xs = xs"
      using remove_first_absent [of xs "\<lambda>e. snd e = Some h"] xs by (auto simp: entries_def)
    then show ?thesis using Remove_absent [OF wf none] assms(1) by simp
  qed
qed

lemma step_RemoveByName:
  assumes "holds_all p xs" and "quiet_hooks hooks"
  shows "\<exists>p'. RemoveByName hooks n p = Some (Done p')
    \<and> holds p' (list_step (DoRemoveByName n) xs)"
proof -
  from assms(1) obtain as where wf: "wf_pipeline p as" and xs: "entries p as = xs"
    by (auto simp: holds_def holds_all_def)
  show ?thesis
  proof (cases "sentinel_name n")
    case True
    then show ?thesis
      using RemoveByName_absent [OF wf, of n] assms(1)
      by (auto simp: sentinel_name_def holds_all_def)
  next
    case user: False
    then have user': "n \<noteq> PipelineHeadHandlerContextName" "n \<noteq> PipelineTailHandlerContextName"
      by (auto simp: sentinel_name_def)
    show ?thesis
      using first_match [of as "\<lambda>a. fst (entry p a) = n"]
    proof (elim disjE exE conjE)
      fix us a vs assume as: "as = us @ a # vs" and a: "fst (entry p a) = n"
        and us: "\<forall>x \<in> set us. fst (entry p x) \<noteq> n"
      moreover have "list_step (DoRemoveByName n) xs = entries p us @ entries p vs"
        using us a xs as user
        by (auto simp: entries_split intro!: remove_first_split elim!: entries_setE)
      moreover obtain h where "snd (entry p a) = Some h"
        using assms(1) xs as by (auto simp: holds_all_def entries_split list_all_iff)
      ultimately show ?thesis
        using RemoveByName_run [OF wf [unfolded as] a us user', of hooks]
          quiet_removed [OF assms(2), of h]
        by (auto simp: holds_def)
    next
      assume none: "\<forall>x \<in> set as. fst (entry p x) \<noteq> n"
      then have "list_step (DoRemoveByName n) xs = xs"
        using remove_first_absent [of xs "\<lambda>e. fst e = n"] xs user by (auto simp: entries_def)
      then show ?thesis
        using RemoveByName_absent [OF wf, of n] none assms(1) by (auto simp: holds_all_def)
    qed
  qed
qed

lemma pipe_step_run:
  assumes "holds_all p xs" and quiet: "quiet_hooks hooks" and "link_safe op xs"
  shows "\<exists>p'. pipe_step hooks op p = Some (Done p') \<and> holds_all p' (list_step op xs)"
proof -
  have h: "holds p xs" using assms(1) by (simp add: holds_all_def)
  have q: "quiet_entry hooks (n, Some k)" for n k
    using quiet_added [OF quiet] by (simp add: quiet_entry_def)
  have "\<exists>p'. pipe_step hooks op p = Some (Done p') \<and> holds p' (list_step op xs)"
  proof (cases op)
    case (DoAddLast n k)
    then show ?thesis using pl.append_law [OF h q [of n k]] by (simp add: add_entry_def)
  next
    case DoRemoveFirst
    then show ?thesis using pl.drop_law [of p "hd xs" "tl xs"] h assms(3) by simp
  next
    case DoClear
    from h obtain as where "wf_pipeline p as" by (auto simp: holds_def)
    with DoClear Clear_run [OF wf_ends_ok] show ?thesis
      by (fastforce simp: holds_def entries_def)
  qed (use step_AddBefore [OF h quiet] step_Remove [OF h quiet] step_RemoveByName [OF assms(1) quiet]
      assms(3) in auto)
  then show ?thesis
    using list_step_handlers [of xs op] assms(1) by (auto simp: holds_all_def)
qed

lemma programs_run:
  assumes "holds_all p xs" and "quiet_hooks hooks" and "safe_program ops xs"
  shows "\<exists>p'. run_all (pipe_step hooks) ops p = Some (Done p') \<and> holds_all p' (fold list_step ops xs)"
  using assms
proof (induction ops arbitrary: p xs)
  case (Cons op ops)
  from pipe_step_run [OF Cons.prems(1,2), of op] Cons.prems(3) obtain p1 where
    "pipe_step hooks op p = Some (Done p1)" "holds_all p1 (list_step op xs)" by auto
  with Cons.IH [of p1 "list_step op xs"] Cons.prems(2,3) show ?case by simp
qed simp

lemma new_holds: "holds NewDefaultPipeline []"
  using NewDefaultPipeline_wf by (auto simp: holds_def entries_def)

section \<open>Properties\<close>



text \<open>
  RemoveFirst on an empty pipeline returns normally but cuts the tail off: every later AddLast
  panics with a nil dereference, whatever the handler, until Clear relinks the two sentinels and
  makes the pipeline an empty, usable one again.
\<close>

theorem empty_RemoveFirst_breaks:
  assumes "holds p []"
  shows "\<exists>p'. RemoveFirst p = Done p'
    \<and> (\<forall>hooks name elem. \<exists>q. AddLast hooks name elem p' = Some (Panicked NilDeref q))
    \<and> (\<exists>p''. Clear p' = Done p'' \<and> holds p'' [])"
proof -
  from assms have wf: "wf_pipeline p []" by (auto simp: holds_def entries_def)
  then obtain ch ct where
    ch: "heap p (head p) = Some ch" "ctx_next ch = Some (tail p)" "ctx_prev ch = None"
    and ct: "heap p (tail p) = Some ct" "ctx_next ct = None" "ctx_prev ct = Some (head p)"
    and ne: "head p \<noteq> tail p"
    by (auto simp: wf_pipeline_def chain_def split: option.splits)
  define p' where "p' = p\<lparr>heap := (heap p)(tail p \<mapsto> ct\<lparr>ctx_next := None, ctx_prev := None\<rparr>)\<rparr>"
  have run: "RemoveFirst p = Done p'"
    using ch ct ne by (simp add: RemoveFirst_def Let_def poke_defs p'_def)
  have fr: "fresh p \<noteq> tail p" "fresh p \<noteq> head p" "heap p (fresh p) = None"
    using wf_fresh [OF wf] by (auto simp: chain_def)
  have broken: "\<exists>q. AddLast hooks name elem p' = Some (Panicked NilDeref q)" for hooks name elem
    using ch ct ne fr by (simp add: AddLast_def link_before_def Let_def poke_defs p'_def)
  have "ends_ok p'"
    using wf_ends_ok [OF wf] ch ct ne by (auto simp: ends_ok_def p'_def is_sentinel_def poke_defs)
  from Clear_run [OF this] run broken show ?thesis
    by (auto simp: holds_def entries_def)
qed

theorem empty_RemoveFirst_breaks_witness:
  "\<exists>p'. RemoveFirst (NewDefaultPipeline :: nat pipeline) = Done p'
    \<and> (\<forall>hooks name elem. \<exists>q. AddLast hooks name elem p' = Some (Panicked NilDeref q))
    \<and> (\<exists>p''. Clear p' = Done p'' \<and> holds p'' [])"
  by (rule empty_RemoveFirst_breaks [OF new_holds])

text \<open>
  AddBefore with the head sentinel's name panics with a nil dereference after it has already
  redirected the head's back link to the new, unlinked context; no handler is installed.
\<close>

theorem AddBefore_head_breaks:
  assumes "holds p xs"
  shows "\<exists>q. AddBefore hooks PipelineHeadHandlerContextName name elem p = Some (Panicked NilDeref q)
    \<and> prev_of q (Some (head q)) = Some (fresh p) \<and> prev_of p (Some (head p)) = None
    \<and> next_of q (Some (head q)) = next_of p (Some (head p))"
proof -
  from assms obtain as where wf: "wf_pipeline p as" by (auto simp: holds_def)
  then obtain ch where ch: "heap p (head p) = Some ch" "ctx_prev ch = None"
      "ctx_name ch = PipelineHeadHandlerContextName"
    by (auto simp: wf_pipeline_def chain_def is_sentinel_def split: option.splits)
  have fr: "fresh p \<noteq> head p" "heap p (fresh p) = None"
    using wf_fresh [OF wf] by (auto simp: chain_def)
  show ?thesis
    using ch fr
    by (simp add: AddBefore_def seek.simps [of _ _ "Some (head p)"] link_before_def Let_def poke_defs)
qed

text \<open>
  A bootstrap's initializer that adds the handlers es with AddLast and was itself installed with
  AddLast takes the first handler out when it is done, not itself: on an empty pipeline exactly es
  remain, in order; on a pipeline that holds handlers already, the first of those is lost and the
  initializer stays in the chain.
\<close>

theorem initializer_installs:
  assumes "holds p xs"
    and "on_added hooks root = initializer_Added (add_all hooks es)"
    and "list_all (quiet_entry hooks) es"
  shows "\<exists>p'. AddLast hooks ''ROOT'' (Some (UserHandler root)) p = Some (Done p')
    \<and> holds p' (tl (xs @ (''ROOT'', Some (UserHandler root)) # es))"
proof -
  let ?r = "(''ROOT'', Some (UserHandler root))"
  from assms(1) obtain as where wf: "wf_pipeline p as" and xs: "entries p as = xs"
    by (auto simp: holds_def)
  from AddLast_run [OF wf, of hooks "''ROOT''" "Some (UserHandler root)"] xs obtain p1 where
    p1: "AddLast hooks ''ROOT'' (Some (UserHandler root)) p = on_added hooks root p1"
      "holds p1 (xs @ [?r])" by (auto simp: holds_def)
  obtain y ys where y: "xs @ [?r] = y # ys" by (cases xs) auto
  from pl.append_drop [OF p1(2) [unfolded y] assms(3)] obtain p' where
    "initializer_Added (add_all hooks es) p1 = Some (Done p')" "holds p' (ys @ es)"
    by (auto simp: initializer_Added_def add_all_def [abs_def])
  moreover have "tl (xs @ ?r # es) = ys @ es" using y by (cases xs) auto
  ultimately show ?thesis using p1(1) assms(2) by auto
qed

definition silent_hooks :: "nat hooks" where
  "silent_hooks = \<lparr>on_added = \<lambda>h p. Some (Done p), on_removed = \<lambda>h a p. Some (Done p)\<rparr>"

theorem AddBefore_head_breaks_witness:
  "\<exists>q. AddBefore silent_hooks PipelineHeadHandlerContextName ''X'' (Some (UserHandler 1))
      NewDefaultPipeline = Some (Panicked NilDeref q)"
  using AddBefore_head_breaks [OF new_holds] by blast

definition boot_entries :: "nat entry_list" where
  "boot_entries = [(''CODEC'', Some (UserHandler 1)), (''APP'', Some (UserHandler 2))]"

definition boot_hooks :: "nat hooks" where
  "boot_hooks = silent_hooks\<lparr>on_added := \<lambda>h p. if h = 0
     then initializer_Added (add_all silent_hooks boot_entries) p else Some (Done p)\<rparr>"

lemma run_all_cong: "(\<And>e. e \<in> set es \<Longrightarrow> f e = g e) \<Longrightarrow> run_all f es s = run_all g es s"
proof (induction es arbitrary: s)
  case (Cons e es)
  then have "run_all f es = run_all g es" by (intro ext) simp
  with Cons.prems show ?case by simp
qed simp

lemma boot_hooks_root: "on_added boot_hooks 0 = initializer_Added (add_all boot_hooks boot_entries)"
proof -
  have same: "add_entry boot_hooks (n, Some (UserHandler k))
      = add_entry silent_hooks (n, Some (UserHandler k))" if "k \<noteq> 0" for n k
  proof -
    have eq: "call_added boot_hooks (Some (UserHandler k)) = call_added silent_hooks (Some (UserHandler k))"
      using that by (auto simp: boot_hooks_def silent_hooks_def fun_eq_iff)
    then show ?thesis
      by (intro ext) (simp only: add_entry_def AddLast_def link_before_def fst_conv snd_conv)
  qed
  have eq: "add_all boot_hooks boot_entries = add_all silent_hooks boot_entries"
    unfolding add_all_def fun_eq_iff
    by (intro allI run_all_cong) (auto simp: boot_entries_def same)
  show ?thesis
    unfolding eq by (simp add: boot_hooks_def)
qed

theorem initializer_installs_witness:
  "\<exists>p'. AddLast boot_hooks ''ROOT'' (Some (UserHandler 0)) NewDefaultPipeline = Some (Done p')
    \<and> holds p' [(''CODEC'', Some (UserHandler 1)), (''APP'', Some (UserHandler 2))]"
  using initializer_installs [OF new_holds boot_hooks_root]
  by (simp add: boot_entries_def quiet_entry_def boot_hooks_def silent_hooks_def)

end
