(* ===== verification/Channel_Events.thy ===== *)
theory Channel_Events
  imports Channel_Pipeline
begin

text \<open>
  Event propagation: the contexts of \<open>channel/handlercontext.go\<close> and the handlers of
  \<open>channel/handler.go\<close>, \<open>indicatehandler.go\<close>, \<open>netstatushandler.go\<close> and the sentinels of
  \<open>pipeline.go\<close>. A handler method is arbitrary Go code; here it is a \<open>code\<close> tree of the things such a
  method can do that matter to its neighbours: change the world (the pipeline included), branch on
  it, panic, and call an event method of its context. The lemmas show in which order the handlers of
  a pipeline see an event, what a panic in one of them does to the others, and which context values
  the handlers downstream see.
\<close>

section \<open>Events, contexts and handler code\<close>

text \<open>The error a handler's \<open>ErrorCaught\<close> receives: a caught panic, or an error value.\<close>

datatype err = CaughtPanic panic | ErrorValue string

text \<open>
  One constructor per method of \<open>Handler\<close> that an event calls. Addresses are \<open>net.Addr\<close> values,
  possibly nil; futures are numbered, None is a nil \<open>Future\<close> argument.
\<close>

type_synonym net_addr = "string option"
type_synonym fut = "nat option"

datatype 'm event =
    Registered | Unregistered | Active | Inactive
  | Read 'm | ReadCompleted
  | ErrorCaught err
  | Write 'm fut
  | Bind net_addr fut
  | Close fut
  | Connect net_addr net_addr fut
  | Disconnect fut
  | Deregister fut

text \<open>Events that \<open>FireX\<close> and \<open>Deregister\<close> pass to \<open>next\<close>; the others go to \<open>prev\<close>.\<close>

fun goes_next :: "'m event \<Rightarrow> bool" where
  "goes_next Registered = True"
| "goes_next Unregistered = True"
| "goes_next Active = True"
| "goes_next Inactive = True"
| "goes_next (Read _) = True"
| "goes_next ReadCompleted = True"
| "goes_next (Deregister _) = True"
| "goes_next _ = False"

record ('h, 's) world =
  w_pipe :: "'h pipeline"
  w_futures :: nat
  w_user :: 's

text \<open>\<open>checkFuture\<close>: a nil future argument is replaced by a new one.\<close>

definition checkFuture :: "fut \<Rightarrow> ('h, 's) world \<Rightarrow> fut \<times> ('h, 's) world" where
  "checkFuture f w = (case f of
       Some n \<Rightarrow> (Some n, w)
     | None \<Rightarrow> (Some (w_futures w), w\<lparr>w_futures := Suc (w_futures w)\<rparr>))"

fun check_event :: "'m event \<Rightarrow> ('h, 's) world \<Rightarrow> 'm event \<times> ('h, 's) world" where
  "check_event (Write m f) w = (let (f', w') = checkFuture f w in (Write m f', w'))"
| "check_event (Bind a f) w = (let (f', w') = checkFuture f w in (Bind a f', w'))"
| "check_event (Close f) w = (let (f', w') = checkFuture f w in (Close f', w'))"
| "check_event (Connect a b f) w = (let (f', w') = checkFuture f w in (Connect a b f', w'))"
| "check_event (Disconnect f) w = (let (f', w') = checkFuture f w in (Disconnect f', w'))"
| "check_event (Deregister f) w = (let (f', w') = checkFuture f w in (Deregister f', w'))"
| "check_event ev w = (ev, w)"

text \<open>
  The three kinds of \<open>HandlerContext\<close>. \<open>DefaultCtx\<close> is a context of the chain itself (its own \<open>ctx\<close>
  field is never set, so it carries no values); \<open>WrapCtx\<close> is a \<open>wrapHandlerContext\<close>, a chain context
  with a stack of key/value pairs; \<open>ValueCtx\<close> is a \<open>ValueHandlerContext\<close>: its type is defined from
  \<open>wrapHandlerContext\<close> without that type's methods, so every method is the embedded context's and
  the pair it holds is never read.
\<close>

datatype 'v ctx =
    DefaultCtx addr
  | WrapCtx addr "(string \<times> 'v) list"
  | ValueCtx addr "string \<times> 'v"

fun ctx_addr :: "'v ctx \<Rightarrow> addr" where
  "ctx_addr (DefaultCtx a) = a"
| "ctx_addr (WrapCtx a _) = a"
| "ctx_addr (ValueCtx a _) = a"

text \<open>\<open>_Context()\<close>: the values an emission through this context carries on.\<close>

fun ctx_values :: "'v ctx \<Rightarrow> (string \<times> 'v) list" where
  "ctx_values (DefaultCtx _) = []"
| "ctx_values (WrapCtx _ kvs) = kvs"
| "ctx_values (ValueCtx _ _) = []"

definition Value :: "'v ctx \<Rightarrow> string \<Rightarrow> 'v option" where
  "Value c k = map_of (ctx_values c) k"

fun WithValue :: "'v ctx \<Rightarrow> string \<times> 'v \<Rightarrow> 'v ctx" where
  "WithValue (DefaultCtx a) kv = ValueCtx a kv"
| "WithValue (WrapCtx a kvs) kv = WrapCtx a (kv # kvs)"
| "WithValue (ValueCtx a _) kv = ValueCtx a kv"

text \<open>
  \<open>_NewWrapHandlerContext\<close>: the parent's values with the entry \<open>"handlerContext"\<close> on top; \<open>mark\<close>
  injects the chain context into the values.
\<close>

definition NewWrapHandlerContext ::
  "(addr \<Rightarrow> 'v) \<Rightarrow> (string \<times> 'v) list \<Rightarrow> addr \<Rightarrow> 'v ctx" where
  "NewWrapHandlerContext mark parent b = WrapCtx b ((''handlerContext'', mark b) # parent)"

text \<open>
  A handler method's body. \<open>Emit kvs ev k\<close> calls the method for \<open>ev\<close> on
  \<open>ctx.WithValue(kv).WithValue(...)\<close>, then goes on with \<open>k\<close>.
\<close>

datatype ('h, 's, 'm, 'v) code =
    Finish
  | Raise panic
  | Act "('h, 's) world \<Rightarrow> ('h, 's) world outcome" "('h, 's, 'm, 'v) code"
  | Choose "('h, 's) world \<Rightarrow> ('h, 's, 'm, 'v) code"
  | Emit "(string \<times> 'v) list" "'m event" "('h, 's, 'm, 'v) code"

text \<open>
  The handlers of a program: the methods of the user's handlers, the operations of \<open>Unsafe\<close> that the
  head calls, the log call of the head, what the tail does on \<open>Deregister\<close>.
\<close>

record ('h, 's, 'm, 'v) program =
  methods :: "'h \<Rightarrow> 'v ctx \<Rightarrow> 'm event \<Rightarrow> ('h, 's, 'm, 'v) code"
  unsafe_op :: "'m event \<Rightarrow> ('h, 's) world \<Rightarrow> ('h, 's) world outcome"
  log_error :: "err \<Rightarrow> ('h, 's) world \<Rightarrow> ('h, 's) world outcome"
  deregister_op :: "fut \<Rightarrow> ('h, 's) world \<Rightarrow> ('h, 's) world outcome"
  mark :: "addr \<Rightarrow> 'v"

text \<open>\<open>DefaultHandler\<close>: every method calls the method of the same name on its context.\<close>

definition DefaultHandler :: "'m event \<Rightarrow> ('h, 's, 'm, 'v) code" where
  "DefaultHandler ev = Emit [] ev Finish"

fun headHandler ::
  "('h, 's, 'm, 'v) program \<Rightarrow> 'm event \<Rightarrow> ('h, 's, 'm, 'v) code" where
  "headHandler P (ErrorCaught e) = Act (log_error P e) Finish"
| "headHandler P (Write m f) = Act (unsafe_op P (Write m f)) Finish"
| "headHandler P (Bind a f) = Act (unsafe_op P (Bind a f)) Finish"
| "headHandler P (Close f) = Act (unsafe_op P (Close f)) Finish"
| "headHandler P (Connect a b f) = Act (unsafe_op P (Connect a b f)) Finish"
| "headHandler P (Disconnect f) = Act (unsafe_op P (Disconnect f)) Finish"
| "headHandler P ev = DefaultHandler ev"

definition unhandled :: err where
  "unhandled = ErrorValue ''message doesn't be catched''"

fun tailHandler ::
  "('h, 's, 'm, 'v) program \<Rightarrow> 'm event \<Rightarrow> ('h, 's, 'm, 'v) code" where
  "tailHandler P (Read m) = Emit [] (ErrorCaught unhandled) Finish"
| "tailHandler P (Deregister f) = Act (deregister_op P f) Finish"
| "tailHandler P ev = DefaultHandler ev"

text \<open>The method the event calls on the handler of context \<open>b\<close>; a nil handler panics.\<close>

definition handler_code ::
  "('h, 's, 'm, 'v) program \<Rightarrow> ('h, 's) world \<Rightarrow> 'v ctx \<Rightarrow> 'm event \<Rightarrow> ('h, 's, 'm, 'v) code" where
  "handler_code P w c ev =
     (case Option.bind (heap (w_pipe w) (ctx_addr c)) ctx_handler of
        None \<Rightarrow> Raise NilDeref
      | Some HeadHandler \<Rightarrow> headHandler P ev
      | Some TailHandler \<Rightarrow> tailHandler P ev
      | Some (UserHandler h) \<Rightarrow> methods P h c ev)"

definition neighbour :: "('h, 's) world \<Rightarrow> 'm event \<Rightarrow> addr \<Rightarrow> addr option" where
  "neighbour w ev a =
     (if goes_next ev then next_of (w_pipe w) (Some a) else prev_of (w_pipe w) (Some a))"

text \<open>
  \<open>exec P c k w\<close> runs the body \<open>k\<close> of a method that was given context \<open>c\<close>. An \<open>Emit\<close> runs the method of
  the neighbour's handler; a panic that leaves it is recovered by the deferred
  \<open>deferErrorCaught()\<close> of that neighbour, which calls the same handler's \<open>ErrorCaught\<close> with the
  chain context itself; a panic in there goes on to the caller.
\<close>

definition continue :: "('w outcome) \<Rightarrow> ('w \<Rightarrow> 'w run) \<Rightarrow> 'w run" where
  "continue r f = (case r of Done w \<Rightarrow> f w | Panicked v w \<Rightarrow> Some (Panicked v w))"

lemma bind_continue: "Option.bind m (\<lambda>r. continue r f) = seq_run m f"
  by (cases m rule: seq_run.cases [of "(_, f)"]) (auto simp: continue_def)

partial_function (option) exec ::
  "('h, 's, 'm, 'v) program \<Rightarrow> 'v ctx \<Rightarrow> ('h, 's, 'm, 'v) code \<Rightarrow> ('h, 's) world
     \<Rightarrow> ('h, 's) world run" where
  "exec P c k w = (case k of
       Finish \<Rightarrow> Some (Done w)
     | Raise v \<Rightarrow> Some (Panicked v w)
     | Act f k' \<Rightarrow> (case f w of Panicked v w' \<Rightarrow> Some (Panicked v w') | Done w' \<Rightarrow> exec P c k' w')
     | Choose g \<Rightarrow> exec P c (g w) w
     | Emit kvs ev0 k' \<Rightarrow>
         (let c' = fold (\<lambda>kv c. WithValue c kv) kvs c; ev = fst (check_event ev0 w);
              w1 = snd (check_event ev0 w)
          in case neighbour w1 ev (ctx_addr c') of
               None \<Rightarrow> exec P c k' w1
             | Some b \<Rightarrow>
                 Option.bind
                   (Option.bind
                     (let cb = NewWrapHandlerContext (mark P) (ctx_values c') b
                      in exec P cb (handler_code P w1 cb ev) w1)
                     (\<lambda>r. case r of
                        Done w2 \<Rightarrow> Some (Done w2)
                      | Panicked v w2 \<Rightarrow> exec P (DefaultCtx b)
                          (handler_code P w2 (DefaultCtx b) (ErrorCaught (CaughtPanic v))) w2))
                   (\<lambda>r. case r of
                      Done w3 \<Rightarrow> exec P c k' w3
                    | Panicked v w3 \<Rightarrow> Some (Panicked v w3))))"

text \<open>
  The same equation with the neighbour's call and its recovery named.
\<close>

definition recovered ::
  "('h, 's, 'm, 'v) program \<Rightarrow> addr \<Rightarrow> ('h, 's) world run \<Rightarrow> ('h, 's) world run" where
  "recovered P b m = Option.bind m (\<lambda>r. case r of
       Done w \<Rightarrow> Some (Done w)
     | Panicked v w \<Rightarrow> exec P (DefaultCtx b)
         (handler_code P w (DefaultCtx b) (ErrorCaught (CaughtPanic v))) w)"

definition deliver ::
  "('h, 's, 'm, 'v) program \<Rightarrow> (string \<times> 'v) list \<Rightarrow> 'm event \<Rightarrow> addr \<Rightarrow> ('h, 's) world
     \<Rightarrow> ('h, 's) world run" where
  "deliver P vals ev b w =
     (let cb = NewWrapHandlerContext (mark P) vals b
      in recovered P b (exec P cb (handler_code P w cb ev) w))"

text \<open>A call of the event method on context \<open>c\<close>, from outside any handler.\<close>

definition fire ::
  "('h, 's, 'm, 'v) program \<Rightarrow> 'v ctx \<Rightarrow> 'm event \<Rightarrow> ('h, 's) world \<Rightarrow> ('h, 's) world run" where
  "fire P c ev0 w = (let ev = fst (check_event ev0 w); w1 = snd (check_event ev0 w) in
     case neighbour w1 ev (ctx_addr c) of
       None \<Rightarrow> Some (Done w1)
     | Some b \<Rightarrow> deliver P (ctx_values c) ev b w1)"

lemma exec_simps [simp]:
  "exec P c Finish w = Some (Done w)"
  "exec P c (Raise v) w = Some (Panicked v w)"
  "exec P c (Choose g) w = exec P c (g w) w"
  "exec P c (Act f k) w = seq_run (Some (f w)) (exec P c k)"
  by (simp_all add: exec.simps [of P c] split: outcome.splits)

lemma exec_Finish [simp]: "seq_run m (exec P c Finish) = m"
  by (cases m rule: seq_run.cases [of "(_, exec P c Finish)"]) auto

lemma exec_Emit [simp]:
  "exec P c (Emit kvs ev k) w
     = seq_run (fire P (fold (\<lambda>kv c. WithValue c kv) kvs c) ev w) (exec P c k)"
proof -
  have *: "(\<lambda>r. case r of Done w3 \<Rightarrow> exec P c k w3 | Panicked v w3 \<Rightarrow> Some (Panicked v w3))
      = (\<lambda>r. continue r (exec P c k))"
    by (simp add: continue_def)
  show ?thesis
    by (subst exec.simps)
      (simp add: fire_def deliver_def recovered_def Let_def * bind_continue split: option.splits)
qed

text \<open>
  The pipeline's own methods: \<open>fireX\<close> calls the head context, \<open>Write\<close>, \<open>Bind\<close>, \<open>Close\<close>, \<open>Connect\<close> and
  \<open>Disconnect\<close> the tail context, \<open>Deregister\<close> the head context, with a new future each.
\<close>

definition pipeline_fire ::
  "('h, 's, 'm, 'v) program \<Rightarrow> 'm event \<Rightarrow> ('h, 's) world \<Rightarrow> ('h, 's) world run" where
  "pipeline_fire P ev w =
     (if goes_next ev \<or> (\<exists>e. ev = ErrorCaught e)
      then fire P (DefaultCtx (head (w_pipe w))) ev w
      else fire P (DefaultCtx (tail (w_pipe w))) ev w)"

text \<open>\<open>Pipeline.Read\<close> asserts the head's type and calls \<open>Unsafe.Read\<close> directly.\<close>

definition pipeline_Read ::
  "(('h, 's) world \<Rightarrow> ('h, 's) world outcome) \<Rightarrow> ('h, 's) world \<Rightarrow> ('h, 's) world outcome" where
  "pipeline_Read unsafe_read w =
     (case Option.bind (heap (w_pipe w) (head (w_pipe w))) ctx_handler of
        Some HeadHandler \<Rightarrow> unsafe_read w
      | _ \<Rightarrow> Panicked BadAssertion w)"

section \<open>Handlers of the library\<close>

text \<open>\<open>NewRWHandler\<close>: two functions, either of them possibly nil.\<close>

definition readWriteHandler ::
  "('v ctx \<Rightarrow> 'm \<Rightarrow> ('h, 's, 'm, 'v) code) option
     \<Rightarrow> ('v ctx \<Rightarrow> 'm \<Rightarrow> fut \<Rightarrow> ('h, 's, 'm, 'v) code) option
     \<Rightarrow> 'v ctx \<Rightarrow> 'm event \<Rightarrow> ('h, 's, 'm, 'v) code" where
  "readWriteHandler r w c ev = (case ev of
       Read m \<Rightarrow> (case r of Some f \<Rightarrow> f c m | None \<Rightarrow> DefaultHandler ev)
     | Write m fu \<Rightarrow> (case w of Some f \<Rightarrow> f c m fu | None \<Rightarrow> DefaultHandler ev)
     | _ \<Rightarrow> DefaultHandler ev)"

text \<open>
  The indicator handlers print a line and pass the event on; \<open>say\<close> appends the line to the world's
  output. The outbound one has no line for \<open>Disconnect\<close>.
\<close>

definition printing ::
  "(string \<Rightarrow> 's \<Rightarrow> 's) \<Rightarrow> string \<Rightarrow> 'm event \<Rightarrow> ('h, 's, 'm, 'v) code" where
  "printing say line ev = Act (\<lambda>w. Done (w\<lparr>w_user := say line (w_user w)\<rparr>)) (DefaultHandler ev)"

fun IndicateHandlerInbound ::
  "(string \<Rightarrow> 's \<Rightarrow> 's) \<Rightarrow> string \<Rightarrow> 'm event \<Rightarrow> ('h, 's, 'm, 'v) code" where
  "IndicateHandlerInbound say i Registered = printing say (i @ '' registered'') Registered"
| "IndicateHandlerInbound say i Unregistered = printing say (i @ '' unregistered'') Unregistered"
| "IndicateHandlerInbound say i Active = printing say (i @ '' active'') Active"
| "IndicateHandlerInbound say i Inactive = printing say (i @ '' inactive'') Inactive"
| "IndicateHandlerInbound say i (Read m) = printing say (i @ '' read'') (Read m)"
| "IndicateHandlerInbound say i ReadCompleted = printing say (i @ '' read_completed'') ReadCompleted"
| "IndicateHandlerInbound say i (Deregister f) = printing say (i @ '' deregister'') (Deregister f)"
| "IndicateHandlerInbound say i ev = DefaultHandler ev"

fun IndicateHandlerOutbound ::
  "(string \<Rightarrow> 's \<Rightarrow> 's) \<Rightarrow> string \<Rightarrow> 'm event \<Rightarrow> ('h, 's, 'm, 'v) code" where
  "IndicateHandlerOutbound say i (Write m f) = printing say (i @ '' write'') (Write m f)"
| "IndicateHandlerOutbound say i (Bind a f) = printing say (i @ '' bind'') (Bind a f)"
| "IndicateHandlerOutbound say i (Close f) = printing say (i @ '' close'') (Close f)"
| "IndicateHandlerOutbound say i (Connect a b f) = printing say (i @ '' connect'') (Connect a b f)"
| "IndicateHandlerOutbound say i ev = DefaultHandler ev"

text \<open>
  The net status handlers log both addresses of the channel, "" for a nil one; \<open>rAddr\<close> is None when
  the channel is not a \<open>NetChannel\<close> or has no remote address. The outbound \<open>Connect\<close> logs its
  arguments instead.
\<close>

definition AddrString :: "net_addr \<Rightarrow> net_addr \<Rightarrow> string" where
  "AddrString lAddr rAddr = ''LocalAddr: '' @ (case lAddr of None \<Rightarrow> '''' | Some s \<Rightarrow> s)
     @ '', RemoteAddr: '' @ (case rAddr of None \<Rightarrow> '''' | Some s \<Rightarrow> s)"

fun NetStatusInbound ::
  "(string \<Rightarrow> 's \<Rightarrow> 's) \<Rightarrow> net_addr \<Rightarrow> net_addr \<Rightarrow> 'm event \<Rightarrow> ('h, 's, 'm, 'v) code" where
  "NetStatusInbound say l r Active = printing say (AddrString l r) Active"
| "NetStatusInbound say l r Inactive = printing say (AddrString l r) Inactive"
| "NetStatusInbound say l r ev = DefaultHandler ev"

fun NetStatusOutbound ::
  "(string \<Rightarrow> 's \<Rightarrow> 's) \<Rightarrow> net_addr \<Rightarrow> net_addr \<Rightarrow> 'm event \<Rightarrow> ('h, 's, 'm, 'v) code" where
  "NetStatusOutbound say l r (Bind a f) = printing say (AddrString l r) (Bind a f)"
| "NetStatusOutbound say l r (Close f) = printing say (AddrString l r) (Close f)"
| "NetStatusOutbound say l r (Connect a b f) = printing say (AddrString a b) (Connect a b f)"
| "NetStatusOutbound say l r (Disconnect f) = printing say (AddrString l r) (Disconnect f)"
| "NetStatusOutbound say l r ev = DefaultHandler ev"

section \<open>Paths through a pipeline\<close>

text \<open>
  The value a handler reads for a key other than the one the library itself adds to every context.
\<close>

definition user_value :: "(string \<times> 'v) list \<Rightarrow> string \<Rightarrow> 'v option" where
  "user_value kvs k = (if k = ''handlerContext'' then None else map_of kvs k)"

lemma user_value_wrap [simp]: "user_value ((''handlerContext'', v) # kvs) = user_value kvs"
  by (auto simp: user_value_def)

lemma user_value_Nil [simp]: "user_value [] = Map.empty"
  by (auto simp: user_value_def)

text \<open>
  Handlers that look at an event, change the user's state and pass the event on, for every kind of
  event: the shape of the indicator and net status handlers.
\<close>

definition passes ::
  "('h, 's, 'm, 'v) program \<Rightarrow> 'h set
     \<Rightarrow> ('h \<Rightarrow> (string \<Rightarrow> 'v option) \<Rightarrow> 'm event \<Rightarrow> 's \<Rightarrow> 's) \<Rightarrow> bool" where
  "passes P H obs \<longleftrightarrow> (\<forall>h \<in> H. \<forall>c ev. methods P h c ev =
     Act (\<lambda>w. Done (w\<lparr>w_user := obs h (user_value (ctx_values c)) ev (w_user w)\<rparr>))
       (DefaultHandler ev))"

definition user_at :: "('h, 's) world \<Rightarrow> addr \<Rightarrow> 'h \<Rightarrow> bool" where
  "user_at w b h \<longleftrightarrow> snd (entry (w_pipe w) b) = Some (UserHandler h)"

lemma handler_code_user:
  "user_at w (ctx_addr c) h \<Longrightarrow> handler_code P w c ev = methods P h c ev"
  by (auto simp: user_at_def handler_code_def entry_def split: option.splits)

lemma neighbour_user [simp]: "neighbour (w\<lparr>w_user := u\<rparr>) ev a = neighbour w ev a"
  by (simp add: neighbour_def)

lemma user_at_user [simp]: "user_at (w\<lparr>w_user := u\<rparr>) b h = user_at w b h"
  by (simp add: user_at_def)

definition given :: "'m event \<Rightarrow> bool" where
  "given ev \<longleftrightarrow> (case ev of Write _ f \<Rightarrow> f \<noteq> None | Bind _ f \<Rightarrow> f \<noteq> None | Close f \<Rightarrow> f \<noteq> None
     | Connect _ _ f \<Rightarrow> f \<noteq> None | Disconnect f \<Rightarrow> f \<noteq> None | Deregister f \<Rightarrow> f \<noteq> None | _ \<Rightarrow> True)"

lemma check_given [simp]: "given ev \<Longrightarrow> check_event ev w = (ev, w)"
  by (cases ev) (auto simp: given_def checkFuture_def)

abbreviation on_path :: "('h, 's) world \<Rightarrow> 'm event \<Rightarrow> addr list \<Rightarrow> bool" where
  "on_path w ev \<equiv> successively (\<lambda>a b. neighbour w ev a = Some b)"

lemma deliver_path:
  assumes "on_path w ev (bs @ [t])" and "list_all2 (user_at w) bs hs" and "passes P H obs"
    and "set hs \<subseteq> H" and "given ev"
    and "\<And>vals'. user_value vals' = user_value vals \<Longrightarrow>
        deliver P vals' ev t (w\<lparr>w_user := fold (\<lambda>h. obs h (user_value vals) ev) hs (w_user w)\<rparr>)
          = Some (Done w')"
  shows "deliver P vals ev (hd (bs @ [t])) w = Some (Done w')"
  using assms(2,1,4,6)
proof (induction hs arbitrary: bs w vals rule: list.induct)
  case Nil
  have "bs = []" using Nil by simp
  with Nil show ?case by simp
next
  case (Cons h hs)
  from Cons.prems(1) obtain b bs' where bs: "bs = b # bs'" "user_at w b h"
    "list_all2 (user_at w) bs' hs" by (auto simp: list_all2_Cons2)
  let ?n = "hd (bs' @ [t])" and ?vals = "(''handlerContext'', mark P b) # vals"
  let ?w1 = "w\<lparr>w_user := obs h (user_value vals) ev (w_user w)\<rparr>"
  have nb: "neighbour w ev b = Some ?n" and path: "on_path ?w1 ev (bs' @ [t])"
    using Cons.prems(2) bs by (auto simp: successively_Cons)
  have la: "list_all2 (user_at ?w1) bs' hs" using bs by (simp add: list_all2_conv_all_nth)
  have "deliver P ?vals ev ?n ?w1 = Some (Done w')"
  proof (rule Cons.IH [OF la path])
    show "set hs \<subseteq> H" using Cons.prems(3) by simp
    show "deliver P vals' ev t
        (?w1\<lparr>w_user := fold (\<lambda>h. obs h (user_value ?vals) ev) hs (w_user ?w1)\<rparr>) = Some (Done w')"
      if "user_value vals' = user_value ?vals" for vals'
      using Cons.prems(4) [of vals'] that by simp
  qed
  moreover have "methods P h c ev = Act (\<lambda>w. Done (w\<lparr>w_user := obs h (user_value (ctx_values c)) ev
      (w_user w)\<rparr>)) (DefaultHandler ev)" for c
    using assms(3) Cons.prems(3) by (auto simp: passes_def)
  ultimately show ?case
    using bs nb assms(5)
    by (simp add: deliver_def [of _ _ _ b] NewWrapHandlerContext_def handler_code_user
        DefaultHandler_def fire_def recovered_def)
qed

text \<open>Both directions of a well-formed pipeline are paths.\<close>

lemma seg_path:
  assumes "seg h pv xs nx"
  shows "successively (\<lambda>a b. Option.bind (h a) ctx_next = Some b) xs"
    and "successively (\<lambda>a b. Option.bind (h b) ctx_prev = Some a) xs"
  using assms by (induction xs arbitrary: pv rule: induct_list012) (auto split: option.splits)

lemma wf_path_next:
  assumes "wf_pipeline (w_pipe w) as" and "goes_next ev"
  shows "on_path w ev (chain (w_pipe w) as)"
  using seg_path(1) [of "heap (w_pipe w)" None "chain (w_pipe w) as" None] assms
  by (simp add: wf_pipeline_def neighbour_def next_of_def)

lemma wf_path_prev:
  assumes "wf_pipeline (w_pipe w) as" and "\<not> goes_next ev"
  shows "on_path w ev (rev (chain (w_pipe w) as))"
  using seg_path(2) [of "heap (w_pipe w)" None "chain (w_pipe w) as" None] assms
  by (simp add: wf_pipeline_def neighbour_def prev_of_def)

definition user_chain :: "('h, 's) world \<Rightarrow> addr list \<Rightarrow> 'h list \<Rightarrow> bool" where
  "user_chain w as hs \<longleftrightarrow> wf_pipeline (w_pipe w) as \<and> list_all2 (user_at w) as hs"

lemma user_chain_user [simp]: "user_chain (w\<lparr>w_user := u\<rparr>) as hs = user_chain w as hs"
  by (simp add: user_chain_def list_all2_conv_all_nth)

lemma tail_next: "wf_pipeline p as \<Longrightarrow> next_of p (Some (tail p)) = None"
  by (auto dest: wf_ends_ok simp: ends_ok_def)

lemma head_prev: "wf_pipeline p as \<Longrightarrow> prev_of p (Some (head p)) = None"
  by (auto dest: wf_ends_ok simp: ends_ok_def)

lemma handler_code_ends:
  assumes "wf_pipeline (w_pipe w) as"
  shows "ctx_addr c = head (w_pipe w) \<Longrightarrow> handler_code P w c ev = headHandler P ev"
    and "ctx_addr c = tail (w_pipe w) \<Longrightarrow> handler_code P w c ev = tailHandler P ev"
  using assms by (auto simp: wf_pipeline_def is_sentinel_def handler_code_def split: option.splits)

text \<open>What the sentinels do with an event that reaches them.\<close>

lemma deliver_tail:
  assumes "wf_pipeline (w_pipe w) as" and "goes_next ev" and "given ev"
  shows "deliver P vals ev (tail (w_pipe w)) w = recovered P (tail (w_pipe w))
    (case ev of Read m \<Rightarrow> fire P (NewWrapHandlerContext (mark P) vals (tail (w_pipe w)))
                            (ErrorCaught unhandled) w
     | Deregister f \<Rightarrow> Some (deregister_op P f w)
     | _ \<Rightarrow> Some (Done w))"
proof -
  have "neighbour w ev (tail (w_pipe w)) = None"
    using assms tail_next by (auto simp: neighbour_def)
  then show ?thesis
    using assms
    by (cases ev) (simp_all add: deliver_def handler_code_ends NewWrapHandlerContext_def
        DefaultHandler_def fire_def)
qed

lemma deliver_head:
  assumes "wf_pipeline (w_pipe w) as" and "\<not> goes_next ev"
  shows "deliver P vals ev (head (w_pipe w)) w = recovered P (head (w_pipe w))
    (case ev of ErrorCaught e \<Rightarrow> Some (log_error P e w) | _ \<Rightarrow> Some (unsafe_op P ev w))"
  using assms
  by (cases ev) (simp_all add: deliver_def handler_code_ends NewWrapHandlerContext_def)

lemma recovered_Done [simp]: "recovered P b (Some (Done w)) = Some (Done w)"
  by (simp add: recovered_def)

lemma recovered_id: "m = Some (Done w') \<Longrightarrow> recovered P b m = Some (Done w')"
  by simp

text \<open>An error that starts at the neighbour of \<open>a\<close> and travels back to the head.\<close>

lemma back_to_head:
  assumes uc: "user_chain w (as1 @ as2) (hs1 @ hs2)" and len: "length as1 = length hs1"
    and a: "a = hd (as2 @ [tail (w_pipe w)])"
    and P: "passes P H obs" "set hs1 \<subseteq> H"
    and ev: "\<not> goes_next ev" "given ev" and a_ctx: "ctx_addr c = a"
    and end_: "\<And>vals. deliver P vals ev (head (w_pipe w))
        (w\<lparr>w_user := fold (\<lambda>h. obs h (user_value (ctx_values c)) ev) (rev hs1) (w_user w)\<rparr>)
        = Some (Done w')"
  shows "fire P c ev w = Some (Done w')"
proof -
  let ?hd = "head (w_pipe w)" and ?tl = "tail (w_pipe w)"
  have wf: "wf_pipeline (w_pipe w) (as1 @ as2)" using uc by (simp add: user_chain_def)
  have la: "list_all2 (user_at w) (rev as1) (rev hs1)"
    using uc len by (simp add: user_chain_def list_all2_append)
  obtain rest where "rev (chain (w_pipe w) (as1 @ as2)) = rest @ a # rev as1 @ [?hd]"
    by (cases as2) (auto simp: chain_def a)
  with wf_path_prev [OF wf ev(1)] have path: "on_path w ev (a # rev as1 @ [?hd])"
    by (auto simp: successively_append_iff)
  then have nb: "neighbour w ev a = Some (hd (rev as1 @ [?hd]))"
    and path': "on_path w ev (rev as1 @ [?hd])"
    by (auto simp: successively_Cons)
  have "deliver P (ctx_values c) ev (hd (rev as1 @ [?hd])) w = Some (Done w')"
    by (rule deliver_path [OF path' la P(1) _ ev(2)]) (use P(2) end_ in auto)
  then show ?thesis using nb a_ctx ev(2) by (simp add: fire_def)
qed

section \<open>Properties\<close>

text \<open>The error log of the head, as a change of the user's state.\<close>

definition logs :: "('h, 's, 'm, 'v) program \<Rightarrow> (err \<Rightarrow> 's \<Rightarrow> 's) \<Rightarrow> bool" where
  "logs P lg \<longleftrightarrow> (\<forall>e w. log_error P e w = Done (w\<lparr>w_user := lg e (w_user w)\<rparr>))"

definition seen ::
  "('h \<Rightarrow> (string \<Rightarrow> 'v option) \<Rightarrow> 'm event \<Rightarrow> 's \<Rightarrow> 's) \<Rightarrow> (string \<Rightarrow> 'v option) \<Rightarrow> 'm event
     \<Rightarrow> 'h list \<Rightarrow> 's \<Rightarrow> 's" where
  "seen obs vals ev hs u = fold (\<lambda>h. obs h vals ev) hs u"

lemma fire_down:
  assumes uc: "user_chain w as hs" and P: "passes P (set hs) obs"
    and ev: "goes_next ev" "given ev" and c: "ctx_addr c = head (w_pipe w)"
    and end_: "\<And>vals. user_value vals = user_value (ctx_values c) \<Longrightarrow>
        deliver P vals ev (tail (w_pipe w))
          (w\<lparr>w_user := seen obs (user_value (ctx_values c)) ev hs (w_user w)\<rparr>) = Some (Done w')"
  shows "fire P c ev w = Some (Done w')"
proof -
  have wf: "wf_pipeline (w_pipe w) as" and la: "list_all2 (user_at w) as hs"
    using uc by (auto simp: user_chain_def)
  from wf_path_next [OF wf ev(1)] have path: "on_path w ev (as @ [tail (w_pipe w)])"
    and nb: "neighbour w ev (head (w_pipe w)) = Some (hd (as @ [tail (w_pipe w)]))"
    by (auto simp: chain_def successively_Cons)
  have "deliver P (ctx_values c) ev (hd (as @ [tail (w_pipe w)])) w = Some (Done w')"
    by (rule deliver_path [OF path la P order.refl ev(2)]) (use end_ in \<open>simp add: seen_def\<close>)
  with nb c ev(2) show ?thesis by (simp add: fire_def)
qed

definition plain_inbound :: "'m event \<Rightarrow> bool" where
  "plain_inbound ev \<longleftrightarrow> ev \<in> {Registered, Unregistered, Active, Inactive, ReadCompleted}"

lemma fire_plain:
  assumes uc: "user_chain w as hs" and P: "passes P (set hs) obs"
    and ev: "plain_inbound ev" and c: "ctx_addr c = head (w_pipe w)"
  shows "fire P c ev w = Some (Done (w\<lparr>w_user := seen obs (user_value (ctx_values c)) ev hs (w_user w)\<rparr>))"
proof (rule fire_down [OF uc P _ _ c])
  show "goes_next ev" and "given ev" using ev by (auto simp: plain_inbound_def given_def)
  then show "deliver P vals ev (tail (w_pipe w))
      (w\<lparr>w_user := seen obs (user_value (ctx_values c)) ev hs (w_user w)\<rparr>)
      = Some (Done (w\<lparr>w_user := seen obs (user_value (ctx_values c)) ev hs (w_user w)\<rparr>))" for vals
    using deliver_tail [of "w\<lparr>w_user := seen obs (user_value (ctx_values c)) ev hs (w_user w)\<rparr>" as ev P]
      uc ev by (auto simp: user_chain_def plain_inbound_def)
qed

text \<open>
  Registered, Unregistered, Active, Inactive and ReadCompleted visit every handler of the
  pipeline exactly once, from the first added to the last, and complete without an error, when each
  handler does its work and passes the event on.
\<close>

theorem inbound_in_order:
  assumes "user_chain w as hs" and "passes P (set hs) obs" and "plain_inbound ev"
  shows "pipeline_fire P ev w
    = Some (Done (w\<lparr>w_user := seen obs Map.empty ev hs (w_user w)\<rparr>))"
  using fire_plain [OF assms, of "DefaultCtx (head (w_pipe w))"] assms(3)
  by (auto simp: pipeline_fire_def plain_inbound_def)

text \<open>
  A message no handler consumes: every handler reads it, from first to last, then the tail
  raises the error "message doesn't be catched", which every handler gets from last to first, and
  the head logs; nothing reaches the caller.
\<close>

theorem unhandled_read:
  assumes "user_chain w as hs" and "passes P (set hs) obs" and "logs P lg"
  shows "pipeline_fire P (Read m) w = Some (Done (w\<lparr>w_user :=
    lg unhandled (seen obs Map.empty (ErrorCaught unhandled) (rev hs)
      (seen obs Map.empty (Read m) hs (w_user w)))\<rparr>))"
proof -
  let ?w1 = "w\<lparr>w_user := seen obs Map.empty (Read m) hs (w_user w)\<rparr>"
  let ?u = "seen obs Map.empty (ErrorCaught unhandled) (rev hs) (w_user ?w1)"
  have uc: "user_chain ?w1 (as @ []) (hs @ [])" and len: "length as = length hs"
    using assms(1) by (auto simp: user_chain_def list_all2_conv_all_nth)
  then have wf: "wf_pipeline (w_pipe ?w1) as" by (simp add: user_chain_def)
  have up: "fire P c (ErrorCaught unhandled) ?w1 = Some (Done (w\<lparr>w_user := lg unhandled ?u\<rparr>))"
    if "ctx_addr c = tail (w_pipe w)" "user_value (ctx_values c) = Map.empty" for c
  proof (rule back_to_head [OF uc len _ assms(2) order.refl _ _ that(1)])
    show "deliver P vals (ErrorCaught unhandled) (head (w_pipe ?w1)) (?w1\<lparr>w_user := fold
        (\<lambda>h. obs h (user_value (ctx_values c)) (ErrorCaught unhandled)) (rev hs) (w_user ?w1)\<rparr>)
        = Some (Done (w\<lparr>w_user := lg unhandled ?u\<rparr>))" for vals
      using wf assms(3) that(2) 
      using deliver_head [of "w\<lparr>w_user := ?u\<rparr>" as "ErrorCaught unhandled" P vals]
      by (simp add: logs_def seen_def)
  qed (auto simp: given_def)
  have "fire P (DefaultCtx (head (w_pipe w))) (Read m) w = Some (Done (w\<lparr>w_user := lg unhandled ?u\<rparr>))"
  proof (rule fire_down [OF assms(1,2)])
    show "deliver P vals (Read m) (tail (w_pipe w)) (w\<lparr>w_user := seen obs
        (user_value (ctx_values (DefaultCtx (head (w_pipe w))))) (Read m) hs (w_user w)\<rparr>)
        = Some (Done (w\<lparr>w_user := lg unhandled ?u\<rparr>))"
      if "user_value vals = user_value (ctx_values (DefaultCtx (head (w_pipe w))))" for vals
      using deliver_tail [of ?w1 as "Read m" P vals] wf that
      by (simp add: given_def up NewWrapHandlerContext_def)
  qed (auto simp: given_def)
  then show ?thesis by (simp add: pipeline_fire_def)
qed

lemma fire_outbound:
  assumes "user_chain w as hs" and "passes P (set hs) obs"
    and "\<not> goes_next ev" and "\<forall>e. ev \<noteq> ErrorCaught e" and "given ev"
    and "unsafe_op P ev (w\<lparr>w_user := seen obs Map.empty ev (rev hs) (w_user w)\<rparr>) = Done w'"
  shows "pipeline_fire P ev w = Some (Done w')"
proof -
  have uc: "user_chain w (as @ []) (hs @ [])" and len: "length as = length hs"
    using assms(1) by (auto simp: user_chain_def list_all2_conv_all_nth)
  have "fire P (DefaultCtx (tail (w_pipe w))) ev w = Some (Done w')"
  proof (rule back_to_head [OF uc len _ assms(2) order.refl assms(3,5)])
    show "deliver P vals ev (head (w_pipe w)) (w\<lparr>w_user := fold (\<lambda>h. obs h (user_value (ctx_values
        (DefaultCtx (tail (w_pipe w))))) ev) (rev hs) (w_user w)\<rparr>) = Some (Done w')" for vals
      using uc assms(3,4,6)
      using deliver_head [of "w\<lparr>w_user := seen obs Map.empty ev (rev hs) (w_user w)\<rparr>" as ev P vals]
      by (auto simp: user_chain_def seen_def split: event.splits)
  qed auto
  with assms(3,4) show ?thesis by (simp add: pipeline_fire_def)
qed

text \<open>
  Write, Bind, Close, Connect and Disconnect on the pipeline visit the handlers from the last
  added to the first and then call the channel's unsafe operation, once, with the same arguments.
\<close>

theorem outbound_in_order:
  assumes "user_chain w as hs" and "passes P (set hs) obs"
    and "\<not> goes_next ev" and "\<forall>e. ev \<noteq> ErrorCaught e" and "given ev"
    and "unsafe_op P ev (w\<lparr>w_user := seen obs Map.empty ev (rev hs) (w_user w)\<rparr>) = Done w'"
  shows "pipeline_fire P ev w = Some (Done w')"
  by (rule fire_outbound [OF assms])

text \<open>
  C21. A handler that panics while it reads a message, possibly after some work: the handlers after it
  do not see the message; its own ErrorCaught and then those of the handlers before it, from the
  nearest to the first, get the caught panic; the head logs it, and the call that fired the event
  returns normally. The values the event carried are not passed along with the error.
\<close>

theorem panic_contained:
  assumes "user_chain w (as1 @ a # as2) (hs1 @ h # hs2)" and "length as1 = length hs1"
    and "passes P (set hs1) obs" and "logs P lg" and "ctx_addr c = head (w_pipe w)"
    and "\<And>c w. exec P c (methods P h c (Read m)) w
          = Some (Panicked v (w\<lparr>w_user := work (w_user w)\<rparr>))"
    and "\<And>c e. methods P h c (ErrorCaught e) = Act (\<lambda>w. Done (w\<lparr>w_user :=
          obs h (user_value (ctx_values c)) (ErrorCaught e) (w_user w)\<rparr>)) (DefaultHandler (ErrorCaught e))"
  shows "fire P c (Read m) w = Some (Done (w\<lparr>w_user := lg (CaughtPanic v)
    (seen obs Map.empty (ErrorCaught (CaughtPanic v)) (h # rev hs1)
      (work (seen obs (user_value (ctx_values c)) (Read m) hs1 (w_user w))))\<rparr>))"
proof -
  let ?e = "ErrorCaught (CaughtPanic v)" and ?tl = "tail (w_pipe w)"
  let ?u1 = "seen obs (user_value (ctx_values c)) (Read m) hs1 (w_user w)"
  let ?u2 = "obs h Map.empty ?e (work ?u1)"
  let ?u3 = "fold (\<lambda>h. obs h Map.empty ?e) (rev hs1) ?u2"
  have wf: "wf_pipeline (w_pipe w) (as1 @ a # as2)" and la1: "list_all2 (user_at w) as1 hs1"
    and at_h: "user_at w a h" and la2: "list_all2 (user_at w) as2 hs2"
    using assms(1,2) by (auto simp: user_chain_def list_all2_append)
  have uc: "user_chain (w\<lparr>w_user := u\<rparr>) (as1 @ a # as2) (hs1 @ h # hs2)" for u
    using assms(1) by simp
  have given: "given ?e" "given (Read m)" by (simp_all add: given_def)
  have upw: "fire P (DefaultCtx a) ?e (w\<lparr>w_user := ?u2\<rparr>)
      = Some (Done (w\<lparr>w_user := lg (CaughtPanic v) ?u3\<rparr>))"
  proof (rule back_to_head [OF uc assms(2) _ assms(3) order.refl _ given(1)])
    show "deliver P vals ?e (head (w_pipe (w\<lparr>w_user := ?u2\<rparr>))) (w\<lparr>w_user := ?u2\<rparr>
        \<lparr>w_user := fold (\<lambda>h. obs h (user_value (ctx_values (DefaultCtx a))) ?e) (rev hs1)
          (w_user (w\<lparr>w_user := ?u2\<rparr>))\<rparr>) = Some (Done (w\<lparr>w_user := lg (CaughtPanic v) ?u3\<rparr>))" for vals
      using deliver_head [of "w\<lparr>w_user := ?u3\<rparr>" "as1 @ a # as2" ?e P vals] wf assms(4)
      by (simp add: logs_def)
  qed auto
  have at_a: "deliver P vals (Read m) a (w\<lparr>w_user := ?u1\<rparr>)
      = Some (Done (w\<lparr>w_user := lg (CaughtPanic v) ?u3\<rparr>))" for vals
    using at_h upw
    by (simp add: deliver_def recovered_def NewWrapHandlerContext_def handler_code_user assms(6,7)
        DefaultHandler_def)
  have "on_path w (Read m) (chain (w_pipe w) (as1 @ a # as2))"
    by (rule wf_path_next [OF wf]) simp
  moreover have "chain (w_pipe w) (as1 @ a # as2) = head (w_pipe w) # (as1 @ [a]) @ (as2 @ [?tl])"
    by (simp add: chain_def)
  ultimately have path: "on_path w (Read m) (as1 @ [a])"
    and nb: "neighbour w (Read m) (head (w_pipe w)) = Some (hd (as1 @ [a]))"
    by (auto simp only: successively_Cons successively_append_iff) (auto simp: hd_append)
  have "deliver P (ctx_values c) (Read m) (hd (as1 @ [a])) w
      = Some (Done (w\<lparr>w_user := lg (CaughtPanic v) ?u3\<rparr>))"
    by (rule deliver_path [OF path la1 assms(3) order.refl given(2)]) (use at_a in \<open>simp add: seen_def\<close>)
  with nb assms(5) given(2) show ?thesis by (simp add: fire_def seen_def)
qed

text \<open>
  A value attached with WithValue reaches every handler the event visits when the context is the
  one a handler was called with; attached to a context of the chain itself (the one ErrorCaught gets
  after a panic, or Added gets) it reaches none of them.
\<close>

theorem with_value_reaches:
  assumes "user_chain w as hs" and "passes P (set hs) obs" and "plain_inbound ev"
    and "ctx_addr c = head (w_pipe w)" and "k \<noteq> ''handlerContext''"
  shows "fire P (WithValue c (k, v)) ev w = Some (Done (w\<lparr>w_user := seen obs
     (case c of WrapCtx a kvs \<Rightarrow> (user_value kvs)(k \<mapsto> v) | _ \<Rightarrow> Map.empty) ev hs (w_user w)\<rparr>))"
proof -
  have "ctx_addr (WithValue c (k, v)) = head (w_pipe w)"
    using assms(4) by (cases c) auto
  moreover have "user_value (ctx_values (WithValue c (k, v)))
      = (case c of WrapCtx a kvs \<Rightarrow> (user_value kvs)(k \<mapsto> v) | _ \<Rightarrow> Map.empty)"
    using assms(5) by (cases c) (auto simp: user_value_def fun_eq_iff)
  ultimately show ?thesis
    using fire_plain [OF assms(1-3)] by simp
qed

text \<open>
  fireErrorCaught on a pipeline reaches no handler at all: it starts at the head, and errors
  travel towards the head.
\<close>

theorem pipeline_error_is_lost:
  assumes "wf_pipeline (w_pipe w) as"
  shows "pipeline_fire P (ErrorCaught e) w = Some (Done w)"
  using head_prev [OF assms] by (simp add: pipeline_fire_def fire_def neighbour_def)

section \<open>A concrete pipeline\<close>

text \<open>Two handlers, 1 and 2, that write down what they see, and a third, 3, that panics on reads.\<close>

definition demo_pipe :: "nat list \<Rightarrow> nat pipeline" where
  "demo_pipe hs = \<lparr>heap = [0 \<mapsto> \<lparr>ctx_name = PipelineHeadHandlerContextName,
        ctx_handler = Some HeadHandler, ctx_next = Some 2, ctx_prev = None\<rparr>,
      1 \<mapsto> \<lparr>ctx_name = PipelineTailHandlerContextName, ctx_handler = Some TailHandler,
        ctx_next = None, ctx_prev = Some 3\<rparr>,
      2 \<mapsto> \<lparr>ctx_name = ''A'', ctx_handler = Some (UserHandler (hs ! 0)),
        ctx_next = Some 3, ctx_prev = Some 0\<rparr>,
      3 \<mapsto> \<lparr>ctx_name = ''B'', ctx_handler = Some (UserHandler (hs ! 1)),
        ctx_next = Some 1, ctx_prev = Some 2\<rparr>],
    head = 0, tail = 1, fresh = 4\<rparr>"

definition note_event :: "nat \<Rightarrow> (string \<Rightarrow> nat option) \<Rightarrow> nat event
    \<Rightarrow> (nat \<times> nat event) list \<Rightarrow> (nat \<times> nat event) list" where
  "note_event h vals ev u = u @ [(h, ev)]"

definition demo_program :: "(nat, (nat \<times> nat event) list, nat, nat) program" where
  "demo_program =
     \<lparr>methods = \<lambda>h c ev. if h = 3 \<and> ev = Read 7 then Raise OutOfRange
        else Act (\<lambda>w. Done (w\<lparr>w_user := note_event h (user_value (ctx_values c)) ev (w_user w)\<rparr>))
          (DefaultHandler ev),
      unsafe_op = \<lambda>ev w. Done (w\<lparr>w_user := w_user w @ [(100, ev)]\<rparr>),
      log_error = \<lambda>e w. Done (w\<lparr>w_user := w_user w @ [(99, ErrorCaught e)]\<rparr>),
      deregister_op = \<lambda>f. Done, mark = (\<lambda>a. a)\<rparr>"

definition demo_world :: "nat list \<Rightarrow> (nat, (nat \<times> nat event) list) world" where
  "demo_world hs = \<lparr>w_pipe = demo_pipe hs, w_futures = 0, w_user = []\<rparr>"

lemma demo_chain: "user_chain (demo_world [x, y]) [2, 3] [x, y]"
proof -
  have "set (chain (demo_pipe [x, y]) [2, 3]) = {0, 1, 2, 3}"
    by (auto simp: chain_def demo_pipe_def)
  then show ?thesis
    by (auto simp: user_chain_def demo_world_def demo_pipe_def wf_pipeline_def chain_def
        is_sentinel_def user_at_def entry_def split: if_splits)
qed

lemma demo_passes: "3 \<notin> H \<Longrightarrow> passes demo_program H note_event"
  by (auto simp: passes_def demo_program_def)

lemma demo_logs: "logs demo_program (\<lambda>e u. u @ [(99, ErrorCaught e)])"
  by (simp add: logs_def demo_program_def)

theorem inbound_in_order_witness:
  "pipeline_fire demo_program Active (demo_world [1, 2])
     = Some (Done ((demo_world [1, 2])\<lparr>w_user := [(1, Active), (2, Active)]\<rparr>))"
  using inbound_in_order [OF demo_chain demo_passes, of 1 2 Active]
  by (simp add: plain_inbound_def seen_def note_event_def demo_world_def)

theorem unhandled_read_witness:
  "pipeline_fire demo_program (Read 5) (demo_world [1, 2])
     = Some (Done ((demo_world [1, 2])\<lparr>w_user := [(1, Read 5), (2, Read 5), (2, ErrorCaught unhandled),
         (1, ErrorCaught unhandled), (99, ErrorCaught unhandled)]\<rparr>))"
  using unhandled_read [OF demo_chain demo_passes demo_logs, of 1 2 5]
  by (simp add: seen_def note_event_def demo_world_def)

theorem outbound_in_order_witness:
  "pipeline_fire demo_program (Write 5 (Some 0)) (demo_world [1, 2])
     = Some (Done ((demo_world [1, 2])\<lparr>w_user := [(2, Write 5 (Some 0)), (1, Write 5 (Some 0)),
         (100, Write 5 (Some 0))]\<rparr>))"
  using outbound_in_order [OF demo_chain demo_passes, of 1 2 "Write 5 (Some 0)"]
  by (simp add: given_def seen_def note_event_def demo_world_def demo_program_def)

theorem panic_contained_witness:
  "fire demo_program (DefaultCtx 0) (Read 7) (demo_world [1, 3])
     = Some (Done ((demo_world [1, 3])\<lparr>w_user := [(1, Read 7), (3, ErrorCaught (CaughtPanic OutOfRange)),
         (1, ErrorCaught (CaughtPanic OutOfRange)), (99, ErrorCaught (CaughtPanic OutOfRange))]\<rparr>))"
  using panic_contained [of "demo_world [1, 3]" "[2]" 3 "[]" "[1]" 3 "[]" demo_program note_event
      "\<lambda>e u. u @ [(99, ErrorCaught e)]" "DefaultCtx 0" 7 OutOfRange "\<lambda>u. u"]
    demo_chain [of 1 3] demo_passes [of "{1}"] demo_logs
  by (simp add: seen_def note_event_def demo_world_def demo_program_def demo_pipe_def)

theorem with_value_reaches_witness:
  "fire demo_program (WithValue (WrapCtx 0 []) (''user'', 8)) Active (demo_world [1, 2])
     = Some (Done ((demo_world [1, 2])\<lparr>w_user := seen note_event [''user'' \<mapsto> 8] Active [1, 2] []\<rparr>))"
  using with_value_reaches [OF demo_chain demo_passes, of 1 2 Active "WrapCtx 0 []" "''user''" 8]
  by (simp add: plain_inbound_def demo_world_def demo_pipe_def)

theorem pipeline_error_is_lost_witness:
  "pipeline_fire demo_program (ErrorCaught unhandled) (demo_world [1, 2])
     = Some (Done (demo_world [1, 2]))"
  using pipeline_error_is_lost [of "demo_world [1, 2]" "[2, 3]"] demo_chain [of 1 2]
  by (simp add: user_chain_def)

end
