(* ===== verification/Channel_Future.thy ===== *)
theory Channel_Future
  imports Utils_Queue
begin

text \<open>
  Futures. \<open>channel/channelfuture.go\<close> wraps a future of the goth-concurrent package, whose code is not
  part of the repository: its operations are the parameter \<open>promise_ops\<close>, and what the channels rely
  on is the locale \<open>promise\<close>: a future is settled at most once, and the call that settles it is the one
  that answers true. The package's queue is the parameter \<open>queue_ops\<close> with the laws of \<open>fifo\<close>.
\<close>

section \<open>The interface\<close>

record 'f promise_ops =
  PNew :: "'f"
  PComplete :: "'f \<Rightarrow> bool \<times> 'f"
  PFail :: "string \<Rightarrow> 'f \<Rightarrow> bool \<times> 'f"
  PCancel :: "'f \<Rightarrow> bool \<times> 'f"
  IsDone :: "'f \<Rightarrow> bool"
  IsSuccess :: "'f \<Rightarrow> bool"

locale promise =
  fixes F :: "'f promise_ops"
  assumes new_open: "\<not> IsDone F (PNew F)"
    and success_done: "IsSuccess F f \<Longrightarrow> IsDone F f"
    and complete_open: "\<not> IsDone F f \<Longrightarrow>
      fst (PComplete F f) \<and> IsDone F (snd (PComplete F f)) \<and> IsSuccess F (snd (PComplete F f))"
    and complete_done: "IsDone F f \<Longrightarrow> PComplete F f = (False, f)"
    and fail_open: "\<not> IsDone F f \<Longrightarrow>
      fst (PFail F e f) \<and> IsDone F (snd (PFail F e f)) \<and> \<not> IsSuccess F (snd (PFail F e f))"
    and fail_done: "IsDone F f \<Longrightarrow> PFail F e f = (False, f)"
    and cancel_open: "\<not> IsDone F f \<Longrightarrow>
      fst (PCancel F f) \<and> IsDone F (snd (PCancel F f)) \<and> \<not> IsSuccess F (snd (PCancel F f))"
    and cancel_done: "IsDone F f \<Longrightarrow> PCancel F f = (False, f)"
begin

lemma done_after [simp]:
  "IsDone F (snd (PComplete F f))" "IsDone F (snd (PFail F e f))" "IsDone F (snd (PCancel F f))"
  using complete_open [of f] complete_done [of f] fail_open [of f e] fail_done [of f e]
    cancel_open [of f] cancel_done [of f]
  by (cases "IsDone F f"; simp)+

lemma success_after:
  "IsSuccess F (snd (PComplete F f)) \<longleftrightarrow> \<not> IsDone F f \<or> IsSuccess F f"
  "IsSuccess F (snd (PFail F e f)) \<longleftrightarrow> IsSuccess F f"
  "IsSuccess F (snd (PCancel F f)) \<longleftrightarrow> IsSuccess F f"
  using complete_open [of f] complete_done [of f] fail_open [of f e] fail_done [of f e]
    cancel_open [of f] cancel_done [of f] success_done [of f]
  by (cases "IsDone F f"; auto)+

lemma new_not_success [simp]: "\<not> IsDone F (PNew F)" "\<not> IsSuccess F (PNew F)"
  using new_open success_done by auto

text \<open>Whoever comes first decides: the second settlement changes nothing and answers false.\<close>

lemma settled_once:
  "PComplete F (snd (PFail F e f)) = (False, snd (PFail F e f))"
  "PFail F e (snd (PComplete F f)) = (False, snd (PComplete F f))"
  by (simp_all add: complete_done fail_done)

end

section \<open>The channel's future\<close>

text \<open>\<open>DefaultFuture\<close>: \<open>Channel()\<close> answers the channel only once the future has succeeded.\<close>

record ('f, 'c) DefaultFuture =
  fut_inner :: "'f"
  fut_channel :: "'c option"

definition NewFuture :: "'f promise_ops \<Rightarrow> 'c option \<Rightarrow> ('f, 'c) DefaultFuture" where
  "NewFuture F ch = \<lparr>fut_inner = PNew F, fut_channel = ch\<rparr>"

definition future_Channel :: "'f promise_ops \<Rightarrow> ('f, 'c) DefaultFuture \<Rightarrow> 'c option" where
  "future_Channel F d = (if \<not> IsDone F (fut_inner d) then None
     else if IsSuccess F (fut_inner d) then fut_channel d else None)"

definition future_complete :: "'f promise_ops \<Rightarrow> ('f, 'c) DefaultFuture \<Rightarrow> ('f, 'c) DefaultFuture" where
  "future_complete F d = d\<lparr>fut_inner := snd (PComplete F (fut_inner d))\<rparr>"

text \<open>\<open>future.(*DefaultFuture).channel = nil\<close> before failing, as \<open>Bind\<close> and \<open>Connect\<close> do.\<close>

definition future_fail_detached ::
  "'f promise_ops \<Rightarrow> string \<Rightarrow> ('f, 'c) DefaultFuture \<Rightarrow> ('f, 'c) DefaultFuture" where
  "future_fail_detached F e d = \<lparr>fut_inner = snd (PFail F e (fut_inner d)), fut_channel = None\<rparr>"

section \<open>Instances\<close>

text \<open>A future as what it was settled with, if it was: Inr for success, Inl for an error.\<close>

definition option_promise :: "(string + unit) option promise_ops" where
  "option_promise = \<lparr>
     PNew = None,
     PComplete = (\<lambda>f. if f = None then (True, Some (Inr ())) else (False, f)),
     PFail = (\<lambda>e f. if f = None then (True, Some (Inl e)) else (False, f)),
     PCancel = (\<lambda>f. if f = None then (True, Some (Inl ''cancelled'')) else (False, f)),
     IsDone = (\<lambda>f. f \<noteq> None),
     IsSuccess = (\<lambda>f. f = Some (Inr ()))\<rparr>"

interpretation op: promise option_promise
  by unfold_locales (auto simp: option_promise_def)

record ('q, 'a) queue_ops =
  QEmpty :: "'q"
  QPush :: "'a option \<Rightarrow> 'q \<Rightarrow> 'q"
  QPop :: "'q \<Rightarrow> 'a option \<times> 'q"
  QLen :: "'q \<Rightarrow> nat"
  QList :: "'q \<Rightarrow> 'a option list"

abbreviation fifo_ops :: "('q, 'a) queue_ops \<Rightarrow> bool" where
  "fifo_ops Q \<equiv> fifo (QEmpty Q) (QPush Q) (QPop Q) (QLen Q) (QList Q)"

definition plain_queue :: "('a queue, 'a) queue_ops" where
  "plain_queue = \<lparr>QEmpty = empty_queue, QPush = Push, QPop = Pop, QLen = Size, QList = contents\<rparr>"

lemma plain_queue_fifo: "fifo_ops plain_queue"
  using uq.fifo_axioms by (simp add: plain_queue_def)

end
