(* ===== verification/Channel_WriteLoop.thy ===== *)
theory Channel_WriteLoop
  imports Channel_Future "HOL-Library.Multiset"
begin

text \<open>
  \<open>DefaultUnsafe.Write\<close> of \<open>channel/unsafe.go\<close>: any number of goroutines put their message into one
  buffer, and whoever wins the flag \<open>writeS\<close> starts the goroutine that empties it. The model is a
  transition system of goroutines, one step per access to shared state, interleaved with the
  channel going inactive (or active again) at any moment. The lemmas show that messages reach
  \<open>UnsafeWrite\<close> one at a time in the order they were buffered, that no wake-up is lost, and that every
  future is settled in the end; and the one race in which a future is not.
\<close>

section \<open>Shared state and goroutines\<close>

record ('q, 'f, 'm) wshared =
  active :: bool
  closed :: bool
  writeS :: bool
  buffer :: "'q"
  futs :: "nat \<Rightarrow> 'f"
  objs :: "nat \<Rightarrow> 'm option"
  used :: "nat list"
  pushed :: "(nat \<times> 'm) list"
  taken :: "nat list"
  wire :: "(nat \<times> 'm option) list"
  nil_writes :: "nat list"

text \<open>
  \<open>active\<close> is \<open>IsActive()\<close>, \<open>closed\<close> is \<open>CloseFuture().IsDone()\<close>, \<open>objs\<close> the object \<open>Set\<close> on a future.
  The last five fields are history: the futures given to \<open>Write\<close>, those buffered with their objects,
  those popped, the objects handed to \<open>UnsafeWrite\<close>, the futures of nil writes.

  Where a goroutine is in \<open>Write\<close> (the W states) or in the goroutine it starts (the D states).
\<close>

datatype 'm pc =
    WStart "'m option" nat
  | WPush 'm nat
  | WRecheck nat
  | WMark
  | DLoop
  | DPop
  | DWrite nat
  | DInactive nat string
  | DFail nat string
  | DSucceed nat
  | DCheck
  | DClean
  | DReset
  | DLen
  | Ended

definition ErrChannelNotActive :: string where
  "ErrChannelNotActive = ''channel not active''"

definition ErrChannelClosed :: string where
  "ErrChannelClosed = ''channel closed''"

definition futureSuccess ::
  "'f promise_ops \<Rightarrow> nat \<Rightarrow> ('q, 'f, 'm) wshared \<Rightarrow> ('q, 'f, 'm) wshared" where
  "futureSuccess F f s = s\<lparr>futs := (futs s)(f := snd (PComplete F (futs s f)))\<rparr>"

definition futureFail ::
  "'f promise_ops \<Rightarrow> nat \<Rightarrow> string \<Rightarrow> ('q, 'f, 'm) wshared \<Rightarrow> ('q, 'f, 'm) wshared" where
  "futureFail F f e s = s\<lparr>futs := (futs s)(f := snd (PFail F e (futs s f)))\<rparr>"

text \<open>
  The cleanup loop, run under the buffer's lock: pop and fail until the buffer answers nil. The
  fuel is the buffer's length plus one; \<open>clean_empties\<close> shows it is enough.
\<close>

fun clean ::
  "('q, nat) queue_ops \<Rightarrow> 'f promise_ops \<Rightarrow> nat \<Rightarrow> ('q, 'f, 'm) wshared \<Rightarrow> ('q, 'f, 'm) wshared"
  where
  "clean Q F 0 s = s"
| "clean Q F (Suc n) s = (case QPop Q (buffer s) of
       (None, q') \<Rightarrow> s\<lparr>buffer := q'\<rparr>
     | (Some f, q') \<Rightarrow> clean Q F n (futureFail F f
         (if closed s then ErrChannelClosed else ErrChannelNotActive)
         (s\<lparr>buffer := q', taken := taken s @ [f]\<rparr>)))"

text \<open>
  One step of a goroutine: its next state, the shared state, and the goroutines it starts. \<open>res\<close> is
  what \<open>UnsafeWrite\<close> answers, None for nil. \<open>u.Write(nil, nil)\<close> at the end of the loop settles a
  future nobody else has, so it is the state \<open>WMark\<close>.
\<close>

fun thread_step ::
  "('q, nat) queue_ops \<Rightarrow> 'f promise_ops \<Rightarrow> string option \<Rightarrow> 'm pc \<Rightarrow> ('q, 'f, 'm) wshared
     \<Rightarrow> 'm pc \<times> ('q, 'f, 'm) wshared \<times> 'm pc list" where
  "thread_step Q F res (WStart (Some m) f) s = (if active s then WPush m f else WRecheck f, s, [])"
| "thread_step Q F res (WStart None f) s =
     (WMark, futureSuccess F f (s\<lparr>nil_writes := f # nil_writes s\<rparr>), [])"
| "thread_step Q F res (WRecheck f) s =
     (if active s then (WMark, s, []) else (Ended, futureFail F f ErrChannelNotActive s, []))"
| "thread_step Q F res (WPush m f) s =
     (WMark, s\<lparr>objs := (objs s)(f \<mapsto> m), buffer := QPush Q (Some f) (buffer s),
               pushed := pushed s @ [(f, m)]\<rparr>, [])"
| "thread_step Q F res WMark s =
     (if writeS s then (Ended, s, []) else (Ended, s\<lparr>writeS := True\<rparr>, [DLoop]))"
| "thread_step Q F res DLoop s = (if active s then DPop else DCheck, s, [])"
| "thread_step Q F res DPop s = (case QPop Q (buffer s) of
       (None, q') \<Rightarrow> (DCheck, s\<lparr>buffer := q'\<rparr>, [])
     | (Some f, q') \<Rightarrow> (DWrite f, s\<lparr>buffer := q', taken := taken s @ [f]\<rparr>, []))"
| "thread_step Q F res (DWrite f) s =
     ((case res of None \<Rightarrow> DSucceed f | Some e \<Rightarrow> DInactive f e),
      s\<lparr>wire := wire s @ [(f, objs s f)]\<rparr>, [])"
| "thread_step Q F res (DInactive f e) s = (DFail f e, s\<lparr>active := False\<rparr>, [])"
| "thread_step Q F res (DFail f e) s = (DLoop, futureFail F f e s, [])"
| "thread_step Q F res (DSucceed f) s = (DLoop, futureSuccess F f s, [])"
| "thread_step Q F res DCheck s = (if active s then DReset else DClean, s, [])"
| "thread_step Q F res DClean s = (DReset, clean Q F (Suc (QLen Q (buffer s))) s, [])"
| "thread_step Q F res DReset s = (DLen, s\<lparr>writeS := False\<rparr>, [])"
| "thread_step Q F res DLen s = (if 0 < QLen Q (buffer s) then WMark else Ended, s, [])"
| "thread_step Q F res Ended s = (Ended, s, [])"

text \<open>
  The system: a goroutine takes a step, a caller starts \<open>Write\<close> with a future of its own, or the
  channel's state changes from outside; \<open>reopen\<close> says whether it may become active again.
\<close>

inductive wstep ::
  "('q, nat) queue_ops \<Rightarrow> 'f promise_ops \<Rightarrow> bool \<Rightarrow> ('q, 'f, 'm) wshared \<times> 'm pc list
     \<Rightarrow> ('q, 'f, 'm) wshared \<times> 'm pc list \<Rightarrow> bool"
  for Q F reopen where
  thread: "thread_step Q F res p s = (p', s', new) \<Longrightarrow> p \<noteq> Ended \<Longrightarrow>
     wstep Q F reopen (s, xs @ p # ys) (s', xs @ p' # ys @ new)"
| call: "f \<notin> set (used s) \<Longrightarrow>
     wstep Q F reopen (s, ps) (s\<lparr>used := f # used s\<rparr>, ps @ [WStart obj f])"
| deactivate: "wstep Q F reopen (s, ps) (s\<lparr>active := False\<rparr>, ps)"
| close: "wstep Q F reopen (s, ps) (s\<lparr>closed := True\<rparr>, ps)"
| activate: "reopen \<Longrightarrow> wstep Q F reopen (s, ps) (s\<lparr>active := True\<rparr>, ps)"

definition wstart :: "('q, nat) queue_ops \<Rightarrow> 'f promise_ops \<Rightarrow> bool \<Rightarrow> ('q, 'f, 'm) wshared" where
  "wstart Q F a = \<lparr>active = a, closed = False, writeS = False, buffer = QEmpty Q, futs = \<lambda>_. PNew F,
     objs = Map.empty, used = [], pushed = [], taken = [], wire = [], nil_writes = []\<rparr>"

definition wreach ::
  "('q, nat) queue_ops \<Rightarrow> 'f promise_ops \<Rightarrow> bool \<Rightarrow> ('q, 'f, 'm) wshared \<Rightarrow> 'm pc list \<Rightarrow> bool" where
  "wreach Q F reopen s ps \<longleftrightarrow> (\<exists>a. (wstep Q F reopen)\<^sup>*\<^sup>* (wstart Q F a, []) (s, ps))"

lemma wreach_induct [consumes 1, case_names start step]:
  assumes "wreach Q F reopen s ps"
    and "\<And>a. I (wstart Q F a) []"
    and "\<And>s ps s' ps'. I s ps \<Longrightarrow> wstep Q F reopen (s, ps) (s', ps') \<Longrightarrow> I s' ps'"
  shows "I s ps"
proof -
  from assms(1) obtain a where "(wstep Q F reopen)\<^sup>*\<^sup>* (wstart Q F a, []) (s, ps)"
    by (auto simp: wreach_def)
  then have "case (s, ps) of (s, ps) \<Rightarrow> I s ps"
    by (induction rule: rtranclp_induct) (use assms(2,3) in auto)
  then show ?thesis by simp
qed

section \<open>Invariants\<close>

fun holder :: "'m pc \<Rightarrow> bool" where
  "holder (WStart _ _) = False"
| "holder (WPush _ _) = False"
| "holder (WRecheck _) = False"
| "holder WMark = False"
| "holder DLen = False"
| "holder Ended = False"
| "holder _ = True"

fun pending :: "'m pc \<Rightarrow> nat list" where
  "pending (WStart _ f) = [f]"
| "pending (WPush _ f) = [f]"
| "pending (WRecheck f) = [f]"
| "pending _ = []"

fun hand :: "'m pc \<Rightarrow> nat list" where
  "hand (DWrite f) = [f]"
| "hand (DInactive f _) = [f]"
| "hand (DFail f _) = [f]"
| "hand (DSucceed f) = [f]"
| "hand _ = []"

definition one_drainer :: "('q, 'f, 'm) wshared \<Rightarrow> 'm pc list \<Rightarrow> bool" where
  "one_drainer s ps \<longleftrightarrow> length (filter holder ps) = (if writeS s then 1 else 0)"

definition awake :: "('q, nat) queue_ops \<Rightarrow> ('q, 'f, 'm) wshared \<Rightarrow> 'm pc list \<Rightarrow> bool" where
  "awake Q s ps \<longleftrightarrow>
     (QList Q (buffer s) \<noteq> [] \<longrightarrow> writeS s \<or> WMark \<in> set ps \<or> DLen \<in> set ps)"

definition in_order :: "('q, nat) queue_ops \<Rightarrow> ('q, 'f, 'm) wshared \<Rightarrow> 'm pc list \<Rightarrow> bool" where
  "in_order Q s ps \<longleftrightarrow>
     map Some (taken s) @ QList Q (buffer s) = map (\<lambda>x. Some (fst x)) (pushed s)
     \<and> subseq (map fst (wire s)) (taken s)
     \<and> (\<forall>f. DWrite f \<in> set ps \<longrightarrow>
           (\<exists>xs. taken s = xs @ [f] \<and> subseq (map fst (wire s)) xs))"

definition own_future :: "('q, 'f, 'm) wshared \<Rightarrow> 'm pc list \<Rightarrow> bool" where
  "own_future s ps \<longleftrightarrow> distinct (map fst (pushed s) @ concat (map pending ps))
     \<and> set (map fst (pushed s) @ concat (map pending ps)) \<subseteq> set (used s)
     \<and> (\<forall>x \<in> set (pushed s). objs s (fst x) = Some (snd x))"

definition objects_ok :: "('q, 'f, 'm) wshared \<Rightarrow> bool" where
  "objects_ok s \<longleftrightarrow> (\<forall>x \<in> set (wire s). \<exists>m. snd x = Some m \<and> (fst x, m) \<in> set (pushed s))"

definition success_ok :: "'f promise_ops \<Rightarrow> ('q, 'f, 'm) wshared \<Rightarrow> 'm pc list \<Rightarrow> bool" where
  "success_ok F s ps \<longleftrightarrow>
     (\<forall>f. IsSuccess F (futs s f) \<longrightarrow> f \<in> fst ` set (wire s) \<or> f \<in> set (nil_writes s))
     \<and> (\<forall>f. DSucceed f \<in> set ps \<longrightarrow> f \<in> fst ` set (wire s))"

definition accounted ::
  "('q, nat) queue_ops \<Rightarrow> 'f promise_ops \<Rightarrow> ('q, 'f, 'm) wshared \<Rightarrow> 'm pc list \<Rightarrow> bool" where
  "accounted Q F s ps \<longleftrightarrow>
     (\<forall>f \<in> set (used s). IsDone F (futs s f) \<or> f \<in> set (concat (map pending ps))
        \<or> f \<in> set (concat (map hand ps)) \<or> Some f \<in> set (QList Q (buffer s)))
     \<and> (active s \<longrightarrow> (\<forall>f. WRecheck f \<notin> set ps))"

locale write_loop = promise F + fifo "QEmpty Q" "QPush Q" "QPop Q" "QLen Q" "QList Q"
  for F :: "'f promise_ops" and Q :: "('q, nat) queue_ops"
begin

lemma pop_cases:
  obtains (nil) q' where "QPop Q q = (None, q')" "QList Q q = []" "QList Q q' = []"
  | (nil_elem) q' xs where "QPop Q q = (None, q')" "QList Q q = None # xs" "QList Q q' = xs"
  | (elem) f q' xs where "QPop Q q = (Some f, q')" "QList Q q = Some f # xs" "QList Q q' = xs"
proof (cases "QList Q q")
  case Nil
  then show ?thesis using pop_empty nil by auto
next
  case (Cons x xs)
  then show ?thesis using pop_first [OF Cons] nil_elem elem by (cases x) auto
qed

lemma clean_empties:
  assumes "QList Q (buffer s) = map Some fs" and "length fs < n"
  defines "s' \<equiv> clean Q F n s"
  shows "QList Q (buffer s') = []" and "taken s' = taken s @ fs"
    and "IsDone F (futs s' f) \<longleftrightarrow> IsDone F (futs s f) \<or> f \<in> set fs"
    and "IsSuccess F (futs s' f) \<longleftrightarrow> IsSuccess F (futs s f)"
  using assms(1,2) unfolding s'_def
proof (induction n arbitrary: s fs)
  case (Suc n)
  {
    case 1 then show ?case
      by (cases "buffer s" rule: pop_cases)
        (use Suc.IH(1) in \<open>fastforce simp: futureFail_def Cons_eq_map_conv\<close>)+
  next
    case 2 then show ?case
      by (cases "buffer s" rule: pop_cases)
        (use Suc.IH(2) in \<open>fastforce simp: futureFail_def Cons_eq_map_conv\<close>)+
  next
    case 3 then show ?case
      by (cases "buffer s" rule: pop_cases)
        (use Suc.IH(3) in \<open>fastforce simp: futureFail_def Cons_eq_map_conv\<close>)+
  next
    case 4
    show ?case
    proof (cases "buffer s" rule: pop_cases)
      case (elem g q' xs)
      with 4 obtain fs' where "xs = map Some fs'" "length fs' < n" by (cases fs) auto
      with elem show ?thesis
        by (simp add: Suc.IH(4) futureFail_def success_after)
    qed (use 4 in \<open>auto simp: Cons_eq_map_conv\<close>)
  }
qed simp_all

lemma clean_shrinks: "QList Q (buffer (clean Q F n s)) \<noteq> [] \<Longrightarrow> QList Q (buffer s) \<noteq> []"
proof (induction n arbitrary: s)
  case (Suc n)
  then show ?case
    by (cases "buffer s" rule: pop_cases) (auto simp: futureFail_def)
qed simp

end

lemma clean_same [simp]:
  "active (clean Q F n s) = active s" "closed (clean Q F n s) = closed s"
  "writeS (clean Q F n s) = writeS s" "objs (clean Q F n s) = objs s"
  "used (clean Q F n s) = used s" "pushed (clean Q F n s) = pushed s"
  "wire (clean Q F n s) = wire s" "nil_writes (clean Q F n s) = nil_writes s"
  by (induction n arbitrary: s) (auto simp: futureFail_def split: prod.splits option.splits)

lemma settle_same [simp]:
  "active (futureFail F f e s) = active s" "closed (futureFail F f e s) = closed s"
  "writeS (futureFail F f e s) = writeS s" "objs (futureFail F f e s) = objs s"
  "used (futureFail F f e s) = used s" "pushed (futureFail F f e s) = pushed s"
  "wire (futureFail F f e s) = wire s" "nil_writes (futureFail F f e s) = nil_writes s"
  "taken (futureFail F f e s) = taken s" "buffer (futureFail F f e s) = buffer s"
  "active (futureSuccess F f s) = active s" "closed (futureSuccess F f s) = closed s"
  "writeS (futureSuccess F f s) = writeS s" "objs (futureSuccess F f s) = objs s"
  "used (futureSuccess F f s) = used s" "pushed (futureSuccess F f s) = pushed s"
  "wire (futureSuccess F f s) = wire s" "nil_writes (futureSuccess F f s) = nil_writes s"
  "taken (futureSuccess F f s) = taken s" "buffer (futureSuccess F f s) = buffer s"
  by (simp_all add: futureFail_def futureSuccess_def)

declare clean.simps(2) [simp del]

section \<open>Every step keeps the invariants\<close>

text \<open>One shape for all steps of goroutines.\<close>

lemma wstep_thread_cases:
  assumes "wstep Q F reopen (s, ps) (s', ps')"
  obtains (thread) res p p' new xs ys where "thread_step Q F res p s = (p', s', new)" "p \<noteq> Ended"
      "ps = xs @ p # ys" "ps' = xs @ p' # ys @ new"
  | (call) f obj where "f \<notin> set (used s)" "s' = s\<lparr>used := f # used s\<rparr>" "ps' = ps @ [WStart obj f]"
  | (deactivate) "s' = s\<lparr>active := False\<rparr>" "ps' = ps"
  | (close) "s' = s\<lparr>closed := True\<rparr>" "ps' = ps"
  | (activate) "reopen" "s' = s\<lparr>active := True\<rparr>" "ps' = ps"
  using assms by (cases rule: wstep.cases) auto

fun_cases thread_stepE: "thread_step Q F res p s = (p', s', new)"

lemma one_drainer_step:
  assumes "one_drainer s ps" and "wstep Q F reopen (s, ps) (s', ps')"
  shows "one_drainer s' ps'"
  using assms(2)
proof (cases rule: wstep_thread_cases)
  case (thread res p p' new xs ys)
  show ?thesis
    using thread(1)
    by (rule thread_stepE)
      (use thread assms(1) in \<open>auto simp: one_drainer_def split: if_splits prod.splits option.splits\<close>)
qed (use assms(1) in \<open>auto simp: one_drainer_def\<close>)

lemma sole_holder:
  assumes "one_drainer s (xs @ p # ys)" and "holder p"
  shows "\<forall>q \<in> set xs \<union> set ys. \<not> holder q"
  using assms by (auto simp: one_drainer_def filter_empty_conv split: if_splits)

lemma sole_writer:
  "one_drainer s (xs @ p # ys) \<Longrightarrow> holder p \<Longrightarrow> DWrite f \<in> set xs \<or> DWrite f \<in> set ys \<Longrightarrow> False"
  by (drule (1) sole_holder) (auto dest!: bspec [where x = "DWrite f"])

context write_loop
begin

lemma awake_step:
  assumes "awake Q s ps" and "wstep Q F reopen (s, ps) (s', ps')"
  shows "awake Q s' ps'"
  using assms(2)
proof (cases rule: wstep_thread_cases)
  case (thread res p p' new xs ys)
  show ?thesis
  proof (cases "p = DPop")
    case True
    with thread show ?thesis
      using assms(1) by (cases "buffer s" rule: pop_cases) (auto simp: awake_def)
  next
    case pop: False
    show ?thesis
    proof (cases "p = DClean")
      case True
      with thread assms(1) show ?thesis
        using clean_shrinks [of "Suc (QLen Q (buffer s))" s] by (auto simp: awake_def)
    next
      case False
      show ?thesis
        using thread(1)
        by (rule thread_stepE)
          (use thread pop False assms(1) in
            \<open>auto simp: awake_def size_list split: if_splits prod.splits option.splits\<close>)
    qed
  qed
qed (use assms(1) in \<open>auto simp: awake_def\<close>)

lemma some_buffer:
  assumes "in_order Q s ps"
  shows "\<exists>fs. QList Q (buffer s) = map Some fs"
proof -
  have "\<forall>x \<in> set (QList Q (buffer s)). x \<noteq> None"
    using assms unfolding in_order_def by (metis (no_types, lifting) Un_iff image_iff list.set_map
        option.distinct(1) set_append)
  then show ?thesis
    by (intro exI [of _ "map the (QList Q (buffer s))"]) (auto simp: map_idI)
qed

lemma in_order_step:
  assumes "in_order Q s ps" and "one_drainer s ps" and "wstep Q F reopen (s, ps) (s', ps')"
  shows "in_order Q s' ps'"
  using assms(3)
proof (cases rule: wstep_thread_cases)
  case (thread res p p' new xs ys)
  note sole = sole_writer [OF assms(2) [unfolded thread(3)]]
  note buf = some_buffer [OF assms(1)]
  show ?thesis
  proof (cases "p = DPop")
    case True
    with thread sole show ?thesis
      using assms(1) buf
      by (cases "buffer s" rule: pop_cases) (auto simp: in_order_def)
  next
    case pop: False
    show ?thesis
    proof (cases "p = DClean")
      case True
      from buf obtain fs where fs: "QList Q (buffer s) = map Some fs" by blast
      then have "length fs < Suc (QLen Q (buffer s))" by (simp add: size_list)
      from clean_empties(1,2) [OF fs this] True thread sole assms(1) fs show ?thesis
        by (auto simp: in_order_def)
    next
      case False
      show ?thesis
        using thread(1)
        by (rule thread_stepE)
          (use thread pop False assms(1) sole in
            \<open>auto simp: in_order_def list_push split: if_splits prod.splits option.splits\<close>)
    qed
  qed
qed (use assms(1) in \<open>auto simp: in_order_def\<close>)

end

lemma own_future_step:
  assumes "own_future s ps" and "wstep Q F reopen (s, ps) (s', ps')"
  shows "own_future s' ps'"
  using assms(2)
proof (cases rule: wstep_thread_cases)
  case (thread res p p' new xs ys)
  show ?thesis
    using thread(1)
    by (rule thread_stepE)
      (use thread(2-) assms(1) in \<open>auto simp: own_future_def split: if_splits prod.splits option.splits\<close>)
qed (use assms(1) in \<open>auto simp: own_future_def\<close>)

context write_loop
begin

lemma objects_step:
  assumes "objects_ok s" and "own_future s ps" and "in_order Q s ps"
    and "wstep Q F reopen (s, ps) (s', ps')"
  shows "objects_ok s'"
  using assms(4)
proof (cases rule: wstep_thread_cases)
  case (thread res p p' new xs ys)
  show ?thesis
  proof (cases "\<exists>f. p = DWrite f")
    case True
    then obtain f where p: "p = DWrite f" ..
    then have "f \<in> set (taken s)" using assms(3) thread by (auto simp: in_order_def)
    then have "Some f \<in> set (map (\<lambda>x. Some (fst x)) (pushed s))"
      using assms(3) unfolding in_order_def
      by (metis UnI1 image_eqI list.set_map set_append)
    then obtain m where "(f, m) \<in> set (pushed s)" by auto
    moreover from this have "objs s f = Some m" using assms(2) by (auto simp: own_future_def)
    then have "wire s' = wire s @ [(f, Some m)]" "pushed s' = pushed s" using thread p by auto
    ultimately show ?thesis using assms(1) by (auto simp: objects_ok_def)
  next
    case False
    show ?thesis
      using thread(1)
      by (rule thread_stepE)
        (use thread(2-) False assms(1) in
          \<open>auto simp: objects_ok_def split: if_splits prod.splits option.splits\<close>)
  qed
qed (use assms(1) in \<open>auto simp: objects_ok_def\<close>)

lemma success_step:
  assumes "success_ok F s ps" and "in_order Q s ps" and "wstep Q F reopen (s, ps) (s', ps')"
  shows "success_ok F s' ps'"
  using assms(3)
proof (cases rule: wstep_thread_cases)
  case (thread res p p' new xs ys)
  show ?thesis
  proof (cases "p = DClean")
    case True
    from some_buffer [OF assms(2)] obtain fs where fs: "QList Q (buffer s) = map Some fs" by blast
    then have "length fs < Suc (QLen Q (buffer s))" by (simp add: size_list)
    from clean_empties(4) [OF fs this] True thread assms(1) show ?thesis
      by (auto simp: success_ok_def)
  next
    case False
    show ?thesis
      using thread(1)
      by (rule thread_stepE)
        (use thread(2-) False assms(1) in
          \<open>auto simp: success_ok_def futureSuccess_def futureFail_def success_after
            split: if_splits prod.splits option.splits\<close>)
  qed
qed (use assms(1) in \<open>auto simp: success_ok_def\<close>)

lemma accounted_step:
  assumes "accounted Q F s ps" and "in_order Q s ps" and "wstep Q F False (s, ps) (s', ps')"
  shows "accounted Q F s' ps'"
  using assms(3)
proof (cases rule: wstep_thread_cases)
  case (thread res p p' new xs ys)
  consider "p = DClean" | "p = DPop" | "p \<noteq> DClean" "p \<noteq> DPop" by blast
  then show ?thesis
  proof cases
    case 1
    from some_buffer [OF assms(2)] obtain fs where fs: "QList Q (buffer s) = map Some fs" by blast
    then have "length fs < Suc (QLen Q (buffer s))" by (simp add: size_list)
    from clean_empties(1,3) [OF fs this] 1 thread assms(1) fs show ?thesis
      by (fastforce simp: accounted_def)
  next
    case 2
    with thread assms(1) some_buffer [OF assms(2)] show ?thesis
      by (cases "buffer s" rule: pop_cases) (auto simp: accounted_def)
  next
    case 3
    show ?thesis
      using thread(1)
      by (rule thread_stepE)
        (use thread(2-) 3 assms(1) in
          \<open>auto simp: accounted_def list_push futureSuccess_def futureFail_def
            split: if_splits prod.splits option.splits\<close>)
  qed
qed (use assms(1) in \<open>auto simp: accounted_def\<close>)

end

section \<open>Reachable states\<close>

lemma wstart_inv:
  "one_drainer (wstart Q F a) []" "own_future (wstart Q F a) []" "objects_ok (wstart Q F a)"
  by (simp_all add: one_drainer_def own_future_def objects_ok_def wstart_def)

context write_loop
begin

lemma wstart_inv_q:
  "awake Q (wstart Q F a) []" "in_order Q (wstart Q F a) []" "success_ok F (wstart Q F a) []"
  "accounted Q F (wstart Q F a) []"
  by (simp_all add: awake_def in_order_def success_ok_def accounted_def wstart_def list_empty)

lemma reach_inv:
  assumes "wreach Q F reopen s ps"
  shows "one_drainer s ps \<and> awake Q s ps \<and> in_order Q s ps \<and> own_future s ps \<and> objects_ok s
    \<and> success_ok F s ps"
  using assms
proof (induction rule: wreach_induct)
  case (step s ps s' ps')
  then show ?case
    using one_drainer_step [OF _ step(2)] awake_step [OF _ step(2)] in_order_step [OF _ _ step(2)]
      own_future_step [OF _ step(2)] objects_step [OF _ _ _ step(2)] success_step [OF _ _ step(2)]
    by simp
qed (simp add: wstart_inv wstart_inv_q)

lemma reach_accounted:
  assumes "wreach Q F False s ps"
  shows "accounted Q F s ps \<and> in_order Q s ps \<and> one_drainer s ps"
  using assms
proof (induction rule: wreach_induct)
  case (step s ps s' ps')
  then show ?case
    using accounted_step [OF _ _ step(2)] in_order_step [OF _ _ step(2)] one_drainer_step [OF _ step(2)]
    by simp
qed (simp add: wstart_inv wstart_inv_q)

lemma ended_empty:
  assumes "wreach Q F reopen s ps" and "set ps \<subseteq> {Ended}"
  shows "QList Q (buffer s) = []" and "\<not> writeS s"
proof -
  from reach_inv [OF assms(1)] have inv: "one_drainer s ps" "awake Q s ps" by auto
  have "filter holder ps = []" using assms(2) by (auto simp: filter_empty_conv)
  with inv(1) show "\<not> writeS s" by (simp add: one_drainer_def split: if_splits)
  with inv(2) assms(2) show "QList Q (buffer s) = []" by (auto simp: awake_def)
qed

lemma ended_done:
  assumes "wreach Q F False s ps" and "set ps \<subseteq> {Ended}" and "f \<in> set (used s)"
  shows "IsDone F (futs s f)"
proof -
  have "pending p = []" "hand p = []" if "p \<in> set ps" for p
    using assms(2) that by auto
  then show ?thesis
    using reach_accounted [OF assms(1)] ended_empty [OF assms(1,2)] assms(3)
    by (auto simp: accounted_def)
qed

lemma wire_is_pushed:
  assumes "wreach Q F reopen s ps"
  shows "subseq (wire s) (map (\<lambda>(f, m). (f, Some m)) (pushed s)) \<and> distinct (map fst (wire s))"
proof -
  from reach_inv [OF assms] have ord: "in_order Q s ps" and own: "own_future s ps"
    and obj: "objects_ok s" by auto
  have "map Some (taken s) = take (length (taken s)) (map (\<lambda>x. Some (fst x)) (pushed s))"
    using ord by (auto simp: in_order_def dest!: sym [of "_ @ _"])
  then have "map the (map Some (taken s))
      = map the (take (length (taken s)) (map (\<lambda>x. Some (fst x)) (pushed s)))" by simp
  then have "taken s = take (length (taken s)) (map fst (pushed s))"
    by (simp add: take_map comp_def)
  then have "subseq (taken s) (map fst (pushed s))"
    by (metis take_is_prefix prefix_imp_subseq)
  with ord have sub: "subseq (map fst (wire s)) (map fst (pushed s))"
    by (auto simp: in_order_def intro: subseq_order.trans)
  have dist: "distinct (map fst (pushed s))" using own by (simp add: own_future_def)
  have "wire s = map (\<lambda>f. (f, map_of (pushed s) f)) (map fst (wire s))"
    using obj dist by (intro nth_equalityI) (auto simp: objects_ok_def all_set_conv_all_nth
        intro!: prod_eqI map_of_is_SomeI [symmetric]) 
  moreover have "map (\<lambda>(f, m). (f, Some m)) (pushed s)
      = map (\<lambda>f. (f, map_of (pushed s) f)) (map fst (pushed s))"
    using dist by (auto intro!: map_of_is_SomeI [symmetric])
  ultimately have "subseq (wire s) (map (\<lambda>(f, m). (f, Some m)) (pushed s))"
    using subseq_map [OF sub] by metis
  moreover have "distinct (map fst (wire s))"
    using sub dist by (auto simp: subseq_conv_nths intro: distinct_nthsI)
  ultimately show ?thesis by blast
qed

end

section \<open>The goroutines finish\<close>

text \<open>A step of a goroutine, with no new caller and no change from outside.\<close>

definition wthread ::
  "('q, nat) queue_ops \<Rightarrow> 'f promise_ops \<Rightarrow> ('q, 'f, 'm) wshared \<times> 'm pc list
     \<Rightarrow> ('q, 'f, 'm) wshared \<times> 'm pc list \<Rightarrow> bool" where
  "wthread Q F c c' \<longleftrightarrow> (\<exists>res p p' new xs ys. thread_step Q F res p (fst c) = (p', fst c', new)
     \<and> p \<noteq> Ended \<and> snd c = xs @ p # ys \<and> snd c' = xs @ p' # ys @ new)"

lemma wthread_wstep: "wthread Q F c c' \<Longrightarrow> wstep Q F reopen c c'"
  by (cases c; cases c') (auto simp: wthread_def intro: wstep.thread)

text \<open>
  How far a goroutine is from its end, given whether the channel is active and the buffer empty: a
  goroutine can only get further away when a message is buffered, one is popped, or the channel goes
  inactive.
\<close>

fun weight :: "bool \<Rightarrow> bool \<Rightarrow> 'm pc \<Rightarrow> nat" where
  "weight a e (WStart _ _) = 30"
| "weight a e (WPush _ _) = 29"
| "weight a e (WRecheck _) = 29"
| "weight a e Ended = 0"
| "weight a e DLen = (if e then 1 else if a then 4 else 5)"
| "weight a e DReset = (if e then 2 else if a then 5 else 6)"
| "weight a e DClean = (if e then 3 else if a then 7 else 1)"
| "weight a e DCheck = (if e then 4 else if a then 6 else 2)"
| "weight a e DPop = (if e then 5 else 1)"
| "weight a e DLoop = (if e then 6 else if a then 2 else 3)"
| "weight a e WMark = (if e then 7 else if a then 3 else 4)"
| "weight a e (DSucceed _) = (if e then 7 else if a then 3 else 4)"
| "weight a e (DFail _ _) = (if e then 7 else if a then 3 else 4)"
| "weight a e (DInactive _ _) = (if e then 8 else if a then 4 else 5)"
| "weight a e (DWrite _) = (if e then 9 else if a then 5 else 6)"

definition progress ::
  "('q, nat) queue_ops \<Rightarrow> ('q, 'f, 'm) wshared \<times> 'm pc list \<Rightarrow> nat \<times> nat \<times> nat \<times> nat" where
  "progress Q c = (length (concat (map pending (snd c))), (if active (fst c) then 1 else 0),
     length (QList Q (buffer (fst c))),
     sum_list (map (weight (active (fst c)) (QList Q (buffer (fst c)) = [])) (snd c)))"

definition further :: "((nat \<times> nat \<times> nat \<times> nat) \<times> (nat \<times> nat \<times> nat \<times> nat)) set" where
  "further = less_than <*lex*> less_than <*lex*> less_than <*lex*> less_than"

lemma wf_further: "wf further"
  by (auto simp: further_def)

context write_loop
begin

lemma clean_le: "length (QList Q (buffer (clean Q F n s))) \<le> length (QList Q (buffer s))"
proof (induction n arbitrary: s)
  case (Suc n)
  show ?case
  proof (cases "buffer s" rule: pop_cases)
    case (elem f q' xs)
    then show ?thesis
      using Suc [of "futureFail F f (if closed s then ErrChannelClosed else ErrChannelNotActive)
          (s\<lparr>buffer := q', taken := taken s @ [f]\<rparr>)"]
      by (simp add: clean.simps(2))
  qed (simp_all add: clean.simps(2))
qed simp

lemma clean_less:
  assumes "QList Q (buffer s) \<noteq> []"
  shows "length (QList Q (buffer (clean Q F (Suc n) s))) < length (QList Q (buffer s))"
proof (cases "buffer s" rule: pop_cases)
  case (elem f q' xs)
  then show ?thesis
    using clean_le [of n "futureFail F f (if closed s then ErrChannelClosed else ErrChannelNotActive)
        (s\<lparr>buffer := q', taken := taken s @ [f]\<rparr>)"]
    by (simp add: clean.simps(2))
qed (use assms in \<open>simp_all add: clean.simps(2)\<close>)

lemma wthread_progress:
  assumes "wthread Q F (s, ps) (s', ps')"
  shows "(progress Q (s', ps'), progress Q (s, ps)) \<in> further"
proof -
  from assms obtain res p p' new xs ys where
    th: "thread_step Q F res p s = (p', s', new)" "p \<noteq> Ended" "ps = xs @ p # ys"
      "ps' = xs @ p' # ys @ new"
    by (auto simp: wthread_def)
  consider "p = DClean" | "p = DPop" | "p \<noteq> DClean" "p \<noteq> DPop" by blast
  then show ?thesis
  proof cases
    case 1
    show ?thesis
    proof (cases "QList Q (buffer s) = []")
      case True
      then have "QList Q (buffer (clean Q F n s)) = []" for n
        using clean_le [of n s] by simp
      with 1 th True show ?thesis by (auto simp: progress_def further_def)
    next
      case False
      with 1 th clean_less [OF False, of "QLen Q (buffer s)"] show ?thesis
        by (auto simp: progress_def further_def)
    qed
  next
    case 2
    with th show ?thesis
      by (cases "buffer s" rule: pop_cases) (auto simp: progress_def further_def)
  next
    case 3
    show ?thesis
      using th(1)
      by (rule thread_stepE)
        (use th(2-) 3 in \<open>auto simp: progress_def further_def list_push size_list
          split: if_splits prod.splits option.splits\<close>)
  qed
qed

lemma wthread_wf: "wf {(c', c). wthread Q F c c'}"
proof (rule wf_subset [OF wf_inv_image [OF wf_further, of "progress Q"]])
  show "{(c', c). wthread Q F c c'} \<subseteq> inv_image further (progress Q)"
    using wthread_progress by (fastforce simp: in_inv_image)
qed

end

lemma wthread_stuck:
  assumes "\<nexists>c'. wthread Q F (s, ps) c'"
  shows "set ps \<subseteq> {Ended}"
proof (rule ccontr)
  assume "\<not> set ps \<subseteq> {Ended}"
  then obtain p where "p \<in> set ps" "p \<noteq> Ended" by auto
  moreover from this obtain xs ys where "ps = xs @ p # ys" by (meson split_list)
  moreover obtain p' s' new where "thread_step Q F None p s = (p', s', new)"
    by (metis prod_cases3)
  ultimately have "wthread Q F (s, ps) (s', xs @ p' # ys @ new)"
    unfolding wthread_def fst_conv snd_conv by blast
  with assms show False by blast
qed

section \<open>Properties\<close>

lemma write_loop_intro: "promise F \<Longrightarrow> fifo_ops Q \<Longrightarrow> write_loop F Q"
  by (simp add: write_loop_def)

interpretation wl: write_loop option_promise plain_queue
  by (rule write_loop_intro) (auto simp: plain_queue_fifo intro: op.promise_axioms)

text \<open>
  C8. However the goroutines and the channel's state interleave: at most one goroutine is in the
  write loop, UnsafeWrite gets the objects one by one in the order in which they were buffered, each
  at most once and exactly as given, and a future that reports success is that of an object handed to
  UnsafeWrite or of a nil write.
\<close>

theorem writes_in_order:
  assumes "promise F" and "fifo_ops Q" and "wreach Q F reopen s ps"
  shows "length (filter holder ps) \<le> 1
    \<and> subseq (wire s) (map (\<lambda>(f, m). (f, Some m)) (pushed s)) \<and> distinct (map fst (wire s))
    \<and> (\<forall>f. IsSuccess F (futs s f) \<longrightarrow> f \<in> fst ` set (wire s) \<or> f \<in> set (nil_writes s))"
proof -
  have wl: "write_loop F Q" using assms(1,2) by (rule write_loop_intro)
  show ?thesis
    using write_loop.reach_inv [OF wl assms(3)] write_loop.wire_is_pushed [OF wl assms(3)]
    by (simp add: one_drainer_def success_ok_def)
qed


text \<open>Runs built step by step.\<close>

lemma wreach_start: "wreach Q F reopen (wstart Q F a) []"
  by (auto simp: wreach_def)

lemma wreach_step: "wreach Q F reopen s ps \<Longrightarrow> wstep Q F reopen (s, ps) (s', ps') \<Longrightarrow> wreach Q F reopen s' ps'"
  unfolding wreach_def by (blast intro: rtranclp.rtrancl_into_rtrancl)

lemma wreach_call:
  "wreach Q F reopen s ps \<Longrightarrow> f \<notin> set (used s)
     \<Longrightarrow> wreach Q F reopen (s\<lparr>used := f # used s\<rparr>) (ps @ [WStart obj f])"
  by (erule wreach_step) (rule wstep.call)

lemma wreach_thread:
  "wreach Q F reopen s (xs @ p # ys) \<Longrightarrow> thread_step Q F res p s = (p', s', new) \<Longrightarrow> p \<noteq> Ended
     \<Longrightarrow> wreach Q F reopen s' (xs @ p' # ys @ new)"
  by (erule wreach_step) (rule wstep.thread)

lemma wreach_only:
  "wreach Q F reopen s [p] \<Longrightarrow> thread_step Q F res p s = (p', s', new) \<Longrightarrow> p \<noteq> Ended
     \<Longrightarrow> wreach Q F reopen s' (p' # new)"
  using wreach_thread [of Q F reopen s "[]" p "[]"] by simp

lemma wreach_second:
  "wreach Q F reopen s [x, p] \<Longrightarrow> thread_step Q F res p s = (p', s', new) \<Longrightarrow> p \<noteq> Ended
     \<Longrightarrow> wreach Q F reopen s' (x # p' # new)"
  using wreach_thread [of Q F reopen s "[x]" p "[]"] by simp

definition demo_call :: "(nat queue, (string + unit) option, string) wshared" where
  "demo_call = (wstart plain_queue option_promise True)\<lparr>used := [0]\<rparr>"

lemma demo_call_reach: "wreach plain_queue option_promise reopen demo_call [WStart (Some ''a'') 0]"
  using wreach_call [OF wreach_start, of 0 plain_queue option_promise True reopen "Some ''a''"]
  by (simp add: demo_call_def wstart_def)

theorem writes_in_order_witness:
  "length (filter holder [WStart (Some ''a'') 0]) \<le> 1
    \<and> subseq (wire demo_call) (map (\<lambda>(f, m). (f, Some m)) (pushed demo_call))"
  using writes_in_order [OF op.promise_axioms plain_queue_fifo demo_call_reach] by blast


text \<open>
  The race on IsActive: Write asks twice whether the channel is active. If it is inactive the
  first time and active the second, the message is neither buffered nor refused: every goroutine
  finishes and the future stays open for good, on an active channel.
\<close>

theorem reopened_write_never_settles:
  assumes "promise F" and "fifo_ops Q"
  shows "\<exists>s ps. wreach Q F True (s :: ('q, 'f, 'm) wshared) ps \<and> set ps \<subseteq> {Ended} \<and> active s
    \<and> 0 \<in> set (used s) \<and> \<not> IsDone F (futs s 0)"
proof -
  fix m :: 'm
  let ?st = "\<lambda>a w u. \<lparr>active = a, closed = False, writeS = w, buffer = QEmpty Q, futs = \<lambda>_. PNew F,
    objs = Map.empty, used = u, pushed = [], taken = [], wire = [], nil_writes = []\<rparr>
      :: ('q, 'f, 'm) wshared"
  let ?reach = "\<lambda>a w ps. wreach Q F True (?st a w [0]) ps"
  have pop: "QPop Q (QEmpty Q) = (None, QEmpty Q)" "QLen Q (QEmpty Q) = 0"
    using assms(2) by (simp_all add: fifo.pop_empty fifo.list_empty fifo.size_list)
  have "?reach False False [WStart (Some m) 0]"
    using wreach_call [OF wreach_start, of 0 Q F False True "Some m"] by (simp add: wstart_def)
  then have "?reach False False [WRecheck 0]"
    by (rule wreach_only) simp_all
  then have "?reach True False [WRecheck 0]"
    using wreach_step [OF _ wstep.activate [of True Q F "?st False False [0]" "[WRecheck 0]"]] by simp
  then have "?reach True False [WMark]"
    by (rule wreach_only) simp_all
  then have "?reach True True [Ended, DLoop]"
    by (rule wreach_only) simp_all
  then have "?reach True True [Ended, DPop]"
    by (rule wreach_second) simp_all
  then have "?reach True True [Ended, DCheck]"
    by (rule wreach_second) (simp_all add: pop)
  then have "?reach True True [Ended, DReset]"
    by (rule wreach_second) simp_all
  then have "?reach True False [Ended, DLen]"
    by (rule wreach_second) simp_all
  then have "?reach True False [Ended, Ended]"
    by (rule wreach_second) (simp_all add: pop)
  then show ?thesis
    using promise.new_open [OF assms(1)]
    by (intro exI [of _ "?st True False [0]"] exI [of _ "[Ended, Ended]"]) simp
qed

theorem reopened_write_never_settles_witness:
  "\<exists>s ps. wreach plain_queue option_promise True
       (s :: (nat queue, (string + unit) option, string) wshared) ps
     \<and> set ps \<subseteq> {Ended} \<and> active s \<and> 0 \<in> set (used s) \<and> \<not> IsDone option_promise (futs s 0)"
  by (rule reopened_write_never_settles [OF op.promise_axioms plain_queue_fifo])

end
