(* ===== verification/Channel_Lifecycle.thy ===== *)
theory Channel_Lifecycle
  imports Channel_Future
begin

text \<open>
  The life of a channel: \<open>activeChannel\<close>, \<open>inactiveChannel\<close> and \<open>IsActive\<close> of \<open>channel/channel.go\<close>,
  and \<open>Bind\<close>, \<open>Close\<close>, \<open>Connect\<close>, \<open>Disconnect\<close> and \<open>Read\<close> of \<open>channel/unsafe.go\<close>. Each call runs
  partly in its caller and partly in a goroutine; the model is a transition system of such threads, one
  step per access to shared state. The lemmas show that there is never more than one reading goroutine,
  that the threads finish, which futures are settled and which never are, and what a read that came too
  early does to the channel.
\<close>

section \<open>Shared state and threads\<close>

text \<open>
  \<open>alive\<close>: nil, a future not done yet (of the activation with this number), or done. \<open>l_flag\<close> are the
  four flags of the operations, \<open>l_closed\<close> is \<open>CloseFuture().IsDone()\<close>. \<open>l_incoming\<close> is what
  \<open>UnsafeRead\<close> will answer. The remaining fields are history: the events fired into the pipeline, the
  objects read, the clean-ups that finished, the futures given to calls, and those of calls that turned
  back at a guard.
\<close>

datatype alive = Never | Pending nat | Settled

datatype lop = OBind | OClose | OConnect | ODisconnect

datatype 'm levent = LActive | LInactive | LUnregistered | LRead 'm | LReadCompleted | LReleased

datatype 'm read_answer = RObj 'm | RNil | RSkip | RError

record ('f, 'm) life =
  l_alive :: alive
  l_gen :: nat
  l_closed :: bool
  l_flag :: "lop \<Rightarrow> bool"
  l_readS :: bool
  l_futs :: "nat \<Rightarrow> 'f"
  l_incoming :: "'m read_answer list"
  l_events :: "'m levent list"
  l_got :: "'m list"
  l_cleaned :: "nat set"
  l_used :: "nat list"
  l_refused :: "nat list"

definition is_active :: "('f, 'm) life \<Rightarrow> bool" where
  "is_active s \<longleftrightarrow> (\<exists>g. l_alive s = Pending g)"

text \<open>
  Where a thread is. The Op states belong to one call of an operation with its future, ReadMark and
  ReadCheck to a call of \<open>Read\<close> (inside an activation, or by a user), the R states to the reading
  goroutine with its variable \<open>lastObjRead\<close>, the K states to the callback \<open>inactiveChannel\<close> leaves on the
  \<open>alive\<close> future.
\<close>

datatype 'm lpc =
    OpStart lop nat | OpCheck lop nat | OpRun lop nat | OpActivate lop nat | OpFireActive lop nat
  | ReadMark "(lop \<times> nat) option" | ReadCheck "(lop \<times> nat) option"
  | OpInact lop nat | OpFireUnreg lop nat | OpAwait nat nat | OpAfter lop nat | CloseFut nat
  | OpSucceed lop nat | OpFail lop nat | OpReset lop | FailNow nat
  | RLoop bool | RRead bool | RFire 'm | RSkipped bool | RCompleted | RAuto bool | RInact | RUnreg | RReset
  | KInactive nat | KUnregistered nat | KClose nat | KRelease nat | KDone nat
  | LEnded

text \<open>What the type of the channel offers: the \<open>UnsafeX\<close> methods, and \<open>UnsafeIsAutoRead\<close>.\<close>

record chan_type =
  ct_has :: "lop \<Rightarrow> bool"
  ct_reads :: bool
  ct_auto :: bool

definition fire_event :: "'m levent \<Rightarrow> ('f, 'm) life \<Rightarrow> ('f, 'm) life" where
  "fire_event e s = s\<lparr>l_events := l_events s @ [e]\<rparr>"

definition complete_fut :: "'f promise_ops \<Rightarrow> nat \<Rightarrow> ('f, 'm) life \<Rightarrow> ('f, 'm) life" where
  "complete_fut F f s = s\<lparr>l_futs := (l_futs s)(f := snd (PComplete F (l_futs s f)))\<rparr>"

definition fail_fut :: "'f promise_ops \<Rightarrow> string \<Rightarrow> nat \<Rightarrow> ('f, 'm) life \<Rightarrow> ('f, 'm) life" where
  "fail_fut F e f s = s\<lparr>l_futs := (l_futs s)(f := snd (PFail F e (l_futs s f)))\<rparr>"

definition refuse :: "nat \<Rightarrow> ('f, 'm) life \<Rightarrow> ('f, 'm) life" where
  "refuse f s = s\<lparr>l_refused := f # l_refused s\<rparr>"

definition set_flag :: "lop \<Rightarrow> bool \<Rightarrow> ('f, 'm) life \<Rightarrow> ('f, 'm) life" where
  "set_flag op b s = s\<lparr>l_flag := (l_flag s)(op := b)\<rparr>"

text \<open>
  \<open>inactiveChannel\<close> under its lock: who calls it first starts the callback, on a channel that was never
  active \<open>alive\<close> becomes a failed future and the caller fires Unregistered itself, everyone else gets a
  completed future at once. The three arguments are the next states of the caller.
\<close>

definition inactivate ::
  "(nat \<Rightarrow> 'm lpc) \<Rightarrow> 'm lpc \<Rightarrow> 'm lpc \<Rightarrow> ('f, 'm) life \<Rightarrow> 'm lpc \<times> ('f, 'm) life \<times> 'm lpc list" where
  "inactivate first never later s = (case l_alive s of
       Pending g \<Rightarrow> (first g, s\<lparr>l_alive := Settled\<rparr>, [KInactive g])
     | Never \<Rightarrow> (never, s\<lparr>l_alive := Settled\<rparr>, [])
     | Settled \<Rightarrow> (later, s, []))"

text \<open>\<open>activeChannel\<close> under its lock; the Active event and the Read that follow are steps of their own.\<close>

definition activate :: "('f, 'm) life \<Rightarrow> ('f, 'm) life" where
  "activate s = s\<lparr>l_alive := Pending (l_gen s), l_gen := Suc (l_gen s)\<rparr>"

definition after_read :: "(lop \<times> nat) option \<Rightarrow> 'm lpc" where
  "after_read k = (case k of None \<Rightarrow> LEnded | Some (op, f) \<Rightarrow> OpSucceed op f)"

text \<open>
  One step; None is a thread that waits. \<open>ok\<close> says whether \<open>UnsafeBind\<close> or \<open>UnsafeConnect\<close> succeeds.
  \<open>Bind\<close> sets its flag before it looks whether the channel can be bound at all.
\<close>

fun lthread ::
  "'f promise_ops \<Rightarrow> chan_type \<Rightarrow> bool \<Rightarrow> 'm lpc \<Rightarrow> ('f, 'm) life
     \<Rightarrow> ('m lpc \<times> ('f, 'm) life \<times> 'm lpc list) option" where
  "lthread F T ok (OpStart op f) s =
     (if (op = OBind \<or> ct_has T op) \<and> \<not> l_flag s op then Some (OpCheck op f, set_flag op True s, [])
      else Some (LEnded, refuse f s, []))"
| "lthread F T ok (OpCheck op f) s =
     (if ct_has T op \<and> \<not> l_closed s then Some (OpRun op f, s, []) else Some (LEnded, refuse f s, []))"
| "lthread F T ok (OpRun op f) s =
     (if op = OClose \<or> op = ODisconnect \<or> \<not> ok then Some (OpInact op f, s, []) else Some (OpActivate op f, s, []))"
| "lthread F T ok (OpActivate op f) s =
     Some (OpFireActive op f, activate s, [])"
| "lthread F T ok (OpFireActive op f) s = Some (ReadMark (Some (op, f)), fire_event LActive s, [])"
| "lthread F T ok (ReadMark k) s =
     (if ct_reads T \<and> \<not> l_readS s then Some (ReadCheck k, s\<lparr>l_readS := True\<rparr>, []) else Some (after_read k, s, []))"
| "lthread F T ok (ReadCheck k) s = Some (after_read k, s, if is_active s then [RLoop False] else [])"
| "lthread F T ok (OpInact op f) s =
     Some (inactivate (\<lambda>g. if op = OClose then OpAwait f g else OpAfter op f) (OpFireUnreg op f) (OpAfter op f) s)"
| "lthread F T ok (OpFireUnreg op f) s = Some (OpAfter op f, fire_event LUnregistered s, [])"
| "lthread F T ok (OpAwait f g) s = (if g \<in> l_cleaned s then Some (OpAfter OClose f, s, []) else None)"
| "lthread F T ok (OpAfter op f) s =
     Some ((case op of OClose \<Rightarrow> CloseFut f | ODisconnect \<Rightarrow> OpSucceed op f | _ \<Rightarrow> OpFail op f), s, [])"
| "lthread F T ok (CloseFut f) s = Some (OpSucceed OClose f, s\<lparr>l_closed := True\<rparr>, [])"
| "lthread F T ok (OpSucceed op f) s = Some (OpReset op, complete_fut F f s, [])"
| "lthread F T ok (OpFail op f) s = Some (OpReset op, fail_fut F ''unsafe error'' f s, [])"
| "lthread F T ok (OpReset op) s = Some (LEnded, set_flag op False s, [])"
| "lthread F T ok (FailNow f) s = Some (LEnded, fail_fut F ''addr is empty'' f s, [])"
| "lthread F T ok (RLoop lo) s = Some (if is_active s then RRead lo else RReset, s, [])"
| "lthread F T ok (RRead lo) s = (case l_incoming s of
       [] \<Rightarrow> None
     | a # as \<Rightarrow> let s1 = s\<lparr>l_incoming := as\<rparr> in
         (case a of
            RObj m \<Rightarrow> Some (RFire m, s1\<lparr>l_got := l_got s @ [m]\<rparr>, [])
          | RNil \<Rightarrow> Some (RAuto lo, s1, [])
          | RSkip \<Rightarrow> Some (RSkipped lo, s1, [])
          | RError \<Rightarrow> Some (RInact, s1, [])))"
| "lthread F T ok (RFire m) s = Some (RAuto True, fire_event (LRead m) s, [])"
| "lthread F T ok (RSkipped lo) s = Some (if is_active s \<and> lo then RCompleted else RAuto lo, s, [])"
| "lthread F T ok RCompleted s = Some (RAuto False, fire_event LReadCompleted s, [])"
| "lthread F T ok (RAuto lo) s = Some (if ct_auto T then RLoop lo else RReset, s, [])"
| "lthread F T ok RInact s = Some (inactivate (\<lambda>g. RReset) RUnreg RReset s)"
| "lthread F T ok RUnreg s = Some (RReset, fire_event LUnregistered s, [])"
| "lthread F T ok RReset s = Some (LEnded, s\<lparr>l_readS := False\<rparr>, [])"
| "lthread F T ok (KInactive g) s = Some (KUnregistered g, fire_event LInactive s, [])"
| "lthread F T ok (KUnregistered g) s = Some (KClose g, fire_event LUnregistered s, [])"
| "lthread F T ok (KClose g) s = Some (KRelease g, s\<lparr>l_closed := True\<rparr>, [])"
| "lthread F T ok (KRelease g) s = Some (KDone g, fire_event LReleased s, [])"
| "lthread F T ok (KDone g) s = Some (LEnded, s\<lparr>l_cleaned := insert g (l_cleaned s)\<rparr>, [])"
| "lthread F T ok LEnded s = None"

lemmas life_defs = Let_def inactivate_def activate_def fire_event_def complete_fut_def fail_fut_def refuse_def
  set_flag_def after_read_def

lemmas life_splits = if_splits option.splits prod.splits list.splits read_answer.splits alive.splits lop.splits

text \<open>
  The system: a thread takes a step, somebody calls an operation with a future of its own (without an
  address \<open>Bind\<close> and \<open>Connect\<close> fail it at once) or \<open>Read\<close>, or the peer sends something.
\<close>

inductive lrun :: "'f promise_ops \<Rightarrow> chan_type \<Rightarrow> ('f, 'm) life \<times> 'm lpc list \<Rightarrow> ('f, 'm) life \<times> 'm lpc list \<Rightarrow> bool"
  for F T where
  "lthread F T ok p s = Some (p', s', new) \<Longrightarrow> lrun F T (s, xs @ p # ys) (s', xs @ p' # ys @ new)"

inductive lstep :: "'f promise_ops \<Rightarrow> chan_type \<Rightarrow> ('f, 'm) life \<times> 'm lpc list \<Rightarrow> ('f, 'm) life \<times> 'm lpc list \<Rightarrow> bool"
  for F T where
  thread: "lrun F T c c' \<Longrightarrow> lstep F T c c'"
| call: "f \<notin> set (l_used s) \<Longrightarrow> lstep F T (s, ps) (s\<lparr>l_used := f # l_used s\<rparr>, ps @ [OpStart op f])"
| no_addr: "f \<notin> set (l_used s) \<Longrightarrow> lstep F T (s, ps) (s\<lparr>l_used := f # l_used s\<rparr>, ps @ [FailNow f])"
| read: "lstep F T (s, ps) (s, ps @ [ReadMark None])"
| arrive: "lstep F T (s, ps) (s\<lparr>l_incoming := l_incoming s @ [a]\<rparr>, ps)"

definition new_life :: "'f promise_ops \<Rightarrow> ('f, 'm) life" where
  "new_life F = \<lparr>l_alive = Never, l_gen = 0, l_closed = False, l_flag = (\<lambda>_. False), l_readS = False,
     l_futs = (\<lambda>_. PNew F), l_incoming = [], l_events = [], l_got = [], l_cleaned = {}, l_used = [], l_refused = []\<rparr>"

definition lreach :: "'f promise_ops \<Rightarrow> chan_type \<Rightarrow> ('f, 'm) life \<Rightarrow> 'm lpc list \<Rightarrow> bool" where
  "lreach F T s ps \<longleftrightarrow> (lstep F T)\<^sup>*\<^sup>* (new_life F, []) (s, ps)"

lemma lreach_induct [consumes 1, case_names start step]:
  assumes "lreach F T s ps" and "I (new_life F) []"
    and "\<And>s ps s' ps'. I s ps \<Longrightarrow> lstep F T (s, ps) (s', ps') \<Longrightarrow> I s' ps'"
  shows "I s ps"
proof -
  from assms(1) have "case (s, ps) of (s, ps) \<Rightarrow> I s ps"
    unfolding lreach_def by (induction rule: rtranclp_induct) (use assms(2,3) in auto)
  then show ?thesis by simp
qed

lemma lrun_thread:
  assumes "lrun F T (s, ps) (s', ps')"
  shows "\<exists>ok p p' new xs ys. lthread F T ok p s = Some (p', s', new) \<and> ps = xs @ p # ys \<and> ps' = xs @ p' # ys @ new"
  using assms by (cases rule: lrun.cases) blast

lemma lstep_cases:
  assumes "lstep F T (s, ps) (s', ps')"
  obtains (thread) ok p p' new xs ys where "lthread F T ok p s = Some (p', s', new)"
      "ps = xs @ p # ys" "ps' = xs @ p' # ys @ new"
  | (call) f p where "f \<notin> set (l_used s)" "s' = s\<lparr>l_used := f # l_used s\<rparr>" "ps' = ps @ [p]"
      "p = FailNow f \<or> (\<exists>op. p = OpStart op f)"
  | (read) "s' = s" "ps' = ps @ [ReadMark None]"
  | (arrive) a where "s' = s\<lparr>l_incoming := l_incoming s @ [a]\<rparr>" "ps' = ps"
  using assms
proof (cases rule: lstep.cases)
  case thread
  from lrun_thread [OF this] that(1) show ?thesis by blast
next
  case (call f op)
  with that(2) [of f "OpStart op f"] show ?thesis by simp
next
  case (no_addr f)
  with that(2) [of f "FailNow f"] show ?thesis by simp
next
  case read
  with that(3) show ?thesis by simp
next
  case (arrive a)
  with that(4) [of a] show ?thesis by simp
qed

section \<open>The reading goroutine\<close>

text \<open>The threads between a won \<open>readS\<close> and its reset, and the object one of them holds.\<close>

fun reader :: "'m lpc \<Rightarrow> bool" where
  "reader (ReadCheck _) = True"
| "reader (RLoop _) = True"
| "reader (RRead _) = True"
| "reader (RFire _) = True"
| "reader (RSkipped _) = True"
| "reader RCompleted = True"
| "reader (RAuto _) = True"
| "reader RInact = True"
| "reader RUnreg = True"
| "reader RReset = True"
| "reader _ = False"

fun in_hand :: "'m lpc \<Rightarrow> 'm list" where
  "in_hand (RFire m) = [m]"
| "in_hand _ = []"

fun reads_of :: "'m levent list \<Rightarrow> 'm list" where
  "reads_of [] = []"
| "reads_of (LRead m # es) = m # reads_of es"
| "reads_of (_ # es) = reads_of es"

lemma reads_of_append [simp]: "reads_of (es @ fs) = reads_of es @ reads_of fs"
  by (induction es rule: reads_of.induct) simp_all

lemma readers_none: "length (filter reader ps) = 0 \<Longrightarrow> concat (map in_hand ps) = []"
proof (induction ps)
  case (Cons p ps)
  then show ?case by (cases p) (simp_all split: if_splits)
qed simp

definition reading_ok :: "('f, 'm) life \<Rightarrow> 'm lpc list \<Rightarrow> bool" where
  "reading_ok s ps \<longleftrightarrow> length (filter reader ps) \<le> (if l_readS s then 1 else 0)
     \<and> l_got s = reads_of (l_events s) @ concat (map in_hand ps)"

text \<open>What a step does to the flag, the number of readers and the objects read.\<close>

lemma thread_reading:
  assumes "lthread F T ok p s = Some (p', s', new)"
  shows "(reader p \<longrightarrow> l_readS s' = l_readS s \<or> p = RReset)
     \<and> length (filter reader (p' # new)) \<le> (if reader p \<or> (l_readS s' \<and> \<not> l_readS s) then 1 else 0)
     \<and> (\<not> reader p \<longrightarrow> l_readS s \<longrightarrow> l_readS s')
     \<and> (p = RReset \<longrightarrow> \<not> reader p' \<and> new = [])
     \<and> (\<exists>got es. l_got s' = l_got s @ got \<and> l_events s' = l_events s @ es
         \<and> in_hand p @ got = reads_of es @ concat (map in_hand (p' # new)) \<and> (\<not> reader p \<longrightarrow> got = [] \<and> reads_of es = []))"
  using assms
  by (cases p) (auto simp: life_defs split: life_splits)

lemma reading_step:
  assumes "reading_ok s ps" and "lstep F T (s, ps) (s', ps')"
  shows "reading_ok s' ps'"
  using assms(2)
proof (cases rule: lstep_cases)
  case (thread ok p p' new xs ys)
  note t = thread_reading [OF thread(1)]
  let ?n = "\<lambda>ps. length (filter reader ps)"
  have n: "?n xs + ?n [p] + ?n ys \<le> (if l_readS s then 1 else 0)"
    using assms(1) thread(2) by (auto simp: reading_ok_def split: if_splits)
  have count: "?n xs + ?n (p' # new) + ?n ys \<le> (if l_readS s' then 1 else 0)"
    using n t by (cases "reader p"; cases "l_readS s"; cases "p = RReset") (auto split: if_splits)
  have others: "concat (map in_hand xs) = [] \<and> concat (map in_hand ys) = []" if "reader p"
    using n that readers_none [of xs] readers_none [of ys] by (auto split: if_splits)
  from t obtain got es where g: "l_got s' = l_got s @ got" "l_events s' = l_events s @ es"
      "in_hand p @ got = reads_of es @ concat (map in_hand (p' # new))" "\<not> reader p \<longrightarrow> got = [] \<and> reads_of es = []"
    by blast
  have "l_got s' = reads_of (l_events s') @ concat (map in_hand ps')"
  proof (cases "reader p")
    case True
    then have xs: "concat (map in_hand xs) = []" and ys: "concat (map in_hand ys) = []" using others by blast+
    have "concat (map in_hand ps) = in_hand p" "concat (map in_hand ps') = concat (map in_hand (p' # new))"
      unfolding thread(2,3) by (simp_all only: map_append concat_append list.map concat.simps xs ys append_Nil append_Nil2)
    with g(1-3) assms(1) show ?thesis by (simp only: reading_ok_def reads_of_append append_assoc)
  next
    case False
    then have "in_hand p = []" by (cases p) simp_all
    with g False have "concat (map in_hand (p' # new)) = []" by simp
    with g False \<open>in_hand p = []\<close> assms(1) thread(2,3) show ?thesis by (simp add: reading_ok_def)
  qed
  moreover have "length (filter reader ps') \<le> (if l_readS s' then 1 else 0)"
    using count unfolding thread(3) by (simp only: filter_append length_append filter.simps) (simp split: if_splits)
  ultimately show ?thesis by (simp only: reading_ok_def)
next
  case (call f p)
  with assms(1) show ?thesis by (auto simp: reading_ok_def)
qed (use assms(1) in \<open>simp_all add: reading_ok_def\<close>)

lemma reach_reading: "lreach F T s ps \<Longrightarrow> reading_ok s ps"
proof (induction rule: lreach_induct)
  case start
  show ?case by (simp add: reading_ok_def new_life_def)
qed (rule reading_step)

section \<open>Futures\<close>

text \<open>The future a thread still has to settle.\<close>

fun owed :: "'m lpc \<Rightarrow> nat list" where
  "owed (OpStart _ f) = [f]"
| "owed (OpCheck _ f) = [f]"
| "owed (OpRun _ f) = [f]"
| "owed (OpActivate _ f) = [f]"
| "owed (OpFireActive _ f) = [f]"
| "owed (ReadMark k) = (case k of None \<Rightarrow> [] | Some (_, f) \<Rightarrow> [f])"
| "owed (ReadCheck k) = (case k of None \<Rightarrow> [] | Some (_, f) \<Rightarrow> [f])"
| "owed (OpInact _ f) = [f]"
| "owed (OpFireUnreg _ f) = [f]"
| "owed (OpAwait f _) = [f]"
| "owed (OpAfter _ f) = [f]"
| "owed (CloseFut f) = [f]"
| "owed (OpSucceed _ f) = [f]"
| "owed (OpFail _ f) = [f]"
| "owed (FailNow f) = [f]"
| "owed _ = []"

text \<open>
  A future given to a call is in exactly one of three states: a thread owes it and it is open, its call
  was refused and it is open, or it is settled.
\<close>

definition futures_ok :: "'f promise_ops \<Rightarrow> ('f, 'm) life \<Rightarrow> 'm lpc list \<Rightarrow> bool" where
  "futures_ok F s ps \<longleftrightarrow> distinct (concat (map owed ps) @ l_refused s)
     \<and> set (concat (map owed ps) @ l_refused s) \<subseteq> set (l_used s)
     \<and> (\<forall>f. IsDone F (l_futs s f) \<longleftrightarrow> f \<in> set (l_used s) \<and> f \<notin> set (concat (map owed ps) @ l_refused s))"

lemma thread_futures:
  assumes "lthread F T ok p s = Some (p', s', new)"
  shows "l_used s' = l_used s \<and> concat (map owed new) = []
     \<and> (owed p' = owed p \<and> l_futs s' = l_futs s \<and> l_refused s' = l_refused s
       \<or> (\<exists>f. owed p = [f] \<and> owed p' = [] \<and> l_futs s' = l_futs s \<and> l_refused s' = f # l_refused s)
       \<or> (\<exists>f. owed p = [f] \<and> owed p' = [] \<and> l_refused s' = l_refused s
            \<and> (l_futs s' = (l_futs s)(f := snd (PComplete F (l_futs s f)))
              \<or> (\<exists>e. l_futs s' = (l_futs s)(f := snd (PFail F e (l_futs s f)))))))"
  using assms
  by (cases p) (auto simp: life_defs split: life_splits)

context promise
begin

lemma futures_step:
  assumes "futures_ok F s ps" and "lstep F T (s, ps) (s', ps')"
  shows "futures_ok F s' ps'"
  using assms(2)
proof (cases rule: lstep_cases)
  case (thread ok p p' new xs ys)
  from thread_futures [OF thread(1)] have used: "l_used s' = l_used s" and new: "concat (map owed new) = []"
    and cases: "owed p' = owed p \<and> l_futs s' = l_futs s \<and> l_refused s' = l_refused s
       \<or> (\<exists>f. owed p = [f] \<and> owed p' = [] \<and> l_futs s' = l_futs s \<and> l_refused s' = f # l_refused s)
       \<or> (\<exists>f. owed p = [f] \<and> owed p' = [] \<and> l_refused s' = l_refused s
            \<and> (l_futs s' = (l_futs s)(f := snd (PComplete F (l_futs s f)))
              \<or> (\<exists>e. l_futs s' = (l_futs s)(f := snd (PFail F e (l_futs s f))))))" by blast+
  have now: "concat (map owed ps') = concat (map owed xs) @ owed p' @ concat (map owed ys)"
    using thread(3) new by simp
  have before: "concat (map owed ps) = concat (map owed xs) @ owed p @ concat (map owed ys)"
    using thread(2) by simp
  from cases consider
    "owed p' = owed p" "l_futs s' = l_futs s" "l_refused s' = l_refused s"
  | f where "owed p = [f]" "owed p' = []" "l_futs s' = l_futs s" "l_refused s' = f # l_refused s"
  | f where "owed p = [f]" "owed p' = []" "l_refused s' = l_refused s"
      "\<forall>g. IsDone F (l_futs s' g) \<longleftrightarrow> g = f \<or> IsDone F (l_futs s g)"
    by auto
  then show ?thesis
  proof cases
    case 1
    with assms(1) used show ?thesis unfolding futures_ok_def now before by simp
  next
    case (2 f)
    with assms(1) used show ?thesis unfolding futures_ok_def now before by auto
  next
    case (3 f)
    with assms(1) used show ?thesis unfolding futures_ok_def now before by auto
  qed
next
  case (call f p)
  then have "owed p = [f]" by auto
  with call assms(1) show ?thesis by (auto simp: futures_ok_def)
qed (use assms(1) in \<open>simp_all add: futures_ok_def\<close>)

lemma reach_futures: "lreach F T s ps \<Longrightarrow> futures_ok F s ps"
proof (induction rule: lreach_induct)
  case start
  show ?case by (simp add: futures_ok_def new_life_def)
qed (rule futures_step)

end

section \<open>Nobody waits for ever\<close>

text \<open>Who waits for a clean-up waits for a thread that is still there.\<close>

fun cleans :: "nat \<Rightarrow> 'm lpc \<Rightarrow> bool" where
  "cleans g (KInactive h) = (h = g)"
| "cleans g (KUnregistered h) = (h = g)"
| "cleans g (KClose h) = (h = g)"
| "cleans g (KRelease h) = (h = g)"
| "cleans g (KDone h) = (h = g)"
| "cleans g _ = False"

definition awaited_ok :: "('f, 'm) life \<Rightarrow> 'm lpc list \<Rightarrow> bool" where
  "awaited_ok s ps \<longleftrightarrow> (\<forall>f g. OpAwait f g \<in> set ps \<longrightarrow> g \<in> l_cleaned s \<or> (\<exists>q \<in> set ps. cleans g q))"

lemma thread_cleans:
  assumes "lthread F T ok p s = Some (p', s', new)"
  shows "l_cleaned s \<subseteq> l_cleaned s' \<and> (\<forall>g. cleans g p \<longrightarrow> cleans g p' \<or> g \<in> l_cleaned s')
     \<and> (\<forall>f g. p' = OpAwait f g \<longrightarrow> (\<exists>q \<in> set new. cleans g q)) \<and> (\<forall>f g. OpAwait f g \<notin> set new)"
  using assms
  by (cases p) (auto simp: life_defs split: life_splits)

lemma awaited_step:
  assumes "awaited_ok s ps" and "lstep F T (s, ps) (s', ps')"
  shows "awaited_ok s' ps'"
  using assms(2)
proof (cases rule: lstep_cases)
  case (thread ok p p' new xs ys)
  note t = thread_cleans [OF thread(1)]
  have "g \<in> l_cleaned s' \<or> (\<exists>q \<in> set ps'. cleans g q)" if w: "OpAwait f g \<in> set ps'" for f g
  proof (cases "p' = OpAwait f g")
    case True
    with t thread(3) show ?thesis by auto
  next
    case False
    with w t thread(2,3) have "OpAwait f g \<in> set ps" by auto
    with assms(1) have "g \<in> l_cleaned s \<or> (\<exists>q \<in> set ps. cleans g q)" by (auto simp: awaited_ok_def)
    with t thread(2,3) show ?thesis by auto
  qed
  then show ?thesis by (simp add: awaited_ok_def)
next
  case (call f p)
  with assms(1) show ?thesis by (auto simp: awaited_ok_def)
qed (use assms(1) in \<open>auto simp: awaited_ok_def\<close>)

lemma reach_awaited: "lreach F T s ps \<Longrightarrow> awaited_ok s ps"
proof (induction rule: lreach_induct)
  case start
  show ?case by (simp add: awaited_ok_def)
qed (rule awaited_step)

text \<open>A thread that cannot step is done, or reads and has nothing to read, or awaits a clean-up.\<close>

lemma thread_stuck:
  "lthread F T ok p s = None \<Longrightarrow>
     p = LEnded \<or> (\<exists>lo. p = RRead lo \<and> l_incoming s = []) \<or> (\<exists>f g. p = OpAwait f g \<and> g \<notin> l_cleaned s)"
  by (cases p) (auto simp: Let_def split: if_splits list.splits read_answer.splits)

lemma all_stuck:
  assumes "awaited_ok s ps" and "\<nexists>c'. lrun F T (s, ps) c'" and "p \<in> set ps"
  shows "p = LEnded \<or> (\<exists>lo. p = RRead lo \<and> l_incoming s = [])"
proof -
  have stuck: "lthread F T ok q s = None" if "q \<in> set ps" for q ok
  proof (rule ccontr)
    assume "lthread F T ok q s \<noteq> None"
    then obtain q' s' new where "lthread F T ok q s = Some (q', s', new)" by auto
    moreover from that obtain xs ys where "ps = xs @ q # ys" by (meson split_list)
    ultimately show False using assms(2) lrun.intros by blast
  qed
  have "\<not> cleans g q" if "q \<in> set ps" for g q
    using thread_stuck [OF stuck [OF that, of True]] by auto
  then show ?thesis
    using thread_stuck [OF stuck [OF assms(3), of True]] assms(1,3) by (auto simp: awaited_ok_def)
qed

section \<open>The threads come to an end\<close>

text \<open>More than the number of steps a thread, and what it starts, still takes before it needs input.\<close>

fun work :: "'m lpc \<Rightarrow> nat" where
  "work (OpStart _ _) = 19"
| "work (OpCheck _ _) = 18"
| "work (OpRun _ _) = 17"
| "work (OpActivate _ _) = 16"
| "work (OpFireActive _ _) = 15"
| "work (ReadMark _) = 14"
| "work (ReadCheck _) = 13"
| "work (OpInact _ _) = 11"
| "work (OpFireUnreg _ _) = 5"
| "work (OpAwait _ _) = 5"
| "work (OpAfter _ _) = 4"
| "work (CloseFut _) = 3"
| "work (OpSucceed _ _) = 2"
| "work (OpFail _ _) = 2"
| "work (OpReset _) = 1"
| "work (FailNow _) = 1"
| "work (RLoop _) = 10"
| "work (RRead _) = 9"
| "work (RFire _) = 12"
| "work (RSkipped _) = 13"
| "work RCompleted = 12"
| "work (RAuto _) = 11"
| "work RInact = 8"
| "work RUnreg = 2"
| "work RReset = 1"
| "work (KInactive _) = 5"
| "work (KUnregistered _) = 4"
| "work (KClose _) = 3"
| "work (KRelease _) = 2"
| "work (KDone _) = 1"
| "work LEnded = 0"

definition left :: "('f, 'm) life \<times> 'm lpc list \<Rightarrow> nat" where
  "left c = sum_list (map work (snd c)) + 5 * length (l_incoming (fst c))"

lemma thread_work:
  assumes "lthread F T ok p s = Some (p', s', new)"
  shows "work p' + sum_list (map work new) + 5 * length (l_incoming s') < work p + 5 * length (l_incoming s)"
  using assms
  by (cases p) (auto simp: life_defs split: life_splits)

lemma lrun_left: "lrun F T c c' \<Longrightarrow> left c' < left c"
proof -
  assume "lrun F T c c'"
  then obtain ok p p' s s' new xs ys where "lthread F T ok p s = Some (p', s', new)"
      "c = (s, xs @ p # ys)" "c' = (s', xs @ p' # ys @ new)"
    using lrun_thread [of F T "fst c" "snd c" "fst c'" "snd c'"] by (metis prod.collapse)
  with thread_work [OF this(1)] show ?thesis by (simp add: left_def)
qed

lemma wf_lrun: "wf {(c', c). lrun F T c c'}"
  by (rule wf_subset [OF wf_measure [of left]]) (auto dest: lrun_left)

lemma lrun_ends: "\<exists>c'. (lrun F T)\<^sup>*\<^sup>* c c' \<and> (\<nexists>c''. lrun F T c' c'')"
proof -
  let ?R = "{c'. (lrun F T)\<^sup>*\<^sup>* c c'}"
  from wfE_min [OF wf_lrun, of c ?R F T] obtain z where
    z: "(lrun F T)\<^sup>*\<^sup>* c z" "\<forall>y. lrun F T z y \<longrightarrow> y \<notin> ?R" by auto
  then have "\<nexists>y. lrun F T z y" by (metis mem_Collect_eq rtranclp.rtrancl_into_rtrancl)
  with z(1) show ?thesis by blast
qed

lemma lreach_run: "lreach F T s ps \<Longrightarrow> (lrun F T)\<^sup>*\<^sup>* (s, ps) (s', ps') \<Longrightarrow> lreach F T s' ps'"
  unfolding lreach_def by (metis lstep.thread mono_rtranclp rtranclp_trans)

section \<open>Properties\<close>

text \<open>
  C11. There is never more than one reading goroutine, however Read, Connect, Bind and Close interleave,
  and so the handlers get the objects in the order UnsafeRead delivered them, none twice and none lost
  but the one in its hand.
\<close>

theorem reads_in_order:
  assumes "lreach F T s ps"
  shows "length (filter reader ps) \<le> 1 \<and> l_got s = reads_of (l_events s) @ concat (map in_hand ps)"
  using reach_reading [OF assms] by (auto simp: reading_ok_def split: if_splits)


text \<open>
  C10. A call is settled or refused, once and for all: when the threads have come to rest, a future given
  to Bind, Close, Connect or Disconnect is settled unless its call turned back at the guard (the flag
  was set, the channel lacks the method, or the channel was closed), and the future of a call that
  turned back is never settled, in no state that can ever follow.
\<close>

theorem calls_settle_or_hang:
  assumes "promise F" and "lreach F T s ps"
  shows "(list_all (\<lambda>p. p = LEnded \<or> (\<exists>lo. p = RRead lo)) ps \<longrightarrow>
        list_all (\<lambda>f. IsDone F (l_futs s f) \<longleftrightarrow> f \<notin> set (l_refused s)) (l_used s))
    \<and> ((lstep F T)\<^sup>*\<^sup>* (s, ps) (s', ps') \<longrightarrow> list_all (\<lambda>f. \<not> IsDone F (l_futs s' f)) (l_refused s))"
proof (intro conjI impI)
  have ok: "futures_ok F s ps" using promise.reach_futures [OF assms] .
  assume rest: "list_all (\<lambda>p. p = LEnded \<or> (\<exists>lo. p = RRead lo)) ps"
  then have "concat (map owed ps) = []" by (induction ps) auto
  with ok show "list_all (\<lambda>f. IsDone F (l_futs s f) \<longleftrightarrow> f \<notin> set (l_refused s)) (l_used s)"
    by (simp add: futures_ok_def list_all_iff)
next
  assume "(lstep F T)\<^sup>*\<^sup>* (s, ps) (s', ps')"
  then have "lreach F T s' ps' \<and> set (l_refused s) \<subseteq> set (l_refused s')"
  proof (induction rule: rtranclp_induct2)
    case refl
    with assms(2) show ?case by simp
  next
    case (step s1 ps1 s2 ps2)
    from step.hyps(2) have "set (l_refused s1) \<subseteq> set (l_refused s2)"
    proof (cases rule: lstep_cases)
      case (thread ok p p' new xs ys)
      from thread_futures [OF thread(1)] show ?thesis by auto
    qed auto
    with step show ?case by (auto simp: lreach_def intro: rtranclp.rtrancl_into_rtrancl)
  qed
  then show "list_all (\<lambda>f. \<not> IsDone F (l_futs s' f)) (l_refused s)"
    using promise.reach_futures [OF assms(1), of T s' ps'] by (auto simp: futures_ok_def list_all_iff)
qed

text \<open>
  A Read that comes too early disables reading for good: \<open>Read\<close> sets its flag before it asks
  \<open>IsActive\<close>, and on an inactive channel nobody takes it down. From a state with the flag up and no
  reading goroutine, nothing is ever read again, whatever is called and however often the channel is
  connected.
\<close>

theorem early_read_blocks_reading:
  assumes "l_readS s" and "filter reader ps = []" and "(lstep F T)\<^sup>*\<^sup>* (s, ps) (s', ps')"
  shows "l_readS s' \<and> filter reader ps' = [] \<and> l_got s' = l_got s
    \<and> reads_of (l_events s') = reads_of (l_events s)"
  using assms(3)
proof (induction rule: rtranclp_induct2)
  case refl
  with assms(1,2) show ?case by simp
next
  case (step s1 ps1 s2 ps2)
  from step.hyps(2) show ?case
  proof (cases rule: lstep_cases)
    case (thread ok p p' new xs ys)
    with step.IH have p: "\<not> reader p" "filter reader xs = []" "filter reader ys = []" by (auto split: if_splits)
    note t = thread_reading [OF thread(1)]
    with p step.IH have s2: "l_readS s2" "length (filter reader (p' # new)) \<le> 0" by auto
    then have "filter reader (p' # new) = []" by simp
    with t p s2(1) step.IH thread(3) show ?thesis by (auto split: if_splits)
  next
    case (call f p)
    with step.IH show ?thesis by auto
  qed (use step.IH in simp_all)
qed

section \<open>Runs\<close>

text \<open>A schedule: which thread steps next, with \<open>UnsafeBind\<close> and \<open>UnsafeConnect\<close> succeeding.\<close>

fun follow ::
  "'f promise_ops \<Rightarrow> chan_type \<Rightarrow> nat list \<Rightarrow> ('f, 'm) life \<times> 'm lpc list \<Rightarrow> (('f, 'm) life \<times> 'm lpc list) option" where
  "follow F T [] c = Some c"
| "follow F T (i # is) (s, ps) =
     (if i < length ps then (case lthread F T True (ps ! i) s of
          Some (p', s', new) \<Rightarrow> follow F T is (s', ps[i := p'] @ new)
        | None \<Rightarrow> None)
      else None)"

lemma follow_run: "follow F T is c = Some c' \<Longrightarrow> (lrun F T)\<^sup>*\<^sup>* c c'"
proof (induction F T "is" c rule: follow.induct)
  case (2 F T i "is" s ps)
  then obtain p' s' new where i: "i < length ps" "lthread F T True (ps ! i) s = Some (p', s', new)"
      "follow F T is (s', ps[i := p'] @ new) = Some c'" by (auto split: if_splits option.splits)
  from lrun.intros [OF i(2), of "take i ps" "drop (Suc i) ps"] i(1)
  have "lrun F T (s, ps) (s', ps[i := p'] @ new)"
    by (simp add: id_take_nth_drop [symmetric] upd_conv_take_nth_drop)
  from this 2(1) [OF i(1,2) refl refl i(3)] show ?case by (rule converse_rtranclp_into_rtranclp)
qed simp

lemma follow_reach: "lreach F T s ps \<Longrightarrow> follow F T is (s, ps) = Some (s', ps') \<Longrightarrow> lreach F T s' ps'"
  by (rule lreach_run [OF _ follow_run])

lemma lreach_start: "lreach F T (new_life F) []"
  by (simp add: lreach_def)

lemma lreach_step: "lreach F T s ps \<Longrightarrow> lstep F T (s, ps) (s', ps') \<Longrightarrow> lreach F T s' ps'"
  unfolding lreach_def by (rule rtranclp.rtrancl_into_rtrancl)

text \<open>
  A type of a user's own that can be closed as well; which types the library has is the subject of
  \<open>Channel_Types\<close>.
\<close>

definition client_type :: chan_type where
  "client_type = \<lparr>ct_has = (\<lambda>op. op \<noteq> OBind), ct_reads = True, ct_auto = True\<rparr>"

text \<open>A channel that was connected, got an object, read it and fired it.\<close>

definition connected :: "((string + unit) option, nat) life" where
  "connected = (new_life option_promise)\<lparr>l_used := [0], l_incoming := [RObj 7]\<rparr>"

lemma connected_reach: "lreach option_promise client_type connected [OpStart OConnect 0]"
proof -
  have "lreach option_promise client_type ((new_life option_promise)\<lparr>l_incoming := [RObj 7]\<rparr>) []"
    using lreach_step [OF lreach_start lstep.arrive, of option_promise client_type "RObj 7"]
    by (simp add: new_life_def)
  from lreach_step [OF this lstep.call [of 0]] show ?thesis by (simp add: connected_def new_life_def)
qed

lemma connected_reads:
  "\<exists>s. follow option_promise client_type [0, 0, 0, 0, 0, 0, 0, 1, 1, 1] (connected, [OpStart OConnect 0])
      = Some (s, [OpSucceed OConnect 0, RAuto True]) \<and> reads_of (l_events s) = [7] \<and> l_got s = [7]"
  by (simp add: connected_def client_type_def new_life_def is_active_def life_defs)

theorem reads_in_order_witness:
  "\<exists>s ps. lreach option_promise client_type s ps \<and> length (filter reader ps) = 1 \<and> reads_of (l_events s) = [7 :: nat]
    \<and> l_got s = reads_of (l_events s) @ concat (map in_hand ps)"
proof -
  from connected_reads obtain s where s:
    "follow option_promise client_type [0, 0, 0, 0, 0, 0, 0, 1, 1, 1] (connected, [OpStart OConnect 0])
      = Some (s, [OpSucceed OConnect 0, RAuto True])" "reads_of (l_events s) = [7]" by blast
  have r: "lreach option_promise client_type s [OpSucceed OConnect 0, RAuto True]"
    by (rule follow_reach [OF connected_reach s(1)])
  from reads_in_order [OF r] r s(2) show ?thesis by (intro exI [of _ s] exI [of _ "[OpSucceed OConnect 0, RAuto True]"]) simp
qed


text \<open>Close twice: the second call finds the channel closed, and its future stays open.\<close>

theorem calls_settle_or_hang_witness:
  "\<exists>s. lreach option_promise client_type (s :: ((string + unit) option, nat) life) [LEnded, LEnded]
    \<and> l_used s = [1, 0] \<and> IsDone option_promise (l_futs s 0) \<and> \<not> IsDone option_promise (l_futs s 1)"
proof -
  let ?s0 = "(new_life option_promise)\<lparr>l_used := [0]\<rparr> :: ((string + unit) option, nat) life"
  have "lreach option_promise client_type ?s0 [OpStart OClose 0]"
    using lreach_step [OF lreach_start lstep.call [of 0]] by (simp add: new_life_def)
  moreover obtain s1 where f1: "follow option_promise client_type [0, 0, 0, 0, 0, 0, 0, 0, 0] (?s0, [OpStart OClose 0])
      = Some (s1, [LEnded])" "l_used s1 = [0]" "l_refused s1 = []" "l_closed s1" "\<not> l_flag s1 OClose"
    by (simp add: client_type_def new_life_def life_defs)
  ultimately have "lreach option_promise client_type s1 [LEnded]" by (blast intro: follow_reach)
  then have "lreach option_promise client_type (s1\<lparr>l_used := [1, 0]\<rparr>) [LEnded, OpStart OClose 1]"
    using lreach_step [OF _ lstep.call [of 1 s1 option_promise client_type "[LEnded]" OClose]] f1(2) by simp
  moreover obtain s2 where f2: "follow option_promise client_type [1, 1] (s1\<lparr>l_used := [1, 0]\<rparr>, [LEnded, OpStart OClose 1])
      = Some (s2, [LEnded, LEnded])" "l_used s2 = [1, 0]" "l_refused s2 = [1]"
    using f1(3-5) by (simp add: client_type_def set_flag_def refuse_def)
  ultimately have r: "lreach option_promise client_type s2 [LEnded, LEnded]" by (blast intro: follow_reach)
  from calls_settle_or_hang [OF op.promise_axioms r, of s2 "[LEnded, LEnded]"] f2(2,3)
  have "IsDone option_promise (l_futs s2 0) \<and> \<not> IsDone option_promise (l_futs s2 1)" by simp
  with r f2(2) show ?thesis by blast
qed

text \<open>A Read on a new channel, then Connect: the channel is active and nobody reads.\<close>

theorem early_read_blocks_reading_witness:
  "\<exists>s ps s'. lreach option_promise client_type (s :: ((string + unit) option, nat) life) ps \<and> l_readS s \<and> filter reader ps = []
    \<and> (lstep option_promise client_type)\<^sup>*\<^sup>* (s, ps) (s', [LEnded, LEnded]) \<and> is_active s' \<and> reads_of (l_events s') = []"
proof -
  let ?s0 = "new_life option_promise :: ((string + unit) option, nat) life"
  let ?s1 = "?s0\<lparr>l_readS := True\<rparr>"
  have "lreach option_promise client_type ?s0 [ReadMark None]"
    using lreach_step [OF lreach_start lstep.read] by simp
  moreover have "follow option_promise client_type [0, 0] (?s0, [ReadMark None]) = Some (?s1, [LEnded])"
    by (simp add: client_type_def new_life_def after_read_def is_active_def)
  ultimately have r: "lreach option_promise client_type ?s1 [LEnded]" by (blast intro: follow_reach)
  let ?s2 = "?s1\<lparr>l_used := [0]\<rparr>"
  have c: "lstep option_promise client_type (?s1, [LEnded]) (?s2, [LEnded, OpStart OConnect 0])"
    using lstep.call [of 0 ?s1 option_promise client_type "[LEnded]" OConnect] by (simp add: new_life_def)
  obtain s' where f: "follow option_promise client_type [1, 1, 1, 1, 1, 1, 1, 1] (?s2, [LEnded, OpStart OConnect 0])
      = Some (s', [LEnded, LEnded])" "is_active s'"
    by (simp add: client_type_def new_life_def is_active_def life_defs)
  have "(lstep option_promise client_type)\<^sup>*\<^sup>* (?s2, [LEnded, OpStart OConnect 0]) (s', [LEnded, LEnded])"
    using follow_run [OF f(1)] by (metis lstep.thread mono_rtranclp)
  with c have "(lstep option_promise client_type)\<^sup>*\<^sup>* (?s1, [LEnded]) (s', [LEnded, LEnded])"
    by (rule converse_rtranclp_into_rtranclp)
  moreover from early_read_blocks_reading [OF _ _ this] have "reads_of (l_events s') = []"
    by (simp add: new_life_def)
  ultimately show ?thesis using r f(2) by (intro exI [of _ ?s1] exI [of _ "[LEnded]"] exI [of _ s']) simp
qed

end
