(* ===== verification/Channel_Net.thy ===== *)
theory Channel_Net
  imports Byte_Buf Utils_BufferPool
begin

text \<open>
  Network channels: the typed parameters of \<open>channel/paramkey.go\<close>, the connection wrapper of
  \<open>channel/conn.go\<close>, and the reads, writes and connects of \<open>channel/netchannel.go\<close> with the address
  checks of \<open>gtcp/tcpchannel.go\<close> and \<open>gudp/udpchannel.go\<close>. The connection of the net package is a
  parameter; a read goes through a pooled buffer, so the pools are part of the state.
\<close>

section \<open>Parameters of a channel\<close>

text \<open>The values of type \<open>any\<close> a parameter may hold, as far as the readers tell them apart.\<close>

datatype param_value =
    PInt8 "8 word" | PUint8 "8 word" | PInt16 "16 word" | PUint16 "16 word" | PInt32 "32 word" | PUint32 "32 word"
  | PInt "64 word" | PUint "64 word" | PInt64 "64 word" | PUint64 "64 word" | PStr string | PBoolean bool | POther

type_synonym params = "string \<rightharpoonup> param_value"

definition GetParamIntDefault :: "params \<Rightarrow> string \<Rightarrow> int \<Rightarrow> int" where
  "GetParamIntDefault ps k d = (case ps k of
       Some (PInt8 v) \<Rightarrow> sint v
     | Some (PUint8 v) \<Rightarrow> uint v
     | Some (PInt16 v) \<Rightarrow> sint v
     | Some (PUint16 v) \<Rightarrow> uint v
     | Some (PInt32 v) \<Rightarrow> sint v
     | Some (PInt v) \<Rightarrow> sint v
     | _ \<Rightarrow> d)"

text \<open>\<open>int64(v)\<close> of a \<open>uint\<close> keeps the bits.\<close>

definition GetParamInt64Default :: "params \<Rightarrow> string \<Rightarrow> int \<Rightarrow> int" where
  "GetParamInt64Default ps k d = (case ps k of
       Some (PInt8 v) \<Rightarrow> sint v
     | Some (PUint8 v) \<Rightarrow> uint v
     | Some (PInt16 v) \<Rightarrow> sint v
     | Some (PUint16 v) \<Rightarrow> uint v
     | Some (PInt32 v) \<Rightarrow> sint v
     | Some (PUint32 v) \<Rightarrow> uint v
     | Some (PInt v) \<Rightarrow> sint v
     | Some (PUint v) \<Rightarrow> sint v
     | Some (PInt64 v) \<Rightarrow> sint v
     | _ \<Rightarrow> d)"

definition GetParamStringDefault :: "params \<Rightarrow> string \<Rightarrow> string \<Rightarrow> string" where
  "GetParamStringDefault ps k d = (case ps k of Some (PStr s) \<Rightarrow> s | _ \<Rightarrow> d)"

definition GetParamBoolDefault :: "params \<Rightarrow> string \<Rightarrow> bool \<Rightarrow> bool" where
  "GetParamBoolDefault ps k d = (case ps k of Some (PBoolean b) \<Rightarrow> b | _ \<Rightarrow> d)"

definition SetParam :: "string \<Rightarrow> param_value \<Rightarrow> params \<Rightarrow> params" where
  "SetParam k v ps = ps(k \<mapsto> v)"

definition LoadOrStore :: "string \<Rightarrow> param_value \<Rightarrow> params \<Rightarrow> (param_value \<times> bool) \<times> params" where
  "LoadOrStore k v ps = (case ps k of Some w \<Rightarrow> ((w, True), ps) | None \<Rightarrow> ((v, False), ps(k \<mapsto> v)))"

definition DeleteParam :: "string \<Rightarrow> params \<Rightarrow> params" where
  "DeleteParam k ps = ps(k := None)"

text \<open>The number a value of an integer type stands for.\<close>

fun int_value :: "param_value \<Rightarrow> int option" where
  "int_value (PInt8 v) = Some (sint v)"
| "int_value (PUint8 v) = Some (uint v)"
| "int_value (PInt16 v) = Some (sint v)"
| "int_value (PUint16 v) = Some (uint v)"
| "int_value (PInt32 v) = Some (sint v)"
| "int_value (PUint32 v) = Some (uint v)"
| "int_value (PInt v) = Some (sint v)"
| "int_value (PUint v) = Some (uint v)"
| "int_value (PInt64 v) = Some (sint v)"
| "int_value (PUint64 v) = Some (uint v)"
| "int_value _ = None"

fun read_as_int :: "param_value \<Rightarrow> bool" where
  "read_as_int (PUint32 _) = False"
| "read_as_int (PUint _) = False"
| "read_as_int (PInt64 _) = False"
| "read_as_int (PUint64 _) = False"
| "read_as_int v = (int_value v \<noteq> None)"

fun read_as_int64 :: "param_value \<Rightarrow> bool" where
  "read_as_int64 (PUint64 _) = False"
| "read_as_int64 v = (int_value v \<noteq> None)"

section \<open>Connections\<close>

text \<open>
  \<open>net.Conn\<close> as the code uses it. \<open>CRead n\<close> answers the bytes put into a buffer of \<open>n\<close> bytes and the
  error. \<open>Deadline\<close> is every error that is \<open>os.ErrDeadlineExceeded\<close>.
\<close>

datatype net_err = Deadline | ErrEOF | ErrNetClosed | ErrNilObject | ErrSkip | ErrNotActive
  | ErrUnknownObjectType | ErrNotTCPAddr | ErrNotUDPAddr | ErrOther string

datatype net_address = TCPAddr string | UDPAddr string | OtherAddr string

record 'c conn_ops =
  CRead :: "nat \<Rightarrow> 'c \<Rightarrow> (byte list \<times> net_err option) \<times> 'c"
  CWrite :: "byte list \<Rightarrow> 'c \<Rightarrow> net_err option \<times> 'c"
  CClose :: "'c \<Rightarrow> net_err option \<times> 'c"
  CReadDeadline :: "int \<Rightarrow> 'c \<Rightarrow> net_err option \<times> 'c"
  CWriteDeadline :: "int \<Rightarrow> 'c \<Rightarrow> net_err option \<times> 'c"
  CLocalAddr :: "'c \<Rightarrow> net_address"
  CRemoteAddr :: "'c \<Rightarrow> net_address"

record 'c DefaultConn =
  dc_conn :: 'c
  dc_active :: bool

definition WrapConn :: "'c option \<Rightarrow> 'c DefaultConn option" where
  "WrapConn c = map_option (\<lambda>c. \<lparr>dc_conn = c, dc_active = True\<rparr>) c"

text \<open>An error other than a missed deadline deactivates the connection.\<close>

definition after_err :: "net_err option \<Rightarrow> 'c DefaultConn \<Rightarrow> 'c DefaultConn" where
  "after_err err d = (case err of
       None \<Rightarrow> d
     | Some e \<Rightarrow> if dc_active d \<and> e \<noteq> Deadline then d\<lparr>dc_active := False\<rparr> else d)"

definition conn_Read ::
  "'c conn_ops \<Rightarrow> nat \<Rightarrow> 'c DefaultConn \<Rightarrow> (byte list \<times> net_err option) \<times> 'c DefaultConn" where
  "conn_Read N n d = (case CRead N n (dc_conn d) of
       ((bs, err), c) \<Rightarrow> ((bs, err), after_err err (d\<lparr>dc_conn := c\<rparr>)))"

definition conn_Write :: "'c conn_ops \<Rightarrow> byte list \<Rightarrow> 'c DefaultConn \<Rightarrow> net_err option \<times> 'c DefaultConn" where
  "conn_Write N bs d = (case CWrite N bs (dc_conn d) of
       (err, c) \<Rightarrow> (err, after_err err (d\<lparr>dc_conn := c\<rparr>)))"

definition conn_Close :: "'c conn_ops \<Rightarrow> 'c DefaultConn \<Rightarrow> net_err option \<times> 'c DefaultConn" where
  "conn_Close N d = (case CClose N (dc_conn d) of (err, c) \<Rightarrow> (err, \<lparr>dc_conn = c, dc_active = False\<rparr>))"

section \<open>The channel\<close>

record 'c net_channel =
  nc_conn :: "'c DefaultConn option"
  BufferSize :: int
  ReadTimeout :: int
  WriteTimeout :: int
  nc_localAddr :: "net_address option"

text \<open>\<open>Init\<close>: a \<open>time.Duration\<close> is an \<open>int64\<close> of nanoseconds, so the product wraps.\<close>

definition millis :: "int \<Rightarrow> int" where
  "millis n = sint (word_of_int (n * 10 ^ 6) :: 64 word)"

definition net_Init :: "params \<Rightarrow> 'c net_channel \<Rightarrow> 'c net_channel" where
  "net_Init ps ch = ch\<lparr>
     BufferSize := GetParamIntDefault ps ''read_buffer_size'' 1024,
     ReadTimeout := millis (GetParamIntDefault ps ''read_timeout'' 1000),
     WriteTimeout := millis (GetParamIntDefault ps ''write_timeout'' 100)\<rparr>"

definition net_RemoteAddr :: "'c conn_ops \<Rightarrow> 'c net_channel \<Rightarrow> net_address option" where
  "net_RemoteAddr N ch = map_option (\<lambda>d. CRemoteAddr N (dc_conn d)) (nc_conn ch)"

definition net_LocalAddr :: "'c conn_ops \<Rightarrow> 'c net_channel \<Rightarrow> net_address option \<times> 'c net_channel" where
  "net_LocalAddr N ch = (case nc_localAddr ch of
       Some a \<Rightarrow> (Some a, ch)
     | None \<Rightarrow> (case nc_conn ch of
          None \<Rightarrow> (None, ch)
        | Some d \<Rightarrow> (Some (CLocalAddr N (dc_conn d)), ch\<lparr>nc_localAddr := Some (CLocalAddr N (dc_conn d))\<rparr>)))"

definition SetConn :: "'c option \<Rightarrow> 'c net_channel \<Rightarrow> 'c net_channel" where
  "SetConn c ch = ch\<lparr>nc_conn := WrapConn c\<rparr>"

datatype 'b write_obj = WByteBuf 'b | WBytes "byte list" | WNil | WOther string

text \<open>
  \<open>UnsafeWrite\<close>: None is no error, a panic is the \<open>reflect.TypeOf(nil)\<close> in the log line of the default
  branch. \<open>now\<close> is the clock.
\<close>

definition object_bytes :: "'b bytebuf_ops \<Rightarrow> 'b write_obj \<Rightarrow> panic + byte list option" where
  "object_bytes B obj = (case obj of
       WByteBuf b \<Rightarrow> Inr (Some (Bytes B b))
     | WBytes bs \<Rightarrow> Inr (Some bs)
     | WNil \<Rightarrow> Inl NilDeref
     | WOther _ \<Rightarrow> Inr None)"

definition net_UnsafeWrite ::
  "'c conn_ops \<Rightarrow> 'b bytebuf_ops \<Rightarrow> int \<Rightarrow> 'b write_obj \<Rightarrow> 'c net_channel
     \<Rightarrow> (panic + net_err option) \<times> 'c net_channel" where
  "net_UnsafeWrite N B now obj ch = (case nc_conn ch of
       None \<Rightarrow> (Inr (Some ErrNilObject), ch)
     | Some d \<Rightarrow>
        if \<not> dc_active d then (Inr (Some ErrNetClosed), ch)
        else (case object_bytes B obj of
            Inl v \<Rightarrow> (Inl v, ch)
          | Inr None \<Rightarrow> (Inr (Some ErrUnknownObjectType), ch)
          | Inr (Some bs) \<Rightarrow>
             (case (if WriteTimeout ch > 0 then CWriteDeadline N (now + WriteTimeout ch) (dc_conn d)
                    else (None, dc_conn d)) of
                (Some e, c) \<Rightarrow> (Inr (Some e), ch\<lparr>nc_conn := Some (d\<lparr>dc_conn := c\<rparr>)\<rparr>)
              | (None, c) \<Rightarrow> (case conn_Write N bs (d\<lparr>dc_conn := c\<rparr>) of
                    (err, d') \<Rightarrow> (Inr err, ch\<lparr>nc_conn := Some d'\<rparr>)))))"

text \<open>\<open>copy\<close> of bytes to an address.\<close>

definition store_bytes :: "nat \<Rightarrow> byte list \<Rightarrow> (nat \<Rightarrow> byte) \<Rightarrow> nat \<Rightarrow> byte" where
  "store_bytes ptr bs m = (\<lambda>a. if ptr \<le> a \<and> a < ptr + length bs then bs ! (a - ptr) else m a)"

text \<open>What a read answers: an object, an error, or a panic (a negative buffer size).\<close>

datatype 'b read_result = ReadObj 'b | ReadErr net_err | ReadPanic panic

text \<open>
  \<open>UnsafeRead\<close> once the buffer \<open>s\<close> is there; the deferred \<open>putNetBuffer\<close> runs on every way out. The
  bytes are copied out of the buffer before it goes back.
\<close>

definition read_into ::
  "'c conn_ops \<Rightarrow> 'b bytebuf_ops \<Rightarrow> int \<Rightarrow> slice \<Rightarrow> 'c DefaultConn \<Rightarrow> 'c net_channel \<Rightarrow> pools
     \<Rightarrow> 'b read_result \<times> 'c net_channel \<times> pools" where
  "read_into N B now s d ch p =
     (case (if ReadTimeout ch > 0 then CReadDeadline N (now + ReadTimeout ch) (dc_conn d) else (None, dc_conn d)) of
        (Some e, c) \<Rightarrow> (ReadErr e, ch\<lparr>nc_conn := Some (d\<lparr>dc_conn := c\<rparr>)\<rparr>, p)
      | (None, c) \<Rightarrow>
         (case conn_Read N (sl_len s) (d\<lparr>dc_conn := c\<rparr>) of
            ((bs, err), d') \<Rightarrow>
              (let p' = p\<lparr>mem := store_bytes (sl_base s) bs (mem p)\<rparr>; ch' = ch\<lparr>nc_conn := Some d'\<rparr> in
               ((case err of
                   Some e \<Rightarrow> ReadErr (if e = Deadline then (if dc_active d' then ErrSkip else ErrNotActive) else e)
                 | None \<Rightarrow> if bs = [] then ReadErr ErrSkip
                           else ReadObj (NewByteBuf B (take (length bs) (slice_bytes (mem p') s)))), ch', p'))))"

definition net_UnsafeRead ::
  "'c conn_ops \<Rightarrow> 'b bytebuf_ops \<Rightarrow> nat option \<Rightarrow> int \<Rightarrow> bool \<Rightarrow> 'c net_channel \<Rightarrow> pools
     \<Rightarrow> 'b read_result \<times> 'c net_channel \<times> pools" where
  "net_UnsafeRead N B pick now active ch p = (case nc_conn ch of
       None \<Rightarrow> (ReadErr ErrNilObject, ch, p)
     | Some d \<Rightarrow>
        if \<not> active then (ReadErr ErrNetClosed, ch, p)
        else (case GetBufferForSize pick (BufferSize ch) p of
            (Inr v, p') \<Rightarrow> (ReadPanic v, ch, p')
          | (Inl s, p') \<Rightarrow> (case read_into N B now s d ch p' of
                (r, ch', p'') \<Rightarrow> (r, ch', PutBufferForSize s p''))))"

definition net_UnsafeDisconnect :: "'c conn_ops \<Rightarrow> 'c net_channel \<Rightarrow> net_err option \<times> 'c net_channel" where
  "net_UnsafeDisconnect N ch = (case nc_conn ch of
       None \<Rightarrow> (Some ErrNilObject, ch)
     | Some d \<Rightarrow> if dc_active d then (case conn_Close N d of (err, d') \<Rightarrow> (err, ch\<lparr>nc_conn := Some d'\<rparr>))
         else (None, ch))"

text \<open>\<open>net.Dial\<close> is the parameter \<open>dial\<close>.\<close>

definition net_UnsafeConnect ::
  "(net_address \<Rightarrow> net_err + 'c) \<Rightarrow> net_address option \<Rightarrow> 'c net_channel \<Rightarrow> net_err option \<times> 'c net_channel" where
  "net_UnsafeConnect dial remote ch = (case remote of
       None \<Rightarrow> (Some ErrNilObject, ch)
     | Some a \<Rightarrow> (case dial a of
          Inl e \<Rightarrow> (Some e, ch)
        | Inr c \<Rightarrow> (None, ch\<lparr>nc_conn := WrapConn (Some c)\<rparr>)))"

fun is_tcp :: "net_address \<Rightarrow> bool" where
  "is_tcp (TCPAddr _) = True"
| "is_tcp _ = False"

fun is_udp :: "net_address \<Rightarrow> bool" where
  "is_udp (UDPAddr _) = True"
| "is_udp _ = False"

definition tcp_UnsafeConnect ::
  "(net_address \<Rightarrow> net_err + 'c) \<Rightarrow> net_address option \<Rightarrow> net_address option \<Rightarrow> 'c net_channel
     \<Rightarrow> net_err option \<times> 'c net_channel" where
  "tcp_UnsafeConnect dial local remote ch = (case remote of
       None \<Rightarrow> (Some ErrNilObject, ch)
     | Some a \<Rightarrow> if \<not> is_tcp a then (Some ErrNotTCPAddr, ch)
         else (case local of
             Some l \<Rightarrow> if \<not> is_tcp l then (Some ErrNotTCPAddr, ch) else net_UnsafeConnect dial remote ch
           | None \<Rightarrow> net_UnsafeConnect dial remote ch))"

definition udp_UnsafeConnect ::
  "(net_address \<Rightarrow> net_err + 'c) \<Rightarrow> net_address option \<Rightarrow> net_address option \<Rightarrow> 'c net_channel
     \<Rightarrow> net_err option \<times> 'c net_channel" where
  "udp_UnsafeConnect dial local remote ch = (case remote of
       None \<Rightarrow> (Some ErrNilObject, ch)
     | Some a \<Rightarrow> if \<not> is_udp a then (Some ErrNotUDPAddr, ch)
         else (case local of
             Some l \<Rightarrow> if \<not> is_udp l then (Some ErrNotUDPAddr, ch) else net_UnsafeConnect dial remote ch
           | None \<Rightarrow> net_UnsafeConnect dial remote ch))"

section \<open>Properties\<close>

lemma uint_above: "- 9223372036854775808 \<le> uint (x :: 'w::len word)"
  by (rule order_trans [OF _ uint_nonnegative]) simp


text \<open>What one read does to the pools: the buffers in use keep their bytes, and the one used is given back.\<close>

lemma store_bytes_outside: "a < ptr \<or> ptr + length bs \<le> a \<Longrightarrow> store_bytes ptr bs m a = m a"
  by (auto simp: store_bytes_def)

lemma slice_bytes_stored:
  assumes "length bs \<le> sl_len s"
  shows "take (length bs) (slice_bytes (store_bytes (sl_base s) bs m) s) = bs"
  using assms by (intro nth_equalityI) (simp_all add: slice_bytes_def store_bytes_def)

lemma slice_bytes_kept:
  assumes "region s \<inter> region t = {}" and "length bs \<le> sl_cap s" and "sl_len t \<le> sl_cap t"
  shows "slice_bytes (store_bytes (sl_base s) bs m) t = slice_bytes m t"
proof -
  have "sl_base t + i < sl_base s \<or> sl_base s + length bs \<le> sl_base t + i" if "i < sl_len t" for i
  proof (rule ccontr)
    assume "\<not> ?thesis"
    with that assms(2,3) have "sl_base t + i \<in> region s \<inter> region t" by (simp add: region_def)
    with assms(1) show False by blast
  qed
  then show ?thesis by (simp add: slice_bytes_def store_bytes_outside)
qed

definition reads_fit :: "'c conn_ops \<Rightarrow> bool" where
  "reads_fit N \<longleftrightarrow> (\<forall>n c. length (fst (fst (CRead N n c))) \<le> n)"

lemma conn_Read_fits: "reads_fit N \<Longrightarrow> conn_Read N n d = ((bs, err), d') \<Longrightarrow> length bs \<le> n"
  unfolding reads_fit_def conn_Read_def by (metis (no_types, lifting) case_prod_beta prod.collapse prod.inject)

lemma PutBufferForSize_mem: "mem (PutBufferForSize s p) = mem p"
  by (simp add: PutBufferForSize_def Put_def)


text \<open>
  A connection that failed is left alone: after a read that ended with any error but a missed deadline,
  the channel refuses every write, and disconnecting it answers no error without closing the connection,
  whose descriptor stays open. A missed deadline leaves it usable.
\<close>

theorem failed_connection_never_closed:
  assumes "conn_Read N n d = ((bs, Some e), d')" and "dc_active d"
  shows "(if e = Deadline then dc_active d'
     else net_UnsafeDisconnect N (ch\<lparr>nc_conn := Some d'\<rparr>) = (None, ch\<lparr>nc_conn := Some d'\<rparr>)
       \<and> net_UnsafeWrite N B now obj (ch\<lparr>nc_conn := Some d'\<rparr>) = (Inr (Some ErrNetClosed), ch\<lparr>nc_conn := Some d'\<rparr>))"
  using assms
  by (auto simp: conn_Read_def after_err_def net_UnsafeDisconnect_def net_UnsafeWrite_def split: prod.splits if_splits)

text \<open>A connection that delivers a list of chunks and then ends.\<close>

fun chunk_read :: "nat \<Rightarrow> byte list list \<Rightarrow> (byte list \<times> net_err option) \<times> byte list list" where
  "chunk_read n [] = (([], Some ErrEOF), [])"
| "chunk_read n (x # xs) = ((take n x, None), if length x \<le> n then xs else drop n x # xs)"

definition chunk_conn :: "byte list list conn_ops" where
  "chunk_conn = \<lparr>CRead = chunk_read, CWrite = (\<lambda>bs c. (None, c)), CClose = (\<lambda>c. (None, [])),
     CReadDeadline = (\<lambda>t c. (None, c)), CWriteDeadline = (\<lambda>t c. (None, c)),
     CLocalAddr = (\<lambda>_. TCPAddr ''127.0.0.1:1''), CRemoteAddr = (\<lambda>_. TCPAddr ''127.0.0.1:2'')\<rparr>"

lemma chunk_conn_fits: "reads_fit chunk_conn"
proof -
  have "length (fst (fst (chunk_read n c))) \<le> n" for n c by (cases c) auto
  then show ?thesis by (simp add: reads_fit_def chunk_conn_def)
qed

definition chunk_channel :: "byte list list \<Rightarrow> byte list list net_channel" where
  "chunk_channel cs = net_Init Map.empty
     \<lparr>nc_conn = WrapConn (Some cs), BufferSize = 0, ReadTimeout = 0, WriteTimeout = 0, nc_localAddr = None\<rparr>"


theorem failed_connection_never_closed_witness:
  "net_UnsafeDisconnect chunk_conn ((chunk_channel [])\<lparr>nc_conn := Some \<lparr>dc_conn = [], dc_active = False\<rparr>\<rparr>)
    = (None, (chunk_channel [])\<lparr>nc_conn := Some \<lparr>dc_conn = [], dc_active = False\<rparr>\<rparr>)"
proof -
  have "conn_Read chunk_conn 8 \<lparr>dc_conn = [], dc_active = True\<rparr>
      = (([], Some ErrEOF), \<lparr>dc_conn = [], dc_active = False\<rparr>)"
    by (simp add: conn_Read_def chunk_conn_def after_err_def)
  from failed_connection_never_closed [OF this, where ch = "chunk_channel []" and B = list_bytebuf and now = 0 and obj = WNil]
  show ?thesis by simp
qed

end
