(* ===== verification/Simple_Client.thy ===== *)
theory Simple_Client
  imports Channel_Events
begin

text \<open>
  The simple clients and servers of \<open>gtcp/simpletcp\<close> and \<open>gudp/simpleudp\<close>: the adapters that put a
  user's handler into a pipeline, and the client that connects again when its connection is gone. The
  lemmas show what an adapter does to a pipeline, and what a client holds after any number of failed
  attempts.
\<close>

section \<open>Adapters\<close>

text \<open>
  \<open>clientHandlerAdapter\<close>: with a handler every method is the handler's, with the adapter's context;
  without one every event passes, except that what was read is dropped.
\<close>

fun clientHandlerAdapter ::
  "('v ctx \<Rightarrow> 'm event \<Rightarrow> ('h, 's, 'm, 'v) code) option \<Rightarrow> 'v ctx \<Rightarrow> 'm event \<Rightarrow> ('h, 's, 'm, 'v) code" where
  "clientHandlerAdapter (Some user) c ev = user c ev"
| "clientHandlerAdapter None c (Read m) = Finish"
| "clientHandlerAdapter None c ReadCompleted = Finish"
| "clientHandlerAdapter None c Registered = Emit [] Registered Finish"
| "clientHandlerAdapter None c Unregistered = Emit [] Unregistered Finish"
| "clientHandlerAdapter None c Active = Emit [] Active Finish"
| "clientHandlerAdapter None c Inactive = Emit [] Inactive Finish"
| "clientHandlerAdapter None c (Write m f) = Emit [] (Write m f) Finish"
| "clientHandlerAdapter None c (Bind a f) = Emit [] (Bind a f) Finish"
| "clientHandlerAdapter None c (Close f) = Emit [] (Close f) Finish"
| "clientHandlerAdapter None c (Connect a b f) = Emit [] (Connect a b f) Finish"
| "clientHandlerAdapter None c (Disconnect f) = Emit [] (Disconnect f) Finish"
| "clientHandlerAdapter None c (Deregister f) = Emit [] (Deregister f) Finish"
| "clientHandlerAdapter None c (ErrorCaught e) = Emit [] (ErrorCaught e) Finish"

text \<open>The server's adapter and those of the UDP package have the same methods.\<close>

definition serverHandlerAdapter ::
  "('v ctx \<Rightarrow> 'm event \<Rightarrow> ('h, 's, 'm, 'v) code) option \<Rightarrow> 'v ctx \<Rightarrow> 'm event \<Rightarrow> ('h, 's, 'm, 'v) code" where
  "serverHandlerAdapter user c ev = (case user of
       Some f \<Rightarrow> f c ev
     | None \<Rightarrow> (case ev of Read _ \<Rightarrow> Finish | ReadCompleted \<Rightarrow> Finish | _ \<Rightarrow> DefaultHandler ev))"

definition udp_clientHandlerAdapter ::
  "('v ctx \<Rightarrow> 'm event \<Rightarrow> ('h, 's, 'm, 'v) code) option \<Rightarrow> 'v ctx \<Rightarrow> 'm event \<Rightarrow> ('h, 's, 'm, 'v) code" where
  "udp_clientHandlerAdapter user c ev = (case user of
       Some f \<Rightarrow> f c ev
     | None \<Rightarrow> (case ev of Read _ \<Rightarrow> Finish | ReadCompleted \<Rightarrow> Finish | _ \<Rightarrow> DefaultHandler ev))"

definition udp_serverHandlerAdapter ::
  "('v ctx \<Rightarrow> 'm event \<Rightarrow> ('h, 's, 'm, 'v) code) option \<Rightarrow> 'v ctx \<Rightarrow> 'm event \<Rightarrow> ('h, 's, 'm, 'v) code" where
  "udp_serverHandlerAdapter user c ev = (case user of
       Some f \<Rightarrow> f c ev
     | None \<Rightarrow> (case ev of Read _ \<Rightarrow> Finish | ReadCompleted \<Rightarrow> Finish | _ \<Rightarrow> DefaultHandler ev))"

lemma clientHandlerAdapter_eq: "clientHandlerAdapter user c ev = (case user of
       Some f \<Rightarrow> f c ev
     | None \<Rightarrow> (case ev of Read _ \<Rightarrow> Finish | ReadCompleted \<Rightarrow> Finish | _ \<Rightarrow> DefaultHandler ev))"
  by (cases user; cases ev) (simp_all add: DefaultHandler_def)

lemma adapters_agree:
  "serverHandlerAdapter user c ev = clientHandlerAdapter user c ev"
  "udp_clientHandlerAdapter user c ev = clientHandlerAdapter user c ev"
  "udp_serverHandlerAdapter user c ev = clientHandlerAdapter user c ev"
  by (simp_all add: clientHandlerAdapter_eq serverHandlerAdapter_def udp_clientHandlerAdapter_def
      udp_serverHandlerAdapter_def)

text \<open>
  \<open>connectionHandler\<close>: \<open>Active\<close> starts the heartbeat (\<open>beat\<close>), \<open>Unregistered\<close> reconnects (\<open>again\<close>)
  before it passes the event on.
\<close>

definition connectionHandler ::
  "(('h, 's) world \<Rightarrow> ('h, 's) world outcome) \<Rightarrow> (('h, 's) world \<Rightarrow> ('h, 's) world outcome) \<Rightarrow> 'm event
     \<Rightarrow> ('h, 's, 'm, 'v) code" where
  "connectionHandler beat again ev = (case ev of
       Active \<Rightarrow> Act beat (DefaultHandler Active)
     | Unregistered \<Rightarrow> Act again (DefaultHandler Unregistered)
     | _ \<Rightarrow> DefaultHandler ev)"

section \<open>The client\<close>

text \<open>
  \<open>AutoReconnect\<close> is asked with the number of the question. \<open>cl_live\<close> are the connections that are up;
  they are numbered by \<open>cl_next\<close>.
\<close>

record client =
  AutoReconnect :: "(nat \<Rightarrow> bool) option"
  cl_close :: bool
  cl_ch :: "nat option"
  cl_asked :: nat
  cl_next :: nat
  cl_live :: "nat set"

definition NewClient :: client where
  "NewClient = \<lparr>AutoReconnect = None, cl_close = False, cl_ch = None, cl_asked = 0, cl_next = 0, cl_live = {}\<rparr>"

text \<open>
  \<open>start\<close>, over the outcomes of the connection attempts it makes, in order; None is a \<open>start\<close> that waits
  for an attempt beyond the list. A failed attempt makes the channel inactive, and so calls
  \<open>Unregistered\<close> of the reconnect handler, before its future fails: a new \<open>start\<close> runs inside the old
  one, which then stores its own, nil channel. The second component is what is left of the outcomes.
\<close>

fun client_start :: "bool list \<Rightarrow> client \<Rightarrow> (client \<times> bool list) option" where
  "client_start [] c = None"
| "client_start (True # os) c =
     Some (c\<lparr>cl_ch := Some (cl_next c), cl_next := Suc (cl_next c), cl_live := insert (cl_next c) (cl_live c)\<rparr>, os)"
| "client_start (False # os) c =
     (case (if cl_close c then None else AutoReconnect c) of
        None \<Rightarrow> Some (c\<lparr>cl_ch := None\<rparr>, os)
      | Some ask \<Rightarrow>
         let c1 = c\<lparr>cl_asked := Suc (cl_asked c)\<rparr> in
         if ask (cl_asked c)
         then (case client_start os c1 of None \<Rightarrow> None | Some (c', os') \<Rightarrow> Some (c'\<lparr>cl_ch := None\<rparr>, os'))
         else Some (c1\<lparr>cl_close := True, cl_ch := None\<rparr>, os))"

text \<open>\<open>Unregistered\<close> of the connection handler when a connection is gone.\<close>

definition client_Unregistered :: "bool list \<Rightarrow> client \<Rightarrow> (client \<times> bool list) option" where
  "client_Unregistered os c =
     (case (if cl_close c then None else AutoReconnect c) of
        None \<Rightarrow> Some (c, os)
      | Some ask \<Rightarrow>
         let c1 = c\<lparr>cl_asked := Suc (cl_asked c)\<rparr> in
         if ask (cl_asked c) then client_start os c1 else Some (c1\<lparr>cl_close := True\<rparr>, os))"

definition connection_gone :: "nat \<Rightarrow> bool list \<Rightarrow> client \<Rightarrow> (client \<times> bool list) option" where
  "connection_gone n os c = client_Unregistered os (c\<lparr>cl_live := cl_live c - {n}\<rparr>)"

text \<open>\<open>Write\<close> and \<open>Disconnect\<close> call a method of \<open>ch\<close>: on nil they panic.\<close>

definition client_Write :: "client \<Rightarrow> panic + nat" where
  "client_Write c = (case cl_ch c of None \<Rightarrow> Inl NilDeref | Some n \<Rightarrow> Inr n)"

definition client_Disconnect :: "client \<Rightarrow> (panic + nat) \<times> client" where
  "client_Disconnect c = (let c1 = c\<lparr>cl_close := True\<rparr> in
     ((case cl_ch c1 of None \<Rightarrow> Inl NilDeref | Some n \<Rightarrow> Inr n), c1))"

text \<open>
  The heartbeat of an active channel, over what \<open>IsActive\<close> answers each time: the messages it writes, all
  empty; the one of the UDP client only sleeps.
\<close>

fun heartbeat :: "bool list \<Rightarrow> byte list list" where
  "heartbeat [] = []"
| "heartbeat (a # as) = (if a then [] # heartbeat as else [])"

fun udp_heartbeat :: "bool list \<Rightarrow> byte list list" where
  "udp_heartbeat [] = []"
| "udp_heartbeat (a # as) = (if a then udp_heartbeat as else [])"

text \<open>
  The UDP client, which differs in one thing: its \<open>start\<close> answers nil without a bootstrap, that is before
  \<open>Start\<close>, and leaves the channel as it is.
\<close>

definition udp_client_start :: "bool \<Rightarrow> bool list \<Rightarrow> client \<Rightarrow> (client \<times> bool list) option" where
  "udp_client_start bootstrapped os c = (if \<not> bootstrapped then Some (c, os) else client_start os c)"

definition udp_Unregistered :: "bool \<Rightarrow> bool list \<Rightarrow> client \<Rightarrow> (client \<times> bool list) option" where
  "udp_Unregistered bootstrapped os c =
     (case (if cl_close c then None else AutoReconnect c) of
        None \<Rightarrow> Some (c, os)
      | Some ask \<Rightarrow>
         let c1 = c\<lparr>cl_asked := Suc (cl_asked c)\<rparr> in
         if ask (cl_asked c) then udp_client_start bootstrapped os c1 else Some (c1\<lparr>cl_close := True\<rparr>, os))"

definition udp_client_Disconnect :: "client \<Rightarrow> (panic + nat) \<times> client" where
  "udp_client_Disconnect c = (let c1 = c\<lparr>cl_close := True\<rparr> in
     ((case cl_ch c1 of None \<Rightarrow> Inl NilDeref | Some n \<Rightarrow> Inr n), c1))"

section \<open>Properties\<close>

text \<open>A started UDP client reconnects as the TCP client does, and the heartbeat sends nothing but empty messages while the channel is active.\<close>

lemma udp_client_agrees:
  "udp_Unregistered True os c = client_Unregistered os c" "udp_client_Disconnect c = client_Disconnect c"
  by (simp_all add: udp_Unregistered_def client_Unregistered_def udp_client_start_def udp_client_Disconnect_def
      client_Disconnect_def Let_def split: option.split)

lemma heartbeats_empty: "heartbeat as = replicate (length (takeWhile id as)) []" "udp_heartbeat as = []"
  by (induction as) simp_all

text \<open>A client that goes on asking and is always told to go on.\<close>

definition keeps_trying :: "client \<Rightarrow> bool" where
  "keeps_trying c \<longleftrightarrow> \<not> cl_close c \<and> (\<exists>ask. AutoReconnect c = Some ask \<and> (\<forall>n. ask n))"

lemma start_after_failures:
  "keeps_trying c \<Longrightarrow> \<exists>c'. client_start (replicate k False @ True # os) c = Some (c', os)
    \<and> cl_ch c' = (if k = 0 then Some (cl_next c) else None) \<and> cl_live c' = insert (cl_next c) (cl_live c)
    \<and> cl_asked c' = cl_asked c + k \<and> keeps_trying c' \<and> cl_next c' = Suc (cl_next c)"
proof (induction k arbitrary: c)
  case 0
  then show ?case by (simp add: keeps_trying_def)
next
  case (Suc k)
  have "keeps_trying (c\<lparr>cl_asked := Suc (cl_asked c)\<rparr>)" using Suc.prems by (simp add: keeps_trying_def)
  from Suc.IH [OF this] Suc.prems show ?case by (auto simp: keeps_trying_def Let_def)
qed

text \<open>
  A client that keeps trying gets through, and loses its connection when it did not at once: after any
  number \<open>k\<close> of failed attempts and a successful one, exactly one connection is up and \<open>k\<close> questions were
  asked, but when \<open>k\<close> is not zero the client holds no channel, and its next \<open>Write\<close> panics.
\<close>

theorem reconnect_outcome:
  assumes "keeps_trying c" and "cl_live c = {n}"
  shows "\<exists>c'. connection_gone n (replicate k False @ True # os) c = Some (c', os)
    \<and> cl_live c' = {cl_next c} \<and> cl_asked c' = Suc (cl_asked c) + k
    \<and> client_Write c' = (if k = 0 then Inr (cl_next c) else Inl NilDeref)"
proof -
  let ?c = "c\<lparr>cl_live := {}, cl_asked := Suc (cl_asked c)\<rparr>"
  have "keeps_trying ?c" using assms(1) by (simp add: keeps_trying_def)
  from start_after_failures [OF this, of k os] obtain c' where
    c': "client_start (replicate k False @ True # os) ?c = Some (c', os)"
      "cl_ch c' = (if k = 0 then Some (cl_next c) else None)" "cl_live c' = {cl_next c}"
      "cl_asked c' = Suc (cl_asked c) + k" by auto
  moreover have "connection_gone n os' c = client_start os' ?c" for os'
    using assms by (auto simp: connection_gone_def client_Unregistered_def keeps_trying_def Let_def)
  ultimately show ?thesis by (simp add: client_Write_def)
qed

definition trying_client :: client where
  "trying_client = NewClient\<lparr>AutoReconnect := Some (\<lambda>_. True), cl_ch := Some 0, cl_next := 1, cl_live := {0}\<rparr>"

theorem reconnect_outcome_witness:
  "\<exists>c'. connection_gone 0 [False, True] trying_client = Some (c', []) \<and> cl_live c' = {1}
    \<and> client_Write c' = Inl NilDeref"
  using reconnect_outcome [of trying_client 0 1 "[]"]
  by (auto simp: keeps_trying_def trying_client_def NewClient_def)

text \<open>After \<open>Disconnect\<close> no attempt is made any more.\<close>

lemma disconnected_stays: "connection_gone n os (snd (client_Disconnect c))
    = Some ((snd (client_Disconnect c))\<lparr>cl_live := cl_live c - {n}\<rparr>, os)"
  by (simp add: connection_gone_def client_Unregistered_def client_Disconnect_def Let_def)

end
