(* ===== verification/Go_Strings.thy ===== *)
theory Go_Strings
  imports Go_Prelude
begin

text \<open>
  The functions of Go's \<open>strings\<close> package the modelled code uses, on strings as lists of characters,
  with the lemmas that relate splitting and joining.
\<close>

definition HasPrefix :: "string \<Rightarrow> string \<Rightarrow> bool" where
  "HasPrefix s p \<longleftrightarrow> take (length p) s = p"

definition HasSuffix :: "string \<Rightarrow> string \<Rightarrow> bool" where
  "HasSuffix s p \<longleftrightarrow> HasPrefix (rev s) (rev p)"

definition TrimPrefix :: "string \<Rightarrow> string \<Rightarrow> string" where
  "TrimPrefix s p = (if HasPrefix s p then drop (length p) s else s)"

definition TrimSuffix :: "string \<Rightarrow> string \<Rightarrow> string" where
  "TrimSuffix s p = (if HasSuffix s p then take (length s - length p) s else s)"

text \<open>\<open>TrimLeft\<close>, \<open>TrimRight\<close> and \<open>Trim\<close> with a cutset of one character.\<close>

definition TrimLeft :: "string \<Rightarrow> char \<Rightarrow> string" where
  "TrimLeft s c = dropWhile (\<lambda>x. x = c) s"

definition TrimRight :: "string \<Rightarrow> char \<Rightarrow> string" where
  "TrimRight s c = rev (dropWhile (\<lambda>x. x = c) (rev s))"

text \<open>\<open>Split(s, sep)\<close> with a separator of one character: never empty.\<close>

fun Split :: "char \<Rightarrow> string \<Rightarrow> string list" where
  "Split c [] = [[]]"
| "Split c (x # xs) = (if x = c then [] # Split c xs
     else (case Split c xs of [] \<Rightarrow> [[x]] | w # ws \<Rightarrow> (x # w) # ws))"

fun Join :: "char \<Rightarrow> string list \<Rightarrow> string" where
  "Join c [] = []"
| "Join c [w] = w"
| "Join c (w # v # ws) = w @ c # Join c (v # ws)"

lemma Split_nonempty [simp]: "Split c s \<noteq> []"
  by (induction s) (auto split: list.splits)

lemma Split_word: "c \<notin> set w \<Longrightarrow> Split c w = [w]"
  by (induction w) auto

lemma Split_append: "c \<notin> set w \<Longrightarrow> Split c (w @ c # s) = w # Split c s"
  by (induction w) auto

lemma Split_Join:
  assumes "ws \<noteq> []" and "\<forall>w \<in> set ws. c \<notin> set w"
  shows "Split c (Join c ws) = ws"
  using assms by (induction c ws rule: Join.induct) (auto simp: Split_word Split_append)

lemma Split_pieces: "w \<in> set (Split c s) \<Longrightarrow> c \<notin> set w"
proof (induction s arbitrary: w)
  case (Cons x xs)
  then show ?case by (cases "Split c xs") (auto split: if_splits)
qed simp

lemma TrimPrefix_append [simp]: "TrimPrefix (p @ s) p = s"
  by (simp add: TrimPrefix_def HasPrefix_def)

lemma HasPrefix_append [simp]: "HasPrefix (p @ s) p"
  by (simp add: HasPrefix_def)

lemma HasSuffix_append [simp]: "HasSuffix (s @ p) p"
  by (simp add: HasSuffix_def)

lemma TrimSuffix_append [simp]: "TrimSuffix (s @ p) p = s"
  by (simp add: TrimSuffix_def)

lemma TrimLeft_id: "s = [] \<or> hd s \<noteq> c \<Longrightarrow> TrimLeft s c = s"
  by (cases s) (auto simp: TrimLeft_def)

lemma TrimRight_id: "s = [] \<or> last s \<noteq> c \<Longrightarrow> TrimRight s c = s"
  by (cases s rule: rev_cases) (auto simp: TrimRight_def)

lemma Join_hd: "ws \<noteq> [] \<Longrightarrow> hd ws \<noteq> [] \<Longrightarrow> Join c ws \<noteq> [] \<and> hd (Join c ws) = hd (hd ws)"
  by (induction c ws rule: Join.induct) (auto simp: hd_append)

lemma Join_last: "ws \<noteq> [] \<Longrightarrow> last ws \<noteq> [] \<Longrightarrow> Join c ws \<noteq> [] \<and> last (Join c ws) = last (last ws)"
  by (induction c ws rule: Join.induct) (auto simp: last_append)

text \<open>A path of non-empty words without the separator survives trimming and splitting.\<close>

definition plain_word :: "char \<Rightarrow> string \<Rightarrow> bool" where
  "plain_word c w \<longleftrightarrow> w \<noteq> [] \<and> c \<notin> set w"

lemma Split_trimmed:
  assumes "ws \<noteq> []" and "list_all (plain_word c) ws"
  shows "TrimLeft (TrimRight (Join c ws) c) c = Join c ws" and "Join c ws \<noteq> []"
    and "Split c (Join c ws) = ws"
proof -
  have h: "hd ws \<noteq> []" "last ws \<noteq> []" "hd (hd ws) \<noteq> c" "last (last ws) \<noteq> c"
  proof -
    have "plain_word c (hd ws)" "plain_word c (last ws)"
      using assms by (auto simp: list_all_iff)
    then show "hd ws \<noteq> []" "last ws \<noteq> []" "hd (hd ws) \<noteq> c" "last (last ws) \<noteq> c"
      by (auto simp: plain_word_def)
  qed
  note j = Join_hd [OF assms(1) h(1), of c] Join_last [OF assms(1) h(2), of c]
  then show "Join c ws \<noteq> []" by simp
  show "TrimLeft (TrimRight (Join c ws) c) c = Join c ws"
    using j h by (simp add: TrimRight_id TrimLeft_id)
  show "Split c (Join c ws) = ws"
    by (rule Split_Join) (use assms in \<open>auto simp: list_all_iff plain_word_def\<close>)
qed

end
