(* ===== verification/Go_Text.thy ===== *)
theory Go_Text
  imports Go_Strings
begin

text \<open>
  Numbers in text (\<open>strconv.ParseInt\<close>, the verb \<open>%d\<close>) and HTTP header maps (\<open>http.Header\<close>) as the
  modelled code uses them.
\<close>

section \<open>Decimal numbers\<close>

definition digit :: "nat \<Rightarrow> char" where
  "digit n = char_of (48 + n)"

definition digit_value :: "char \<Rightarrow> nat option" where
  "digit_value c = (let n = of_char c in if 48 \<le> n \<and> n \<le> (57::nat) then Some (n - 48) else None)"

fun dec_value :: "nat \<Rightarrow> string \<Rightarrow> nat option" where
  "dec_value acc [] = Some acc"
| "dec_value acc (c # cs) = (case digit_value c of None \<Rightarrow> None | Some d \<Rightarrow> dec_value (10 * acc + d) cs)"

text \<open>
  \<open>strconv.ParseInt(s, 10, 64)\<close>: an optional sign, at least one digit, a value of 64 bits; None is
  an error.
\<close>

definition ParseInt :: "string \<Rightarrow> int option" where
  "ParseInt s = (let neg = HasPrefix s ''-''; ds = (if HasPrefix s ''+'' \<or> neg then tl s else s) in
     if ds = [] then None
     else (case dec_value 0 ds of
        None \<Rightarrow> None
      | Some n \<Rightarrow> if neg then (if n \<le> 2 ^ 63 then Some (- int n) else None)
                  else if n < 2 ^ 63 then Some (int n) else None))"

fun show_nat :: "nat \<Rightarrow> string" where
  "show_nat n = (if n < 10 then [digit n] else show_nat (n div 10) @ [digit (n mod 10)])"

declare show_nat.simps [simp del]

definition show_int :: "int \<Rightarrow> string" where
  "show_int i = (if i < 0 then CHR ''-'' # show_nat (nat (- i)) else show_nat (nat i))"

lemma digit_value_digit [simp]: "n < 10 \<Longrightarrow> digit_value (digit n) = Some n"
  by (simp add: digit_value_def digit_def Let_def)

lemma dec_value_append:
  "dec_value acc (xs @ ys) = (case dec_value acc xs of None \<Rightarrow> None | Some n \<Rightarrow> dec_value n ys)"
  by (induction xs arbitrary: acc) (auto split: option.splits)

lemma dec_value_show: "dec_value 0 (show_nat n) = Some n"
proof (induction n rule: show_nat.induct)
  case (1 n)
  then show ?case
    by (cases "n < 10") (simp_all add: show_nat.simps [of n] dec_value_append)
qed

lemma show_nat_nonempty [simp]: "show_nat n \<noteq> []"
  by (simp add: show_nat.simps [of n])

lemma show_nat_digits: "c \<in> set (show_nat n) \<Longrightarrow> \<exists>d < 10. c = digit d"
proof (induction n rule: show_nat.induct)
  case (1 n)
  show ?case
  proof (cases "n < 10")
    case False
    with 1 show ?thesis by (auto simp: show_nat.simps [of n] intro: exI [of _ "n mod 10"])
  qed (use 1 in \<open>auto simp: show_nat.simps [of n]\<close>)
qed

lemma digit_differs: "d < 10 \<Longrightarrow> of_char c < (48::nat) \<or> 57 < (of_char c :: nat) \<Longrightarrow> digit d \<noteq> c"
  by (auto simp: digit_def)

lemma show_nat_no: "of_char c < (48::nat) \<or> 57 < (of_char c :: nat) \<Longrightarrow> c \<notin> set (show_nat n)"
  using show_nat_digits digit_differs by blast

lemma HasPrefix_char: "HasPrefix s [c] \<longleftrightarrow> s \<noteq> [] \<and> hd s = c"
  by (cases s) (auto simp: HasPrefix_def)

lemma show_nat_hd: "hd (show_nat n) \<noteq> CHR ''-''" "hd (show_nat n) \<noteq> CHR ''+''"
proof -
  have hd: "hd (show_nat n) \<in> set (show_nat n)" by simp
  have "CHR ''-'' \<notin> set (show_nat n)" "CHR ''+'' \<notin> set (show_nat n)"
    by (rule show_nat_no, simp)+
  with hd show "hd (show_nat n) \<noteq> CHR ''-''" "hd (show_nat n) \<noteq> CHR ''+''" by metis+
qed

lemma show_nat_unsigned:
  "\<not> HasPrefix (show_nat n) ''-''" "\<not> HasPrefix (show_nat n) ''+''"
  by (simp_all add: HasPrefix_char show_nat_hd)

lemma ParseInt_show: "n < 2 ^ 63 \<Longrightarrow> ParseInt (show_nat n) = Some (int n)"
  by (simp add: ParseInt_def show_nat_unsigned dec_value_show)

lemma ParseInt_bounds: "ParseInt s = Some n \<Longrightarrow> - (2 ^ 63) \<le> n \<and> n < 2 ^ 63"
  by (auto simp: ParseInt_def Let_def split: if_splits option.splits)

section \<open>Substrings\<close>

definition Contains :: "string \<Rightarrow> string \<Rightarrow> bool" where
  "Contains s p \<longleftrightarrow> (\<exists>i \<in> {0..length s}. HasPrefix (drop i s) p)"

section \<open>HTTP headers\<close>

text \<open>
  \<open>http.Header\<close> keeps its keys in canonical form: the first letter and each letter after a hyphen
  upper case, the others lower case; a key with a byte that is not a token byte is left as it is.
\<close>

type_synonym headers = "string \<rightharpoonup> string list"

definition token_byte :: "char \<Rightarrow> bool" where
  "token_byte c \<longleftrightarrow> (let n = of_char c :: nat in
     (48 \<le> n \<and> n \<le> 57) \<or> (65 \<le> n \<and> n \<le> 90) \<or> (97 \<le> n \<and> n \<le> 122) \<or> c \<in> set ''!#$%&*+-.^_|~''
     \<or> n = 39 \<or> n = 96)"

fun canonical_from :: "bool \<Rightarrow> string \<Rightarrow> string" where
  "canonical_from up [] = []"
| "canonical_from up (c # cs) = (let n = of_char c :: nat;
     c' = (if up \<and> 97 \<le> n \<and> n \<le> 122 then char_of (n - 32)
           else if \<not> up \<and> 65 \<le> n \<and> n \<le> 90 then char_of (n + 32) else c)
   in c' # canonical_from (c' = CHR ''-'') cs)"

definition CanonicalHeaderKey :: "string \<Rightarrow> string" where
  "CanonicalHeaderKey k = (if list_all token_byte k then canonical_from True k else k)"

definition header_set :: "string \<Rightarrow> string \<Rightarrow> headers \<Rightarrow> headers" where
  "header_set k v h = h(CanonicalHeaderKey k \<mapsto> [v])"

definition header_add :: "string \<Rightarrow> string \<Rightarrow> headers \<Rightarrow> headers" where
  "header_add k v h = h(CanonicalHeaderKey k \<mapsto>
     (case h (CanonicalHeaderKey k) of None \<Rightarrow> [] | Some vs \<Rightarrow> vs) @ [v])"

definition header_del :: "string \<Rightarrow> headers \<Rightarrow> headers" where
  "header_del k h = h(CanonicalHeaderKey k := None)"

definition header_get :: "string \<Rightarrow> headers \<Rightarrow> string" where
  "header_get k h = (case h (CanonicalHeaderKey k) of Some (v # _) \<Rightarrow> v | _ \<Rightarrow> [])"

lemma header_get_set [simp]:
  "header_get k (header_set k' v h) = (if CanonicalHeaderKey k = CanonicalHeaderKey k' then v else header_get k h)"
  by (simp add: header_get_def header_set_def)

section \<open>Splitting on a longer separator\<close>

function split_on :: "string \<Rightarrow> string \<Rightarrow> string \<Rightarrow> string list" where
  "split_on sep acc s =
     (if sep \<noteq> [] \<and> HasPrefix s sep then rev acc # split_on sep [] (drop (length sep) s)
      else (case s of [] \<Rightarrow> [rev acc] | c # cs \<Rightarrow> split_on sep (c # acc) cs))"
  by pat_completeness auto

termination
proof (relation "measure (\<lambda>(sep, acc, s). length s)")
  fix sep acc s :: string
  assume "sep \<noteq> [] \<and> HasPrefix s sep"
  then have "sep \<noteq> []" "s \<noteq> []" by (auto simp: HasPrefix_def)
  then show "((sep, [], drop (length sep) s), sep, acc, s) \<in> measure (\<lambda>(sep, acc, s). length s)"
    by simp
qed auto

declare split_on.simps [simp del]

text \<open>\<open>strings.Split(s, sep)\<close> for a separator of any positive length.\<close>

definition SplitOn :: "string \<Rightarrow> string \<Rightarrow> string list" where
  "SplitOn sep s = split_on sep [] s"

lemma split_on_nonempty [simp]: "split_on sep acc s \<noteq> []"
  by (induction sep acc s rule: split_on.induct) (subst split_on.simps, auto split: list.splits)

text \<open>\<open>strings.LastIndex(s, c)\<close> and \<open>strings.Count(s, c)\<close> of one character; None is -1.\<close>

fun LastIndex :: "string \<Rightarrow> char \<Rightarrow> nat option" where
  "LastIndex [] c = None"
| "LastIndex (x # xs) c = (case LastIndex xs c of Some i \<Rightarrow> Some (Suc i)
     | None \<Rightarrow> if x = c then Some 0 else None)"

definition Count :: "string \<Rightarrow> char \<Rightarrow> nat" where
  "Count s c = length (filter (\<lambda>x. x = c) s)"

lemma LastIndex_None [simp]: "LastIndex s c = None \<longleftrightarrow> c \<notin> set s"
  by (induction s) (auto split: option.splits)

lemma LastIndex_append: "c \<notin> set t \<Longrightarrow> LastIndex (s @ c # t) c = Some (length s)"
proof (induction s)
  case Nil
  with LastIndex_None [of t c] show ?case
    by (cases "LastIndex t c") (simp_all del: LastIndex_None)
qed simp

text \<open>\<open>strings.TrimSpace\<close>, for the white space of ASCII.\<close>

definition is_space :: "char \<Rightarrow> bool" where
  "is_space c \<longleftrightarrow> (let n = of_char c :: nat in n = 32 \<or> (9 \<le> n \<and> n \<le> 13))"

definition TrimSpace :: "string \<Rightarrow> string" where
  "TrimSpace s = rev (dropWhile is_space (rev (dropWhile is_space s)))"

end
