(* ===== verification/Erresponse.thy ===== *)
theory Erresponse
  imports Go_Prelude
begin

text \<open>
  Error responses of \<open>erresponse/errorresponse.go\<close>. An error response is a pointer to a
  \<open>DefaultErrorResponse\<close>, and its \<open>Data\<close> is a pointer to a map, so both live on a heap: \<open>Clone\<close> copies
  the struct and shares the map, and \<open>ErrorData\<close> creates the map when it is missing. The lemmas show
  when two errors share their data and when they do not.
\<close>

text \<open>The levels and categories of the package kkerror that the repository names.\<close>

datatype err_level = Normal | Urgent | Critical

datatype err_category = Client | Server | Internal | Process | Database | Cache

record err_obj =
  StatusCode :: int
  ErrName :: string
  Description :: string
  ErrorLevel :: err_level
  ErrorCategory :: err_category
  ErrorCode :: string
  ErrorMessage :: string
  Data :: "nat option"

definition err_lit ::
  "int \<Rightarrow> string \<Rightarrow> string \<Rightarrow> err_level \<Rightarrow> err_category \<Rightarrow> string \<Rightarrow> string \<Rightarrow> err_obj" where
  "err_lit st nm desc lev cat code msg =
     \<lparr>StatusCode = st, ErrName = nm, Description = desc, ErrorLevel = lev, ErrorCategory = cat,
      ErrorCode = code, ErrorMessage = msg, Data = None\<rparr>"

type_synonym err_ref = nat
type_synonym data_map = "string \<rightharpoonup> string"

record err_heap =
  errors :: "err_ref \<rightharpoonup> err_obj"
  datas :: "nat \<rightharpoonup> data_map"
  err_fresh :: nat

definition alloc_err :: "err_obj \<Rightarrow> err_heap \<Rightarrow> err_ref \<times> err_heap" where
  "alloc_err e h = (err_fresh h, h\<lparr>errors := (errors h)(err_fresh h \<mapsto> e), err_fresh := Suc (err_fresh h)\<rparr>)"

text \<open>Methods on a nil or dangling pointer panic: None.\<close>

definition ErrorStatusCode :: "err_ref \<Rightarrow> err_heap \<Rightarrow> int option" where
  "ErrorStatusCode r h = map_option StatusCode (errors h r)"

definition ErrorName :: "err_ref \<Rightarrow> err_heap \<Rightarrow> string option" where
  "ErrorName r h = map_option ErrName (errors h r)"

definition ErrorDescription :: "err_ref \<Rightarrow> err_heap \<Rightarrow> string option" where
  "ErrorDescription r h = map_option Description (errors h r)"

text \<open>\<open>ErrorData\<close> answers the map, which it creates in the error when there is none.\<close>

definition ErrorData :: "err_ref \<Rightarrow> err_heap \<Rightarrow> (nat \<times> err_heap) option" where
  "ErrorData r h = (case errors h r of
       None \<Rightarrow> None
     | Some e \<Rightarrow> (case Data e of
         Some d \<Rightarrow> Some (d, h)
       | None \<Rightarrow> Some (err_fresh h, h\<lparr>errors := (errors h)(r \<mapsto> e\<lparr>Data := Some (err_fresh h)\<rparr>),
             datas := (datas h)(err_fresh h \<mapsto> Map.empty), err_fresh := Suc (err_fresh h)\<rparr>)))"

definition Clone :: "err_ref \<Rightarrow> err_heap \<Rightarrow> (err_ref \<times> err_heap) option" where
  "Clone r h = map_option (\<lambda>e. alloc_err e h) (errors h r)"

text \<open>The assignment \<open>e.ErrorData()[k] = v\<close>.\<close>

definition put_data :: "err_ref \<Rightarrow> string \<Rightarrow> string \<Rightarrow> err_heap \<Rightarrow> err_heap option" where
  "put_data r k v h = (case ErrorData r h of
       None \<Rightarrow> None
     | Some (d, h') \<Rightarrow> Some (h'\<lparr>datas := (datas h')(d \<mapsto> (case datas h' d of None \<Rightarrow> Map.empty | Some m \<Rightarrow> m)(k \<mapsto> v))\<rparr>))"

text \<open>
  What a reader sees: the struct with the contents of its map. \<open>Error()\<close> marshals exactly this; the
  marshaller \<open>json\<close> is a parameter.
\<close>

definition visible :: "err_heap \<Rightarrow> err_ref \<Rightarrow> (err_obj \<times> data_map) option" where
  "visible h r = map_option (\<lambda>e. (e\<lparr>Data := None\<rparr>, case Data e of
       None \<Rightarrow> Map.empty | Some d \<Rightarrow> (case datas h d of None \<Rightarrow> Map.empty | Some m \<Rightarrow> m))) (errors h r)"

definition ErrorText :: "(err_obj \<times> data_map \<Rightarrow> string option) \<Rightarrow> err_ref \<Rightarrow> err_heap \<Rightarrow> string option" where
  "ErrorText json r h = map_option (\<lambda>v. case json v of None \<Rightarrow> [] | Some s \<Rightarrow> s) (visible h r)"

text \<open>
  Stamping an error for a response: the clone, and the ids of the channel and the request in its
  data. \<open>ResponseError\<close> and the dispatcher's panic handler both do this.
\<close>

definition stamped :: "err_ref \<Rightarrow> string \<Rightarrow> string \<Rightarrow> err_heap \<Rightarrow> (err_ref \<times> err_heap) option" where
  "stamped r cid tid h = Option.bind (Clone r h) (\<lambda>(c, h1).
     Option.bind (put_data c ''cid'' cid h1) (\<lambda>h2.
       map_option (Pair c) (put_data c ''tid'' tid h2)))"

section \<open>Sharing\<close>

definition wf_heap :: "err_heap \<Rightarrow> bool" where
  "wf_heap h \<longleftrightarrow> (\<forall>r e. errors h r = Some e \<longrightarrow> r < err_fresh h
      \<and> (\<forall>d. Data e = Some d \<longrightarrow> d < err_fresh h \<and> datas h d \<noteq> None))
    \<and> (\<forall>d m. datas h d = Some m \<longrightarrow> d < err_fresh h)"

lemma wf_heap_err: "wf_heap h \<Longrightarrow> errors h r = Some e \<Longrightarrow> r < err_fresh h"
  by (simp add: wf_heap_def)

lemma wf_heap_data: "wf_heap h \<Longrightarrow> errors h r = Some e \<Longrightarrow> Data e = Some d \<Longrightarrow> d < err_fresh h \<and> datas h d \<noteq> None"
  by (simp add: wf_heap_def)

lemma alloc_err_wf:
  assumes "wf_heap h" and "\<forall>d. Data e = Some d \<longrightarrow> d < err_fresh h \<and> datas h d \<noteq> None"
  shows "wf_heap (snd (alloc_err e h))"
  using assms by (auto simp: wf_heap_def alloc_err_def less_Suc_eq)

text \<open>Stamping an error without data: a private map.\<close>

lemma stamped_private:
  assumes wf: "wf_heap h" and e: "errors h r = Some e" and nil: "Data e = None"
  obtains c h' where "stamped r cid tid h = Some (c, h')"
    "visible h' c = Some (e, [''cid'' \<mapsto> cid, ''tid'' \<mapsto> tid])"
    "\<And>q. q < err_fresh h \<Longrightarrow> visible h' q = visible h q"
    "wf_heap h'" "err_fresh h \<le> c"
    "\<And>q. q < err_fresh h \<Longrightarrow> errors h' q = errors h q"
proof -
  define c where "c = err_fresh h"
  define d where "d = Suc c"
  define h' where "h' = h\<lparr>errors := (errors h)(c \<mapsto> e\<lparr>Data := Some d\<rparr>),
    datas := (datas h)(d \<mapsto> [''cid'' \<mapsto> cid, ''tid'' \<mapsto> tid]), err_fresh := Suc d\<rparr>"
  have dnone: "datas h d = None" using wf by (cases "datas h d") (auto simp: wf_heap_def d_def c_def)
  have 1: "stamped r cid tid h = Some (c, h')"
    using e nil by (simp add: stamped_def Clone_def alloc_err_def put_data_def ErrorData_def
        h'_def c_def d_def fun_upd_twist)
  have 2: "visible h' c = Some (e, [''cid'' \<mapsto> cid, ''tid'' \<mapsto> tid])"
    using nil by (simp add: visible_def h'_def)
  have same: "errors h' q = errors h q" if "q < err_fresh h" for q
    using that by (simp add: h'_def c_def)
  have 3: "visible h' q = visible h q" if q: "q < err_fresh h" for q
  proof (cases "errors h q")
    case (Some e')
    then have "Data e' \<noteq> Some d" using wf_heap_data [OF wf Some] by (auto simp: d_def c_def)
    with Some same [OF q] show ?thesis by (auto simp: visible_def h'_def split: option.splits)
  qed (use same [OF q] in \<open>simp add: visible_def\<close>)
  have 4: "wf_heap h'"
    using wf unfolding wf_heap_def h'_def c_def d_def by (auto simp: less_Suc_eq)
  show thesis by (rule that [OF 1 2 3 4 _ same]) (simp_all add: c_def)
qed

text \<open>Stamping an error with data: the map is shared with the original.\<close>

lemma stamped_shared:
  assumes wf: "wf_heap h" and e: "errors h r = Some e" and d: "Data e = Some d" and m: "datas h d = Some m"
  shows "\<exists>c h'. stamped r cid tid h = Some (c, h') \<and> c \<noteq> r
    \<and> visible h' c = Some (e\<lparr>Data := None\<rparr>, m(''cid'' \<mapsto> cid, ''tid'' \<mapsto> tid))
    \<and> visible h' r = Some (e\<lparr>Data := None\<rparr>, m(''cid'' \<mapsto> cid, ''tid'' \<mapsto> tid))"
proof -
  have "r \<noteq> err_fresh h" using wf_heap_err [OF wf e] by simp
  then show ?thesis
    using e d m by (simp add: stamped_def Clone_def alloc_err_def put_data_def ErrorData_def visible_def)
qed

text \<open>In either case the stamped clone shows the error with its data and the two ids.\<close>

lemma stamped_visible:
  assumes wf: "wf_heap h" and v: "visible h r = Some (e, m)"
  shows "\<exists>c h'. stamped r cid tid h = Some (c, h') \<and> wf_heap h'
    \<and> visible h' c = Some (e, m(''cid'' \<mapsto> cid, ''tid'' \<mapsto> tid))"
proof -
  from v obtain e0 where e0: "errors h r = Some e0" "e = e0\<lparr>Data := None\<rparr>"
    by (auto simp: visible_def)
  show ?thesis
  proof (cases "Data e0")
    case None
    then have "e0 = e" using e0(2) by (cases e0) simp
    have "m = Map.empty" using v e0(1) None by (simp add: visible_def)
    obtain c h' where "stamped r cid tid h = Some (c, h')"
        "visible h' c = Some (e0, [''cid'' \<mapsto> cid, ''tid'' \<mapsto> tid])" "wf_heap h'"
      by (rule stamped_private [OF wf e0(1) None]) blast
    then show ?thesis using \<open>e0 = e\<close> \<open>m = Map.empty\<close> by blast
  next
    case (Some d)
    then obtain md where md: "datas h d = Some md" using wf_heap_data [OF wf e0(1)] by auto
    have "m = md" using v e0(1) Some md by (simp add: visible_def)
    have rn: "r \<noteq> err_fresh h" using wf_heap_err [OF wf e0(1)] by simp
    let ?h' = "h\<lparr>errors := (errors h)(err_fresh h \<mapsto> e0), err_fresh := Suc (err_fresh h),
      datas := (datas h)(d \<mapsto> md(''cid'' \<mapsto> cid, ''tid'' \<mapsto> tid))\<rparr>"
    have "stamped r cid tid h = Some (err_fresh h, ?h')"
      using e0 Some md rn by (simp add: stamped_def Clone_def alloc_err_def put_data_def ErrorData_def)
    moreover have "wf_heap ?h'"
      using wf md Some e0(1) unfolding wf_heap_def by (auto simp: less_Suc_eq)
    moreover have "visible ?h' (err_fresh h) = Some (e, md(''cid'' \<mapsto> cid, ''tid'' \<mapsto> tid))"
      using e0 Some by (simp add: visible_def)
    ultimately show ?thesis using \<open>m = md\<close> by blast
  qed
qed

end
