(* ===== verification/Erresponse_Table.thy ===== *)
theory Erresponse_Table
  imports Erresponse
begin

text \<open>
  The predefined error responses, one file of \<open>erresponse/\<close> each, with the constants of
  \<open>erresponse/constant/constant.go\<close> and the numbers of \<open>ghttp/httpstatus/status.go\<close> written out; a
  variable whose Go name begins with an underscore ends in \<open>_registered\<close> here. Then the collection they are registered
  in. The properties state the consistency of the table and which of the errors share data.
\<close>

definition NotImplemented :: "err_obj" where
  "NotImplemented =
     err_lit 0 ''not_implemented'' [] Normal Server ''000000'' ''not_implemented''"

definition InvalidRequest :: "err_obj" where
  "InvalidRequest =
     err_lit 400 ''invalid_request'' [] Normal Client ''400001'' []"

definition InvalidRequestCantConvert :: "err_obj" where
  "InvalidRequestCantConvert =
     err_lit 400 ''invalid_request'' ''can not convert'' Normal Client ''400002'' []"

definition InvalidRequestEmailUsed :: "err_obj" where
  "InvalidRequestEmailUsed =
     err_lit 400 ''invalid_request'' ''email used'' Normal Client ''400003'' []"

definition InvalidRequestExpired :: "err_obj" where
  "InvalidRequestExpired =
     err_lit 400 ''invalid_request'' ''request expired'' Normal Client ''400004'' []"

definition InvalidRequestWrongTokenFormat :: "err_obj" where
  "InvalidRequestWrongTokenFormat =
     err_lit 400 ''invalid_request'' ''wrong token format'' Normal Client ''400005'' []"

definition InvalidRequestWrongPassword :: "err_obj" where
  "InvalidRequestWrongPassword =
     err_lit 400 ''invalid_request'' ''wrong password'' Normal Client ''400006'' []"

definition InvalidRequestSamePassword :: "err_obj" where
  "InvalidRequestSamePassword =
     err_lit 400 ''invalid_request'' ''same password'' Normal Client ''400007'' []"

definition InvalidRequestWeakPassword :: "err_obj" where
  "InvalidRequestWeakPassword =
     err_lit 400 ''invalid_request'' ''weak password'' Normal Client ''400008'' []"

definition InvalidRequestRecentPassword :: "err_obj" where
  "InvalidRequestRecentPassword =
     err_lit 400 ''invalid_request'' ''recent password'' Normal Client ''400009'' []"

definition InvalidRequestPhoneUsed :: "err_obj" where
  "InvalidRequestPhoneUsed =
     err_lit 400 ''invalid_request'' ''phone used'' Normal Client ''400010'' []"

definition InvalidRequestInvalidRequestUri :: "err_obj" where
  "InvalidRequestInvalidRequestUri =
     err_lit 400 ''invalid_request'' ''invalid request_uri'' Normal Client ''400011'' []"

definition InvalidRequestRedirectUriIsNotMatch :: "err_obj" where
  "InvalidRequestRedirectUriIsNotMatch =
     err_lit 400 ''invalid_request'' ''redirect_uri is not match'' Normal Client ''400012'' []"

definition InvalidRequestWrongCodeChallengeMethod :: "err_obj" where
  "InvalidRequestWrongCodeChallengeMethod =
     err_lit 400 ''invalid_request'' (''code_challenge_method should be '' @ [CHR 0x60] @ ''plain'' @ [CHR 0x60] @ '' or '' @ [CHR 0x60] @ ''S256'' @ [CHR 0x60]) Normal Client ''400013'' []"

definition InvalidRequestWrongCodeChallenge :: "err_obj" where
  "InvalidRequestWrongCodeChallenge =
     err_lit 400 ''invalid_request'' ''code_challenge format wrong'' Normal Client ''400014'' []"

definition InvalidRequestWrongBodyFormat :: "err_obj" where
  "InvalidRequestWrongBodyFormat =
     err_lit 400 ''invalid_request'' ''wrong body format'' Normal Client ''400015'' []"

definition InvalidRequestCantBeEmptyOfName_registered :: "err_obj" where
  "InvalidRequestCantBeEmptyOfName_registered =
     err_lit 400 ''invalid_request'' ''insufficient parameters'' Normal Client ''400101'' (''[name]'' @ '' can'' @ [CHR 0x27] @ ''t be empty'')"

definition InvalidRequestCantBeEmptyOfName :: "string \<Rightarrow> err_obj" where
  "InvalidRequestCantBeEmptyOfName name =
     err_lit 400 ''invalid_request'' ''insufficient parameters'' Normal Client ''400101'' (name @ '' can'' @ [CHR 0x27] @ ''t be empty'')"

definition InvalidRequestWithMessage_registered :: "err_obj" where
  "InvalidRequestWithMessage_registered =
     err_lit 400 ''invalid_request'' [] Normal Client ''400102'' []"

definition InvalidRequestWithMessage :: "(string \<Rightarrow> 'x list \<Rightarrow> string) \<Rightarrow> string \<Rightarrow> 'x list \<Rightarrow> err_obj" where
  "InvalidRequestWithMessage sprintf format params =
     err_lit 400 ''invalid_request'' [] Normal Client ''400102'' (if params = [] then format else sprintf format params)"

definition InvalidRequestWrongFormatOfName_registered :: "err_obj" where
  "InvalidRequestWrongFormatOfName_registered =
     err_lit 400 ''invalid_request'' ''parameter wrong format'' Normal Client ''400103'' (''[name]'' @ '' has wrong format'')"

definition InvalidRequestWrongFormatOfName :: "string \<Rightarrow> err_obj" where
  "InvalidRequestWrongFormatOfName name =
     err_lit 400 ''invalid_request'' ''parameter wrong format'' Normal Client ''400103'' (name @ '' has wrong format'')"

definition InvalidRequestInvalidParameterOfName_registered :: "err_obj" where
  "InvalidRequestInvalidParameterOfName_registered =
     err_lit 400 ''invalid_request'' ''invalid parameter'' Normal Client ''400104'' (''[name]'' @ '' has invalid data'')"

definition InvalidRequestInvalidDataOfName :: "string \<Rightarrow> err_obj" where
  "InvalidRequestInvalidDataOfName name =
     err_lit 400 ''invalid_request'' ''invalid parameter'' Normal Client ''400104'' (name @ '' has invalid data'')"

definition InvalidRequestParameterTooLongOfName_registered :: "err_obj" where
  "InvalidRequestParameterTooLongOfName_registered =
     err_lit 400 ''invalid_request'' ''parameter too long'' Normal Client ''400105'' (''[name]'' @ '' is too long'')"

definition InvalidRequestParameterTooLongOfName :: "string \<Rightarrow> err_obj" where
  "InvalidRequestParameterTooLongOfName name =
     err_lit 400 ''invalid_request'' ''parameter too long'' Normal Client ''400105'' (name @ '' is too long'')"

definition InvalidScope :: "err_obj" where
  "InvalidScope =
     err_lit 400 ''invalid_scope'' [] Normal Client ''400201'' []"

definition UnsupportedGrantType :: "err_obj" where
  "UnsupportedGrantType =
     err_lit 400 ''unsupported_grant_type'' [] Normal Client ''400301'' []"

definition UnsupportedOperation :: "err_obj" where
  "UnsupportedOperation =
     err_lit 400 ''unsupported_operation'' [] Urgent Client ''400302'' []"

definition UnsupportedResponseType :: "err_obj" where
  "UnsupportedResponseType =
     err_lit 400 ''unsupported_response_type'' [] Normal Client ''400303'' []"

definition InvalidClient :: "err_obj" where
  "InvalidClient =
     err_lit 401 ''invalid_client'' [] Normal Client ''401001'' []"

definition InvalidClientExpiresAtIsTooLong :: "err_obj" where
  "InvalidClientExpiresAtIsTooLong =
     err_lit 401 ''invalid_client'' ''client secret exp is too long'' Normal Client ''401002'' []"

definition InvalidToken :: "err_obj" where
  "InvalidToken =
     err_lit 401 ''invalid_token'' [] Normal Client ''401101'' []"

definition InvalidTokenExpiredOrRevoked :: "err_obj" where
  "InvalidTokenExpiredOrRevoked =
     err_lit 401 ''invalid_token'' ''token expired or revoked'' Normal Client ''401102'' []"

definition InvalidGrantRefreshTokenExpired :: "err_obj" where
  "InvalidGrantRefreshTokenExpired =
     err_lit 401 ''invalid_token'' ''refresh_token is expired'' Normal Client ''401103'' []"

definition InvalidTokenWithMessage :: "string \<Rightarrow> err_obj" where
  "InvalidTokenWithMessage message =
     err_lit 401 ''invalid_token'' [] Normal Client ''401402'' message"

definition InvalidGrant :: "err_obj" where
  "InvalidGrant =
     err_lit 403 ''invalid_grant'' [] Normal Client ''403001'' []"

definition InvalidGrantPhoneAlreadySetup :: "err_obj" where
  "InvalidGrantPhoneAlreadySetup =
     err_lit 403 ''invalid_grant'' ''phone already setup'' Normal Client ''403002'' []"

definition InvalidGrantUserNotExistOrPasswordNotMatch :: "err_obj" where
  "InvalidGrantUserNotExistOrPasswordNotMatch =
     err_lit 403 ''invalid_grant'' ''user is not exist or password is not correct'' Normal Client ''403003'' []"

definition InvalidGrantConditionCheckFail :: "err_obj" where
  "InvalidGrantConditionCheckFail =
     err_lit 403 ''invalid_grant'' ''condition check fail'' Normal Client ''403004'' []"

definition InvalidGrantScopeNotGranted :: "err_obj" where
  "InvalidGrantScopeNotGranted =
     err_lit 403 ''insufficient_scope'' ''scope not granted'' Normal Client ''403101'' []"

definition SRPUnsupported :: "err_obj" where
  "SRPUnsupported =
     err_lit 403 ''srp_unsupported'' [] Normal Client ''403201'' []"

definition InvalidGrantWithMessage :: "string \<Rightarrow> err_obj" where
  "InvalidGrantWithMessage message =
     err_lit 403 ''invalid_grant'' [] Normal Client ''403401'' message"

definition NotFound :: "err_obj" where
  "NotFound =
     err_lit 404 ''not_found'' [] Normal Client ''404001'' []"

definition NotFoundObjectNotExist :: "err_obj" where
  "NotFoundObjectNotExist =
     err_lit 404 ''not_found'' ''target object is not exist'' Normal Client ''404002'' []"

definition NotFoundUserNotFound :: "err_obj" where
  "NotFoundUserNotFound =
     err_lit 404 ''not_found'' ''user not found'' Normal Client ''404003'' []"

definition NotFoundCredentialNotFound :: "err_obj" where
  "NotFoundCredentialNotFound =
     err_lit 404 ''not_found'' ''credential not found'' Urgent Server ''404004'' []"

definition NotFoundWithMessage_registered :: "err_obj" where
  "NotFoundWithMessage_registered =
     err_lit 404 ''not_found'' [] Normal Client ''404101'' []"

definition NotFoundWithMessage :: "string \<Rightarrow> err_obj" where
  "NotFoundWithMessage message =
     err_lit 404 ''not_found'' [] Normal Client ''404101'' message"

definition MethodNotAllowed :: "err_obj" where
  "MethodNotAllowed =
     err_lit 405 ''method_not_allowed'' [] Normal Client ''405001'' []"

definition SlowDownTooFast :: "err_obj" where
  "SlowDownTooFast =
     err_lit 429 ''slow_down'' ''too fast, rate limit exceeded'' Normal Client ''429001'' []"

definition ServerError :: "err_obj" where
  "ServerError =
     err_lit 500 ''server_error'' [] Urgent Server ''500001'' []"

definition ServerErrorCantGetNecessaryData :: "err_obj" where
  "ServerErrorCantGetNecessaryData =
     err_lit 500 ''server_error'' (''can'' @ [CHR 0x27] @ ''t get necessary data'') Urgent Server ''500002'' []"

definition ServerErrorOperationCantBeDone :: "err_obj" where
  "ServerErrorOperationCantBeDone =
     err_lit 500 ''server_error'' (''operation can'' @ [CHR 0x27] @ ''t be done'') Critical Process ''500003'' []"

definition ServerErrorOtherServiceConnectionDefeated :: "err_obj" where
  "ServerErrorOtherServiceConnectionDefeated =
     err_lit 500 ''server_error'' ''other service connection defeated'' Urgent Internal ''500004'' []"

definition ServerErrorDatabaseOperationFail :: "err_obj" where
  "ServerErrorDatabaseOperationFail =
     err_lit 500 ''server_error'' ''database operation fail'' Critical Database ''500005'' []"

definition ServerErrorDatabaseOperationWithMessage :: "string \<Rightarrow> err_obj" where
  "ServerErrorDatabaseOperationWithMessage message =
     err_lit 500 ''server_error'' ''database operation fail'' Critical Database ''500005'' message"

definition ServerErrorCacheOperationFail :: "err_obj" where
  "ServerErrorCacheOperationFail =
     err_lit 500 ''server_error'' ''cache operation fail'' Critical Cache ''500006'' []"

definition ServerErrorCacheOperationWithMessage :: "string \<Rightarrow> err_obj" where
  "ServerErrorCacheOperationWithMessage message =
     err_lit 500 ''server_error'' ''cache operation fail'' Critical Cache ''500006'' message"

definition ServerErrorEmailOperationFail :: "err_obj" where
  "ServerErrorEmailOperationFail =
     err_lit 500 ''server_error'' ''email operation fail'' Urgent Internal ''500007'' []"

definition ServerErrorEmailOperationWithMessage :: "string \<Rightarrow> err_obj" where
  "ServerErrorEmailOperationWithMessage message =
     err_lit 500 ''server_error'' ''email operation fail'' Urgent Internal ''500007'' message"

definition ServerErrorSMSOperationFail :: "err_obj" where
  "ServerErrorSMSOperationFail =
     err_lit 500 ''server_error'' ''sms operation fail'' Critical Internal ''500008'' []"

definition ServerErrorSMSOperationWithMessage :: "string \<Rightarrow> err_obj" where
  "ServerErrorSMSOperationWithMessage message =
     err_lit 500 ''server_error'' ''sms operation fail'' Critical Internal ''500008'' message"

definition ServerErrorCrossServiceOperationFail :: "err_obj" where
  "ServerErrorCrossServiceOperationFail =
     err_lit 500 ''server_error'' ''cross service operation fail'' Critical Internal ''500009'' []"

definition ServerErrorCrossServiceOperationWithMessage :: "string \<Rightarrow> err_obj" where
  "ServerErrorCrossServiceOperationWithMessage message =
     err_lit 500 ''server_error'' ''cross service operation fail'' Critical Internal ''500009'' message"

definition ServerErrorPanic :: "err_obj" where
  "ServerErrorPanic =
     err_lit 500 ''server_error'' ''panic'' Urgent Server ''500099'' []"

definition ServerErrorPanicWithMessage :: "string \<Rightarrow> err_obj" where
  "ServerErrorPanicWithMessage message =
     err_lit 500 ''server_error'' ''panic'' Urgent Server ''500099'' message"

section \<open>The registry\<close>

text \<open>\<open>Collection.Register\<close> is called once for each of these when the package is initialised.\<close>

definition registered_errors :: "err_obj list" where
  "registered_errors = [NotImplemented, InvalidRequest, InvalidRequestCantConvert, InvalidRequestEmailUsed,
     InvalidRequestExpired, InvalidRequestWrongTokenFormat, InvalidRequestWrongPassword,
     InvalidRequestSamePassword, InvalidRequestWeakPassword, InvalidRequestRecentPassword,
     InvalidRequestPhoneUsed, InvalidRequestInvalidRequestUri, InvalidRequestRedirectUriIsNotMatch,
     InvalidRequestWrongCodeChallengeMethod, InvalidRequestWrongCodeChallenge,
     InvalidRequestWrongBodyFormat, InvalidRequestCantBeEmptyOfName_registered,
     InvalidRequestWithMessage_registered, InvalidRequestWrongFormatOfName_registered,
     InvalidRequestInvalidParameterOfName_registered,
     InvalidRequestParameterTooLongOfName_registered, InvalidScope, UnsupportedGrantType,
     UnsupportedOperation, UnsupportedResponseType, InvalidClient, InvalidClientExpiresAtIsTooLong,
     InvalidToken, InvalidTokenExpiredOrRevoked, InvalidGrantRefreshTokenExpired, InvalidGrant,
     InvalidGrantPhoneAlreadySetup, InvalidGrantUserNotExistOrPasswordNotMatch,
     InvalidGrantConditionCheckFail, InvalidGrantScopeNotGranted, SRPUnsupported, NotFound,
     NotFoundObjectNotExist, NotFoundUserNotFound, NotFoundCredentialNotFound,
     NotFoundWithMessage_registered, MethodNotAllowed, SlowDownTooFast, ServerError,
     ServerErrorCantGetNecessaryData, ServerErrorOperationCantBeDone,
     ServerErrorOtherServiceConnectionDefeated, ServerErrorDatabaseOperationFail,
     ServerErrorCacheOperationFail, ServerErrorEmailOperationFail, ServerErrorSMSOperationFail,
     ServerErrorCrossServiceOperationFail, ServerErrorPanic]"

definition Register :: "err_ref \<Rightarrow> err_ref set \<Rightarrow> err_ref \<times> err_ref set" where
  "Register r coll = (r, insert r coll)"

fun init_errors :: "err_obj list \<Rightarrow> err_ref set \<Rightarrow> err_heap \<Rightarrow> err_ref set \<times> err_heap" where
  "init_errors [] coll h = (coll, h)"
| "init_errors (e # es) coll h = (let (r, h') = alloc_err e h; (_, coll') = Register r coll
     in init_errors es coll' h')"

definition no_errors :: err_heap where
  "no_errors = \<lparr>errors = Map.empty, datas = Map.empty, err_fresh = 0\<rparr>"

definition package_heap :: err_heap where
  "package_heap = snd (init_errors registered_errors {} no_errors)"

lemmas table_defs = NotImplemented_def InvalidRequest_def InvalidRequestCantConvert_def InvalidRequestEmailUsed_def
  InvalidRequestExpired_def InvalidRequestWrongTokenFormat_def InvalidRequestWrongPassword_def
  InvalidRequestSamePassword_def InvalidRequestWeakPassword_def InvalidRequestRecentPassword_def
  InvalidRequestPhoneUsed_def InvalidRequestInvalidRequestUri_def
  InvalidRequestRedirectUriIsNotMatch_def InvalidRequestWrongCodeChallengeMethod_def
  InvalidRequestWrongCodeChallenge_def InvalidRequestWrongBodyFormat_def
  InvalidRequestCantBeEmptyOfName_registered_def InvalidRequestWithMessage_registered_def
  InvalidRequestWrongFormatOfName_registered_def
  InvalidRequestInvalidParameterOfName_registered_def
  InvalidRequestParameterTooLongOfName_registered_def InvalidScope_def UnsupportedGrantType_def
  UnsupportedOperation_def UnsupportedResponseType_def InvalidClient_def
  InvalidClientExpiresAtIsTooLong_def InvalidToken_def InvalidTokenExpiredOrRevoked_def
  InvalidGrantRefreshTokenExpired_def InvalidGrant_def InvalidGrantPhoneAlreadySetup_def
  InvalidGrantUserNotExistOrPasswordNotMatch_def InvalidGrantConditionCheckFail_def
  InvalidGrantScopeNotGranted_def SRPUnsupported_def NotFound_def NotFoundObjectNotExist_def
  NotFoundUserNotFound_def NotFoundCredentialNotFound_def NotFoundWithMessage_registered_def
  MethodNotAllowed_def SlowDownTooFast_def ServerError_def ServerErrorCantGetNecessaryData_def
  ServerErrorOperationCantBeDone_def ServerErrorOtherServiceConnectionDefeated_def
  ServerErrorDatabaseOperationFail_def ServerErrorCacheOperationFail_def
  ServerErrorEmailOperationFail_def ServerErrorSMSOperationFail_def
  ServerErrorCrossServiceOperationFail_def ServerErrorPanic_def

text \<open>The three leading digits of a code, as a number.\<close>

definition leading :: "string \<Rightarrow> int" where
  "leading c = fold (\<lambda>x n. 10 * n + (int (of_char x) - 48)) (take 3 c) 0"

text \<open>
  The table of errors is consistent: the codes of the registered errors are pairwise distinct,
  have six characters and begin with the HTTP status of the error, and none of them has data of its
  own.
\<close>

theorem registered_codes_consistent:
  "distinct (map ErrorCode registered_errors) \<and>
   (\<forall>e \<in> set registered_errors. length (ErrorCode e) = 6 \<and> leading (ErrorCode e) = StatusCode e \<and> Data e = None)"
proof (rule conjI)
  show "distinct (map ErrorCode registered_errors)"
    by (simp add: registered_errors_def table_defs err_lit_def)
  show "\<forall>e \<in> set registered_errors. length (ErrorCode e) = 6 \<and> leading (ErrorCode e) = StatusCode e \<and> Data e = None"
    by (simp add: registered_errors_def table_defs err_lit_def leading_def)
qed

section \<open>Stamping errors for responses\<close>

text \<open>Several responses, one after the other, each made from one of the shared errors.\<close>

fun stamp_all :: "(err_ref \<times> string \<times> string) list \<Rightarrow> err_heap \<Rightarrow> (err_ref list \<times> err_heap) option" where
  "stamp_all [] h = Some ([], h)"
| "stamp_all ((r, cid, tid) # todo) h = (case stamped r cid tid h of
       None \<Rightarrow> None
     | Some (c, h') \<Rightarrow> map_option (\<lambda>(cs, h''). (c # cs, h'')) (stamp_all todo h'))"

definition plain_error :: "err_heap \<Rightarrow> err_ref \<Rightarrow> bool" where
  "plain_error h r \<longleftrightarrow> (\<exists>e. errors h r = Some e \<and> Data e = None)"

definition shows_ids :: "err_heap \<Rightarrow> err_heap \<Rightarrow> err_ref \<times> string \<times> string \<Rightarrow> err_ref \<Rightarrow> bool" where
  "shows_ids h0 h q c \<longleftrightarrow> (case q of (r, cid, tid) \<Rightarrow>
     visible h c = Some (the (errors h0 r), [''cid'' \<mapsto> cid, ''tid'' \<mapsto> tid]))"

lemma wf_plain_less: "wf_heap h \<Longrightarrow> plain_error h r \<Longrightarrow> r < err_fresh h"
  by (auto simp: plain_error_def wf_heap_def)

lemma stamp_all_isolated:
  assumes "wf_heap h" and "\<forall>(r, _) \<in> set reqs. plain_error h r"
  shows "\<exists>cs h'. stamp_all reqs h = Some (cs, h') \<and> list_all2 (shows_ids h h') reqs cs
    \<and> (\<forall>q < err_fresh h. visible h' q = visible h q \<and> errors h' q = errors h q)"
  using assms
proof (induction reqs arbitrary: h rule: list.induct)
  case (Cons q todo)
  obtain r cid tid where q: "q = (r, cid, tid)" by (cases q) auto
  from Cons.prems(2) q have "plain_error h r" by simp
  then obtain e where e: "errors h r = Some e" "Data e = None" by (auto simp: plain_error_def)
  from stamped_private [OF Cons.prems(1) e] obtain c h1 where c:
    "stamped r cid tid h = Some (c, h1)"
    "visible h1 c = Some (e, [''cid'' \<mapsto> cid, ''tid'' \<mapsto> tid])"
    "\<And>q. q < err_fresh h \<Longrightarrow> visible h1 q = visible h q"
    "wf_heap h1" "err_fresh h \<le> c"
    "\<And>q. q < err_fresh h \<Longrightarrow> errors h1 q = errors h q" by metis
  have keep: "plain_error h1 s \<and> s < err_fresh h" if "(s, i) \<in> set todo" for s i
  proof -
    have "plain_error h s" using Cons.prems(2) that by auto
    then show ?thesis using c(6) wf_plain_less [OF Cons.prems(1)] by (auto simp: plain_error_def)
  qed
  then have "\<forall>(s, _) \<in> set todo. plain_error h1 s" by auto
  from Cons.IH [OF c(4) this] obtain cs h2 where ih:
    "stamp_all todo h1 = Some (cs, h2)" "list_all2 (shows_ids h1 h2) todo cs"
    "\<forall>q < err_fresh h1. visible h2 q = visible h1 q \<and> errors h2 q = errors h1 q" by blast
  obtain ec where "errors h1 c = Some ec" using c(2) by (auto simp: visible_def)
  then have cl: "c < err_fresh h1" using wf_heap_err [OF c(4)] by blast
  have fr: "q < err_fresh h1" if "q < err_fresh h" for q using that c(5) cl by simp
  have "list_all2 (shows_ids h h2) todo cs"
    using ih(2) by (rule list.rel_mono_strong) (use keep c(6) in \<open>force simp: shows_ids_def\<close>)
  moreover have "shows_ids h h2 q c" using q e c(2) ih(3) cl by (simp add: shows_ids_def)
  ultimately show ?case
    using q c(1) ih(1) ih(3) c(3,6) fr by simp
qed simp


text \<open>
  Once somebody has called ErrorData on a shared error, its clones share one map: after a second
  response is stamped, the first one shows the ids of the second, and so does the shared error.
\<close>

theorem asked_error_leaks:
  assumes "wf_heap h" and "errors h r = Some e" and "Data e = None" and "ErrorData r h = Some (d, h1)"
  shows "\<exists>a b h3. stamp_all [(r, cid1, tid1), (r, cid2, tid2)] h1 = Some ([a, b], h3)
    \<and> visible h3 a = Some (e, [''cid'' \<mapsto> cid2, ''tid'' \<mapsto> tid2]) \<and> visible h3 b = visible h3 a
    \<and> visible h3 r = visible h3 a"
proof -
  have less: "r < err_fresh h" using wf_heap_err [OF assms(1,2)] .
  have h1: "d = err_fresh h" "h1 = h\<lparr>errors := (errors h)(r \<mapsto> e\<lparr>Data := Some (err_fresh h)\<rparr>),
      datas := (datas h)(err_fresh h \<mapsto> Map.empty), err_fresh := Suc (err_fresh h)\<rparr>"
    using assms(2-4) by (auto simp: ErrorData_def)
  have "e\<lparr>Data := None\<rparr> = e" using assms(3) by simp
  with less show ?thesis
    by (simp add: h1 stamped_def Clone_def alloc_err_def put_data_def ErrorData_def visible_def)
qed

definition two_errors :: err_heap where
  "two_errors = snd (init_errors [NotFound, ServerErrorPanic] {} no_errors)"

lemma two_errors_facts: "wf_heap two_errors" "errors two_errors 0 = Some NotFound" "Data NotFound = None"
    "plain_error two_errors 0" "plain_error two_errors 1"
  by (simp_all add: two_errors_def no_errors_def wf_heap_def alloc_err_def Register_def NotFound_def
      ServerErrorPanic_def err_lit_def plain_error_def split: if_splits)


theorem asked_error_leaks_witness:
  "\<exists>d h1 a b h3. ErrorData 0 two_errors = Some (d, h1)
    \<and> stamp_all [(0, ''ch1'', ''t1''), (0, ''ch2'', ''t2'')] h1 = Some ([a, b], h3)
    \<and> visible h3 a = Some (NotFound, [''cid'' \<mapsto> ''ch2'', ''tid'' \<mapsto> ''t2''])"
proof -
  obtain d h1 where d: "ErrorData 0 two_errors = Some (d, h1)"
    using two_errors_facts by (auto simp: ErrorData_def)
  with asked_error_leaks [OF two_errors_facts(1-3) d] show ?thesis by blast
qed

end
