(* ===== verification/Ghttp_Objects.thy ===== *)
theory Ghttp_Objects
  imports Go_Text Byte_Buf Erresponse_Table
begin

text \<open>
  Requests and responses of \<open>ghttp/httpobjects.go\<close>: the client's address from the connection and
  the \<open>X-Forwarded-For\<close> header, quality values, and the methods that fill a response. A body is a
  byte buffer of any kind that keeps the laws of \<open>Byte_Buf\<close>; what other packages compute
  (\<open>net.ParseIP\<close>, \<open>validate.IsPublicIP\<close>, \<open>strconv.ParseFloat\<close>, \<open>json.Marshal\<close>) is a parameter.
\<close>

section \<open>Requests\<close>

type_synonym session_ref = nat

record 'b request =
  r_method :: string
  r_path :: string
  r_header :: headers
  r_cookies :: "string \<rightharpoonup> string"
  r_remoteAddr :: string
  remoteAddrs :: "string list"
  r_body :: 'b
  r_channelID :: string
  trackID :: string
  r_session :: "session_ref option"

definition Origin :: "'b request \<Rightarrow> string" where
  "Origin r = header_get ''origin'' (r_header r)"

text \<open>
  What \<open>io.ReadAll\<close> made of the body: nothing to read, all of it, more than the limit, or another
  error.
\<close>

datatype body_read = NoBody | BodyBytes "byte list" | BodyTooLarge | BodyError

definition read_body :: "'b bytebuf_ops \<Rightarrow> body_read \<Rightarrow> 'b option" where
  "read_body ops br = (case br of
       NoBody \<Rightarrow> Some (EmptyByteBuf ops)
     | BodyBytes bs \<Rightarrow> Some (NewByteBuf ops bs)
     | BodyTooLarge \<Rightarrow> None
     | BodyError \<Rightarrow> Some (EmptyByteBuf ops))"

text \<open>
  The address: the last entry of \<open>X-Forwarded-For\<close> that \<open>public\<close> accepts replaces the peer's address.
\<close>

definition forwarded_addr :: "(string \<Rightarrow> bool) \<Rightarrow> string list \<Rightarrow> string \<Rightarrow> string" where
  "forwarded_addr public xffu addr = (case find public (rev xffu) of Some a \<Rightarrow> a | None \<Rightarrow> addr)"

definition WrapRequest ::
  "'b bytebuf_ops \<Rightarrow> (string \<Rightarrow> bool) \<Rightarrow> string \<Rightarrow> string \<Rightarrow> body_read
     \<Rightarrow> 'b request \<Rightarrow> 'b request option" where
  "WrapRequest ops public ch track br req = (case read_body ops br of
       None \<Rightarrow> None
     | Some b \<Rightarrow>
        let req = req\<lparr>r_body := b, r_channelID := ch, trackID := track, r_session := None\<rparr>;
            xff = header_get ''x-forwarded-for'' (r_header req) in
        Some (if xff \<noteq> [] then
            (let xffu = SplitOn '', '' xff; rAddr = r_remoteAddr req in
             req\<lparr>r_remoteAddr := forwarded_addr public xffu rAddr, remoteAddrs := xffu @ [rAddr]\<rparr>)
          else req\<lparr>remoteAddrs := [r_remoteAddr req]\<rparr>))"

text \<open>\<open>Request.RemoteAddr\<close>; None when a slice is out of range.\<close>

definition RemoteAddr :: "(string \<Rightarrow> 'ip) \<Rightarrow> string \<Rightarrow> ('ip \<times> string) option" where
  "RemoteAddr parse_ip addr =
     (if Count addr (CHR '':'') > 1 then
        (if LastIndex addr (CHR '']'') = None then Some (parse_ip addr, [])
         else (case LastIndex addr (CHR '':'') of
             None \<Rightarrow> None
           | Some i \<Rightarrow> if i < 2 then None
               else Some (parse_ip (take (i - 2) (drop 1 addr)), drop (Suc i) addr)))
      else (case LastIndex addr (CHR '':'') of
          None \<Rightarrow> Some (parse_ip addr, [])
        | Some i \<Rightarrow> Some (parse_ip (take i addr), drop (Suc i) addr)))"

section \<open>Quality values\<close>

record 'f quality =
  q_Value :: string
  q_Factor :: 'f

definition quality_entry :: "(string \<Rightarrow> 'f option) \<Rightarrow> 'f \<Rightarrow> string \<Rightarrow> 'f quality" where
  "quality_entry parse_float zero entity = (let split = Split (CHR '';'') entity in
     \<lparr>q_Value = hd split,
      q_Factor = (if length split = 2 then
          (let factor = Split (CHR ''='') (split ! 1) in
           if length factor = 2 then (case parse_float (factor ! 1) of None \<Rightarrow> zero | Some f \<Rightarrow> f) else zero)
        else zero)\<rparr>)"

definition DecodeQualityValueField :: "(string \<Rightarrow> 'f option) \<Rightarrow> 'f \<Rightarrow> string \<Rightarrow> 'f quality list" where
  "DecodeQualityValueField parse_float zero text =
     (if text = [] \<or> text = ''*'' then []
      else map (quality_entry parse_float zero) (Split (CHR '','') (TrimSpace text)))"

definition Accept_field :: "string \<Rightarrow> (string \<Rightarrow> 'f option) \<Rightarrow> 'f \<Rightarrow> 'b request \<Rightarrow> 'f quality list" where
  "Accept_field key parse_float zero r = DecodeQualityValueField parse_float zero (header_get key (r_header r))"

text \<open>
  \<open>AcceptLanguage\<close>: \<open>parse\<close> is \<open>language.ParseAcceptLanguage\<close>, which answers as many weights as tags, or an
  error. \<open>PreferLang\<close> is the first tag, or nil.
\<close>

definition AcceptLanguage :: "(string \<Rightarrow> ('t list \<times> 'f list) option) \<Rightarrow> 'b request \<Rightarrow> ('t \<times> 'f) list" where
  "AcceptLanguage parse r = (case parse (header_get ''accept-language'' (r_header r)) of
       None \<Rightarrow> []
     | Some (tags, qs) \<Rightarrow> zip tags qs)"

definition PreferLang :: "(string \<Rightarrow> ('t list \<times> 'f list) option) \<Rightarrow> 'b request \<Rightarrow> 't option" where
  "PreferLang parse r = (case AcceptLanguage parse r of [] \<Rightarrow> None | (t, _) # _ \<Rightarrow> Some t)"

definition Referer :: "'b request \<Rightarrow> string" where
  "Referer r = header_get ''referer'' (r_header r)"

section \<open>Responses\<close>

record cookie =
  ck_name :: string
  ck_value :: string
  ck_path :: string
  ck_maxage :: int
  ck_domain :: string
  ck_httponly :: bool
  ck_secure :: bool

text \<open>A nil body is None.\<close>

record 'b response =
  statusCode :: int
  header :: headers
  cookies :: "string \<rightharpoonup> cookie list"
  body :: "'b option"
  headerWritten :: bool

definition NewResponse :: "'b bytebuf_ops \<Rightarrow> 'b response" where
  "NewResponse ops = \<lparr>statusCode = 0, header = Map.empty, cookies = Map.empty,
     body = Some (EmptyByteBuf ops), headerWritten = False\<rparr>"

text \<open>\<open>EmptyResponse\<close> differs from \<open>NewResponse\<close> only in what the model leaves out, the request and the future.\<close>

definition EmptyResponse :: "'b bytebuf_ops \<Rightarrow> 'b response" where
  "EmptyResponse ops = \<lparr>statusCode = 0, header = Map.empty, cookies = Map.empty,
     body = Some (EmptyByteBuf ops), headerWritten = False\<rparr>"

definition SetStatusCode :: "int \<Rightarrow> 'b response \<Rightarrow> 'b response" where
  "SetStatusCode c r = r\<lparr>statusCode := c\<rparr>"

definition AddHeader :: "string \<Rightarrow> string \<Rightarrow> 'b response \<Rightarrow> 'b response" where
  "AddHeader k v r = r\<lparr>header := header_add k v (header r)\<rparr>"

definition SetHeader :: "string \<Rightarrow> string \<Rightarrow> 'b response \<Rightarrow> 'b response" where
  "SetHeader k v r = r\<lparr>header := header_set k v (header r)\<rparr>"

definition DelHeader :: "string \<Rightarrow> 'b response \<Rightarrow> 'b response" where
  "DelHeader k r = r\<lparr>header := header_del k (header r)\<rparr>"

definition GetHeader :: "string \<Rightarrow> 'b response \<Rightarrow> string" where
  "GetHeader k r = header_get k (header r)"

text \<open>A cookie whose list is empty makes \<open>Cookie\<close> panic (None); nil is \<open>Some None\<close>.\<close>

definition Cookie :: "string \<Rightarrow> 'b response \<Rightarrow> cookie option option" where
  "Cookie name r = (case cookies r name of
       None \<Rightarrow> Some None
     | Some [] \<Rightarrow> None
     | Some (c # _) \<Rightarrow> Some (Some c))"

definition SetCookie :: "cookie \<Rightarrow> 'b response \<Rightarrow> 'b response" where
  "SetCookie c r = r\<lparr>cookies := (cookies r)(ck_name c \<mapsto> [c])\<rparr>"

definition SetBody :: "'b \<Rightarrow> 'b response \<Rightarrow> 'b response" where
  "SetBody b r = r\<lparr>body := Some b\<rparr>"

definition Redirect :: "string \<Rightarrow> 'b response \<Rightarrow> 'b response" where
  "Redirect url r = SetHeader ''location'' url (SetStatusCode 302 r)"

definition SetContentType :: "string \<Rightarrow> 'b response \<Rightarrow> 'b response" where
  "SetContentType ct r = SetHeader ''content-type'' ct r"

definition TextResponse :: "'b \<Rightarrow> 'b response \<Rightarrow> 'b response" where
  "TextResponse b r = SetBody b (SetHeader ''content-type'' ''text/plain'' r)"

text \<open>
  \<open>JsonResponse\<close> takes bytes or a buffer as they are, and marshals the rest, a string inside a struct
  with the field Data; a value that does not marshal leaves the body as it was.
\<close>

datatype ('b, 'v) json_arg = JBytesBuffer "byte list" | JByteBuf 'b | JBytes "byte list" | JString string | JOther 'v

datatype 'v json_value = DataStruct string | JsonValue 'v

definition JsonResponse ::
  "'b bytebuf_ops \<Rightarrow> ('v json_value \<Rightarrow> byte list option) \<Rightarrow> ('b, 'v) json_arg \<Rightarrow> 'b response \<Rightarrow> 'b response"
  where
  "JsonResponse ops marshal obj r0 = (let r = SetHeader ''content-type'' ''application/json'' r0;
       put = (\<lambda>v. case marshal v of Some bs \<Rightarrow> SetBody (NewByteBuf ops bs) r | None \<Rightarrow> r) in
     (case obj of
        JBytesBuffer bs \<Rightarrow> SetBody (NewByteBuf ops bs) r
      | JByteBuf b \<Rightarrow> SetBody b r
      | JBytes bs \<Rightarrow> SetBody (NewByteBuf ops bs) r
      | JString s \<Rightarrow> put (DataStruct s)
      | JOther v \<Rightarrow> put (JsonValue v)))"

definition bytes_of :: "string \<Rightarrow> byte list" where
  "bytes_of s = map (\<lambda>c. of_nat (of_char c)) s"

text \<open>
  \<open>ResponseError\<close>: the error is cloned, the clone stamped with the ids of the channel and the request
  and rendered as the body, with the error's status. A nil or dangling error panics: None.
\<close>

definition ResponseError ::
  "'b bytebuf_ops \<Rightarrow> (err_obj \<times> data_map \<Rightarrow> string option) \<Rightarrow> 'b request \<Rightarrow> err_ref
     \<Rightarrow> 'b response \<times> err_heap \<Rightarrow> ('b response \<times> err_heap) option" where
  "ResponseError ops json req er st = (case stamped er (r_channelID req) (trackID req) (snd st) of
       None \<Rightarrow> None
     | Some (c, h) \<Rightarrow> (case (ErrorStatusCode c h, ErrorText json c h) of
          (Some code, Some text) \<Rightarrow>
             Some (JsonResponse ops (\<lambda>_. None) (JByteBuf (NewByteBuf ops (bytes_of text)) :: ('b, unit) json_arg)
               (SetStatusCode code (fst st)), h)
        | _ \<Rightarrow> None))"

section \<open>What the address methods answer\<close>

lemma Count_Cons: "Count (x # xs) c = (if x = c then Suc (Count xs c) else Count xs c)"
  by (simp add: Count_def)

lemma Count_append: "Count (xs @ ys) c = Count xs c + Count ys c"
  by (simp add: Count_def)

lemma Count_zero: "c \<notin> set xs \<Longrightarrow> Count xs c = 0"
  by (induction xs) (auto simp: Count_def)

lemma Count_pos: "c \<in> set xs \<Longrightarrow> 0 < Count xs c"
  by (induction xs) (auto simp: Count_def)

lemma RemoteAddr_bracket:
  assumes "1 < Count a (CHR '':'')" and "LastIndex a (CHR '']'') \<noteq> None"
    and "LastIndex a (CHR '':'') = Some i" and "2 \<le> i"
  shows "RemoteAddr ip a = Some (ip (take (i - 2) (drop 1 a)), drop (Suc i) a)"
  using assms by (auto simp: RemoteAddr_def simp del: LastIndex_None)

text \<open>
  RemoteAddr splits the three forms of an address: "host:port" into host and port, "[v6]:port"
  into the address between the brackets and the port, and a bare IPv6 address into itself and no port.
\<close>

theorem remote_addr_forms:
  assumes "CHR '':'' \<notin> set h" and "CHR '':'' \<notin> set p"
    and "CHR '':'' \<in> set v6" and "1 < Count bare (CHR '':'')" and "CHR '']'' \<notin> set bare"
  shows "RemoteAddr ip (h @ '':'' @ p) = Some (ip h, p)
    \<and> RemoteAddr ip (''['' @ v6 @ '']:'' @ p) = Some (ip v6, p)
    \<and> RemoteAddr ip bare = Some (ip bare, [])"
proof (intro conjI)
  have "LastIndex (h @ '':'' @ p) (CHR '':'') = Some (length h)"
    using LastIndex_append [OF assms(2), of h] by simp
  then show "RemoteAddr ip (h @ '':'' @ p) = Some (ip h, p)"
    using assms(1,2) by (simp add: RemoteAddr_def Count_append Count_Cons Count_zero)
  let ?a = "''['' @ v6 @ '']:'' @ p"
  have l: "LastIndex ?a (CHR '':'') = Some (Suc (Suc (length v6)))"
    using LastIndex_append [OF assms(2), of "''['' @ v6 @ '']''"] by simp
  have "LastIndex ?a (CHR '']'') \<noteq> None" by (simp only: LastIndex_None) simp
  moreover have "1 < Count ?a (CHR '':'')"
    using Count_pos [OF assms(3)] by (simp add: Count_append Count_Cons)
  ultimately have "RemoteAddr ip ?a
      = Some (ip (take (Suc (Suc (length v6)) - 2) (drop 1 ?a)), drop (Suc (Suc (Suc (length v6)))) ?a)"
    by (intro RemoteAddr_bracket l) simp_all
  then show "RemoteAddr ip ?a = Some (ip v6, p)" by simp
  have "LastIndex bare (CHR '']'') = None" using assms(5) by simp
  then show "RemoteAddr ip bare = Some (ip bare, [])"
    using assms(4) by (simp add: RemoteAddr_def del: LastIndex_None)
qed

theorem remote_addr_forms_witness:
  "RemoteAddr (\<lambda>s. s) ''10.0.0.1:80'' = Some (''10.0.0.1'', ''80'')
    \<and> RemoteAddr (\<lambda>s. s) ''[fe80::1]:80'' = Some (''fe80::1'', ''80'')"
  using remote_addr_forms [of "''10.0.0.1''" "''80''" "''fe80::1''" "''::1''" "\<lambda>s. s"]
  by (simp add: Count_def)

text \<open>The entries of a list, joined by the separator, are found again when they do not hold it.\<close>

definition Join_sep :: "string \<Rightarrow> string list \<Rightarrow> string" where
  "Join_sep sep ws = (case ws of [] \<Rightarrow> [] | w # vs \<Rightarrow> w @ concat (map ((@) sep) vs))"

lemma split_on_word:
  assumes "c \<notin> set w"
  shows "split_on (c # sep) acc (w @ s) = split_on (c # sep) (rev w @ acc) s"
  using assms
proof (induction w arbitrary: acc)
  case (Cons x w)
  then have "split_on (c # sep) acc (x # w @ s) = split_on (c # sep) (x # acc) (w @ s)"
    by (subst split_on.simps) (auto simp: HasPrefix_def)
  with Cons show ?case by simp
qed simp

lemma split_on_sep:
  "split_on (c # sep) acc ((c # sep) @ s) = rev acc # split_on (c # sep) [] s"
  by (subst split_on.simps) (simp add: HasPrefix_def)

lemma split_on_join:
  assumes "c \<notin> set w" and "\<forall>v \<in> set vs. c \<notin> set v"
  shows "split_on (c # sep) [] (w @ concat (map ((@) (c # sep)) vs)) = w # vs"
  using assms
proof (induction vs arbitrary: w)
  case Nil
  then show ?case
    using split_on_word [of c w sep "[]" "[]"] by (simp add: split_on.simps [of "c # sep" "rev w" "[]"] HasPrefix_def)
next
  case (Cons v vs)
  from Cons.prems have "split_on (c # sep) [] (w @ concat (map ((@) (c # sep)) (v # vs)))
      = split_on (c # sep) (rev w) ((c # sep) @ (v @ concat (map ((@) (c # sep)) vs)))"
    using split_on_word [of c w sep "[]"] by simp
  also have "\<dots> = w # split_on (c # sep) [] (v @ concat (map ((@) (c # sep)) vs))"
    by (simp only: split_on_sep rev_rev_ident)
  also have "split_on (c # sep) [] (v @ concat (map ((@) (c # sep)) vs)) = v # vs"
    using Cons.prems by (intro Cons.IH) auto
  finally show ?case .
qed

lemma SplitOn_Join_sep:
  assumes "ws \<noteq> []" and "\<forall>w \<in> set ws. c \<notin> set w"
  shows "SplitOn (c # sep) (Join_sep (c # sep) ws) = ws"
  using assms split_on_join [of c "hd ws" "tl ws" sep]
  by (cases ws) (simp_all add: SplitOn_def Join_sep_def)

text \<open>
  The client's address is the last public entry of X-Forwarded-For, whatever the entries before
  it are; all entries and the peer's own address are kept in order. Without a public entry the address
  is the peer's.
\<close>

theorem forwarded_for_last_public:
  assumes "r_header req (CanonicalHeaderKey ''x-forwarded-for'') = Some [Join_sep '', '' ws]"
    and "Join_sep '', '' ws \<noteq> []" and "\<forall>w \<in> set ws. CHR '','' \<notin> set w"
    and "read_body ops br = Some b"
  shows "\<exists>req'. WrapRequest ops public ch track br req = Some req'
    \<and> remoteAddrs req' = ws @ [r_remoteAddr req]
    \<and> r_body req' = b
    \<and> (\<forall>us a vs. ws = us @ a # vs \<and> public a \<and> (\<forall>v \<in> set vs. \<not> public v) \<longrightarrow> r_remoteAddr req' = a)
    \<and> ((\<forall>w \<in> set ws. \<not> public w) \<longrightarrow> r_remoteAddr req' = r_remoteAddr req)"
proof -
  have "ws \<noteq> []" using assms(2) by (auto simp: Join_sep_def)
  from SplitOn_Join_sep [OF this assms(3), of "'' ''"]
  have split: "SplitOn '', '' (Join_sep '', '' ws) = ws" by simp
  have last: "find public (rev (us @ a # vs)) = Some a" if "public a" "\<forall>v \<in> set vs. \<not> public v" for us a vs
  proof -
    have "find public (rev vs) = None" using that(2) by (simp add: find_None_iff)
    moreover have "find public (xs @ ys) = (case find public xs of None \<Rightarrow> find public ys | Some x \<Rightarrow> Some x)"
      for xs ys by (induction xs) auto
    ultimately show ?thesis using that(1) by simp
  qed
  have none: "find public (rev ws) = None" if "\<forall>w \<in> set ws. \<not> public w"
    using that by (simp add: find_None_iff)
  show ?thesis
    using assms(1,2,4) split last none
    by (auto simp: WrapRequest_def header_get_def forwarded_addr_def Let_def)
qed

definition demo_request :: "byte list request" where
  "demo_request = \<lparr>r_method = ''GET'', r_path = ''/'',
     r_header = [''X-Forwarded-For'' \<mapsto> [''6.6.6.6, 8.8.8.8, 10.0.0.2'']], r_cookies = Map.empty,
     r_remoteAddr = ''10.0.0.1:99'', remoteAddrs = [], r_body = [], r_channelID = ''ch'', trackID = ''t'',
     r_session = None\<rparr>"

definition demo_public :: "string \<Rightarrow> bool" where
  "demo_public a \<longleftrightarrow> \<not> HasPrefix a ''10.''"

lemma canonical_xff: "CanonicalHeaderKey ''x-forwarded-for'' = ''X-Forwarded-For''"
  by code_simp

theorem forwarded_for_last_public_witness:
  "\<exists>req'. WrapRequest list_bytebuf demo_public ''ch'' ''t'' NoBody demo_request = Some req'
    \<and> r_remoteAddr req' = ''8.8.8.8''
    \<and> remoteAddrs req' = [''6.6.6.6'', ''8.8.8.8'', ''10.0.0.2'', ''10.0.0.1:99'']"
proof -
  let ?ws = "[''6.6.6.6'', ''8.8.8.8'', ''10.0.0.2'']"
  have h: "r_header demo_request (CanonicalHeaderKey ''x-forwarded-for'') = Some [Join_sep '', '' ?ws]"
      "Join_sep '', '' ?ws \<noteq> []" "\<forall>w \<in> set ?ws. CHR '','' \<notin> set w"
      "read_body list_bytebuf NoBody = Some []"
    by (simp_all add: demo_request_def canonical_xff Join_sep_def read_body_def)
  have p: "?ws = [''6.6.6.6''] @ ''8.8.8.8'' # [''10.0.0.2''] \<and> demo_public ''8.8.8.8''
      \<and> (\<forall>v \<in> set [''10.0.0.2'']. \<not> demo_public v)"
    by (simp add: demo_public_def HasPrefix_def)
  have r: "r_remoteAddr demo_request = ''10.0.0.1:99''" by (simp add: demo_request_def)
  from forwarded_for_last_public [OF h, of demo_public "''ch''" "''t''"] obtain req' where
    "WrapRequest list_bytebuf demo_public ''ch'' ''t'' NoBody demo_request = Some req'"
    "remoteAddrs req' = ?ws @ [''10.0.0.1:99'']"
    "\<forall>us a vs. ?ws = us @ a # vs \<and> demo_public a \<and> (\<forall>v \<in> set vs. \<not> demo_public v) \<longrightarrow> r_remoteAddr req' = a"
    unfolding r by (elim exE conjE) (rule that; assumption)
  with p show ?thesis by (intro exI [of _ req'] conjI) (assumption, blast, simp)
qed

text \<open>The preferred language is the first of the parsed tags, and there is none when the header does not parse.\<close>

lemma prefer_lang:
  assumes "parse (header_get ''accept-language'' (r_header r)) = Some (tags, qs)" and "length tags = length qs"
  shows "map fst (AcceptLanguage parse r) = tags \<and> map snd (AcceptLanguage parse r) = qs
    \<and> PreferLang parse r = (case tags of [] \<Rightarrow> None | t # _ \<Rightarrow> Some t)"
  using assms by (cases tags; cases qs) (simp_all add: AcceptLanguage_def PreferLang_def)

text \<open>
  An entry of a quality list without a weight has the factor zero, the weight that by the HTTP
  specification means "not acceptable"; the entries after the first keep the blank that follows the comma.
\<close>

theorem quality_without_weight:
  assumes "ws \<noteq> []" and "\<forall>w \<in> set ws. w \<noteq> [] \<and> (\<forall>c \<in> set w. c \<noteq> CHR '','' \<and> c \<noteq> CHR '';'' \<and> \<not> is_space c)"
    and "Join_sep '', '' ws \<noteq> ''*''"
  shows "DecodeQualityValueField parse_float zero (Join_sep '', '' ws)
    = \<lparr>q_Value = hd ws, q_Factor = zero\<rparr> # map (\<lambda>w. \<lparr>q_Value = CHR '' '' # w, q_Factor = zero\<rparr>) (tl ws)"
proof -
  obtain w vs where ws: "ws = w # vs" using assms(1) by (cases ws) auto
  let ?s = "Join_sep '', '' ws"
  have ends: "?s \<noteq> [] \<and> \<not> is_space (hd ?s) \<and> \<not> is_space (last ?s)"
  proof (intro conjI)
    show "?s \<noteq> []" "\<not> is_space (hd ?s)"
      using assms(2) ws by (auto simp: Join_sep_def hd_append)
    show "\<not> is_space (last ?s)"
    proof (cases vs rule: rev_cases)
      case (snoc us v)
      with assms(2) ws have "v \<noteq> []" "\<not> is_space (last v)" by auto
      with ws snoc show ?thesis by (simp add: Join_sep_def)
    qed (use assms(2) ws in \<open>simp add: Join_sep_def\<close>)
  qed
  have trim: "TrimSpace ?s = ?s"
  proof -
    have "dropWhile is_space ?s = ?s" using ends by (cases ?s) auto
    moreover have "dropWhile is_space (rev ?s) = rev ?s"
      using ends by (cases ?s rule: rev_cases) auto
    ultimately show ?thesis by (simp add: TrimSpace_def)
  qed
  have split: "Split (CHR '','') (w @ concat (map ((@) '', '') us)) = w # map ((#) (CHR '' '')) us"
    if "\<forall>v \<in> set (w # us). CHR '','' \<notin> set v" for w us
    using that by (induction us arbitrary: w) (simp_all add: Split_word Split_append)
  have entry: "quality_entry parse_float zero v = \<lparr>q_Value = v, q_Factor = zero\<rparr>" if "CHR '';'' \<notin> set v" for v
    using that by (simp add: quality_entry_def Split_word)
  have parts: "\<forall>v \<in> set (w # vs). CHR '','' \<notin> set v" "\<forall>v \<in> set (w # vs). CHR '';'' \<notin> set v"
    using assms(2) ws by auto
  have js: "?s = w @ concat (map ((@) '', '') vs)" by (simp add: ws Join_sep_def)
  have "DecodeQualityValueField parse_float zero ?s
      = map (quality_entry parse_float zero) (w # map ((#) (CHR '' '')) vs)"
    using ends assms(3) split [OF parts(1)] trim js by (simp add: DecodeQualityValueField_def)
  also have "\<dots> = \<lparr>q_Value = w, q_Factor = zero\<rparr> # map (\<lambda>w. \<lparr>q_Value = CHR '' '' # w, q_Factor = zero\<rparr>) vs"
    using parts(2) by (simp add: entry)
  finally show ?thesis by (simp add: ws)
qed

theorem quality_without_weight_witness:
  "DecodeQualityValueField (\<lambda>s. if s = ''0.5'' then Some (5::nat) else None) 0 ''gzip, br''
    = [\<lparr>q_Value = ''gzip'', q_Factor = 0\<rparr>, \<lparr>q_Value = '' br'', q_Factor = 0\<rparr>]"
  using quality_without_weight [of "[''gzip'', ''br'']" "\<lambda>s. if s = ''0.5'' then Some (5::nat) else None" 0]
  by (simp add: Join_sep_def is_space_def)

end
