(* ===== verification/Ghttp_Session.thy ===== *)
theory Ghttp_Session
  imports Ghttp_Objects
begin

text \<open>
  HTTP sessions: the values of a session (\<open>ghttp/httpsession/session.go\<close>), the provider that keeps them
  in memory with the goroutine that removes expired ones (\<open>ghttp/httpsession/memory/sessionprovider.go\<close>),
  and the choice of the session of a request (\<open>ghttp/httpsessionservice.go\<close>). The provider is an
  interface: the locale \<open>session_store\<close> states what the choice relies on, and the memory provider
  interprets it. Times are Go's nanoseconds; \<open>Unix\<close> cuts them to seconds.
\<close>

section \<open>The values of a session\<close>

record session =
  s_id :: string
  s_created :: int
  s_updated :: int
  s_expired :: int
  s_data :: "string \<rightharpoonup> string"

definition Unix :: "int \<Rightarrow> int" where
  "Unix t = t div 10 ^ 9"

definition NewDefaultSession :: "string \<Rightarrow> int \<Rightarrow> session" where
  "NewDefaultSession uid now = \<lparr>s_id = uid, s_created = Unix now, s_updated = Unix now,
     s_expired = 2 ^ 63 - 1, s_data = Map.empty\<rparr>"

definition GetString :: "string \<Rightarrow> session \<Rightarrow> string" where
  "GetString k s = (case s_data s k of Some v \<Rightarrow> v | None \<Rightarrow> [])"

definition PutString :: "string \<Rightarrow> string \<Rightarrow> session \<Rightarrow> session" where
  "PutString k v s = s\<lparr>s_data := (s_data s)(k \<mapsto> v)\<rparr>"

definition GetInt64 :: "string \<Rightarrow> session \<Rightarrow> int" where
  "GetInt64 k s = (case s_data s k of
       None \<Rightarrow> 0
     | Some v \<Rightarrow> (case ParseInt v of Some i \<Rightarrow> i | None \<Rightarrow> 0))"

definition PutInt64 :: "string \<Rightarrow> int \<Rightarrow> session \<Rightarrow> session" where
  "PutInt64 k i s = s\<lparr>s_data := (s_data s)(k \<mapsto> show_int i)\<rparr>"

text \<open>\<open>json.Marshal\<close> and \<open>json.Unmarshal\<close> are parameters; a value that does not marshal is dropped.\<close>

definition PutStruct :: "('v \<Rightarrow> string option) \<Rightarrow> string \<Rightarrow> 'v \<Rightarrow> session \<Rightarrow> session" where
  "PutStruct marshal k v s = (case marshal v of
       Some t \<Rightarrow> s\<lparr>s_data := (s_data s)(k \<mapsto> t)\<rparr>
     | None \<Rightarrow> s)"

definition GetStruct :: "(string \<Rightarrow> 'v \<Rightarrow> 'v) \<Rightarrow> string \<Rightarrow> 'v \<Rightarrow> session \<Rightarrow> 'v" where
  "GetStruct unmarshal k obj s = (case s_data s k of Some t \<Rightarrow> unmarshal t obj | None \<Rightarrow> obj)"

definition ClearData :: "session \<Rightarrow> session" where
  "ClearData s = s\<lparr>s_data := Map.empty\<rparr>"

definition DeleteKey :: "string \<Rightarrow> session \<Rightarrow> session" where
  "DeleteKey k s = s\<lparr>s_data := (s_data s)(k := None)\<rparr>"

definition SetExpire :: "int \<Rightarrow> session \<Rightarrow> session" where
  "SetExpire t s = s\<lparr>s_expired := Unix t\<rparr>"

definition IsExpire :: "int \<Rightarrow> session \<Rightarrow> bool" where
  "IsExpire now s \<longleftrightarrow> s_expired s < Unix now"

text \<open>\<open>Reload\<close> takes everything from the session the provider has under the id, if it has one.\<close>

definition Reload :: "session option \<Rightarrow> session \<Rightarrow> session" where
  "Reload found s = (case found of
       None \<Rightarrow> s
     | Some r \<Rightarrow> s\<lparr>s_id := s_id r, s_created := s_created r, s_updated := s_updated r,
         s_expired := s_expired r, s_data := s_data r\<rparr>)"

section \<open>The memory provider\<close>

text \<open>
  Sessions are objects with an address; \<open>table\<close> is the \<open>sync.Map\<close> from ids to them. \<open>uid\<close> gives the
  ids \<open>uuid.New\<close> makes, one after the other. \<open>cleaners\<close> counts the goroutines that range over the
  table, \<open>condemned\<close> holds the keys they found expired and have not deleted yet.
\<close>

record memory =
  m_objects :: "session_ref \<rightharpoonup> session"
  m_next :: session_ref
  table :: "string \<rightharpoonup> session_ref"
  lastClean :: "int option"
  cleaners :: nat
  condemned :: "string set"
  m_now :: int

definition NewSessionProvider :: "int \<Rightarrow> memory" where
  "NewSessionProvider now = \<lparr>m_objects = Map.empty, m_next = 0, table = Map.empty, lastClean = None,
     cleaners = 0, condemned = {}, m_now = now\<rparr>"

text \<open>The zero time of \<open>lastClean\<close> is None: it lies more than ten seconds back.\<close>

definition cleanSessions :: "memory \<Rightarrow> memory" where
  "cleanSessions p =
     (if (case lastClean p of None \<Rightarrow> True | Some t \<Rightarrow> m_now p - t > 10 * 10 ^ 9)
      then p\<lparr>lastClean := Some (m_now p), cleaners := Suc (cleaners p)\<rparr> else p)"

definition mem_Session :: "string \<Rightarrow> memory \<Rightarrow> session_ref option" where
  "mem_Session k p = table p k"

definition mem_Delete :: "string \<Rightarrow> memory \<Rightarrow> memory" where
  "mem_Delete k p = p\<lparr>table := (table p)(k := None)\<rparr>"

text \<open>\<open>DefaultSession.Save\<close> with \<open>SessionProvider.Save\<close>.\<close>

definition mem_Save :: "session_ref \<Rightarrow> memory \<Rightarrow> memory" where
  "mem_Save r p = (case m_objects p r of
       None \<Rightarrow> p
     | Some s \<Rightarrow>
        let p1 = cleanSessions (p\<lparr>m_objects := (m_objects p)(r \<mapsto> s\<lparr>s_updated := Unix (m_now p)\<rparr>)\<rparr>)
        in p1\<lparr>table := (table p1)(s_id s \<mapsto> r)\<rparr>)"

definition mem_NewSession :: "(nat \<Rightarrow> string) \<Rightarrow> int \<Rightarrow> memory \<Rightarrow> session_ref option \<times> memory" where
  "mem_NewSession uid expire p = (let r = m_next p in
     (Some r, mem_Save r (p\<lparr>m_objects := (m_objects p)(r \<mapsto> SetExpire expire (NewDefaultSession (uid r) (m_now p))),
        m_next := Suc r\<rparr>)))"

section \<open>The session of a request\<close>

record 's store_ops =
  P_Session :: "string \<Rightarrow> 's \<Rightarrow> session_ref option"
  P_NewSession :: "int \<Rightarrow> 's \<Rightarrow> session_ref option \<times> 's"

text \<open>The cookies of a header as \<open>Request.Cookie\<close> finds them: the first pair with the name.\<close>

definition cookie_pair :: "string \<Rightarrow> string \<times> string" where
  "cookie_pair part = (let p = TrimSpace part; n = hd (Split (CHR ''='') p) in
     (TrimSpace n, drop (Suc (length n)) p))"

definition cookie_pairs :: "string \<Rightarrow> (string \<times> string) list" where
  "cookie_pairs text = map cookie_pair (filter (\<lambda>p. TrimSpace p \<noteq> []) (Split (CHR '';'') text))"

definition cookies_of :: "string \<Rightarrow> string \<rightharpoonup> string" where
  "cookies_of text = map_of (cookie_pairs text)"

text \<open>The loop of \<open>_NewSession\<close> that takes the old session cookie out of the header.\<close>

fun strip_loop :: "string \<Rightarrow> string \<Rightarrow> string list \<Rightarrow> string" where
  "strip_loop key rehc [] = rehc"
| "strip_loop key rehc (cookie # rest) =
     (if hd (Split (CHR ''='') (TrimSpace cookie)) = key then strip_loop key rehc rest
      else if rehc = [] then strip_loop key cookie rest
      else strip_loop key (rehc @ ''; '' @ cookie) rest)"

definition strip_cookie :: "string \<Rightarrow> string \<Rightarrow> string" where
  "strip_cookie key hc = strip_loop key [] (Split (CHR '';'') hc)"

record session_env =
  SessionKeyName :: string
  SessionExpireSeconds :: int
  DataOfTimeHash :: "string \<Rightarrow> string option"
  TimestampOfTimeHash :: "string \<Rightarrow> int"
  e_now :: int

definition NewSession ::
  "'s store_ops \<Rightarrow> session_env \<Rightarrow> 'b request \<times> 's \<Rightarrow> session_ref option \<times> 'b request \<times> 's" where
  "NewSession ops env st = (case st of (req, p) \<Rightarrow>
     (case P_NewSession ops (e_now env + SessionExpireSeconds env * 10 ^ 9) p of
        (None, p') \<Rightarrow> (None, req, p')
      | (Some r, p') \<Rightarrow> (let hc = header_get ''cookie'' (r_header req) in
          if hc = [] then (Some r, req, p')
          else let re = strip_cookie (SessionKeyName env) hc in
            (Some r, req\<lparr>r_header := header_set ''cookie'' re (r_header req), r_cookies := cookies_of re\<rparr>, p'))))"

definition GetSession ::
  "'s store_ops \<Rightarrow> session_env \<Rightarrow> 'b request \<times> 's \<Rightarrow> session_ref option \<times> 'b request \<times> 's" where
  "GetSession ops env st = (case st of (req, p) \<Rightarrow>
     (case r_cookies req (SessionKeyName env) of
        None \<Rightarrow> NewSession ops env st
      | Some v \<Rightarrow>
         let ts = TimestampOfTimeHash env v in
         (case DataOfTimeHash env v of
            None \<Rightarrow> NewSession ops env st
          | Some d \<Rightarrow> if ts = 0 \<or> Unix (e_now env) \<ge> ts then NewSession ops env st
              else (case P_Session ops d p of
                  Some r \<Rightarrow> (Some r, req, p)
                | None \<Rightarrow> NewSession ops env st))))"

text \<open>\<open>Request.Session\<close> and \<open>Request.RenewSession\<close> keep the session in the request.\<close>

definition req_Session ::
  "'s store_ops \<Rightarrow> session_env \<Rightarrow> 'b request \<times> 's \<Rightarrow> 'b request \<times> 's" where
  "req_Session ops env st = (case r_session (fst st) of
       Some _ \<Rightarrow> st
     | None \<Rightarrow> (case GetSession ops env st of (s, req, p) \<Rightarrow> (req\<lparr>r_session := s\<rparr>, p)))"

definition RenewSession ::
  "'s store_ops \<Rightarrow> session_env \<Rightarrow> 'b request \<times> 's \<Rightarrow> 'b request \<times> 's" where
  "RenewSession ops env st = (case NewSession ops env st of (s, req, p) \<Rightarrow> (req\<lparr>r_session := s\<rparr>, p))"

section \<open>What a provider promises\<close>

text \<open>
  \<open>obj\<close> reads the session behind a reference. A new session is a new one, is found under its id, has
  the expiry asked for, and nothing else of the store changes.
\<close>

locale session_store =
  fixes ops :: "'s store_ops"
    and obj :: "session_ref \<Rightarrow> 's \<Rightarrow> session option"
    and ok :: "'s \<Rightarrow> bool"
  assumes new_session: "ok p \<Longrightarrow> \<exists>r p' s. P_NewSession ops t p = (Some r, p') \<and> ok p'
      \<and> obj r p = None \<and> obj r p' = Some s \<and> s_expired s = Unix t \<and> s_data s = Map.empty
      \<and> P_Session ops (s_id s) p' = Some r
      \<and> (\<forall>q. q \<noteq> r \<longrightarrow> obj q p' = obj q p) \<and> (\<forall>k. k \<noteq> s_id s \<longrightarrow> P_Session ops k p' = P_Session ops k p)"
begin

lemma NewSession_fresh:
  assumes "ok p"
  shows "\<exists>r req' p' s. NewSession ops env (req, p) = (Some r, req', p') \<and> ok p' \<and> obj r p = None
    \<and> obj r p' = Some s \<and> s_expired s = Unix (e_now env + SessionExpireSeconds env * 10 ^ 9)
    \<and> s_data s = Map.empty \<and> P_Session ops (s_id s) p' = Some r
    \<and> (\<forall>q. q \<noteq> r \<longrightarrow> obj q p' = obj q p)"
proof -
  from new_session [OF assms, of "e_now env + SessionExpireSeconds env * 10 ^ 9"] obtain r p' s where
    n: "P_NewSession ops (e_now env + SessionExpireSeconds env * 10 ^ 9) p = (Some r, p')" "ok p'"
      "obj r p = None" "obj r p' = Some s" "s_expired s = Unix (e_now env + SessionExpireSeconds env * 10 ^ 9)"
      "s_data s = Map.empty" "P_Session ops (s_id s) p' = Some r" "\<forall>q. q \<noteq> r \<longrightarrow> obj q p' = obj q p"
    by blast
  then show ?thesis by (auto simp: NewSession_def Let_def)
qed

text \<open>The session of a request is the one its cookie names, or a new one without data.\<close>

lemma GetSession_cases:
  assumes "ok p"
  shows "\<exists>r req' p'. GetSession ops env (req, p) = (Some r, req', p') \<and> ok p'
    \<and> ((\<exists>v d. r_cookies req (SessionKeyName env) = Some v \<and> DataOfTimeHash env v = Some d
           \<and> Unix (e_now env) < TimestampOfTimeHash env v \<and> P_Session ops d p = Some r \<and> req' = req \<and> p' = p)
       \<or> (obj r p = None \<and> (\<exists>s. obj r p' = Some s \<and> s_data s = Map.empty
             \<and> s_expired s = Unix (e_now env + SessionExpireSeconds env * 10 ^ 9)
             \<and> P_Session ops (s_id s) p' = Some r)
          \<and> (\<forall>q. q \<noteq> r \<longrightarrow> obj q p' = obj q p)))"
proof -
  obtain rn reqn pn sn where new: "NewSession ops env (req, p) = (Some rn, reqn, pn)" "ok pn" "obj rn p = None"
      "obj rn pn = Some sn" "s_expired sn = Unix (e_now env + SessionExpireSeconds env * 10 ^ 9)"
      "s_data sn = Map.empty" "P_Session ops (s_id sn) pn = Some rn" "\<forall>q. q \<noteq> rn \<longrightarrow> obj q pn = obj q p"
    using NewSession_fresh [OF assms, of env req] by blast
  show ?thesis
  proof (cases "GetSession ops env (req, p) = NewSession ops env (req, p)")
    case True
    with new show ?thesis by auto
  next
    case False
    then obtain v d r where v: "r_cookies req (SessionKeyName env) = Some v" "DataOfTimeHash env v = Some d"
        "Unix (e_now env) < TimestampOfTimeHash env v" "P_Session ops d p = Some r"
        "GetSession ops env (req, p) = (Some r, req, p)"
      by (auto simp: GetSession_def Let_def split: option.splits if_splits)
    with assms show ?thesis by auto
  qed
qed

end

section \<open>The memory provider keeps the promise\<close>

definition mem_ops :: "(nat \<Rightarrow> string) \<Rightarrow> memory store_ops" where
  "mem_ops uid = \<lparr>P_Session = mem_Session, P_NewSession = mem_NewSession uid\<rparr>"

definition mem_wf :: "(nat \<Rightarrow> string) \<Rightarrow> memory \<Rightarrow> bool" where
  "mem_wf uid p \<longleftrightarrow> (\<forall>r s. m_objects p r = Some s \<longrightarrow> r < m_next p \<and> s_id s = uid r)
     \<and> (\<forall>k r. table p k = Some r \<longrightarrow> m_objects p r \<noteq> None \<and> k = uid r)"

lemma cleanSessions_keeps [simp]:
  "m_objects (cleanSessions p) = m_objects p" "table (cleanSessions p) = table p"
  "m_next (cleanSessions p) = m_next p" "m_now (cleanSessions p) = m_now p"
  "condemned (cleanSessions p) = condemned p"
  by (simp_all add: cleanSessions_def)

lemma mem_Save_fields:
  assumes "m_objects p r = Some s"
  shows "m_objects (mem_Save r p) = (m_objects p)(r \<mapsto> s\<lparr>s_updated := Unix (m_now p)\<rparr>)"
    and "table (mem_Save r p) = (table p)(s_id s \<mapsto> r)" and "m_next (mem_Save r p) = m_next p"
    and "m_now (mem_Save r p) = m_now p" and "condemned (mem_Save r p) = condemned p"
  using assms by (simp_all add: mem_Save_def Let_def)

lemma mem_wf_objects: "mem_wf uid p \<Longrightarrow> m_objects p r = Some s \<Longrightarrow> r < m_next p \<and> s_id s = uid r"
  by (simp add: mem_wf_def)

lemma mem_wf_table: "mem_wf uid p \<Longrightarrow> table p k = Some r \<Longrightarrow> (\<exists>s. m_objects p r = Some s) \<and> k = uid r"
  by (simp add: mem_wf_def)

lemma mem_Save_wf: "mem_wf uid p \<Longrightarrow> mem_wf uid (mem_Save r p)"
proof (cases "m_objects p r")
  case (Some s)
  assume wf: "mem_wf uid p"
  then show ?thesis
    using Some mem_wf_objects [OF wf Some] unfolding mem_wf_def by (simp add: mem_Save_fields [OF Some])
qed (simp add: mem_Save_def)

lemma mem_NewSession_fields:
  assumes "mem_NewSession uid t p = (o', p')"
  shows "\<exists>s. o' = Some (m_next p) \<and> s_id s = uid (m_next p) \<and> s_expired s = Unix t \<and> s_data s = Map.empty
    \<and> m_objects p' = (m_objects p)(m_next p \<mapsto> s) \<and> table p' = (table p)(uid (m_next p) \<mapsto> m_next p)
    \<and> m_next p' = Suc (m_next p) \<and> m_now p' = m_now p \<and> condemned p' = condemned p"
proof -
  let ?s = "SetExpire t (NewDefaultSession (uid (m_next p)) (m_now p))\<lparr>s_updated := Unix (m_now p)\<rparr>"
  have "s_id ?s = uid (m_next p)" "s_expired ?s = Unix t" "s_data ?s = Map.empty"
    by (simp_all add: SetExpire_def NewDefaultSession_def)
  moreover have "o' = Some (m_next p) \<and> m_objects p' = (m_objects p)(m_next p \<mapsto> ?s)
    \<and> table p' = (table p)(uid (m_next p) \<mapsto> m_next p)
    \<and> m_next p' = Suc (m_next p) \<and> m_now p' = m_now p \<and> condemned p' = condemned p"
    using assms
    by (auto simp: mem_NewSession_def Let_def mem_Save_fields SetExpire_def NewDefaultSession_def)
  ultimately show ?thesis by blast
qed

lemma mem_NewSession_wf:
  assumes "mem_wf uid p" and "mem_NewSession uid t p = (o', p')"
  shows "mem_wf uid p'"
proof -
  from mem_NewSession_fields [OF assms(2)] obtain s where s: "s_id s = uid (m_next p)"
    "m_objects p' = (m_objects p)(m_next p \<mapsto> s)" "table p' = (table p)(uid (m_next p) \<mapsto> m_next p)"
    "m_next p' = Suc (m_next p)" by blast
  have "r < Suc (m_next p)" if "m_objects p r = Some z" for r z
    using mem_wf_objects [OF assms(1) that] by simp
  then show ?thesis
    using assms(1) s unfolding mem_wf_def by (auto simp: less_Suc_eq)
qed

text \<open>The ids of \<open>uuid.New\<close> never repeat.\<close>

locale memory_store =
  fixes uid :: "nat \<Rightarrow> string"
  assumes uid_distinct: "uid i = uid j \<Longrightarrow> i = j"

sublocale memory_store \<subseteq> store: session_store "mem_ops uid" "\<lambda>r p. m_objects p r" "mem_wf uid"
proof
  fix p t
  assume wf: "mem_wf uid p"
  obtain o' p' where n: "mem_NewSession uid t p = (o', p')" by (cases "mem_NewSession uid t p")
  from mem_NewSession_fields [OF n] obtain s where s: "o' = Some (m_next p)" "s_id s = uid (m_next p)"
    "s_expired s = Unix t" "s_data s = Map.empty" "m_objects p' = (m_objects p)(m_next p \<mapsto> s)"
    "table p' = (table p)(uid (m_next p) \<mapsto> m_next p)" by blast
  have "m_objects p (m_next p) = None"
    using mem_wf_objects [OF wf, of "m_next p"] by (cases "m_objects p (m_next p)") auto
  then show "\<exists>r p' s. P_NewSession (mem_ops uid) t p = (Some r, p') \<and> mem_wf uid p'
      \<and> m_objects p r = None \<and> m_objects p' r = Some s \<and> s_expired s = Unix t \<and> s_data s = Map.empty
      \<and> P_Session (mem_ops uid) (s_id s) p' = Some r
      \<and> (\<forall>q. q \<noteq> r \<longrightarrow> m_objects p' q = m_objects p q)
      \<and> (\<forall>k. k \<noteq> s_id s \<longrightarrow> P_Session (mem_ops uid) k p' = P_Session (mem_ops uid) k p)"
    using s n mem_NewSession_wf [OF wf n]
    by (intro exI [of _ "m_next p"] exI [of _ p'] exI [of _ s]) (simp add: mem_ops_def mem_Session_def)
qed

lemma show_nat_inj: "show_nat i = show_nat j \<Longrightarrow> i = j"
  by (metis dec_value_show option.inject)

interpretation numbered: memory_store show_nat
  by unfold_locales (rule show_nat_inj)

section \<open>The goroutine that cleans up\<close>

text \<open>
  The steps of the provider: time passes, sessions are made, saved, edited, given another expiry,
  deleted; a cleaner looks at an entry, and later deletes a key it found expired. The code lets its
  callers give an expired session a later expiry; \<open>rv\<close> says whether such revivals occur.
\<close>

inductive mem_step :: "(nat \<Rightarrow> string) \<Rightarrow> bool \<Rightarrow> memory \<Rightarrow> memory \<Rightarrow> bool" for uid rv where
  tick: "0 \<le> d \<Longrightarrow> mem_step uid rv p (p\<lparr>m_now := m_now p + d\<rparr>)"
| create: "mem_NewSession uid t p = (r, p') \<Longrightarrow> mem_step uid rv p p'"
| save: "mem_step uid rv p (mem_Save r p)"
| edit: "m_objects p r = Some s \<Longrightarrow> mem_step uid rv p (p\<lparr>m_objects := (m_objects p)(r \<mapsto> s\<lparr>s_data := d\<rparr>)\<rparr>)"
| renew: "m_objects p r = Some s \<Longrightarrow> rv \<or> \<not> IsExpire (m_now p) s \<or> IsExpire (m_now p) (SetExpire t s) \<Longrightarrow>
     mem_step uid rv p (p\<lparr>m_objects := (m_objects p)(r \<mapsto> SetExpire t s)\<rparr>)"
| delete: "mem_step uid rv p (mem_Delete k p)"
| clean_check: "0 < cleaners p \<Longrightarrow> table p k = Some r \<Longrightarrow> m_objects p r = Some s \<Longrightarrow> IsExpire (m_now p) s \<Longrightarrow>
     mem_step uid rv p (p\<lparr>condemned := insert k (condemned p)\<rparr>)"
| clean_delete: "k \<in> condemned p \<Longrightarrow>
     mem_step uid rv p (p\<lparr>table := (table p)(k := None), condemned := condemned p - {k}\<rparr>)"
| clean_done: "0 < cleaners p \<Longrightarrow> mem_step uid rv p (p\<lparr>cleaners := cleaners p - 1\<rparr>)"

inductive mem_reach :: "(nat \<Rightarrow> string) \<Rightarrow> bool \<Rightarrow> memory \<Rightarrow> bool" for uid rv where
  start: "mem_reach uid rv (NewSessionProvider t)"
| step: "mem_reach uid rv p \<Longrightarrow> mem_step uid rv p p' \<Longrightarrow> mem_reach uid rv p'"

text \<open>A condemned key is the id of an expired session, for good.\<close>

definition condemned_expired :: "(nat \<Rightarrow> string) \<Rightarrow> memory \<Rightarrow> bool" where
  "condemned_expired uid p \<longleftrightarrow> (\<forall>k \<in> condemned p. \<exists>r s. k = uid r \<and> m_objects p r = Some s \<and> IsExpire (m_now p) s)"

definition mem_inv :: "(nat \<Rightarrow> string) \<Rightarrow> bool \<Rightarrow> memory \<Rightarrow> bool" where
  "mem_inv uid rv p \<longleftrightarrow> mem_wf uid p \<and> (rv \<or> condemned_expired uid p)"

lemma IsExpire_later: "IsExpire t s \<Longrightarrow> t \<le> t' \<Longrightarrow> IsExpire t' s"
  unfolding IsExpire_def Unix_def by (erule less_le_trans) (rule zdiv_mono1, simp_all)

lemma condemned_expired_mono:
  assumes "condemned_expired uid p" and "condemned p' \<subseteq> condemned p"
    and "\<And>r s. m_objects p r = Some s \<Longrightarrow> IsExpire (m_now p) s \<Longrightarrow>
          \<exists>s'. m_objects p' r = Some s' \<and> IsExpire (m_now p') s'"
  shows "condemned_expired uid p'"
  using assms unfolding condemned_expired_def by blast

lemma mem_wf_put:
  assumes "mem_wf uid p" and "m_objects p r = Some s" and "s_id s' = s_id s"
  shows "mem_wf uid (p\<lparr>m_objects := (m_objects p)(r \<mapsto> s')\<rparr>)"
  using assms mem_wf_objects [OF assms(1,2)] unfolding mem_wf_def by simp

lemma mem_wf_shrink:
  assumes "mem_wf uid p" and "\<And>k r. table p' k = Some r \<Longrightarrow> table p k = Some r"
    and "m_objects p' = m_objects p" and "m_next p' = m_next p"
  shows "mem_wf uid p'"
  using assms(1) assms(2) unfolding mem_wf_def assms(3,4) by blast

lemma inv_frame:
  assumes "mem_inv uid rv p" and "mem_wf uid p'" and "condemned p' \<subseteq> condemned p"
    and "\<And>r s. \<not> rv \<Longrightarrow> m_objects p r = Some s \<Longrightarrow> IsExpire (m_now p) s \<Longrightarrow>
          \<exists>s'. m_objects p' r = Some s' \<and> IsExpire (m_now p') s'"
  shows "mem_inv uid rv p'"
  using assms condemned_expired_mono [of uid p p'] unfolding mem_inv_def by blast

lemma inv_put:
  assumes "mem_inv uid rv p" and "m_objects p r = Some s" and "s_id s' = s_id s"
    and "\<not> rv \<Longrightarrow> IsExpire (m_now p) s \<Longrightarrow> IsExpire (m_now p) s'"
  shows "mem_inv uid rv (p\<lparr>m_objects := (m_objects p)(r \<mapsto> s')\<rparr>)"
proof (rule inv_frame [OF assms(1)])
  show "mem_wf uid (p\<lparr>m_objects := (m_objects p)(r \<mapsto> s')\<rparr>)"
    using assms(1) by (intro mem_wf_put [OF _ assms(2,3)]) (simp add: mem_inv_def)
  fix q z assume "\<not> rv" "m_objects p q = Some z" "IsExpire (m_now p) z"
  with assms(2,4) show "\<exists>z'. m_objects (p\<lparr>m_objects := (m_objects p)(r \<mapsto> s')\<rparr>) q = Some z'
      \<and> IsExpire (m_now (p\<lparr>m_objects := (m_objects p)(r \<mapsto> s')\<rparr>)) z'"
    by (cases "q = r") auto
qed simp

lemma inv_shrink:
  assumes "mem_inv uid rv p" and "\<And>k r. table p' k = Some r \<Longrightarrow> table p k = Some r"
    and "m_objects p' = m_objects p" and "m_next p' = m_next p" and "m_now p' = m_now p"
    and "condemned p' \<subseteq> condemned p"
  shows "mem_inv uid rv p'"
proof (rule inv_frame [OF assms(1)])
  show "mem_wf uid p'" using assms(1) by (intro mem_wf_shrink [OF _ assms(2,3,4)]) (simp_all add: mem_inv_def)
qed (use assms in simp_all)

context memory_store
begin

lemma step_inv: "mem_step uid rv p p' \<Longrightarrow> mem_inv uid rv p \<Longrightarrow> mem_inv uid rv p'"
proof (induction rule: mem_step.induct)
  case (tick d p)
  have later: "IsExpire (m_now p + d) s" if "IsExpire (m_now p) s" for s
    using that by (rule IsExpire_later) (use tick in simp)
  from tick.prems show ?case
    by (rule inv_frame) (use tick.prems later in \<open>simp_all add: mem_inv_def mem_wf_def\<close>)
next
  case (create t p r p')
  then have wf: "mem_wf uid p" by (simp add: mem_inv_def)
  from mem_NewSession_fields [OF create.hyps] obtain s where
    s: "m_objects p' = (m_objects p)(m_next p \<mapsto> s)" "m_now p' = m_now p" "condemned p' = condemned p" by blast
  show ?case
  proof (rule inv_frame [OF create.prems mem_NewSession_wf [OF wf create.hyps]])
    show "condemned p' \<subseteq> condemned p" by (simp add: s)
    fix q z assume z: "m_objects p q = Some z" "IsExpire (m_now p) z"
    from mem_wf_objects [OF wf z(1)] have "q \<noteq> m_next p" by auto
    with z show "\<exists>z'. m_objects p' q = Some z' \<and> IsExpire (m_now p') z'" by (simp add: s)
  qed
next
  case (save p r)
  show ?case
  proof (cases "m_objects p r")
    case (Some s)
    show ?thesis
    proof (rule inv_frame [OF save])
      show "mem_wf uid (mem_Save r p)" using save by (simp add: mem_inv_def mem_Save_wf)
      show "condemned (mem_Save r p) \<subseteq> condemned p" by (simp add: mem_Save_fields [OF Some])
      fix q z assume "m_objects p q = Some z" "IsExpire (m_now p) z"
      with Some show "\<exists>z'. m_objects (mem_Save r p) q = Some z' \<and> IsExpire (m_now (mem_Save r p)) z'"
        by (auto simp: mem_Save_fields [OF Some] IsExpire_def)
    qed
  qed (use save in \<open>simp add: mem_Save_def\<close>)
next
  case (edit p r s d)
  show ?case by (rule inv_put [OF edit.prems edit.hyps]) (simp_all add: IsExpire_def)
next
  case (renew p r s t)
  show ?case by (rule inv_put [OF renew.prems renew.hyps(1)]) (use renew.hyps(2) in \<open>auto simp: SetExpire_def\<close>)
next
  case (delete p k)
  then show ?case by (rule inv_shrink) (simp_all add: mem_Delete_def split: if_splits)
next
  case (clean_check p k r s)
  then have wf: "mem_wf uid p" by (simp add: mem_inv_def)
  moreover have "k = uid r" using mem_wf_table [OF wf clean_check.hyps(2)] by simp
  moreover have "mem_wf uid (p\<lparr>condemned := insert k (condemned p)\<rparr>)"
    by (rule mem_wf_shrink [OF wf]) simp_all
  ultimately show ?case using clean_check by (auto simp: mem_inv_def condemned_expired_def)
next
  case (clean_delete k p)
  from clean_delete.prems show ?case by (rule inv_shrink) (auto split: if_splits)
next
  case (clean_done p)
  from clean_done.prems show ?case by (rule inv_shrink) simp_all
qed

lemma reach_inv: "mem_reach uid rv p \<Longrightarrow> mem_inv uid rv p"
proof (induction rule: mem_reach.induct)
  case (start t)
  show ?case by (simp add: mem_inv_def mem_wf_def condemned_expired_def NewSessionProvider_def)
qed (rule step_inv)

lemma live_kept:
  assumes "mem_reach uid False p" and "mem_step uid False p p'" and "table p k = Some r" and "m_objects p r = Some s"
    and "\<not> IsExpire (m_now p) s" and "table p' k \<noteq> Some r"
  shows "p' = mem_Delete k p"
proof -
  have inv: "mem_wf uid p" "condemned_expired uid p" using reach_inv [OF assms(1)] by (simp_all add: mem_inv_def)
  have k: "k = uid r" "r < m_next p" using mem_wf_table [OF inv(1) assms(3)] mem_wf_objects [OF inv(1) assms(4)] by auto
  from assms(2) show ?thesis
  proof cases
    case (create t r')
    then have "table p' = (table p)(uid (m_next p) \<mapsto> m_next p)"
      using mem_NewSession_fields [of uid t p] by blast
    with assms(3,6) k uid_distinct [of r "m_next p"] show ?thesis by (auto split: if_splits)
  next
    case (save q)
    have "table p' k = Some r"
    proof (cases "m_objects p q")
      case (Some z)
      then show ?thesis
        using save assms(3) k mem_wf_objects [OF inv(1) Some] uid_distinct [of r q]
        by (auto simp: mem_Save_fields [OF Some])
    qed (use save assms(3) in \<open>simp add: mem_Save_def\<close>)
    with assms(6) show ?thesis by simp
  next
    case (delete j)
    with assms(3,6) show ?thesis by (auto simp: mem_Delete_def split: if_splits)
  next
    case (clean_delete j)
    with assms(3,6) have "k \<in> condemned p" by (auto split: if_splits)
    then obtain q z where "k = uid q" "m_objects p q = Some z" "IsExpire (m_now p) z"
      using inv(2) by (auto simp: condemned_expired_def)
    with k(1) uid_distinct assms(4,5) have False by fastforce
    then show ?thesis ..
  qed (use assms(3,6) in auto)
qed

end

section \<open>Properties\<close>

text \<open>
  C32. The provider never loses a session that is alive: whatever cleaners run and however their steps
  interleave with saves, edits and renewals, an entry whose session has not expired leaves the table only
  when it is deleted by name. Ids never repeat, and no expired session is revived.
\<close>

theorem cleaning_spares_live:
  assumes "\<And>i j. uid i = uid j \<Longrightarrow> i = j" and "mem_reach uid False p" and "mem_step uid False p p'"
    and "table p k = Some r" and "m_objects p r = Some s" and "\<not> IsExpire (m_now p) s"
    and "table p' k \<noteq> Some r"
  shows "p' = mem_Delete k p"
proof -
  have "memory_store uid" by (rule memory_store.intro) (rule assms(1))
  from memory_store.live_kept [OF this assms(2-7)] show ?thesis .
qed


lemma ParseInt_show_int:
  assumes "- (2 ^ 63) \<le> i" and "i < 2 ^ 63"
  shows "ParseInt (show_int i) = Some i"
proof (cases "i < 0")
  case True
  then have "nat (- i) \<le> 2 ^ 63" using assms(1) by simp
  then show ?thesis
    using True by (simp add: ParseInt_def show_int_def HasPrefix_char dec_value_show Let_def)
next
  case False
  then have "nat i < 2 ^ 63" using assms(2) by simp
  with False show ?thesis by (simp add: show_int_def ParseInt_show)
qed

text \<open>
  Values come back: a string or any 64-bit integer put under a key is read again, other keys keep
  their values, and a deleted key reads as the zero value.
\<close>

theorem session_values_roundtrip:
  assumes "- (2 ^ 63) \<le> i" and "i < 2 ^ 63"
  shows "GetInt64 k (PutInt64 k i s) = i \<and> GetString k (PutString k v s) = v
    \<and> (j \<noteq> k \<longrightarrow> GetInt64 j (PutInt64 k i s) = GetInt64 j s \<and> GetString j (PutString k v s) = GetString j s)
    \<and> GetString k (DeleteKey k (PutString k v s)) = [] \<and> GetInt64 k (ClearData (PutInt64 k i s)) = 0"
  using ParseInt_show_int [OF assms]
  by (simp add: GetInt64_def PutInt64_def GetString_def PutString_def DeleteKey_def ClearData_def)

text \<open>
  An expired session is still answered: neither the provider nor \<open>GetSession\<close> asks \<open>IsExpire\<close>, so until
  a cleaner comes by, a session whose expiry was set to the past goes on working.
\<close>

theorem expired_session_answered:
  assumes "r_cookies req (SessionKeyName env) = Some v" and "DataOfTimeHash env v = Some d"
    and "Unix (e_now env) < TimestampOfTimeHash env v" and "TimestampOfTimeHash env v \<noteq> 0"
    and "table p d = Some r" and "m_objects p r = Some s" and "IsExpire (m_now p) s"
  shows "GetSession (mem_ops uid) env (req, p) = (Some r, req, p)"
  using assms by (simp add: GetSession_def mem_ops_def mem_Session_def)

definition demo_env :: session_env where
  "demo_env = \<lparr>SessionKeyName = ''DEFAULT'', SessionExpireSeconds = 86400, DataOfTimeHash = (\<lambda>_. None),
     TimestampOfTimeHash = (\<lambda>_. 0), e_now = 0\<rparr>"


theorem cleaning_spares_live_witness:
  "\<exists>p p' s. mem_reach show_nat False p \<and> m_objects p 0 = Some s \<and> \<not> IsExpire (m_now p) s
    \<and> mem_step show_nat False p p' \<and> table p' (show_nat 0) = None \<and> p' = mem_Delete (show_nat 0) p"
proof -
  let ?p0 = "NewSessionProvider 0"
  obtain o' p where p: "mem_NewSession show_nat (5 * 10 ^ 9) ?p0 = (o', p)"
    by (cases "mem_NewSession show_nat (5 * 10 ^ 9) ?p0")
  have r: "mem_reach show_nat False p" by (rule mem_reach.step [OF mem_reach.start mem_step.create [OF p]])
  from mem_NewSession_fields [OF p] obtain s where s: "m_objects p 0 = Some s" "table p (show_nat 0) = Some 0"
      "s_expired s = 5" "m_now p = 0"
    by (auto simp: NewSessionProvider_def Unix_def)
  have live: "\<not> IsExpire (m_now p) s" using s by (simp add: IsExpire_def Unix_def)
  have st: "mem_step show_nat False p (mem_Delete (show_nat 0) p)" by (rule mem_step.delete)
  have "table (mem_Delete (show_nat 0) p) (show_nat 0) \<noteq> Some 0" by (simp add: mem_Delete_def)
  from cleaning_spares_live [OF show_nat_inj r st s(2,1) live this]
  have "mem_Delete (show_nat 0) p = mem_Delete (show_nat 0) p" .
  with r s live st show ?thesis by (auto simp: mem_Delete_def)
qed

theorem session_values_roundtrip_witness:
  "GetInt64 ''n'' (PutInt64 ''n'' (- (2 ^ 63)) (NewDefaultSession ''id'' 0)) = - (2 ^ 63)"
  using session_values_roundtrip [where i = "- (2 ^ 63)" and k = "''n''" and s = "NewDefaultSession ''id'' 0"] by simp

text \<open>
  With revivals the race is there: a cleaner finds a session expired, its owner gives it a later expiry,
  and the cleaner still deletes it.
\<close>

theorem revived_session_deleted:
  "\<exists>p s. mem_reach show_nat True p \<and> table p (show_nat 0) = Some 0 \<and> m_objects p 0 = Some s
    \<and> \<not> IsExpire (m_now p) s
    \<and> mem_step show_nat True p (p\<lparr>table := (table p)(show_nat 0 := None), condemned := condemned p - {show_nat 0}\<rparr>)"
proof -
  let ?k = "show_nat 0"
  let ?p0 = "NewSessionProvider 0"
  obtain o' p where p: "mem_NewSession show_nat 0 ?p0 = (o', p)" by (cases "mem_NewSession show_nat 0 ?p0")
  from mem_NewSession_fields [OF p] obtain s where s: "m_objects p 0 = Some s" "table p ?k = Some 0"
      "s_expired s = 0" "m_now p = 0" by (auto simp: NewSessionProvider_def Unix_def)
  have cl: "0 < cleaners p"
    using p by (auto simp: mem_NewSession_def mem_Save_def NewSessionProvider_def cleanSessions_def Let_def)
  let ?p1 = "p\<lparr>m_now := m_now p + 2 * 10 ^ 9\<rparr>"
  let ?p2 = "?p1\<lparr>condemned := insert ?k (condemned ?p1)\<rparr>"
  let ?p3 = "?p2\<lparr>m_objects := (m_objects ?p2)(0 \<mapsto> SetExpire (10 ^ 10) s)\<rparr>"
  have r0: "mem_reach show_nat True p" by (rule mem_reach.step [OF mem_reach.start mem_step.create [OF p]])
  have r1: "mem_reach show_nat True ?p1" by (rule mem_reach.step [OF r0 mem_step.tick]) simp
  have r2: "mem_reach show_nat True ?p2"
    by (rule mem_reach.step [OF r1 mem_step.clean_check [of _ _ 0 s]]) (use cl s in \<open>simp_all add: IsExpire_def Unix_def\<close>)
  have r3: "mem_reach show_nat True ?p3"
    by (rule mem_reach.step [OF r2 mem_step.renew]) (use s in simp_all)
  have live: "\<not> IsExpire (m_now ?p3) (SetExpire (10 ^ 10) s)"
    using s by (simp add: IsExpire_def SetExpire_def Unix_def)
  have "mem_step show_nat True ?p3 (?p3\<lparr>table := (table ?p3)(?k := None), condemned := condemned ?p3 - {?k}\<rparr>)"
    by (rule mem_step.clean_delete) simp
  with r3 s live show ?thesis by (intro exI [of _ ?p3] exI [of _ "SetExpire (10 ^ 10) s"]) simp
qed

end
