(* ===== verification/Ghttp_Static.thy ===== *)
theory Ghttp_Static
  imports Ghttp_Objects
begin

text \<open>
  Static files, \<open>ghttp/httpstaticfilestask.go\<close>: which file a request path leads to, the cache in front
  of the file system, and the response. \<open>Clean\<close> is \<open>path.Clean\<close> of Go's library, which is
  \<open>filepath.Clean\<close> on a system with the separator \<open>/\<close>. The lemmas show that no request leaves the
  folder, and that the cache cannot be told from the file system as long as that does not change.
\<close>

section \<open>Cleaning a path\<close>

text \<open>
  The elements of a path one after the other, the kept ones on a stack: empty ones and \<open>.\<close> are
  dropped, \<open>..\<close> takes the element before it away, at the root of a rooted path it is dropped, and at
  the front of another one it stays.
\<close>

fun clean_parts :: "bool \<Rightarrow> string list \<Rightarrow> string list \<Rightarrow> string list" where
  "clean_parts rooted st [] = rev st"
| "clean_parts rooted st (w # ws) =
     (if w = [] \<or> w = ''.'' then clean_parts rooted st ws
      else if w = ''..'' then
        (if st \<noteq> [] \<and> hd st \<noteq> ''..'' then clean_parts rooted (tl st) ws
         else if rooted then clean_parts rooted st ws
         else clean_parts rooted (''..'' # st) ws)
      else clean_parts rooted (w # st) ws)"

definition rooted_path :: "string \<Rightarrow> bool" where
  "rooted_path p \<longleftrightarrow> HasPrefix p ''/''"

definition path_parts :: "string \<Rightarrow> string list" where
  "path_parts p = clean_parts (rooted_path p) [] (Split (CHR ''/'') p)"

definition path_of :: "bool \<Rightarrow> string list \<Rightarrow> string" where
  "path_of rooted ws = (if rooted then CHR ''/'' # Join (CHR ''/'') ws
     else if ws = [] then ''.'' else Join (CHR ''/'') ws)"

definition Clean :: "string \<Rightarrow> string" where
  "Clean p = path_of (rooted_path p) (path_parts p)"

text \<open>\<open>filepath.Join\<close> of two elements, the first not empty: an empty second one is left out.\<close>

definition JoinPath :: "string \<Rightarrow> string \<Rightarrow> string" where
  "JoinPath a b = Clean (if b = [] then a else a @ CHR ''/'' # b)"

section \<open>The task\<close>

text \<open>
  What opening and reading a file gives, the type \<open>mime.TypeByExtension\<close> answers, and the minifier
  (None when it has none for the type, or fails) are parameters.
\<close>

datatype opened = NotExist | OpenFailed | Unreadable | Contents "byte list"

record static_env =
  open_file :: "string \<Rightarrow> opened"
  type_of_ext :: "string \<Rightarrow> string"
  minify :: "string \<Rightarrow> byte list \<Rightarrow> byte list option"

record cache_entity =
  e_data :: "byte list"
  e_contentType :: string

record static_task =
  FolderPath :: string
  DoMinify :: bool
  DoCache :: bool

type_synonym file_cache = "string \<rightharpoonup> cache_entity"

definition NewStaticFilesHandlerTask :: "string \<Rightarrow> static_task" where
  "NewStaticFilesHandlerTask folder =
     \<lparr>FolderPath = (if folder = [] then ''./resources/static'' else folder), DoMinify = True, DoCache = True\<rparr>"

text \<open>\<open>filepath.Ext\<close>: from the last dot of the last element.\<close>

definition Ext :: "string \<Rightarrow> string" where
  "Ext p = (let base = last (Split (CHR ''/'') p) in
     (case LastIndex base (CHR ''.'') of None \<Rightarrow> [] | Some i \<Rightarrow> drop i base))"

datatype load_result = Loaded cache_entity | Missing | Failed

definition file_entity :: "static_env \<Rightarrow> static_task \<Rightarrow> string \<Rightarrow> byte list \<Rightarrow> cache_entity" where
  "file_entity env t p content =
     (let ct = type_of_ext env (Ext p);
          d = (if DoMinify t then (case minify env ct content of Some m \<Rightarrow> m | None \<Rightarrow> []) else [])
      in \<lparr>e_data = (if d = [] then content else d), e_contentType = ct\<rparr>)"

definition static_Load :: "static_env \<Rightarrow> static_task \<Rightarrow> string \<Rightarrow> file_cache \<Rightarrow> load_result \<times> file_cache" where
  "static_Load env t p cache =
     (case (if DoCache t then cache p else None) of
        Some e \<Rightarrow> (Loaded e, cache)
      | None \<Rightarrow> (case open_file env p of
            NotExist \<Rightarrow> (Missing, cache)
          | OpenFailed \<Rightarrow> (Failed, cache)
          | Unreadable \<Rightarrow> (Failed, cache)
          | Contents content \<Rightarrow> (let e = file_entity env t p content in
              (Loaded e, if DoCache t then cache(p \<mapsto> e) else cache))))"

text \<open>The path \<open>Get\<close> hands to \<open>_Load\<close>, None where it answers 404 before.\<close>

definition served_path :: "string \<Rightarrow> string \<Rightarrow> string option" where
  "served_path folder url =
     (let reqPath = (if url = [] then ''/'' else url);
          clean = Clean (CHR ''/'' # reqPath) in
      if HasPrefix clean ''/../'' \<or> clean = ''/..'' then None
      else (let root = Clean folder;
                cleanRel = TrimPrefix clean ''/'';
                fsPath = Clean (JoinPath root cleanRel);
                rootWithSep = root @ ''/'' in
            if fsPath \<noteq> root \<and> \<not> HasPrefix fsPath rootWithSep then None else Some fsPath))"

definition StaticGet ::
  "'b bytebuf_ops \<Rightarrow> static_env \<Rightarrow> static_task \<Rightarrow> string \<Rightarrow> 'b response \<times> file_cache
     \<Rightarrow> 'b response \<times> file_cache" where
  "StaticGet ops env t url st = (case st of (resp, cache) \<Rightarrow>
     (case served_path (FolderPath t) url of
        None \<Rightarrow> (SetStatusCode 404 resp, cache)
      | Some p \<Rightarrow> (case static_Load env t p cache of
            (Loaded e, cache') \<Rightarrow>
              (SetBody (NewByteBuf ops (e_data e))
                (SetStatusCode 200 (SetHeader ''content-type'' (e_contentType e) resp)), cache')
          | (Missing, cache') \<Rightarrow> (SetStatusCode 404 resp, cache')
          | (Failed, cache') \<Rightarrow> (SetStatusCode 500 resp, cache'))))"

section \<open>Cleaned paths\<close>

text \<open>A proper name: what a path element may be if it is to stay where it is.\<close>

definition proper_name :: "string \<Rightarrow> bool" where
  "proper_name w \<longleftrightarrow> plain_word (CHR ''/'') w \<and> w \<noteq> ''.'' \<and> w \<noteq> ''..''"

lemma Split_append_any: "Split c (s @ c # t) = Split c s @ Split c t"
proof (induction s)
  case (Cons x s)
  then show ?case by (cases "Split c s") auto
qed simp

lemma clean_names: "list_all proper_name ws \<Longrightarrow> clean_parts r st ws = rev st @ ws"
  by (induction ws arbitrary: st) (auto simp: proper_name_def plain_word_def)

text \<open>The elements of a cleaned path: names, after some \<open>..\<close> when it is not rooted.\<close>

definition cleaned :: "bool \<Rightarrow> string list \<Rightarrow> bool" where
  "cleaned r ws \<longleftrightarrow> (\<exists>n vs. ws = replicate n ''..'' @ vs \<and> list_all proper_name vs \<and> (r \<longrightarrow> n = 0))"

lemma clean_parts_cleaned:
  assumes "cleaned r (rev st)" and "list_all (\<lambda>w. CHR ''/'' \<notin> set w) ws"
  shows "cleaned r (clean_parts r st ws)"
  using assms
proof (induction ws arbitrary: st)
  case (Cons w ws)
  from Cons.prems(1) obtain n vs where st: "rev st = replicate n ''..'' @ vs" "list_all proper_name vs"
      "r \<longrightarrow> n = 0" by (auto simp: cleaned_def)
  have w: "CHR ''/'' \<notin> set w" "list_all (\<lambda>w. CHR ''/'' \<notin> set w) ws" using Cons.prems(2) by simp_all
  have push: "cleaned r (rev (w # st))" if "w \<noteq> []" "w \<noteq> ''.''" "w \<noteq> ''..''"
    using st that w(1) unfolding cleaned_def
    by (intro exI [of _ n] exI [of _ "vs @ [w]"]) (simp add: proper_name_def plain_word_def)
  have pop: "cleaned r (rev (tl st))" if "st \<noteq> []" "hd st \<noteq> ''..''"
  proof (cases vs rule: rev_cases)
    case Nil
    with st(1) have "st = replicate n ''..''" by (metis append_Nil2 rev_replicate rev_rev_ident)
    with that show ?thesis by (cases n) simp_all
  next
    case (snoc us u)
    with st(1) have "st = rev (replicate n ''..'' @ us @ [u])" by (metis rev_rev_ident)
    then have "tl st = rev (replicate n ''..'' @ us)" by simp
    then show ?thesis using st(2,3) snoc unfolding cleaned_def
      by (intro exI [of _ n] exI [of _ us]) simp
  qed
  have up: "cleaned r (rev (''..'' # st))" if "\<not> (st \<noteq> [] \<and> hd st \<noteq> ''..'')" "\<not> r"
  proof -
    have "vs = []"
    proof (cases vs rule: rev_cases)
      case (snoc us u)
      with st(1) have "last (rev st) = u" by simp
      with that(1) st(1) snoc have "u = ''..''" by (metis Nil_is_append_conv Nil_is_rev_conv last_rev not_Cons_self2)
      with st(2) snoc show ?thesis by (simp add: proper_name_def)
    qed simp
    with st(1) have "rev (''..'' # st) = replicate (Suc n) ''..''" by (simp add: replicate_append_same)
    with that(2) show ?thesis unfolding cleaned_def by (intro exI [of _ "Suc n"] exI [of _ "[]"]) simp
  qed
  note kept = Cons.IH [OF _ w(2)]
  note kept_cases = kept [OF Cons.prems(1)] kept [OF push] kept [OF pop] kept [OF up]
  show ?case unfolding clean_parts.simps using kept_cases by presburger
qed simp
lemma cleaned_Nil [simp]: "cleaned r []"
  by (simp add: cleaned_def)

lemma cleaned_plain: "cleaned r ws \<Longrightarrow> list_all (plain_word (CHR ''/'')) ws"
proof -
  assume "cleaned r ws"
  then obtain n vs where ws: "ws = replicate n ''..'' @ vs" and "list_all proper_name vs" by (auto simp: cleaned_def)
  then have "list_all (plain_word (CHR ''/'')) vs" by (induction vs arbitrary: ws) (simp_all add: proper_name_def)
  moreover have "list_all (plain_word (CHR ''/'')) (replicate n ''..'')" by (induction n) (simp_all add: plain_word_def)
  ultimately show ?thesis by (simp add: ws)
qed

lemma cleaned_append:
  assumes "cleaned r ws" and "list_all proper_name vs"
  shows "cleaned r (ws @ vs)"
proof -
  from assms(1) obtain n us where "ws = replicate n ''..'' @ us" "list_all proper_name us" "r \<longrightarrow> n = 0"
    unfolding cleaned_def by blast
  with assms(2) show ?thesis unfolding cleaned_def by (intro exI [of _ n] exI [of _ "us @ vs"]) simp
qed

lemma cleaned_rooted: "cleaned True ws \<Longrightarrow> list_all proper_name ws"
  unfolding cleaned_def by (elim exE conjE) simp

lemma plain_first:
  assumes "ws \<noteq> []" and "list_all (plain_word c) ws"
  shows "Join c ws \<noteq> [] \<and> hd (Join c ws) \<noteq> c"
proof -
  from assms obtain w vs where "ws = w # vs" "w \<noteq> []" "c \<notin> set w" by (cases ws) (simp_all add: plain_word_def)
  then show ?thesis using Join_hd [of ws c] by (cases w) auto
qed

lemma proper_plain: "list_all proper_name ws \<Longrightarrow> list_all (plain_word (CHR ''/'')) ws"
  by (induction ws) (simp_all add: proper_name_def)

lemma clean_dots:
  "list_all proper_name vs \<Longrightarrow>
    clean_parts False (replicate k ''..'') (replicate n ''..'' @ vs) = replicate (k + n) ''..'' @ vs"
proof (induction n arbitrary: k)
  case (Suc n)
  from Suc.IH [of "Suc k"] Suc.prems show ?case by (cases k) simp_all
qed (simp add: clean_names)

lemma clean_again:
  assumes "cleaned r ws" and "list_all proper_name vs"
  shows "clean_parts r [] (ws @ vs) = ws @ vs"
proof -
  from assms(1) obtain n us where ws: "ws = replicate n ''..'' @ us" "list_all proper_name us" "r \<longrightarrow> n = 0"
    by (auto simp: cleaned_def)
  show ?thesis
  proof (cases r)
    case True
    with ws assms(2) show ?thesis by (simp add: clean_names)
  next
    case False
    with ws assms(2) clean_dots [of "us @ vs" 0 n] show ?thesis by simp
  qed
qed

lemma path_parts_cleaned: "cleaned (rooted_path p) (path_parts p)"
  unfolding path_parts_def by (rule clean_parts_cleaned) (auto simp: list_all_iff dest: Split_pieces)

lemma rooted_slash [simp]: "rooted_path (CHR ''/'' # p)"
  by (simp add: rooted_path_def HasPrefix_def)

lemma Split_plain: "ws \<noteq> [] \<Longrightarrow> list_all (plain_word c) ws \<Longrightarrow> Split c (Join c ws) = ws"
  by (rule Split_trimmed(3))

lemma path_of_rooted: "cleaned r ws \<Longrightarrow> rooted_path (path_of r ws) = r"
proof (cases "r \<or> ws = []")
  case False
  assume "cleaned r ws"
  with False plain_first [OF _ cleaned_plain, of ws r] show ?thesis
    by (cases "Join (CHR ''/'') ws") (simp_all add: path_of_def rooted_path_def HasPrefix_def)
qed (auto simp: path_of_def rooted_path_def HasPrefix_def)

text \<open>The elements of a cleaned path followed by a relative one.\<close>

lemma path_of_parts:
  assumes "cleaned r ws"
  shows "clean_parts r [] (Split (CHR ''/'') (path_of r ws) @ vs) = clean_parts r [] (ws @ vs)"
proof (cases "ws = []")
  case False
  then show ?thesis
    using Split_plain [OF False cleaned_plain [OF assms]] by (cases r) (simp_all add: path_of_def)
qed (simp_all add: path_of_def)

lemma Clean_path_of: "cleaned r ws \<Longrightarrow> Clean (path_of r ws) = path_of r ws"
  using path_of_parts [of r ws "[]"] clean_again [of r ws "[]"]
  by (simp add: Clean_def path_parts_def path_of_rooted)

lemma path_of_nonempty [simp]: "list_all (plain_word (CHR ''/'')) ws \<Longrightarrow> path_of r ws \<noteq> []"
  using Split_trimmed(2) [of ws "CHR ''/''"] by (simp add: path_of_def)

lemma rooted_append: "p \<noteq> [] \<Longrightarrow> rooted_path (p @ s) = rooted_path p"
  by (cases p) (auto simp: rooted_path_def HasPrefix_def)

lemma JoinPath_parts:
  assumes "cleaned r ws" and "list_all proper_name vs"
  shows "JoinPath (path_of r ws) (Join (CHR ''/'') vs) = path_of r (ws @ vs)"
proof (cases "vs = []")
  case True
  then show ?thesis using assms by (simp add: JoinPath_def Clean_path_of)
next
  case False
  have plain: "list_all (plain_word (CHR ''/'')) vs" by (rule proper_plain [OF assms(2)])
  then have ne: "Join (CHR ''/'') vs \<noteq> []" using False by (rule_tac Split_trimmed(2))
  let ?p = "path_of r ws @ CHR ''/'' # Join (CHR ''/'') vs"
  have "rooted_path ?p = r"
    using assms(1) by (simp add: rooted_append cleaned_plain path_of_rooted)
  moreover have "path_parts ?p = ws @ vs"
    unfolding path_parts_def calculation Split_append_any Split_plain [OF False plain]
    using path_of_parts [OF assms(1)] clean_again [OF assms] by simp
  ultimately show ?thesis using ne by (simp add: JoinPath_def Clean_def)
qed

lemma Join_append:
  "ws \<noteq> [] \<Longrightarrow> vs \<noteq> [] \<Longrightarrow> Join c (ws @ vs) = Join c ws @ c # Join c vs"
proof (induction c ws rule: Join.induct)
  case (2 c w)
  then show ?case by (cases vs) auto
qed auto

lemma path_of_append:
  "ws \<noteq> [] \<Longrightarrow> vs \<noteq> [] \<Longrightarrow> path_of r (ws @ vs) = path_of r ws @ CHR ''/'' # Join (CHR ''/'') vs"
  by (simp add: path_of_def Join_append)

text \<open>From the root or the current folder itself nothing below is recognised as inside.\<close>

lemma bare_root_prefix:
  assumes "vs \<noteq> []" and "list_all proper_name vs"
  shows "\<not> HasPrefix (path_of r vs) (path_of r [] @ ''/'')"
proof (cases r)
  case True
  with plain_first [OF assms(1) proper_plain [OF assms(2)]] show ?thesis
    by (cases "Join (CHR ''/'') vs") (simp_all add: path_of_def HasPrefix_def)
next
  case False
  have plain: "list_all (plain_word (CHR ''/'')) vs" by (rule proper_plain [OF assms(2)])
  show ?thesis
  proof
    assume "HasPrefix (path_of r vs) (path_of r [] @ ''/'')"
    with False assms(1) obtain s where "Join (CHR ''/'') vs = ''.'' @ CHR ''/'' # s"
      by (auto simp: path_of_def HasPrefix_def) (metis append_Cons append_Nil append_take_drop_id)
    with Split_plain [OF assms(1) plain] have "hd vs = ''.''"
      using Split_append [of "CHR ''/''" "''.''" s] by (simp add: eq_commute [of _ vs])
    with assms show False by (cases vs) (auto simp: proper_name_def)
  qed
qed

section \<open>Which file is served\<close>

text \<open>The proper names a request path comes down to.\<close>

definition request_parts :: "string \<Rightarrow> string list" where
  "request_parts url = path_parts (CHR ''/'' # url)"

lemma request_parts_proper: "list_all proper_name (request_parts url)"
  using path_parts_cleaned [of "CHR ''/'' # url"] by (simp add: request_parts_def cleaned_rooted)

lemma request_clean:
  "Clean (CHR ''/'' # (if url = [] then ''/'' else url)) = CHR ''/'' # Join (CHR ''/'') (request_parts url)"
  by (simp add: Clean_def path_of_def request_parts_def path_parts_def)

lemma request_not_up:
  "\<not> HasPrefix (CHR ''/'' # Join (CHR ''/'') (request_parts url)) ''/../''"
  "CHR ''/'' # Join (CHR ''/'') (request_parts url) \<noteq> ''/..''"
proof -
  let ?vs = "request_parts url"
  have first: "hd ?vs \<noteq> ''..''" if "?vs \<noteq> []"
    using request_parts_proper [of url] that by (cases ?vs) (simp_all add: proper_name_def)
  have split: "Split (CHR ''/'') (Join (CHR ''/'') ?vs) = ?vs" if "?vs \<noteq> []"
    by (rule Split_plain [OF that proper_plain [OF request_parts_proper]])
  show "CHR ''/'' # Join (CHR ''/'') ?vs \<noteq> ''/..''"
    using first split by (cases "?vs = []") (auto simp: eq_commute [of _ ?vs])
  show "\<not> HasPrefix (CHR ''/'' # Join (CHR ''/'') ?vs) ''/../''"
  proof
    assume "HasPrefix (CHR ''/'' # Join (CHR ''/'') ?vs) ''/../''"
    then obtain s where "Join (CHR ''/'') ?vs = ''..'' @ CHR ''/'' # s"
      by (auto simp: HasPrefix_def) (metis append_Cons append_Nil append_take_drop_id)
    with Split_append [of "CHR ''/''" "''..''" s] first split show False
      by (cases "?vs = []") (auto simp: eq_commute [of _ ?vs])
  qed
qed

text \<open>
  C12. No request leaves the folder: whatever dots, double slashes and \<open>..\<close> its path holds, it comes
  down to a list of proper names, and the file opened is the folder itself or those names under it. When
  the folder is the root or the current directory, nothing below it is found at all.
\<close>

theorem served_path_exact:
  "list_all proper_name (request_parts url)
   \<and> served_path folder url =
      (if request_parts url = [] then Some (Clean folder)
       else if Clean folder = ''/'' \<or> Clean folder = ''.'' then None
       else Some (Clean folder @ CHR ''/'' # Join (CHR ''/'') (request_parts url)))"
proof -
  let ?vs = "request_parts url"
  define r where "r = rooted_path folder"
  define ws where "ws = path_parts folder"
  have vs: "list_all proper_name ?vs" by (rule request_parts_proper)
  have ws: "cleaned r ws" unfolding r_def ws_def by (rule path_parts_cleaned)
  have root: "Clean folder = path_of r ws" by (simp add: Clean_def r_def ws_def)
  have all: "cleaned r (ws @ ?vs)"
    by (rule cleaned_append [OF ws vs])
  have path: "Clean (JoinPath (path_of r ws) (Join (CHR ''/'') ?vs)) = path_of r (ws @ ?vs)"
    by (simp add: JoinPath_parts [OF ws vs] Clean_path_of [OF all])
  have bare: "ws = [] \<longleftrightarrow> Clean folder = ''/'' \<or> Clean folder = ''.''"
  proof
    assume "Clean folder = ''/'' \<or> Clean folder = ''.''"
    then have "path_parts (path_of r ws) = []" by (auto simp: root path_parts_def)
    then show "ws = []"
      using path_of_parts [OF ws, of "[]"] clean_again [OF ws, of "[]"]
      by (simp add: path_parts_def path_of_rooted [OF ws])
  qed (simp add: root path_of_def)
  have "served_path folder url = (let p = path_of r (ws @ ?vs) in
      if p \<noteq> path_of r ws \<and> \<not> HasPrefix p (path_of r ws @ ''/'') then None else Some p)"
    using TrimPrefix_append [of "''/''" "Join (CHR ''/'') ?vs"] request_not_up(2) [of url]
    by (simp add: served_path_def request_clean request_not_up Let_def root path)
  moreover have "path_of r ?vs \<noteq> path_of r []" if "?vs \<noteq> []"
  proof
    assume eq: "path_of r ?vs = path_of r []"
    have "cleaned r ?vs" using cleaned_append [OF cleaned_Nil vs] by simp
    from path_of_parts [OF this, of "[]"] clean_again [OF this, of "[]"] path_of_parts [of r "[]" "[]"] eq that
    show False by simp
  qed
  ultimately have "served_path folder url =
      (if ?vs = [] then Some (path_of r ws) else if ws = [] then None
       else Some (path_of r ws @ CHR ''/'' # Join (CHR ''/'') ?vs))"
    using bare_root_prefix [OF _ vs, of r] path_of_append [of ws ?vs r]
    by (cases "?vs = []"; cases "ws = []") (simp_all add: HasPrefix_def)
  with bare vs root show ?thesis by simp
qed

section \<open>The cache\<close>

fun static_serve ::
  "'b bytebuf_ops \<Rightarrow> static_env \<Rightarrow> static_task \<Rightarrow> (string \<times> 'b response) list \<Rightarrow> file_cache \<Rightarrow> 'b response list"
  where
  "static_serve ops env t [] cache = []"
| "static_serve ops env t ((url, resp) # rest) cache =
     (let (resp', cache') = StaticGet ops env t url (resp, cache) in resp' # static_serve ops env t rest cache')"

definition fresh_cache :: "static_env \<Rightarrow> static_task \<Rightarrow> file_cache \<Rightarrow> bool" where
  "fresh_cache env t cache \<longleftrightarrow> (\<forall>p e. cache p = Some e \<longrightarrow>
     (\<exists>content. open_file env p = Contents content \<and> e = file_entity env t p content))"

lemma file_entity_cache [simp]: "file_entity env (t\<lparr>DoCache := b\<rparr>) = file_entity env t"
  by (intro ext) (simp add: file_entity_def)

lemma static_Load_cached:
  assumes "fresh_cache env t cache"
  shows "fst (static_Load env t p cache) = fst (static_Load env (t\<lparr>DoCache := False\<rparr>) p cache')
    \<and> fresh_cache env t (snd (static_Load env t p cache))"
proof (cases "if DoCache t then cache p else None")
  case None
  then show ?thesis
    using assms unfolding static_Load_def
    by (cases "open_file env p") (auto simp: Let_def fresh_cache_def)
next
  case (Some e)
  then obtain content where "open_file env p = Contents content" "e = file_entity env t p content"
    using assms by (auto simp: fresh_cache_def split: if_splits)
  with Some assms show ?thesis by (simp add: static_Load_def Let_def)
qed

lemma StaticGet_cached:
  assumes "fresh_cache env t cache"
  shows "fst (StaticGet ops env t url (resp, cache)) = fst (StaticGet ops env (t\<lparr>DoCache := False\<rparr>) url (resp, cache'))
    \<and> fresh_cache env t (snd (StaticGet ops env t url (resp, cache)))"
proof (cases "served_path (FolderPath t) url")
  case (Some p)
  from static_Load_cached [OF assms, of p cache'] Some show ?thesis
    by (cases "static_Load env t p cache"; cases "static_Load env (t\<lparr>DoCache := False\<rparr>) p cache'")
      (auto simp: StaticGet_def split: load_result.splits)
qed (use assms in \<open>simp add: StaticGet_def\<close>)

lemma static_serve_cached:
  "fresh_cache env t cache \<Longrightarrow>
    static_serve ops env t reqs cache = static_serve ops env (t\<lparr>DoCache := False\<rparr>) reqs cache'"
proof (induction reqs arbitrary: cache cache')
  case (Cons req reqs)
  obtain url resp where req: "req = (url, resp)" by (cases req)
  obtain r1 c1 where g1: "StaticGet ops env t url (resp, cache) = (r1, c1)" by (cases "StaticGet ops env t url (resp, cache)")
  obtain r2 c2 where g2: "StaticGet ops env (t\<lparr>DoCache := False\<rparr>) url (resp, cache') = (r2, c2)"
    by (cases "StaticGet ops env (t\<lparr>DoCache := False\<rparr>) url (resp, cache')")
  from StaticGet_cached [OF Cons.prems, of ops url resp cache'] g1 g2 have "r1 = r2" "fresh_cache env t c1" by simp_all
  with Cons.IH [of c1 c2] g1 g2 show ?case by (simp add: req)
qed simp

text \<open>
  C28. The cache is invisible: over any sequence of requests, while the files do not change, the task with
  its cache answers exactly what the task without a cache answers, missing and unreadable files included.
\<close>

theorem static_cache_invisible:
  "static_serve ops env (t\<lparr>DoCache := True\<rparr>) reqs Map.empty = static_serve ops env (t\<lparr>DoCache := False\<rparr>) reqs Map.empty"
proof -
  have "fresh_cache env (t\<lparr>DoCache := True\<rparr>) Map.empty" by (simp add: fresh_cache_def)
  from static_serve_cached [OF this, of ops reqs Map.empty] show ?thesis by simp
qed

end
