(* ===== verification/Ghttp_Range.thy ===== *)
theory Ghttp_Range
  imports Ghttp_Objects
begin

text \<open>
  Range requests: \<open>ParseRange\<close> of \<open>ghttp/httphandlertask.go\<close> and \<open>handleAutoRange\<close> of
  \<open>ghttp/httpdispatchhandler.go\<close>, which cuts the body of a response to the range the client asked for.
\<close>

section \<open>Parsing a range\<close>

definition no_range :: "int \<times> int \<times> bool" where
  "no_range = (0, 0, False)"

definition suffix_range :: "string \<Rightarrow> int \<Rightarrow> int \<times> int \<times> bool" where
  "suffix_range p contentSize = (case ParseInt p of
       None \<Rightarrow> no_range
     | Some n \<Rightarrow> if n \<le> 0 then no_range
         else let suffixLength = (if n > contentSize then contentSize else n)
              in (contentSize - suffixLength, contentSize - 1, True))"

definition open_range :: "string \<Rightarrow> int \<Rightarrow> int \<times> int \<times> bool" where
  "open_range p contentSize = (case ParseInt p of
       None \<Rightarrow> no_range
     | Some start \<Rightarrow> if start < 0 then no_range
         else if start \<ge> contentSize then no_range
         else (start, contentSize - 1, True))"

definition closed_range :: "string \<Rightarrow> string \<Rightarrow> int \<Rightarrow> int \<times> int \<times> bool" where
  "closed_range p q contentSize = (case ParseInt p of
       None \<Rightarrow> no_range
     | Some start \<Rightarrow> if start < 0 then no_range
         else (case ParseInt q of
             None \<Rightarrow> no_range
           | Some e \<Rightarrow> if e < start \<or> start \<ge> contentSize then no_range
               else (start, if e \<ge> contentSize then contentSize - 1 else e, True)))"

definition ParseRange :: "string \<Rightarrow> int \<Rightarrow> int \<times> int \<times> bool" where
  "ParseRange rangeHeader contentSize =
     (if \<not> HasPrefix rangeHeader ''bytes='' then no_range
      else let rangeSpec = TrimPrefix rangeHeader ''bytes='' in
        if Contains rangeSpec '','' then no_range
        else (case Split (CHR ''-'') rangeSpec of
            [p, q] \<Rightarrow>
              if p = [] then (if q = [] then no_range else suffix_range q contentSize)
              else if q = [] then open_range p contentSize
              else closed_range p q contentSize
          | _ \<Rightarrow> no_range))"

section \<open>Cutting the body\<close>

text \<open>
  \<open>task_range\<close> says whether the task supports ranges and enables them. None is a panic: a slice out
  of range.
\<close>

definition slice :: "'x list \<Rightarrow> int \<Rightarrow> int \<Rightarrow> 'x list option" where
  "slice xs lo hi = (if 0 \<le> lo \<and> lo \<le> hi \<and> hi \<le> int (length xs)
     then Some (take (nat (hi - lo)) (drop (nat lo) xs)) else None)"

definition content_range :: "int \<Rightarrow> int \<Rightarrow> int \<Rightarrow> string" where
  "content_range a e n = ''bytes '' @ show_int a @ ''-'' @ show_int e @ ''/'' @ show_int n"

definition handleAutoRange ::
  "'b bytebuf_ops \<Rightarrow> bool \<Rightarrow> 'b request \<Rightarrow> 'b response \<Rightarrow> 'b response option" where
  "handleAutoRange ops task_range request response0 =
     (if \<not> task_range then Some response0
      else (case body response0 of
         None \<Rightarrow> Some response0
       | Some b \<Rightarrow> if ReadableBytes ops b = 0 then Some response0
          else let response = SetHeader ''accept-ranges'' ''bytes'' response0;
                   rangeHeader = header_get ''range'' (r_header request) in
            if rangeHeader = [] then Some response
            else let content = Bytes ops b; contentSize = int (length content);
                     (start, e, valid) = ParseRange rangeHeader contentSize in
              if valid then
                (case slice content start (e + 1) of
                   None \<Rightarrow> None
                 | Some rangeData \<Rightarrow> Some (SetBody (NewByteBuf ops rangeData)
                     (SetHeader ''content-length'' (show_int (int (length rangeData)))
                       (SetHeader ''content-range'' (content_range start e contentSize)
                         (SetStatusCode 206 response)))))
              else Some (SetHeader ''content-range'' (''bytes */'' @ show_int contentSize)
                     (SetStatusCode 416 response))))"

section \<open>Which ranges are accepted\<close>

lemma range_text:
  assumes "CHR ''-'' \<notin> set p" and "CHR ''-'' \<notin> set q" and "CHR '','' \<notin> set p" and "CHR '','' \<notin> set q"
  shows "ParseRange (''bytes='' @ p @ ''-'' @ q) n =
     (if p = [] then (if q = [] then no_range else suffix_range q n)
      else if q = [] then open_range p n else closed_range p q n)"
proof -
  have no: "\<not> HasPrefix (drop i s) '',''" if "CHR '','' \<notin> set s" for i and s :: string
  proof
    assume "HasPrefix (drop i s) '',''"
    then have "drop i s \<noteq> [] \<and> hd (drop i s) = CHR '',''" by (simp add: HasPrefix_char)
    then have "CHR '','' \<in> set (drop i s)" by (metis hd_in_set)
    with that show False using in_set_dropD by fastforce
  qed
  have "\<not> Contains (p @ ''-'' @ q) '',''"
    using no [of "p @ ''-'' @ q"] assms(3,4) by (auto simp: Contains_def)
  moreover have "HasPrefix (''bytes='' @ p @ ''-'' @ q) ''bytes=''"
    using HasPrefix_append [of "''bytes=''"] by blast
  moreover have "TrimPrefix (''bytes='' @ p @ ''-'' @ q) ''bytes='' = p @ ''-'' @ q"
    using TrimPrefix_append [of "''bytes=''"] by blast
  moreover have "Split (CHR ''-'') (p @ ''-'' @ q) = [p, q]"
    using Split_append [OF assms(1)] Split_word [OF assms(2)] by simp
  ultimately show ?thesis unfolding ParseRange_def Let_def by (simp only: simp_thms if_False list.case)
qed

lemma show_nat_clean: "CHR ''-'' \<notin> set (show_nat n)" "CHR '','' \<notin> set (show_nat n)"
  by (rule show_nat_no, simp)+

text \<open>
  A range is answered as the client meant it: "bytes=a-b", "bytes=a-" and "bytes=-k" select the
  bytes a to b (cut to the size), a to the end, and the last k (all of them when k is larger), for every
  content and every numbers with a at most b and a below the size.
\<close>

theorem range_selects:
  assumes "a \<le> e" and "a < n" and "0 < k" and "e < 2 ^ 63" and "n < 2 ^ 63" and "k < 2 ^ 63"
  shows "ParseRange (''bytes='' @ show_nat a @ ''-'' @ show_nat e) (int n) = (int a, int (min e (n - 1)), True)
    \<and> ParseRange (''bytes='' @ show_nat a @ ''-'') (int n) = (int a, int n - 1, True)
    \<and> ParseRange (''bytes=-'' @ show_nat k) (int n) = (int (n - min k n), int n - 1, True)"
proof (intro conjI)
  have a: "a < 2 ^ 63" using assms by simp
  show "ParseRange (''bytes='' @ show_nat a @ ''-'' @ show_nat e) (int n) = (int a, int (min e (n - 1)), True)"
    unfolding range_text [OF show_nat_clean(1) show_nat_clean(1) show_nat_clean(2) show_nat_clean(2)]
    using assms a by (simp add: closed_range_def ParseInt_show)
  show "ParseRange (''bytes='' @ show_nat a @ ''-'') (int n) = (int a, int n - 1, True)"
    using range_text [OF show_nat_clean(1) _ show_nat_clean(2), of "[]" a "int n"] assms a
    by (simp add: open_range_def ParseInt_show)
  show "ParseRange (''bytes=-'' @ show_nat k) (int n) = (int (n - min k n), int n - 1, True)"
    using range_text [OF _ show_nat_clean(1) _ show_nat_clean(2), of "[]" k "int n"] assms
    by (simp add: suffix_range_def ParseInt_show min_def of_nat_diff)
qed

lemma ParseRange_valid:
  assumes "ParseRange h n = (s, e, True)" and "0 < n"
  shows "0 \<le> s \<and> s \<le> e \<and> e < n"
proof -
  have part: "suffix_range q n = (s, e, True) \<Longrightarrow> ?thesis" "open_range q n = (s, e, True) \<Longrightarrow> ?thesis"
    "closed_range p q n = (s, e, True) \<Longrightarrow> ?thesis" for p q
    using assms(2) by (auto simp: suffix_range_def open_range_def closed_range_def no_range_def Let_def
        split: option.splits if_splits)
  from assms(1) show ?thesis
    by (auto simp: ParseRange_def Let_def no_range_def split: if_splits list.splits dest: part)
qed

lemma canonical_range_keys:
  "CanonicalHeaderKey ''accept-ranges'' = ''Accept-Ranges''"
  "CanonicalHeaderKey ''content-range'' = ''Content-Range''"
  "CanonicalHeaderKey ''content-length'' = ''Content-Length''"
  "CanonicalHeaderKey ''range'' = ''Range''"
  by code_simp+

context bytebuf
begin

lemma auto_range_cases:
  assumes "body resp = Some b" and "Bytes ops b \<noteq> []" and "header_get ''range'' (r_header req) = h" and "h \<noteq> []"
    and "ParseRange h (int (length (Bytes ops b))) = (s, e, v)"
  obtains resp' where "handleAutoRange ops True req resp = Some resp'"
    "GetHeader ''accept-ranges'' resp' = ''bytes''"
    "v \<Longrightarrow> statusCode resp' = 206
      \<and> (\<exists>b'. body resp' = Some b' \<and> Bytes ops b' = take (nat (e + 1 - s)) (drop (nat s) (Bytes ops b)))
      \<and> GetHeader ''content-range'' resp' = content_range s e (int (length (Bytes ops b)))
      \<and> GetHeader ''content-length'' resp' = show_int (e + 1 - s)"
    "\<not> v \<Longrightarrow> statusCode resp' = 416 \<and> body resp' = Some b
      \<and> GetHeader ''content-range'' resp' = ''bytes */'' @ show_int (int (length (Bytes ops b)))"
proof (cases v)
  case True
  have len: "0 < int (length (Bytes ops b))" using assms(2) by simp
  have ok: "0 \<le> s" "s \<le> e" "e < int (length (Bytes ops b))"
    using ParseRange_valid [of h _ s e] assms(5) len True by auto
  let ?data = "take (nat (e + 1 - s)) (drop (nat s) (Bytes ops b))"
  have sl: "slice (Bytes ops b) s (e + 1) = Some ?data" using ok by (simp add: slice_def)
  have dl: "int (length ?data) = e + 1 - s" using ok by simp
  show thesis
    by (rule that [of "SetBody (NewByteBuf ops ?data) (SetHeader ''content-length'' (show_int (int (length ?data)))
        (SetHeader ''content-range'' (content_range s e (int (length (Bytes ops b))))
          (SetStatusCode 206 (SetHeader ''accept-ranges'' ''bytes'' resp))))"])
      (use assms True sl dl in \<open>simp_all add: handleAutoRange_def readable SetHeader_def SetBody_def
        SetStatusCode_def GetHeader_def canonical_range_keys bytes_new Let_def\<close>)
next
  case False
  show thesis
    by (rule that [of "SetHeader ''content-range'' (''bytes */'' @ show_int (int (length (Bytes ops b))))
          (SetStatusCode 416 (SetHeader ''accept-ranges'' ''bytes'' resp))"])
      (use assms False in \<open>simp_all add: handleAutoRange_def readable SetHeader_def
        SetStatusCode_def GetHeader_def canonical_range_keys Let_def\<close>)
qed

end

section \<open>The body a client receives\<close>

text \<open>
  C30. For any header a client sends, the answer is within the content: either 206 with exactly the
  bytes s to e of the body, s and e named in Content-Range and 0 <= s <= e < size, or 416 with the body
  untouched. The cut never panics.
\<close>

theorem auto_range_exact:
  assumes "bytebuf ops" and "body resp = Some b" and "Bytes ops b \<noteq> []"
    and "header_get ''range'' (r_header req) \<noteq> []"
  shows "\<exists>resp' n. n = int (length (Bytes ops b)) \<and> handleAutoRange ops True req resp = Some resp'
    \<and> ((\<exists>s e b'. 0 \<le> s \<and> s \<le> e \<and> e < n \<and> statusCode resp' = 206 \<and> body resp' = Some b'
          \<and> Bytes ops b' = take (nat (e + 1 - s)) (drop (nat s) (Bytes ops b))
          \<and> GetHeader ''content-range'' resp' = content_range s e n)
       \<or> (statusCode resp' = 416 \<and> body resp' = Some b))"
proof -
  obtain s e v where r: "ParseRange (header_get ''range'' (r_header req)) (int (length (Bytes ops b))) = (s, e, v)"
    by (rule prod_cases3)
  from bytebuf.auto_range_cases [OF assms(1-3) refl assms(4) r] obtain resp' where
    "handleAutoRange ops True req resp = Some resp'"
    "v \<Longrightarrow> statusCode resp' = 206
      \<and> (\<exists>b'. body resp' = Some b' \<and> Bytes ops b' = take (nat (e + 1 - s)) (drop (nat s) (Bytes ops b)))
      \<and> GetHeader ''content-range'' resp' = content_range s e (int (length (Bytes ops b)))"
    "\<not> v \<Longrightarrow> statusCode resp' = 416 \<and> body resp' = Some b" by metis
  moreover have "v \<Longrightarrow> 0 \<le> s \<and> s \<le> e \<and> e < int (length (Bytes ops b))"
    using ParseRange_valid [of _ _ s e] r assms(3) by simp
  ultimately show ?thesis by (cases v) blast+
qed

text \<open>
  The cut does not look at the status: a task that answered an error with a body (here any status
  at all) is answered 206 when the request has a satisfiable range.
\<close>

theorem auto_range_hides_status:
  assumes "bytebuf ops" and "body resp = Some b" and "a \<le> e" and "a < length (Bytes ops b)"
    and "e < 2 ^ 63" and "length (Bytes ops b) < 2 ^ 63"
    and "header_get ''range'' (r_header req) = ''bytes='' @ show_nat a @ ''-'' @ show_nat e"
  shows "map_option statusCode (handleAutoRange ops True req (SetStatusCode st resp)) = Some 206"
proof -
  have sel: "ParseRange (''bytes='' @ show_nat a @ ''-'' @ show_nat e) (int (length (Bytes ops b)))
      = (int a, int (min e (length (Bytes ops b) - 1)), True)"
    unfolding range_text [OF show_nat_clean(1) show_nat_clean(1) show_nat_clean(2) show_nat_clean(2)]
    using assms(3-6) by (simp add: closed_range_def ParseInt_show)
  have "body (SetStatusCode st resp) = Some b" "Bytes ops b \<noteq> []"
    using assms(2,4) by (auto simp: SetStatusCode_def)
  from bytebuf.auto_range_cases [OF assms(1) this assms(7) _ sel] show ?thesis by auto
qed

definition range_request :: "string \<Rightarrow> byte list request" where
  "range_request h = demo_request\<lparr>r_header := [''Range'' \<mapsto> [h]]\<rparr>"

lemma range_request_header: "header_get ''range'' (r_header (range_request h)) = h"
  by (simp add: range_request_def header_get_def canonical_range_keys)

theorem range_selects_witness:
  "ParseRange (''bytes='' @ show_nat 2 @ ''-'' @ show_nat 5) (int 4) = (2, 3, True)"
  using range_selects [of 2 5 4 1] by simp

theorem auto_range_exact_witness:
  "\<exists>resp'. handleAutoRange list_bytebuf True (range_request ''bytes=1-2'') ((NewResponse list_bytebuf)\<lparr>body := Some [7, 8, 9]\<rparr>)
      = Some resp' \<and> (statusCode resp' = 206 \<or> statusCode resp' = 416)"
  using auto_range_exact [OF lb.bytebuf_axioms, of "(NewResponse list_bytebuf)\<lparr>body := Some [7, 8, 9]\<rparr>" "[7, 8, 9]"
      "range_request ''bytes=1-2''"]
  by (auto simp: range_request_header)

theorem auto_range_hides_status_witness:
  "map_option statusCode (handleAutoRange list_bytebuf True (range_request (''bytes='' @ show_nat 0 @ ''-'' @ show_nat 1))
     (SetStatusCode 404 ((NewResponse list_bytebuf)\<lparr>body := Some [7, 8, 9]\<rparr>))) = Some 206"
  using auto_range_hides_status [OF lb.bytebuf_axioms, of "(NewResponse list_bytebuf)\<lparr>body := Some [7, 8, 9]\<rparr>"
      "[7, 8, 9]" 0 1 "range_request (''bytes='' @ show_nat 0 @ ''-'' @ show_nat 1)" 404]
  by (simp add: range_request_header)

end
