(* ===== verification/Ghttp_Route.thy ===== *)
theory Ghttp_Route
  imports Go_Strings
begin

text \<open>
  The routing tree of \<open>ghttp/route.go\<close>: nodes on a heap (a node can be built before it is attached,
  and its parent pointer is set when it is), the operations that attach nodes, the lookup
  \<open>DefaultRoute.RouteNode\<close>, and \<open>AggregatedAcceptances\<close>. The lemmas show that a path made of names and
  ids is led to the node it names, that a node found was reached by following names of the path, and
  what attaching a node does.
\<close>

section \<open>Nodes\<close>

datatype route_type = RouteTypeEndPoint | RouteTypeGroup | RouteTypeRecursiveEndPoint | RouteTypeRootEndPoint

type_synonym node_ref = nat

record ('h, 'a) node =
  n_parent :: "node_ref option"
  n_handler :: "'h option"
  n_name :: string
  n_acceptances :: "'a list"
  n_resources :: "string \<rightharpoonup> node_ref"
  n_type :: route_type

record ('h, 'a) routes =
  nodes :: "node_ref \<rightharpoonup> ('h, 'a) node"
  n_fresh :: node_ref
  registered :: "'h list"

text \<open>\<open>registered\<close> lists the handlers whose \<open>Register()\<close> was called.\<close>

definition new_node :: "('h, 'a) node \<Rightarrow> ('h, 'a) routes \<Rightarrow> node_ref \<times> ('h, 'a) routes" where
  "new_node n rs = (n_fresh rs, rs\<lparr>nodes := (nodes rs)(n_fresh rs \<mapsto> n), n_fresh := Suc (n_fresh rs)\<rparr>)"

text \<open>A nil slice of acceptances becomes an empty one; an endpoint without a task is nil.\<close>

definition NewEndPoint ::
  "string \<Rightarrow> 'h option \<Rightarrow> 'a list option \<Rightarrow> ('h, 'a) routes \<Rightarrow> node_ref option \<times> ('h, 'a) routes" where
  "NewEndPoint name task accs rs = (case task of
       None \<Rightarrow> (None, rs)
     | Some h \<Rightarrow> let (r, rs') = new_node \<lparr>n_parent = None, n_handler = Some h, n_name = name,
           n_acceptances = (case accs of None \<Rightarrow> [] | Some as \<Rightarrow> as), n_resources = Map.empty,
           n_type = RouteTypeEndPoint\<rparr> rs in (Some r, rs'))"

definition NewGroup ::
  "string \<Rightarrow> 'a list option \<Rightarrow> ('h, 'a) routes \<Rightarrow> node_ref \<times> ('h, 'a) routes" where
  "NewGroup name accs rs = new_node \<lparr>n_parent = None, n_handler = None, n_name = name,
     n_acceptances = (case accs of None \<Rightarrow> [] | Some as \<Rightarrow> as), n_resources = Map.empty,
     n_type = RouteTypeGroup\<rparr> rs"

text \<open>\<open>NewRoute\<close>: an endpoint without a name, turned into the root.\<close>

definition NewRoute :: "'h \<Rightarrow> ('h, 'a) routes \<Rightarrow> node_ref \<times> ('h, 'a) routes" where
  "NewRoute default_task rs = new_node \<lparr>n_parent = None, n_handler = Some default_task, n_name = [],
     n_acceptances = [], n_resources = Map.empty, n_type = RouteTypeRootEndPoint\<rparr> rs"

definition SetRoot :: "node_ref \<Rightarrow> ('h, 'a) routes \<Rightarrow> node_ref \<times> ('h, 'a) routes" where
  "SetRoot p rs = (p, rs\<lparr>nodes := (nodes rs)(p := map_option (\<lambda>n. n\<lparr>n_type := RouteTypeRootEndPoint\<rparr>)
     (nodes rs p))\<rparr>)"

text \<open>
  The three \<open>Add\<close> methods, the same on a route (where the parent is the root), an endpoint and a
  group: \<open>None\<close> is the nil they answer for a nil node or a name already taken.
\<close>

datatype add_kind = AsEndPoint | AsGroup | AsRecursive

definition attach ::
  "add_kind \<Rightarrow> node_ref \<Rightarrow> node_ref option \<Rightarrow> ('h, 'a) routes \<Rightarrow> ('h, 'a) routes option" where
  "attach k parent child rs = (case (nodes rs parent, Option.bind child (nodes rs)) of
       (Some pn, Some cn) \<Rightarrow>
         if n_resources pn (n_name cn) \<noteq> None then None
         else let c = the child;
                  cn' = cn\<lparr>n_parent := Some parent,
                    n_type := (if k = AsRecursive then RouteTypeRecursiveEndPoint else n_type cn)\<rparr>;
                  ns = (nodes rs)(c \<mapsto> cn');
                  pn' = (the (ns parent))\<lparr>n_resources := (n_resources pn)(n_name cn \<mapsto> c)\<rparr>
              in Some (rs\<lparr>nodes := ns(parent \<mapsto> pn'),
                   registered := registered rs @ (if k = AsGroup then []
                     else (case n_handler cn of None \<Rightarrow> [] | Some h \<Rightarrow> [h]))\<rparr>)
     | _ \<Rightarrow> None)"

definition AddEndPoint :: "node_ref \<Rightarrow> node_ref option \<Rightarrow> ('h, 'a) routes \<Rightarrow> ('h, 'a) routes option" where
  "AddEndPoint = attach AsEndPoint"

definition AddGroup :: "node_ref \<Rightarrow> node_ref option \<Rightarrow> ('h, 'a) routes \<Rightarrow> ('h, 'a) routes option" where
  "AddGroup = attach AsGroup"

definition AddRecursiveEndPoint ::
  "node_ref \<Rightarrow> node_ref option \<Rightarrow> ('h, 'a) routes \<Rightarrow> ('h, 'a) routes option" where
  "AddRecursiveEndPoint = attach AsRecursive"

section \<open>Lookup\<close>

text \<open>The key under which an id is kept: \<open>fmt.Sprintf("[gone-http]%s_id", name)\<close>.\<close>

definition id_key :: "string \<Rightarrow> string" where
  "id_key name = ''[gone-http]'' @ name @ ''_id''"

type_synonym params = "string \<rightharpoonup> string"

text \<open>
  What \<open>RouteNode\<close> answers: the node or nil, the parameters or a nil map, \<open>isLast\<close>; a reference to
  no node panics.
\<close>

type_synonym found = "node_ref option \<times> params option \<times> bool"

definition not_found :: found where
  "not_found = (None, None, False)"

definition resource :: "('h, 'a) node \<Rightarrow> string \<Rightarrow> node_ref option" where
  "resource n s = n_resources n s"

text \<open>
  The loop over the path's segments: \<open>cur\<close> and \<open>nxt\<close> are the variables \<open>current\<close> and \<open>next\<close>.
\<close>

fun route_loop ::
  "('h, 'a) routes \<Rightarrow> node_ref \<Rightarrow> params \<Rightarrow> node_ref \<Rightarrow> node_ref option \<Rightarrow> string list \<Rightarrow> found option"
  where
  "route_loop rs root ps cur nxt [] = Some (Some cur, Some ps, Some cur = nxt)"
| "route_loop rs root ps cur nxt (s # rest) = (case nodes rs cur of
       None \<Rightarrow> None
     | Some n \<Rightarrow>
         (case n_type n of
            RouteTypeRecursiveEndPoint \<Rightarrow>
              Some (Some cur, Some (if resource n s = None then ps(id_key (n_name n) \<mapsto> s) else ps), False)
          | RouteTypeGroup \<Rightarrow>
              (case resource n s of
                 None \<Rightarrow> Some not_found
               | Some r \<Rightarrow> route_loop rs root ps r (Some r) rest)
          | _ \<Rightarrow>
              (case rest of
                 [] \<Rightarrow> (case resource n s of
                    None \<Rightarrow> if cur = root \<and> s \<noteq> [] then Some not_found
                            else Some (Some cur, Some (ps(id_key (n_name n) \<mapsto> s)), False)
                  | Some r \<Rightarrow> Some (Some r, Some ps, True))
               | s' # _ \<Rightarrow> (case resource n s of
                    None \<Rightarrow> if resource n s' \<noteq> None
                            then route_loop rs root (ps(id_key (n_name n) \<mapsto> s)) cur None rest
                            else Some not_found
                  | Some r \<Rightarrow> route_loop rs root ps r (Some r) rest))))"

definition trim_path :: "string \<Rightarrow> string" where
  "trim_path path = TrimLeft (TrimRight path (CHR ''/'')) (CHR ''/'')"

definition RouteNode :: "('h, 'a) routes \<Rightarrow> node_ref \<Rightarrow> string \<Rightarrow> found option" where
  "RouteNode rs root path = (let p = trim_path path in
     if p = [] then Some (Some root, None, True)
     else route_loop rs root Map.empty root (Some root) (Split (CHR ''/'') p))"

text \<open>
  \<open>AggregatedAcceptances\<close> walks the parents; it does not return if they form a cycle.
\<close>

partial_function (option) aggregate ::
  "('h, 'a) routes \<Rightarrow> 'a list \<Rightarrow> node_ref option \<Rightarrow> 'a list option" where
  "aggregate rs accs r = (case Option.bind r (nodes rs) of
       None \<Rightarrow> Some accs
     | Some n \<Rightarrow> aggregate rs (n_acceptances n @ accs) (n_parent n))"

definition AggregatedAcceptances :: "('h, 'a) routes \<Rightarrow> node_ref \<Rightarrow> 'a list option" where
  "AggregatedAcceptances rs r = aggregate rs [] (Some r)"

section \<open>Paths of names and ids\<close>

text \<open>
  A request path as the tree sees it: names of nodes, each possibly followed by an id. \<open>leads\<close>
  follows it: from node to child by name, an id staying at an endpoint that has no child of that name.
\<close>

type_synonym steps = "(string \<times> string option) list"

definition segments :: "steps \<Rightarrow> string list" where
  "segments steps = concat (map (\<lambda>(nm, i). nm # (case i of None \<Rightarrow> [] | Some x \<Rightarrow> [x])) steps)"

fun leads ::
  "('h, 'a) routes \<Rightarrow> node_ref \<Rightarrow> params \<Rightarrow> steps \<Rightarrow> (node_ref \<times> params) option" where
  "leads rs cur ps [] = Some (cur, ps)"
| "leads rs cur ps ((nm, i) # todo) = (case nodes rs cur of
       None \<Rightarrow> None
     | Some n \<Rightarrow> if n_type n = RouteTypeRecursiveEndPoint then None else
         (case n_resources n nm of
            None \<Rightarrow> None
          | Some r \<Rightarrow> (case i of
              None \<Rightarrow> leads rs r ps todo
            | Some x \<Rightarrow> (case nodes rs r of
                None \<Rightarrow> None
              | Some m \<Rightarrow> if n_type m = RouteTypeEndPoint \<and> n_resources m x = None
                  then leads rs r (ps(id_key (n_name m) \<mapsto> x)) todo else None))))"

definition root_on_top :: "('h, 'a) routes \<Rightarrow> node_ref \<Rightarrow> bool" where
  "root_on_top rs root \<longleftrightarrow> (\<forall>r n s. nodes rs r = Some n \<longrightarrow> n_resources n s \<noteq> Some root)"

text \<open>The loop on the rest of such a path, from a node other than a fresh root.\<close>

lemma route_loop_leads:
  assumes "leads rs cur ps steps = Some (r, ps')" and "root_on_top rs root"
    and "steps \<noteq> []"
  shows "route_loop rs root ps cur nxt (segments steps) = Some (Some r, Some ps', snd (last steps) = None)"
  using assms(1,3)
proof (induction steps arbitrary: cur ps nxt)
  case (Cons step todo)
  obtain nm i where step: "step = (nm, i)" by (cases step)
  from Cons.prems(1) step obtain n c where
    n: "nodes rs cur = Some n" "n_type n \<noteq> RouteTypeRecursiveEndPoint" "n_resources n nm = Some c"
    by (auto split: option.splits if_splits)
  have c: "c \<noteq> root" using assms(2) n by (auto simp: root_on_top_def)
  show ?case
  proof (cases i)
    case None
    with Cons.prems(1) step n have rest: "leads rs c ps todo = Some (r, ps')" by simp
    show ?thesis
    proof (cases "todo = []")
      case True
      with rest None step n show ?thesis
        by (cases "n_type n") (auto simp: segments_def resource_def)
    next
      case False
      then obtain s' ss where "segments todo = s' # ss" by (cases todo) (auto simp: segments_def)
      with Cons.IH [OF rest False, of "Some c"] None step n False show ?thesis
        by (cases "n_type n") (auto simp: segments_def resource_def)
    qed
  next
    case (Some x)
    with Cons.prems(1) step n obtain m where
      m: "nodes rs c = Some m" "n_type m = RouteTypeEndPoint" "n_resources m x = None"
      and rest: "leads rs c (ps(id_key (n_name m) \<mapsto> x)) todo = Some (r, ps')"
      by (auto split: option.splits if_splits)
    have one: "route_loop rs root ps cur nxt (nm # x # ss) = route_loop rs root ps c (Some c) (x # ss)" for ss
      using n by (cases "n_type n") (auto simp: resource_def)
    show ?thesis
    proof (cases "todo = []")
      case True
      with rest Some step m c show ?thesis
        by (simp add: segments_def one resource_def del: route_loop.simps)
          (simp add: resource_def)
    next
      case False
      then obtain nm' i' todo' where todo: "todo = (nm', i') # todo'" by (cases todo) auto
      from rest todo m obtain c' where c': "n_resources m nm' = Some c'"
        by (auto split: option.splits if_splits)
      from todo obtain ss where ss: "segments todo = nm' # ss" by (auto simp: segments_def)
      have two: "route_loop rs root ps c (Some c) (x # nm' # ss)
          = route_loop rs root (ps(id_key (n_name m) \<mapsto> x)) c None (nm' # ss)"
        using m c' by (subst route_loop.simps(2)) (simp add: resource_def)
      have "segments (step # todo) = nm # x # nm' # ss"
        using step Some ss by (simp add: segments_def)
      with Cons.IH [OF rest False, of None] ss False show ?thesis
        by (simp only: one two) simp
    qed
  qed
qed simp

text \<open>Following names from a node.\<close>

fun walk :: "('h, 'a) routes \<Rightarrow> node_ref \<Rightarrow> string list \<Rightarrow> node_ref option" where
  "walk rs cur [] = Some cur"
| "walk rs cur (s # ss) = (case Option.bind (nodes rs cur) (\<lambda>n. n_resources n s) of
       None \<Rightarrow> None
     | Some r \<Rightarrow> walk rs r ss)"

lemma route_loop_walk:
  "route_loop rs root ps cur nxt segs = Some (Some r, p, l) \<Longrightarrow>
     \<exists>names. subseq names segs \<and> walk rs cur names = Some r"
proof (induction segs arbitrary: cur ps nxt)
  case Nil
  then show ?case by (intro exI [of _ "[]"]) auto
next
  case (Cons s rest)
  from Cons.prems obtain n where n: "nodes rs cur = Some n" by (auto split: option.splits)
  have down: ?case if "n_resources n s = Some c" "route_loop rs root qs c x rest = Some (Some r, p, l)"
    for c qs x
  proof -
    from Cons.IH [OF that(2)] obtain names where "subseq names rest" "walk rs c names = Some r" by blast
    with that n show ?thesis by (intro exI [of _ "s # names"]) auto
  qed
  have stay: ?case if "route_loop rs root qs cur x rest = Some (Some r, p, l)" for qs x
    using Cons.IH [OF that] by auto
  have here: ?case if "r = cur" using that by (intro exI [of _ "[]"]) auto
  have child: ?case if "n_resources n s = Some r"
    using that n by (intro exI [of _ "[s]"]) auto
  consider "n_type n = RouteTypeRecursiveEndPoint" | "n_type n = RouteTypeGroup"
    | "n_type n = RouteTypeEndPoint \<or> n_type n = RouteTypeRootEndPoint" "rest = []"
    | s' ss where "n_type n = RouteTypeEndPoint \<or> n_type n = RouteTypeRootEndPoint" "rest = s' # ss"
    by (cases "n_type n"; cases rest) auto
  then show ?case
  proof cases
    case 1
    with Cons.prems n have "r = cur" by simp
    then show ?thesis by (rule here)
  next
    case 2
    with Cons.prems n obtain c where "n_resources n s = Some c"
      "route_loop rs root ps c (Some c) rest = Some (Some r, p, l)"
      by (auto simp: resource_def not_found_def split: option.splits)
    then show ?thesis by (rule down)
  next
    case 3
    with Cons.prems n have "r = cur \<or> n_resources n s = Some r"
      by (auto simp: resource_def not_found_def split: option.splits if_splits)
    then show ?thesis using here child by blast
  next
    case 4
    show ?thesis
    proof (cases "n_resources n s")
      case None
      with Cons.prems n 4 have "route_loop rs root (ps(id_key (n_name n) \<mapsto> s)) cur None rest
          = Some (Some r, p, l)"
        by (auto simp: resource_def not_found_def simp del: route_loop.simps(2)
            simp: route_loop.simps(2) [of _ _ _ _ _ s] split: if_splits)
      then show ?thesis by (rule stay)
    next
      case (Some c)
      with Cons.prems n 4 have "route_loop rs root ps c (Some c) rest = Some (Some r, p, l)"
        by (auto simp: resource_def simp del: route_loop.simps(2)
            simp: route_loop.simps(2) [of _ _ _ _ _ s])
      with Some show ?thesis by (rule down)
    qed
  qed
qed

section \<open>Attaching nodes\<close>

definition child_of :: "('h, 'a) routes \<Rightarrow> node_ref \<Rightarrow> string \<Rightarrow> node_ref option" where
  "child_of rs r s = Option.bind (nodes rs r) (\<lambda>n. n_resources n s)"

lemma attach_child_of:
  assumes "attach k parent (Some c) rs = Some rs'" and "nodes rs c = Some cn"
  shows "child_of rs' r s = (if r = parent \<and> s = n_name cn then Some c else child_of rs r s)"
  using assms
  by (auto simp: attach_def child_of_def Let_def split: option.splits if_splits)

section \<open>Acceptances\<close>

text \<open>\<open>lineage rs r rs'\<close>: \<open>rs'\<close> are the nodes from \<open>r\<close> up to one without a parent.\<close>

fun lineage :: "('h, 'a) routes \<Rightarrow> node_ref list \<Rightarrow> bool" where
  "lineage rs [] = False"
| "lineage rs [r] = (\<exists>n. nodes rs r = Some n \<and> n_parent n = None)"
| "lineage rs (r # q # up) = ((\<exists>n. nodes rs r = Some n \<and> n_parent n = Some q) \<and> lineage rs (q # up))"

definition own_acceptances :: "('h, 'a) routes \<Rightarrow> node_ref \<Rightarrow> 'a list" where
  "own_acceptances rs r = (case nodes rs r of None \<Rightarrow> [] | Some n \<Rightarrow> n_acceptances n)"

lemma aggregate_lineage:
  "lineage rs up \<Longrightarrow>
     aggregate rs accs (Some (hd up)) = Some (concat (map (own_acceptances rs) (rev up)) @ accs)"
proof (induction rs up arbitrary: accs rule: lineage.induct)
  case (2 rs r)
  then show ?case
    by (auto simp: aggregate.simps [of rs _ "Some r"] aggregate.simps [of rs _ None] own_acceptances_def)
next
  case (3 rs r q up)
  then show ?case
    by (auto simp: aggregate.simps [of rs _ "Some r"] own_acceptances_def)
qed simp

section \<open>Properties\<close>

text \<open>
  C38. A request path made of node names, with an id after any endpoint on the way, is routed to the
  node it names; the ids are in the parameters under the names of their endpoints; isLast says
  whether the path ended with a name. Names and ids are non-empty and have no slash, no node but the
  root is above it, and an id does not name a child of its endpoint.
\<close>

theorem route_finds_node:
  assumes "leads rs root Map.empty steps = Some (r, ps)" and "root_on_top rs root"
    and "steps \<noteq> []" and "list_all (plain_word (CHR ''/'')) (segments steps)"
  shows "RouteNode rs root (Join (CHR ''/'') (segments steps))
    = Some (Some r, Some ps, snd (last steps) = None)"
proof -
  have "segments steps \<noteq> []" using assms(3) by (cases steps) (auto simp: segments_def)
  note sp = Split_trimmed [OF this assms(4)]
  show ?thesis
    using route_loop_leads [OF assms(1-3), of "Some root"] sp
    by (simp add: RouteNode_def trim_path_def Let_def)
qed

text \<open>
  A node that RouteNode answers was reached from the root by following, in order, some of the
  segments of the path as names; nothing else is ever answered.
\<close>

theorem route_reaches_by_names:
  assumes "RouteNode rs root path = Some (Some r, ps, isLast)"
  shows "\<exists>names. subseq names (Split (CHR ''/'') (trim_path path)) \<and> walk rs root names = Some r"
proof (cases "trim_path path = []")
  case True
  with assms show ?thesis by (intro exI [of _ "[]"]) (auto simp: RouteNode_def)
next
  case False
  with assms show ?thesis
    by (auto simp: RouteNode_def Let_def intro: route_loop_walk)
qed

text \<open>
  A leading segment that names nothing is skipped when the next one names a child of the root:
  "/x/users" is answered with the node of "/users", and x is stored under the root's empty name.
\<close>

theorem unknown_first_segment_skipped:
  assumes "nodes rs root = Some n" and "n_type n = RouteTypeRootEndPoint" and "n_name n = []"
    and "n_resources n y = Some r" and "n_resources n x = None"
    and "plain_word (CHR ''/'') x" and "plain_word (CHR ''/'') y"
  shows "RouteNode rs root (x @ ''/'' @ y) = Some (Some r, Some [id_key [] \<mapsto> x], True)"
proof -
  have j: "x @ ''/'' @ y = Join (CHR ''/'') [x, y]" by simp
  have "list_all (plain_word (CHR ''/'')) [x, y]" using assms(6,7) by simp
  from Split_trimmed [OF _ this] show ?thesis
    unfolding j using assms(1-5)
    by (simp add: RouteNode_def trim_path_def Let_def resource_def del: Join.simps)
qed

text \<open>
  Attaching a node adds exactly one child: afterwards the parent leads to it under its name, and
  no other name at any node leads anywhere else than before.
\<close>

theorem attach_adds_one_child:
  assumes "attach k parent (Some c) rs = Some rs'" and "nodes rs c = Some cn"
  shows "child_of rs' parent (n_name cn) = Some c
    \<and> (\<forall>r s. (r, s) \<noteq> (parent, n_name cn) \<longrightarrow> child_of rs' r s = child_of rs r s)
    \<and> child_of rs parent (n_name cn) = None"
  using assms attach_child_of [OF assms]
  by (auto simp: attach_def child_of_def Let_def split: option.splits if_splits)

text \<open>
  The acceptances a request must pass are those of the whole line of ancestors, the root's first
  and the node's own last; AggregatedAcceptances always returns when the line ends.
\<close>

theorem acceptances_root_first:
  assumes "lineage rs up"
  shows "AggregatedAcceptances rs (hd up) = Some (concat (map (own_acceptances rs) (rev up)))"
  using aggregate_lineage [OF assms, of "[]"] by (simp add: AggregatedAcceptances_def)

section \<open>A concrete tree\<close>

definition demo_routes :: "(string, string) routes" where
  "demo_routes =
     (let (root, rs1) = NewRoute ''default'' \<lparr>nodes = Map.empty, n_fresh = 0, registered = []\<rparr>;
          (u, rs2) = NewEndPoint ''users'' (Some ''U'') (Some [''auth'']) rs1;
          (b, rs3) = NewEndPoint ''books'' (Some ''B'') (Some [''own'']) rs2;
          rs4 = the (AddEndPoint root u rs3)
      in the (AddEndPoint (the u) b rs4))"

lemmas demo_routes_eval = demo_routes_def NewRoute_def NewEndPoint_def new_node_def AddEndPoint_def
  attach_def Let_def

theorem route_finds_node_witness:
  "RouteNode demo_routes 0 ''users/7/books'' = Some (Some 2, Some [id_key ''users'' \<mapsto> ''7''], True)"
  using route_finds_node [of demo_routes 0 "[(''users'', Some ''7''), (''books'', None)]" 2
      "[id_key ''users'' \<mapsto> ''7'']"]
  by (simp add: demo_routes_eval root_on_top_def segments_def plain_word_def split: if_splits)

theorem route_reaches_by_names_witness:
  "\<exists>names. subseq names [''users'', ''7'', ''books''] \<and> walk demo_routes 0 names = Some 2"
proof -
  have "RouteNode demo_routes 0 ''users/7/books'' = Some (Some 2, Some [id_key ''users'' \<mapsto> ''7''], True)"
    by (simp add: RouteNode_def trim_path_def TrimLeft_def TrimRight_def demo_routes_eval resource_def)
  from route_reaches_by_names [OF this] show ?thesis
    by (simp add: trim_path_def TrimLeft_def TrimRight_def)
qed

theorem unknown_first_segment_skipped_witness:
  "RouteNode demo_routes 0 ''x/users'' = Some (Some 1, Some [id_key [] \<mapsto> ''x''], True)"
  using unknown_first_segment_skipped [of demo_routes 0 _ "''users''" 1 "''x''"]
  by (simp add: demo_routes_eval plain_word_def)

definition two_nodes :: "(string, string) routes" where
  "two_nodes = snd (NewEndPoint ''a'' (Some ''A'') None
     (snd (NewRoute ''d'' \<lparr>nodes = Map.empty, n_fresh = 0, registered = []\<rparr>)))"

theorem attach_adds_one_child_witness:
  "child_of (the (AddEndPoint 0 (Some 1) two_nodes)) 0 ''a'' = Some 1"
proof -
  have "attach AsEndPoint 0 (Some 1) two_nodes = Some (the (AddEndPoint 0 (Some 1) two_nodes))"
    by (simp add: two_nodes_def demo_routes_eval)
  moreover have "nodes two_nodes 1 = Some \<lparr>n_parent = None, n_handler = Some ''A'', n_name = ''a'',
      n_acceptances = [], n_resources = Map.empty, n_type = RouteTypeEndPoint\<rparr>"
    by (simp add: two_nodes_def demo_routes_eval)
  ultimately show ?thesis
    using attach_adds_one_child [of AsEndPoint 0 1 two_nodes] by fastforce
qed

theorem acceptances_root_first_witness:
  "AggregatedAcceptances demo_routes 2 = Some [''auth'', ''own'']"
  using acceptances_root_first [of demo_routes "[2, 1, 0]"]
  by (simp add: demo_routes_eval own_acceptances_def)

end
