(* ===== verification/Ghttp_SimpleRoute.thy ===== *)
theory Ghttp_SimpleRoute
  imports Ghttp_Route
begin

text \<open>
  The path-pattern router of \<open>ghttp/simpleroute.go\<close>, on the nodes of \<open>Ghttp_Route\<close>: patterns with
  \<open>:name\<close>, \<open>{name}\<close> and \<open>*\<close> segments, the table of custom parameter names, and the lookup helpers of
  \<open>httptaskhelper.go\<close> and \<open>acceptance.go\<close> that read the parameters back. Go ranges over a map in any
  order, a different one at each call, so the functions that range over the table take the order as an
  argument. The lemmas show which registrations a request finds, and which are dropped silently.
\<close>

section \<open>Patterns\<close>

definition extractParamName :: "string \<Rightarrow> string" where
  "extractParamName part =
     (if HasPrefix part '':'' then TrimPrefix part '':''
      else if HasPrefix part ''{'' \<and> HasSuffix part ''}'' then TrimSuffix (TrimPrefix part ''{'') ''}''
      else [])"

definition isParamPlaceholder :: "string \<Rightarrow> bool" where
  "isParamPlaceholder part \<longleftrightarrow>
     HasPrefix part '':'' \<or> (HasPrefix part ''{'' \<and> HasSuffix part ''}'')"

record endpointParamMapping =
  nodeToParamName :: "string \<rightharpoonup> string"
  nodeToParamUsePrefixedKey :: "string \<Rightarrow> bool"

definition no_mapping :: endpointParamMapping where
  "no_mapping = \<lparr>nodeToParamName = Map.empty, nodeToParamUsePrefixedKey = \<lambda>_. False\<rparr>"

record ('h, 'a) simple_route =
  s_routes :: "('h, 'a) routes"
  s_root :: node_ref
  endpointMappings :: "(string \<times> endpointParamMapping) list"

definition NewSimpleRoute :: "('h, 'a) simple_route" where
  "NewSimpleRoute =
     \<lparr>s_routes = \<lparr>nodes = [0 \<mapsto> \<lparr>n_parent = None, n_handler = None, n_name = [], n_acceptances = [],
          n_resources = Map.empty, n_type = RouteTypeRootEndPoint\<rparr>], n_fresh = 1, registered = []\<rparr>,
      s_root = 0, endpointMappings = []\<rparr>"

definition upd_node ::
  "node_ref \<Rightarrow> (('h, 'a) node \<Rightarrow> ('h, 'a) node) \<Rightarrow> ('h, 'a) routes \<Rightarrow> ('h, 'a) routes" where
  "upd_node r f rs = rs\<lparr>nodes := (nodes rs)(r := map_option f (nodes rs r))\<rparr>"

text \<open>A new node under \<open>cur\<close>, and \<open>current.Resources()[part] = node\<close>.\<close>

definition grow ::
  "node_ref \<Rightarrow> string \<Rightarrow> route_type \<Rightarrow> 'h option \<Rightarrow> 'a list \<Rightarrow> ('h, 'a) routes
     \<Rightarrow> node_ref \<times> ('h, 'a) routes" where
  "grow cur part ty h accs rs = (let (r, rs') = new_node \<lparr>n_parent = Some cur, n_handler = h,
       n_name = part, n_acceptances = accs, n_resources = Map.empty, n_type = ty\<rparr> rs
     in (r, upd_node cur (\<lambda>n. n\<lparr>n_resources := (n_resources n)(part \<mapsto> r)\<rparr>) rs'))"

definition name_of :: "('h, 'a) routes \<Rightarrow> node_ref \<Rightarrow> string" where
  "name_of rs r = (case nodes rs r of None \<Rightarrow> [] | Some n \<Rightarrow> n_name n)"

section \<open>Registration\<close>

text \<open>
  The loop of \<open>SetEndpoint\<close>: the mapping so far, whether it has a custom name, and whether a
  wildcard ended the method early.
\<close>

record set_state =
  ss_mapping :: endpointParamMapping
  ss_custom :: bool
  ss_early :: bool

definition note_param :: "string \<Rightarrow> string \<Rightarrow> string \<Rightarrow> set_state \<Rightarrow> set_state" where
  "note_param node part p st =
     (let m = ss_mapping st; m' = m\<lparr>nodeToParamName := (nodeToParamName m)(node \<mapsto> p)\<rparr> in
      if HasPrefix part ''{'' \<and> HasSuffix part ''}''
      then st\<lparr>ss_mapping := m'\<lparr>nodeToParamUsePrefixedKey := (nodeToParamUsePrefixedKey m)(node := True)\<rparr>,
              ss_custom := True\<rparr>
      else if HasSuffix p ''_id'' then st\<lparr>ss_mapping := m', ss_custom := True\<rparr>
      else st)"

fun set_loop ::
  "'h option \<Rightarrow> 'a list \<Rightarrow> string list \<Rightarrow> node_ref \<Rightarrow> set_state \<Rightarrow> ('h, 'a) routes
     \<Rightarrow> set_state \<times> ('h, 'a) routes" where
  "set_loop h accs [] cur st rs = (st, rs)"
| "set_loop h accs (part # rest) cur st rs =
     (if extractParamName part \<noteq> [] then
        set_loop h accs rest cur (note_param (name_of rs cur) part (extractParamName part) st)
          (upd_node cur (\<lambda>n. if rest = []
             then n\<lparr>n_type := RouteTypeEndPoint, n_handler := h, n_acceptances := accs\<rparr>
             else n\<lparr>n_type := RouteTypeEndPoint\<rparr>) rs)
      else if part = ''*'' then
        (st\<lparr>ss_early := True\<rparr>, snd (grow cur ''*'' RouteTypeRecursiveEndPoint h accs rs))
      else (case Option.bind (nodes rs cur) (\<lambda>n. n_resources n part) of
          Some r \<Rightarrow> set_loop h accs rest r st rs
        | None \<Rightarrow>
            (let (r, rs') = (if rest = [] then grow cur part RouteTypeEndPoint h accs rs
                             else grow cur part RouteTypeGroup None [] rs)
             in set_loop h accs rest r st rs')))"

definition SetRootHandler :: "'h option \<Rightarrow> 'a list \<Rightarrow> ('h, 'a) simple_route \<Rightarrow> ('h, 'a) simple_route" where
  "SetRootHandler h accs sr = sr\<lparr>s_routes := upd_node (s_root sr)
     (\<lambda>n. n\<lparr>n_handler := h, n_acceptances := accs\<rparr>) (s_routes sr)\<rparr>"

definition put_mapping ::
  "string \<Rightarrow> endpointParamMapping \<Rightarrow> (string \<times> endpointParamMapping) list
     \<Rightarrow> (string \<times> endpointParamMapping) list" where
  "put_mapping p m ms = filter (\<lambda>x. fst x \<noteq> p) ms @ [(p, m)]"

definition SetEndpoint ::
  "string \<Rightarrow> 'h option \<Rightarrow> 'a list \<Rightarrow> ('h, 'a) simple_route \<Rightarrow> ('h, 'a) simple_route" where
  "SetEndpoint path0 h accs sr = (let path = trim_path path0 in
     if path = [] then SetRootHandler h accs sr
     else let (st, rs) = set_loop h accs (Split (CHR ''/'') path) (s_root sr)
                \<lparr>ss_mapping = no_mapping, ss_custom = False, ss_early = False\<rparr> (s_routes sr)
          in if ss_early st then sr\<lparr>s_routes := rs\<rparr>
             else sr\<lparr>s_routes := rs\<lparr>registered := registered rs @ (case h of None \<Rightarrow> [] | Some x \<Rightarrow> [x])\<rparr>,
                     endpointMappings := (if ss_custom st
                        then put_mapping path (ss_mapping st) (endpointMappings sr)
                        else endpointMappings sr)\<rparr>)"

fun group_loop :: "'a list \<Rightarrow> string list \<Rightarrow> node_ref \<Rightarrow> ('h, 'a) routes \<Rightarrow> ('h, 'a) routes" where
  "group_loop accs [] cur rs = rs"
| "group_loop accs (part # rest) cur rs =
     (if isParamPlaceholder part then group_loop accs rest cur rs
      else (case Option.bind (nodes rs cur) (\<lambda>n. n_resources n part) of
          Some r \<Rightarrow> group_loop accs rest r rs
        | None \<Rightarrow>
            (let (r, rs') = grow cur part RouteTypeGroup None (if rest = [] then accs else []) rs
             in group_loop accs rest r rs')))"

definition SetGroup :: "string \<Rightarrow> 'a list \<Rightarrow> ('h, 'a) simple_route \<Rightarrow> ('h, 'a) simple_route" where
  "SetGroup path0 accs sr = (let path = trim_path path0 in
     if path = [] then sr\<lparr>s_routes := upd_node (s_root sr) (\<lambda>n. n\<lparr>n_acceptances := accs\<rparr>) (s_routes sr)\<rparr>
     else sr\<lparr>s_routes := group_loop accs (Split (CHR ''/'') path) (s_root sr) (s_routes sr)\<rparr>)"

section \<open>Parameter names\<close>

type_synonym order = "(string \<times> endpointParamMapping) list \<Rightarrow> (string \<times> endpointParamMapping) list"

definition an_order :: "order \<Rightarrow> bool" where
  "an_order ord \<longleftrightarrow> (\<forall>ms. set (ord ms) = set ms)"

fun parts_match :: "string list \<Rightarrow> string list \<Rightarrow> bool" where
  "parts_match [] parts = True"
| "parts_match (q # qs) [] = False"
| "parts_match (q # qs) (p # ps) = ((isParamPlaceholder q \<or> p = q) \<and> parts_match qs ps)"

definition pathMatchesEndpoint :: "string list \<Rightarrow> string \<Rightarrow> bool" where
  "pathMatchesEndpoint parts endpointPath =
     parts_match (Split (CHR ''/'') (TrimLeft endpointPath (CHR ''/''))) parts"

definition findBestMatchingMapping ::
  "order \<Rightarrow> (string \<times> endpointParamMapping) list \<Rightarrow> string list \<Rightarrow> endpointParamMapping option" where
  "findBestMatchingMapping ord ms parts =
     map_option snd (find (\<lambda>x. pathMatchesEndpoint parts (fst x)) (ord ms))"

definition getParamKeyForPath ::
  "order \<Rightarrow> (string \<times> endpointParamMapping) list \<Rightarrow> string list \<Rightarrow> string \<Rightarrow> string" where
  "getParamKeyForPath ord ms parts name =
     (case Option.bind (findBestMatchingMapping ord ms parts) (\<lambda>m. map_option (Pair m) (nodeToParamName m name)) of
        None \<Rightarrow> ''[gone-http]'' @ name @ ''_id''
      | Some (m, p) \<Rightarrow> if nodeToParamUsePrefixedKey m name then ''[gone-http]p:'' @ p
                       else ''[gone-http]'' @ p)"

text \<open>
  The node answered: one of the tree, or a \<open>_SimpleNodeWrapper\<close> with a name of its own and a
  possibly wrapped parent.
\<close>

datatype rnode = Plain node_ref | Wrapped node_ref string "rnode option"

fun unwrap :: "rnode \<Rightarrow> node_ref" where
  "unwrap (Plain r) = r"
| "unwrap (Wrapped r _ _) = r"

definition custom_name :: "string \<Rightarrow> string" where
  "custom_name p = (if HasSuffix p ''_id'' then TrimSuffix p ''_id'' else p)"

text \<open>
  \<open>wrapNodeChainIfNeeded\<close> looks the mapping up again for every ancestor, so each level \<open>d\<close> has an
  order of its own. It returns on trees, where the parents end.
\<close>

partial_function (option) wrapNodeChain ::
  "(nat \<Rightarrow> order) \<Rightarrow> nat \<Rightarrow> ('h, 'a) simple_route \<Rightarrow> string list \<Rightarrow> node_ref \<Rightarrow> rnode option" where
  "wrapNodeChain ords d sr parts r =
     (case findBestMatchingMapping (ords d) (endpointMappings sr) parts of
        None \<Rightarrow> Some (Plain r)
      | Some m \<Rightarrow>
          if nodeToParamName m = Map.empty then Some (Plain r)
          else (case Option.bind (nodes (s_routes sr) r) n_parent of
              None \<Rightarrow> (case nodeToParamName m (name_of (s_routes sr) r) of
                  Some p \<Rightarrow> Some (Wrapped r (custom_name p) None)
                | None \<Rightarrow> Some (Plain r))
            | Some q \<Rightarrow> Option.bind (wrapNodeChain ords (Suc d) sr parts q) (\<lambda>wp.
                (case nodeToParamName m (name_of (s_routes sr) r) of
                  Some p \<Rightarrow> Some (Wrapped r (custom_name p) (Some wp))
                | None \<Rightarrow> if wp \<noteq> Plain q then Some (Wrapped r (name_of (s_routes sr) r) (Some wp))
                          else Some (Plain r)))))"

section \<open>Lookup\<close>

type_synonym sfound = "rnode option \<times> params option \<times> bool"

definition snot_found :: sfound where
  "snot_found = (None, None, False)"

text \<open>
  The orders of one call: \<open>key_ord i\<close> when the parameter of segment \<open>i\<close> is named, \<open>wrap_ord\<close> when the
  node is wrapped.
\<close>

definition finish ::
  "(nat \<Rightarrow> order) \<Rightarrow> ('h, 'a) simple_route \<Rightarrow> string list \<Rightarrow> node_ref \<Rightarrow> params \<Rightarrow> bool
     \<Rightarrow> sfound option" where
  "finish wrap_ord sr parts r ps l =
     map_option (\<lambda>w. (Some w, Some ps, l)) (wrapNodeChain wrap_ord 0 sr parts r)"

fun simple_loop ::
  "(nat \<Rightarrow> order) \<Rightarrow> (nat \<Rightarrow> order) \<Rightarrow> ('h, 'a) simple_route \<Rightarrow> string list \<Rightarrow> nat \<Rightarrow> params
     \<Rightarrow> node_ref \<Rightarrow> node_ref option \<Rightarrow> string list \<Rightarrow> sfound option" where
  "simple_loop key_ord wrap_ord sr parts i ps cur nxt [] =
     (case nodes (s_routes sr) cur of
        None \<Rightarrow> None
      | Some n \<Rightarrow> if n_type n = RouteTypeGroup then Some snot_found
                  else finish wrap_ord sr parts cur ps (Some cur = nxt))"
| "simple_loop key_ord wrap_ord sr parts i ps cur nxt (s # rest) =
     (case nodes (s_routes sr) cur of
        None \<Rightarrow> None
      | Some n \<Rightarrow>
         (let key = getParamKeyForPath (key_ord i) (endpointMappings sr) parts (n_name n) in
          case n_type n of
            RouteTypeRecursiveEndPoint \<Rightarrow>
              finish wrap_ord sr parts cur (if n_resources n s = None then ps(n_name n \<mapsto> s) else ps) False
          | RouteTypeGroup \<Rightarrow>
              (case n_resources n s of
                 None \<Rightarrow> (case n_resources n ''*'' of
                     None \<Rightarrow> Some snot_found
                   | Some w \<Rightarrow> Some (Some (Plain w), Some (ps(''*'' \<mapsto> Join (CHR ''/'') (s # rest))), False))
               | Some r \<Rightarrow> simple_loop key_ord wrap_ord sr parts (Suc i) ps r (Some r) rest)
          | _ \<Rightarrow>
              (case rest of
                 [] \<Rightarrow> (case n_resources n s of
                    None \<Rightarrow> if cur = s_root sr \<and> s \<noteq> [] then Some snot_found
                            else finish wrap_ord sr parts cur (ps(key \<mapsto> s)) False
                  | Some r \<Rightarrow> finish wrap_ord sr parts r ps True)
               | s' # _ \<Rightarrow> (case n_resources n s of
                    None \<Rightarrow> if n_resources n s' \<noteq> None
                            then simple_loop key_ord wrap_ord sr parts (Suc i) (ps(key \<mapsto> s)) cur None rest
                            else Some snot_found
                  | Some r \<Rightarrow> simple_loop key_ord wrap_ord sr parts (Suc i) ps r (Some r) rest))))"

definition SimpleRouteNode ::
  "(nat \<Rightarrow> order) \<Rightarrow> (nat \<Rightarrow> order) \<Rightarrow> ('h, 'a) simple_route \<Rightarrow> string \<Rightarrow> sfound option" where
  "SimpleRouteNode key_ord wrap_ord sr path0 = (let path = trim_path path0 in
     if path = [] then Some (Some (Plain (s_root sr)), None, True)
     else (let parts = Split (CHR ''/'') path in
       simple_loop key_ord wrap_ord sr parts 0 Map.empty (s_root sr) (Some (s_root sr)) parts))"

section \<open>Reading the parameters back\<close>

text \<open>\<open>TaskHelper.GetID\<close> and \<open>DispatchAcceptance.GetID\<close>, the latter without the second step.\<close>

definition GetID :: "string \<Rightarrow> params \<Rightarrow> string" where
  "GetID name ps =
     (case ps (''[gone-http]p:'' @ name) of Some v \<Rightarrow> v
      | None \<Rightarrow> (case ps (''[gone-http]'' @ name) of Some v \<Rightarrow> v
      | None \<Rightarrow> (case ps (''[gone-http]'' @ name @ ''_id'') of Some v \<Rightarrow> v | None \<Rightarrow> [])))"

definition acceptance_GetID :: "string \<Rightarrow> params \<Rightarrow> string" where
  "acceptance_GetID name ps =
     (case ps (''[gone-http]p:'' @ name) of Some v \<Rightarrow> v
      | None \<Rightarrow> (case ps (''[gone-http]'' @ name @ ''_id'') of Some v \<Rightarrow> v | None \<Rightarrow> []))"

section \<open>Well-formed trees\<close>

definition wf_node :: "('h, 'a) routes \<Rightarrow> node_ref \<Rightarrow> ('h, 'a) node \<Rightarrow> bool" where
  "wf_node rs r n \<longleftrightarrow> r < n_fresh rs \<and> (\<forall>q. n_parent n = Some q \<longrightarrow> q < r)
     \<and> (n_type n = RouteTypeRecursiveEndPoint \<longrightarrow> n_name n = ''*'')
     \<and> (\<forall>s c. n_resources n s = Some c \<longrightarrow> r < c
         \<and> (\<exists>m. nodes rs c = Some m \<and> n_name m = s \<and> n_parent m = Some r))"

definition wf_tree :: "('h, 'a) routes \<Rightarrow> bool" where
  "wf_tree rs \<longleftrightarrow> (\<exists>n. nodes rs 0 = Some n \<and> n_name n = []) \<and> (\<forall>r n. nodes rs r = Some n \<longrightarrow> wf_node rs r n)"

definition wf_simple :: "('h, 'a) simple_route \<Rightarrow> bool" where
  "wf_simple sr \<longleftrightarrow> s_root sr = 0 \<and> wf_tree (s_routes sr)"

lemma wf_treeD: "wf_tree rs \<Longrightarrow> nodes rs r = Some n \<Longrightarrow> wf_node rs r n"
  by (simp add: wf_tree_def)

lemma wf_node_child:
  "wf_node rs r n \<Longrightarrow> n_resources n s = Some c 
    \<Longrightarrow> r < c \<and> (\<exists>m. nodes rs c = Some m \<and> n_name m = s \<and> n_parent m = Some r)"
  by (simp add: wf_node_def)

lemma wf_child:
  assumes "wf_tree rs" and "nodes rs r = Some n" and "n_resources n s = Some c"
  obtains m where "nodes rs c = Some m" "n_name m = s" "r < c" "n_parent m = Some r"
  using wf_node_child [OF wf_treeD [OF assms(1,2)] assms(3)] by blast

lemma tree_fresh: "wf_tree rs \<Longrightarrow> n_fresh rs \<le> r \<Longrightarrow> nodes rs r = None"
  using wf_treeD [of rs r] by (cases "nodes rs r") (force simp: wf_node_def)+

definition names_kept :: "('h, 'a) routes \<Rightarrow> ('h, 'a) routes \<Rightarrow> bool" where
  "names_kept rs rs' \<longleftrightarrow>
     (\<forall>c m. nodes rs c = Some m \<longrightarrow> (\<exists>m'. nodes rs' c = Some m' \<and> n_name m' = n_name m \<and> n_parent m' = n_parent m))"

lemma wf_node_transfer:
  assumes "wf_node rs q m" and "n_fresh rs \<le> n_fresh rs'" and "names_kept rs rs'"
    and "n_parent m' = n_parent m" and "n_name m' = n_name m" and "n_resources m' = n_resources m"
    and "n_type m' = RouteTypeRecursiveEndPoint \<Longrightarrow> n_type m = RouteTypeRecursiveEndPoint"
  shows "wf_node rs' q m'"
proof -
  have "q < c \<and> (\<exists>m'. nodes rs' c = Some m' \<and> n_name m' = s \<and> n_parent m' = Some q)" if c: "n_resources m s = Some c" for s c
  proof -
    from wf_node_child [OF assms(1) c] obtain k where
        "q < c" "nodes rs c = Some k" "n_name k = s" "n_parent k = Some q"
      by blast
    with assms(3) show ?thesis unfolding names_kept_def by metis
  qed
  moreover have "q < n_fresh rs'" using assms(1,2) by (simp add: wf_node_def)
  ultimately show ?thesis using assms(1,4-7) by (simp add: wf_node_def)
qed

lemma wf_treeI:
  assumes "wf_tree rs" and "names_kept rs rs'"
    and "\<And>r n. nodes rs' r = Some n \<Longrightarrow> wf_node rs' r n"
  shows "wf_tree rs'"
proof -
  from assms(1) obtain n where "nodes rs 0 = Some n" "n_name n = []" by (auto simp: wf_tree_def)
  with assms(2) have "\<exists>n. nodes rs' 0 = Some n \<and> n_name n = []"
    unfolding names_kept_def by metis
  with assms(3) show ?thesis by (simp add: wf_tree_def)
qed

definition same_shape :: "('h, 'a) node \<Rightarrow> ('h, 'a) node \<Rightarrow> bool" where
  "same_shape n n' \<longleftrightarrow> n_parent n' = n_parent n \<and> n_name n' = n_name n \<and> n_resources n' = n_resources n
     \<and> (n_type n' = RouteTypeRecursiveEndPoint \<longrightarrow> n_type n = RouteTypeRecursiveEndPoint)"

lemma upd_node_wf:
  assumes wf: "wf_tree rs" and "\<And>n. same_shape n (f n)"
  shows "wf_tree (upd_node r f rs)"
proof (rule wf_treeI [OF wf])
  show nk: "names_kept rs (upd_node r f rs)"
    using assms(2) by (auto simp: names_kept_def upd_node_def same_shape_def)
  fix q m' assume q: "nodes (upd_node r f rs) q = Some m'"
  then obtain m where m: "nodes rs q = Some m" "m' = m \<or> m' = f m"
    by (auto simp: upd_node_def split: if_splits)
  show "wf_node (upd_node r f rs) q m'"
    by (rule wf_node_transfer [OF wf_treeD [OF wf m(1)] _ nk])
      (use m(2) assms(2) [of m] in \<open>auto simp: upd_node_def same_shape_def\<close>)
qed

lemma grow_nodes:
  assumes "grow cur part ty h accs rs = (r, rs')" and "wf_tree rs" and "nodes rs cur = Some n"
  shows "r = n_fresh rs" and "n_fresh rs' = Suc r" and "cur < r" and "registered rs' = registered rs"
    and "nodes rs' = (nodes rs)(r \<mapsto> \<lparr>n_parent = Some cur, n_handler = h, n_name = part,
        n_acceptances = accs, n_resources = Map.empty, n_type = ty\<rparr>,
      cur \<mapsto> n\<lparr>n_resources := (n_resources n)(part \<mapsto> r)\<rparr>)"
  using assms by (auto simp: grow_def new_node_def upd_node_def wf_tree_def wf_node_def fun_eq_iff)

lemma grow_wf:
  assumes g: "grow cur part ty h accs rs = (r, rs')" and wf: "wf_tree rs" and n: "nodes rs cur = Some n"
    and ty: "ty = RouteTypeRecursiveEndPoint \<longrightarrow> part = ''*''"
  shows "wf_tree rs'"
proof (rule wf_treeI [OF wf])
  note gn = grow_nodes [OF g wf n]
  have fresh: "nodes rs r = None" using tree_fresh [OF wf] gn(1) by simp
  show nk: "names_kept rs rs'"
    using n fresh by (auto simp: names_kept_def gn(5))
  fix q m' assume q: "nodes rs' q = Some m'"
  have le: "n_fresh rs \<le> n_fresh rs'" using gn(1,2) by simp
  consider "q = cur" | "q = r" "q \<noteq> cur" | "q \<noteq> cur" "q \<noteq> r" by blast
  then show "wf_node rs' q m'"
  proof cases
    case 1
    have old: "wf_node rs' cur n"
      by (rule wf_node_transfer [OF wf_treeD [OF wf n] le nk]) simp_all
    have "m' = n\<lparr>n_resources := (n_resources n)(part \<mapsto> r)\<rparr>" using q 1 by (simp add: gn(5))
    moreover have "\<exists>m. nodes rs' r = Some m \<and> n_name m = part \<and> n_parent m = Some cur" using gn(3) by (simp add: gn(5))
    ultimately show ?thesis using old 1 gn(3) by (simp add: wf_node_def)
  next
    case 2
    then show ?thesis using q gn(1-3) ty by (auto simp: gn(5) wf_node_def)
  next
    case 3
    then have "nodes rs q = Some m'" using q by (simp add: gn(5))
    then show ?thesis by (intro wf_node_transfer [OF wf_treeD [OF wf] le nk]) simp_all
  qed
qed

lemma set_loop_wf:
  assumes "wf_tree rs" and "nodes rs cur \<noteq> None"
  shows "wf_tree (snd (set_loop h accs parts cur st rs))"
  using assms
proof (induction parts arbitrary: cur st rs)
  case (Cons part rest)
  from Cons.prems(2) obtain n where n: "nodes rs cur = Some n" by auto
  show ?case
  proof (cases "extractParamName part \<noteq> []")
    case True
    have "wf_tree (upd_node cur (\<lambda>n. if rest = []
             then n\<lparr>n_type := RouteTypeEndPoint, n_handler := h, n_acceptances := accs\<rparr>
             else n\<lparr>n_type := RouteTypeEndPoint\<rparr>) rs)"
      by (rule upd_node_wf [OF Cons.prems(1)]) (simp add: same_shape_def)
    with True Cons.IH n show ?thesis by (simp add: upd_node_def)
  next
    case static: False
    show ?thesis
    proof (cases "part = ''*''")
      case True
      obtain r rs' where g: "grow cur ''*'' RouteTypeRecursiveEndPoint h accs rs = (r, rs')"
        by (cases "grow cur ''*'' RouteTypeRecursiveEndPoint h accs rs")
      with static True grow_wf [OF g Cons.prems(1) n] show ?thesis by simp
    next
      case False
      show ?thesis
      proof (cases "n_resources n part")
        case None
        define ty where "ty = (if rest = [] then RouteTypeEndPoint else RouteTypeGroup)"
        define h' where "h' = (if rest = [] then h else None)"
        define as where "as = (if rest = [] then accs else [])"
        obtain r rs' where g: "grow cur part ty h' as rs = (r, rs')"
          by (cases "grow cur part ty h' as rs")
        have "wf_tree rs'" by (rule grow_wf [OF g Cons.prems(1) n]) (simp add: ty_def)
        moreover have "nodes rs' r \<noteq> None"
          using grow_nodes(3,5) [OF g Cons.prems(1) n] by simp
        ultimately show ?thesis
          using static False None n g Cons.IH
          by (cases "rest = []") (auto simp: ty_def h'_def as_def)
      next
        case (Some c)
        with wf_child [OF Cons.prems(1) n Some] have "nodes rs c \<noteq> None" by auto
        with static False Some n Cons.IH [OF Cons.prems(1)] show ?thesis by simp
      qed
    qed
  qed
qed simp

lemma group_loop_wf:
  assumes "wf_tree rs" and "nodes rs cur \<noteq> None"
  shows "wf_tree (group_loop accs parts cur rs)"
  using assms
proof (induction parts arbitrary: cur rs)
  case (Cons part rest)
  from Cons.prems(2) obtain n where n: "nodes rs cur = Some n" by auto
  show ?case
  proof (cases "isParamPlaceholder part")
    case False
    show ?thesis
    proof (cases "n_resources n part")
      case None
      obtain r rs' where g: "grow cur part RouteTypeGroup None (if rest = [] then accs else []) rs = (r, rs')"
        by (cases "grow cur part RouteTypeGroup None (if rest = [] then accs else []) rs")
      have "wf_tree rs'" by (rule grow_wf [OF g Cons.prems(1) n]) simp
      moreover have "nodes rs' r \<noteq> None"
        using grow_nodes(3,5) [OF g Cons.prems(1) n] by simp
      ultimately show ?thesis using False None n g Cons.IH by simp
    next
      case (Some c)
      with wf_child [OF Cons.prems(1) n Some] have "nodes rs c \<noteq> None" by auto
      with False Some n Cons.IH [OF Cons.prems(1)] show ?thesis by simp
    qed
  qed (use Cons in simp)
qed simp

section \<open>Following plain names\<close>

definition static_part :: "string \<Rightarrow> bool" where
  "static_part p \<longleftrightarrow> extractParamName p = [] \<and> p \<noteq> ''*''"

definition links_kept :: "('h, 'a) routes \<Rightarrow> ('h, 'a) routes \<Rightarrow> bool" where
  "links_kept rs rs' \<longleftrightarrow> (\<forall>q s c. child_of rs q s = Some c \<longrightarrow> child_of rs' q s = Some c)"

lemma walk_child: "walk rs cur (s # ss) = (case child_of rs cur s of None \<Rightarrow> None | Some r \<Rightarrow> walk rs r ss)"
  by (simp add: child_of_def)

lemma walk_append:
  "walk rs cur (xs @ ys) = (case walk rs cur xs of None \<Rightarrow> None | Some r \<Rightarrow> walk rs r ys)"
  by (induction xs arbitrary: cur) (auto split: option.splits)

lemma set_loop_descend:
  assumes "wf_tree rs" and "nodes rs cur \<noteq> None" and "list_all static_part names"
  shows "\<exists>rs' r. set_loop h accs (names @ q # qs) cur st rs = set_loop h accs (q # qs) r st rs'
    \<and> wf_tree rs' \<and> walk rs' cur names = Some r \<and> nodes rs' r \<noteq> None \<and> links_kept rs rs'
    \<and> (walk rs cur names \<noteq> None \<longrightarrow> rs' = rs)
    \<and> (walk rs cur (names @ [s]) = None \<longrightarrow> child_of rs' r s = None)"
  using assms
proof (induction names arbitrary: cur rs)
  case Nil
  then show ?case
    by (intro exI [of _ rs] exI [of _ cur]) (auto simp: links_kept_def child_of_def split: option.splits)
next
  case (Cons nm names)
  from Cons.prems(2) obtain n where n: "nodes rs cur = Some n" by auto
  have static: "extractParamName nm = []" "nm \<noteq> ''*''" "list_all static_part names"
    using Cons.prems(3) by (simp_all add: static_part_def [of nm])
  show ?case
  proof (cases "n_resources n nm")
    case (Some c)
    with wf_child [OF Cons.prems(1) n Some] have c: "nodes rs c \<noteq> None" by auto
    have child: "child_of rs cur nm = Some c" using n Some by (simp add: child_of_def)
    from Cons.IH [OF Cons.prems(1) c static(3)] obtain rs' r where
      ih: "set_loop h accs (names @ q # qs) c st rs = set_loop h accs (q # qs) r st rs'"
        "wf_tree rs'" "walk rs' c names = Some r" "nodes rs' r \<noteq> None" "links_kept rs rs'"
        "walk rs c names \<noteq> None \<longrightarrow> rs' = rs"
        "walk rs c (names @ [s]) = None \<longrightarrow> child_of rs' r s = None"
      by (elim exE conjE) (rule that; assumption)
    have "child_of rs' cur nm = Some c" using ih(5) child by (simp add: links_kept_def)
    moreover have "set_loop h accs ((nm # names) @ q # qs) cur st rs = set_loop h accs (names @ q # qs) c st rs"
      using static n Some by simp
    ultimately show ?thesis
      using ih child by (intro exI [of _ rs'] exI [of _ r]) (simp add: walk_child del: walk.simps(2) set_loop.simps)
  next
    case None
    obtain c rs1 where g: "grow cur nm RouteTypeGroup None [] rs = (c, rs1)"
      by (cases "grow cur nm RouteTypeGroup None [] rs :: node_ref \<times> ('a, 'b) routes") 
    note gn = grow_nodes [OF g Cons.prems(1) n]
    have wf1: "wf_tree rs1" by (rule grow_wf [OF g Cons.prems(1) n]) simp
    have c: "nodes rs1 c \<noteq> None" using gn(3,5) by simp
    have fresh: "nodes rs c = None" using tree_fresh [OF Cons.prems(1)] gn(1) by simp
    have child: "child_of rs1 cur nm = Some c" "child_of rs1 c = (\<lambda>_. None)"
      using gn(3) by (auto simp: child_of_def gn(5))
    have keep: "links_kept rs rs1"
      using n None fresh by (auto simp: links_kept_def child_of_def gn(5))
    from Cons.IH [OF wf1 c static(3)] obtain rs' r where
      ih: "set_loop h accs (names @ q # qs) c st rs1 = set_loop h accs (q # qs) r st rs'"
        "wf_tree rs'" "walk rs' c names = Some r" "nodes rs' r \<noteq> None" "links_kept rs1 rs'"
        "walk rs1 c (names @ [s]) = None \<longrightarrow> child_of rs' r s = None"
      by (elim exE conjE) (rule that; assumption)
    have "walk rs1 c (names @ [s]) = None"
      using child(2) by (cases names) (simp_all add: walk_child del: walk.simps(2))
    moreover have "child_of rs' cur nm = Some c" using ih(5) child by (simp add: links_kept_def)
    moreover have "set_loop h accs ((nm # names) @ q # qs) cur st rs = set_loop h accs (names @ q # qs) c st rs1"
      using static n None g by simp
    moreover have "child_of rs cur nm = None" using n None by (simp add: child_of_def)
    moreover have "links_kept rs rs'" using keep ih(5) by (simp add: links_kept_def)
    ultimately show ?thesis
      using ih by (intro exI [of _ rs'] exI [of _ r]) (simp add: walk_child del: walk.simps(2) set_loop.simps)
  qed
qed

lemma wf_not_recursive:
  "wf_tree rs \<Longrightarrow> nodes rs r = Some n \<Longrightarrow> n_name n \<noteq> ''*'' \<Longrightarrow> n_type n \<noteq> RouteTypeRecursiveEndPoint"
  using wf_treeD [of rs r n] by (auto simp: wf_node_def)

lemma walk_name:
  assumes "wf_tree rs" and "walk rs cur names = Some r" and "names \<noteq> []"
  shows "\<exists>n. nodes rs r = Some n \<and> n_name n = last names"
proof -
  from assms(3) obtain ns nm where names: "names = ns @ [nm]" by (metis rev_exhaust)
  with assms(2) obtain q where "child_of rs q nm = Some r"
    by (auto simp: walk_append child_of_def split: option.splits)
  then obtain n where "nodes rs q = Some n" "n_resources n nm = Some r"
    by (auto simp: child_of_def bind_eq_Some_conv)
  with wf_child [OF assms(1) this] names show ?thesis by auto
qed

lemma simple_loop_names:
  assumes wf: "wf_tree (s_routes sr)"
    and "walk (s_routes sr) cur names = Some r" and "list_all static_part names"
    and "\<exists>n. nodes (s_routes sr) cur = Some n \<and> n_name n \<noteq> ''*''"
  shows "simple_loop ko wo sr parts i ps cur nxt (names @ q # qs)
    = simple_loop ko wo sr parts (i + length names) ps r (if names = [] then nxt else Some r) (q # qs)"
  using assms(2-)
proof (induction names arbitrary: cur nxt i)
  case (Cons nm names)
  from Cons.prems(3) obtain n where n: "nodes (s_routes sr) cur = Some n" "n_name n \<noteq> ''*''" by auto
  from Cons.prems(1) n(1) obtain c where c: "n_resources n nm = Some c"
    "walk (s_routes sr) c names = Some r" by (auto split: option.splits)
  from wf_child [OF wf n(1) c(1)] Cons.prems(2) obtain m where
    m: "nodes (s_routes sr) c = Some m" "n_name m \<noteq> ''*''" by (auto simp: static_part_def)
  have ty: "n_type n \<noteq> RouteTypeRecursiveEndPoint" by (rule wf_not_recursive [OF wf n])
  obtain p' ps' where ne: "names @ q # qs = p' # ps'" by (cases "names @ q # qs") auto
  have "simple_loop ko wo sr parts i ps cur nxt (nm # names @ q # qs)
      = simple_loop ko wo sr parts (Suc i) ps c (Some c) (names @ q # qs)"
    unfolding ne using n(1) c(1) ty
    by (subst simple_loop.simps(2)) (cases "n_type n"; simp add: Let_def)
  with Cons.IH [OF c(2), of "Suc i" "Some c"] Cons.prems(2) m show ?case by simp
qed simp

lemma wrap_unwraps:
  assumes "wf_tree (s_routes sr)"
  shows "\<exists>w. wrapNodeChain ords d sr parts r = Some w \<and> unwrap w = r"
proof (induction r arbitrary: d rule: less_induct)
  case (less r)
  show ?case
  proof (cases "Option.bind (nodes (s_routes sr) r) n_parent")
    case None
    then show ?thesis by (subst wrapNodeChain.simps) (auto split: option.splits)
  next
    case (Some q)
    then obtain n where "nodes (s_routes sr) r = Some n" "n_parent n = Some q"
      by (auto simp: bind_eq_Some_conv)
    then have "q < r" using wf_treeD [OF assms, of r n] by (simp add: wf_node_def)
    from less.IH [OF this, of "Suc d"] Some show ?thesis
      by (subst wrapNodeChain.simps) (auto split: option.splits)
  qed
qed

lemma finish_unwraps:
  assumes "wf_tree (s_routes sr)"
  shows "\<exists>w. finish wo sr parts r ps l = Some (Some w, Some ps, l) \<and> unwrap w = r"
  using wrap_unwraps [OF assms, of wo 0 parts r] by (auto simp: finish_def)

section \<open>Properties\<close>

definition words :: "string list \<Rightarrow> bool" where
  "words ws \<longleftrightarrow> ws \<noteq> [] \<and> list_all (plain_word (CHR ''/'')) ws"

definition path_of :: "string list \<Rightarrow> string" where
  "path_of ws = Join (CHR ''/'') ws"

lemma path_of_words:
  assumes "words ws"
  shows "trim_path (path_of ws) = path_of ws" and "path_of ws \<noteq> []" and "Split (CHR ''/'') (path_of ws) = ws"
  using Split_trimmed [of ws "CHR ''/''"] assms by (auto simp: words_def path_of_def trim_path_def)

lemma SetEndpoint_words:
  assumes "words ws"
  shows "SetEndpoint (path_of ws) h accs sr =
    (let (st, rs) = set_loop h accs ws (s_root sr)
           \<lparr>ss_mapping = no_mapping, ss_custom = False, ss_early = False\<rparr> (s_routes sr)
     in if ss_early st then sr\<lparr>s_routes := rs\<rparr>
        else sr\<lparr>s_routes := rs\<lparr>registered := registered rs @ (case h of None \<Rightarrow> [] | Some x \<Rightarrow> [x])\<rparr>,
                endpointMappings := (if ss_custom st
                   then put_mapping (path_of ws) (ss_mapping st) (endpointMappings sr)
                   else endpointMappings sr)\<rparr>)"
  using path_of_words [OF assms] by (simp add: SetEndpoint_def Let_def)

lemma SimpleRouteNode_words:
  "words ws \<Longrightarrow> SimpleRouteNode ko wo sr (path_of ws)
     = simple_loop ko wo sr ws 0 Map.empty (s_root sr) (Some (s_root sr)) ws"
  using path_of_words by (simp add: SimpleRouteNode_def Let_def)

text \<open>The fields the tree invariants read do not include the list of registrations.\<close>

lemma registered_irrelevant [simp]:
  "wf_tree (rs\<lparr>registered := l\<rparr>) = wf_tree rs" "walk (rs\<lparr>registered := l\<rparr>) = walk rs"
  "child_of (rs\<lparr>registered := l\<rparr>) = child_of rs"
proof -
  show "walk (rs\<lparr>registered := l\<rparr>) = walk rs"
  proof (intro ext)
    show "walk (rs\<lparr>registered := l\<rparr>) r ss = walk rs r ss" for r ss
      by (induction ss arbitrary: r) (auto split: option.splits)
  qed
qed (auto simp: wf_tree_def wf_node_def child_of_def fun_eq_iff)

text \<open>
  The tree stays a tree: every operation of the router, on any path, keeps every link leading to an
  existing node of that name further down and every parent above its children, so lookups and the
  walk up the parents always end.
\<close>

theorem simple_route_stays_wf:
  "wf_simple NewSimpleRoute
   \<and> (wf_simple sr \<longrightarrow> wf_simple (SetEndpoint path h accs sr) \<and> wf_simple (SetGroup path accs sr)
       \<and> wf_simple (SetRootHandler h accs sr)
       \<and> (\<exists>out. SimpleRouteNode ko wo sr path = Some out))"
proof (intro conjI impI)
  show "wf_simple NewSimpleRoute"
    by (simp add: wf_simple_def wf_tree_def wf_node_def NewSimpleRoute_def)
next
  assume wf: "wf_simple sr"
  then have t: "wf_tree (s_routes sr)" "nodes (s_routes sr) (s_root sr) \<noteq> None"
    by (auto simp: wf_simple_def wf_tree_def)
  have root: "wf_simple (SetRootHandler h accs sr)"
    using wf upd_node_wf [OF t(1), of "\<lambda>n. n\<lparr>n_handler := h, n_acceptances := accs\<rparr>" "s_root sr"]
    by (simp add: wf_simple_def SetRootHandler_def same_shape_def)
  then show "wf_simple (SetRootHandler h accs sr)" .
  show "wf_simple (SetEndpoint path h accs sr)"
    using set_loop_wf [OF t, of h accs "Split (CHR ''/'') (trim_path path)"
        "\<lparr>ss_mapping = no_mapping, ss_custom = False, ss_early = False\<rparr>"] wf root
    by (auto simp: SetEndpoint_def Let_def wf_simple_def split: prod.splits)
  show "wf_simple (SetGroup path accs sr)"
    using group_loop_wf [OF t, of accs "Split (CHR ''/'') (trim_path path)"] wf
      upd_node_wf [OF t(1), of "\<lambda>n. n\<lparr>n_acceptances := accs\<rparr>" "s_root sr"]
    by (auto simp: SetGroup_def Let_def wf_simple_def same_shape_def)
  have fin: "\<exists>out. finish wo sr parts r qs l = Some out" for parts r qs l
    using finish_unwraps [OF t(1), of wo parts r qs l] by blast
  have "\<exists>out. simple_loop ko wo sr parts i ps cur nxt segs = Some out"
    if "nodes (s_routes sr) cur \<noteq> None" for parts i ps cur nxt segs
    using that
  proof (induction segs arbitrary: i ps cur nxt)
    case Nil
    then show ?case using fin by (auto simp: snot_found_def split: option.splits)
  next
    case (Cons s rest)
    then obtain n where n: "nodes (s_routes sr) cur = Some n" by auto
    have kid: "nodes (s_routes sr) c \<noteq> None" if "n_resources n s = Some c" for c
      using wf_child [OF t(1) n that] by auto
    show ?case
    proof (cases "n_type n = RouteTypeGroup \<or> n_type n = RouteTypeRecursiveEndPoint")
      case True
      then show ?thesis
        using n fin kid Cons.IH by (subst simple_loop.simps(2)) (auto simp: Let_def snot_found_def split: option.splits)
    next
      case False
      show ?thesis
      proof (cases rest)
        case Nil
        with False show ?thesis
          using n fin kid Cons.IH
          by (subst simple_loop.simps(2)) (cases "n_type n"; auto simp: Let_def snot_found_def split: option.splits)
      next
        case (Cons s' ss)
        with False show ?thesis
          using n kid Cons.IH [of cur] Cons.IH Cons.prems
          by (subst simple_loop.simps(2)) (cases "n_type n"; cases "n_resources n s"; auto simp: Let_def snot_found_def)
      qed
    qed
  qed
  with t(2) show "\<exists>out. SimpleRouteNode ko wo sr path = Some out"
    by (auto simp: SimpleRouteNode_def Let_def)
qed

definition static_words :: "string list \<Rightarrow> bool" where
  "static_words ws \<longleftrightarrow> words ws \<and> list_all static_part ws"

lemma root_not_star: "wf_tree rs \<Longrightarrow> \<exists>n. nodes rs 0 = Some n \<and> n_name n \<noteq> ''*''"
  by (auto simp: wf_tree_def)

lemma walk_not_star:
  assumes "wf_tree rs" and "walk rs 0 names = Some r" and "list_all static_part names"
  shows "\<exists>n. nodes rs r = Some n \<and> n_name n \<noteq> ''*''"
proof (cases "names = []")
  case True
  with assms show ?thesis using root_not_star by simp
next
  case False
  with walk_name [OF assms(1,2)] assms(3) show ?thesis
    by (auto simp: static_part_def list_all_iff)
qed

text \<open>A request of plain names that exist, ending at a node that is not a bare group.\<close>

lemma simple_loop_reaches:
  assumes wf: "wf_simple sr" and ws: "static_words ws" and r: "walk (s_routes sr) 0 ws = Some r"
    and m: "nodes (s_routes sr) r = Some m" "n_type m \<noteq> RouteTypeGroup"
  shows "\<exists>w. SimpleRouteNode ko wo sr (path_of ws) = Some (Some w, Some Map.empty, True) \<and> unwrap w = r"
proof -
  have t: "wf_tree (s_routes sr)" "s_root sr = 0" using wf by (auto simp: wf_simple_def)
  from ws obtain names s where ns: "ws = names @ [s]" "list_all static_part names" "words ws"
    by (cases ws rule: rev_cases) (auto simp: static_words_def words_def)
  from r ns obtain q where q: "walk (s_routes sr) 0 names = Some q" "child_of (s_routes sr) q s = Some r"
    by (auto simp: walk_append child_of_def split: option.splits)
  from walk_not_star [OF t(1) q(1) ns(2)] obtain n where
    n: "nodes (s_routes sr) q = Some n" "n_name n \<noteq> ''*''" by auto
  have ty: "n_type n \<noteq> RouteTypeRecursiveEndPoint" by (rule wf_not_recursive [OF t(1) n])
  have c: "n_resources n s = Some r" using q(2) n(1) by (simp add: child_of_def)
  have "SimpleRouteNode ko wo sr (path_of ws) = simple_loop ko wo sr ws 0 Map.empty 0 (Some 0) ws"
    using t(2) by (simp only: SimpleRouteNode_words [OF ns(3)])
  also have "\<dots> = simple_loop ko wo sr ws 0 Map.empty 0 (Some 0) (names @ [s])" by (simp add: ns(1))
  also have "\<dots> = simple_loop ko wo sr ws (0 + length names) Map.empty q
      (if names = [] then Some 0 else Some q) [s]"
    by (rule simple_loop_names [OF t(1) q(1) ns(2) root_not_star [OF t(1)]])
  also have "\<dots> = finish wo sr ws r Map.empty True"
    using n(1) c ty m by (cases "n_type n") (auto simp: Let_def)
  finally show ?thesis using finish_unwraps [OF t(1)] by simp
qed

text \<open>
  C37. A handler set on a path of plain names that does not exist yet is found: the same path is
  answered with a node that has this handler and these acceptances, without parameters, and no
  registration made before is disturbed.
\<close>

theorem new_endpoint_found:
  assumes "wf_simple sr" and "static_words ws" and "walk (s_routes sr) 0 ws = None"
  shows "\<exists>sr' w n. SetEndpoint (path_of ws) (Some h) accs sr = sr'
    \<and> SimpleRouteNode ko wo sr' (path_of ws) = Some (Some w, Some Map.empty, True)
    \<and> nodes (s_routes sr') (unwrap w) = Some n \<and> n_handler n = Some h \<and> n_acceptances n = accs
    \<and> links_kept (s_routes sr) (s_routes sr')"
proof -
  let ?st = "\<lparr>ss_mapping = no_mapping, ss_custom = False, ss_early = False\<rparr>"
  have t: "wf_tree (s_routes sr)" "nodes (s_routes sr) 0 \<noteq> None" "s_root sr = 0"
    using assms(1) by (auto simp: wf_simple_def wf_tree_def)
  from assms(2) obtain names s where ns: "ws = names @ [s]" "list_all static_part names" "static_part s"
      "words ws"
    by (cases ws rule: rev_cases) (auto simp: static_words_def words_def)
  from set_loop_descend [OF t(1,2) ns(2), of "Some h" accs s "[]" ?st s] obtain rs1 q where
    d: "set_loop (Some h) accs (names @ [s]) 0 ?st (s_routes sr) = set_loop (Some h) accs [s] q ?st rs1"
      "wf_tree rs1" "walk rs1 0 names = Some q" "nodes rs1 q \<noteq> None" "links_kept (s_routes sr) rs1"
      "walk (s_routes sr) 0 (names @ [s]) = None \<longrightarrow> child_of rs1 q s = None"
    by (elim exE conjE) (rule that; assumption)
  from d(4) obtain n where n: "nodes rs1 q = Some n" by auto
  have none: "n_resources n s = None" using d(6) assms(3) ns(1) n by (simp add: child_of_def)
  obtain r rs2 where g: "grow q s RouteTypeEndPoint (Some h) accs rs1 = (r, rs2)"
    by (cases "grow q s RouteTypeEndPoint (Some h) accs rs1")
  note gn = grow_nodes [OF g d(2) n]
  have step: "set_loop (Some h) accs [s] q ?st rs1 = (?st, rs2)"
    using ns(3) n none g by (simp add: static_part_def)
  define sr' where "sr' = SetEndpoint (path_of ws) (Some h) accs sr"
  have sr': "sr' = sr\<lparr>s_routes := rs2\<lparr>registered := registered rs2 @ [h]\<rparr>\<rparr>"
    unfolding sr'_def SetEndpoint_words [OF ns(4)] using t(3) ns(1) d(1) step by simp
  have fresh: "nodes rs1 r = None" using tree_fresh [OF d(2)] gn(1) by simp
  have link: "links_kept rs1 rs2"
    using n none fresh by (auto simp: links_kept_def child_of_def gn(5))
  have keep: "walk rs2 c xs = Some z" if "walk rs1 c xs = Some z" for c xs z
    using that link by (induction xs arbitrary: c)
      (auto simp: links_kept_def walk_child simp del: walk.simps(2) split: option.splits)
  have "child_of rs2 q s = Some r" by (simp add: child_of_def gn(5))
  then have w: "walk (s_routes sr') 0 ws = Some r"
    using keep [OF d(3)] by (simp add: sr' ns(1) walk_append child_of_def del: walk.simps(2))
      (simp add: child_of_def)
  have m: "nodes (s_routes sr') r = Some \<lparr>n_parent = Some q, n_handler = Some h, n_name = s,
        n_acceptances = accs, n_resources = Map.empty, n_type = RouteTypeEndPoint\<rparr>"
    using gn(3) by (simp add: sr' gn(5))
  have wf': "wf_simple sr'"
    using grow_wf [OF g d(2) n] assms(1) by (simp add: sr' wf_simple_def)
  from simple_loop_reaches [OF wf' assms(2) w m] obtain w where
    "SimpleRouteNode ko wo sr' (path_of ws) = Some (Some w, Some Map.empty, True)" "unwrap w = r" by auto
  moreover have "links_kept (s_routes sr) (s_routes sr')"
    using d(5) link by (simp add: sr' links_kept_def)
  ultimately show ?thesis using m sr'_def by (intro exI [of _ sr'] exI [of _ w]) simp
qed

text \<open>
  A handler set on a path of plain names that exists already, as a group, as an intermediate node
  or as an endpoint, is dropped: no node changes and no error is reported, only the handler's
  Register method is called.
\<close>

theorem existing_path_keeps_handler:
  assumes "wf_simple sr" and "static_words ws" and "walk (s_routes sr) 0 ws = Some r"
  shows "SetEndpoint (path_of ws) (Some h) accs sr
    = sr\<lparr>s_routes := (s_routes sr)\<lparr>registered := registered (s_routes sr) @ [h]\<rparr>\<rparr>"
proof -
  let ?st = "\<lparr>ss_mapping = no_mapping, ss_custom = False, ss_early = False\<rparr>"
  have t: "wf_tree (s_routes sr)" "nodes (s_routes sr) 0 \<noteq> None" "s_root sr = 0"
    using assms(1) by (auto simp: wf_simple_def wf_tree_def)
  from assms(2) obtain names s where ns: "ws = names @ [s]" "list_all static_part names" "static_part s"
      "words ws"
    by (cases ws rule: rev_cases) (auto simp: static_words_def words_def)
  from assms(3) ns(1) obtain q where q: "walk (s_routes sr) 0 names = Some q" "child_of (s_routes sr) q s = Some r"
    by (auto simp: walk_append child_of_def split: option.splits)
  from set_loop_descend [OF t(1,2) ns(2), of "Some h" accs s "[]" ?st s] q(1) obtain q' where
    d: "set_loop (Some h) accs (names @ [s]) 0 ?st (s_routes sr)
        = set_loop (Some h) accs [s] q' ?st (s_routes sr)" "walk (s_routes sr) 0 names = Some q'"
    by (elim exE conjE) (rule that; simp)
  from q d(2) obtain n where "nodes (s_routes sr) q' = Some n" "n_resources n s = Some r"
    by (auto simp: child_of_def bind_eq_Some_conv)
  then have "set_loop (Some h) accs [s] q' ?st (s_routes sr) = (?st, s_routes sr)"
    using ns(3) by (simp add: static_part_def)
  then show ?thesis
    unfolding SetEndpoint_words [OF ns(4)] using t(3) ns(1) d(1) by simp
qed

text \<open>A placeholder in braces.\<close>

definition brace :: "string \<Rightarrow> string" where
  "brace p = ''{'' @ p @ ''}''"

lemma brace_param: "extractParamName (brace p) = p" "isParamPlaceholder (brace p)"
    "HasPrefix (brace p) ''{''" "HasSuffix (brace p) ''}''"
  using TrimSuffix_append [of p "''}''"] HasSuffix_append [of "''{'' @ p" "''}''"]
    TrimPrefix_append [of "''{''" "p @ ''}''"] HasPrefix_append [of "''{''" "p @ ''}''"]
  by (auto simp: extractParamName_def isParamPlaceholder_def brace_def HasPrefix_def)

lemma parts_match_param:
  "isParamPlaceholder q \<Longrightarrow> parts_match (names @ [q]) (names @ [x])"
  by (induction names) auto

lemma the_mapping:
  assumes "an_order ord" and "pathMatchesEndpoint parts path"
    and "\<forall>e \<in> set ms. fst e \<noteq> path \<longrightarrow> \<not> pathMatchesEndpoint parts (fst e)"
  shows "findBestMatchingMapping ord (put_mapping path m ms) parts = Some m"
proof -
  let ?P = "\<lambda>e. pathMatchesEndpoint parts (fst e)"
  have set: "set (ord (put_mapping path m ms)) = {e \<in> set ms. fst e \<noteq> path} \<union> {(path, m)}"
    using assms(1) by (auto simp: an_order_def put_mapping_def)
  have "\<exists>e. find ?P (ord (put_mapping path m ms)) = Some e"
    using assms(2) set by (cases "find ?P (ord (put_mapping path m ms))") (auto simp: find_None_iff)
  then obtain e where e: "find ?P (ord (put_mapping path m ms)) = Some e" by blast
  then have "e \<in> set (ord (put_mapping path m ms))" "?P e"
    by (auto simp: find_Some_iff)
  with set assms(3) have "e = (path, m)" by auto
  with e show ?thesis by (simp add: findBestMatchingMapping_def)
qed

text \<open>
  A brace parameter is given back: after SetEndpoint("<names>/{p}", h) the request
  "<names>/x" is answered with a node whose handler is h and with one parameter, from which
  GetID("p") reads x, in whatever order Go ranges over the table of names; x names no node below, and
  no other pattern of the table fits the request.
\<close>

theorem brace_parameter_roundtrip:
  assumes "wf_simple sr" and "static_words names" and "plain_word (CHR ''/'') x"
    and "p \<noteq> []" and "CHR ''/'' \<notin> set p" and "\<forall>i. an_order (ko i)"
    and "walk (s_routes sr) 0 (names @ [x]) = None"
    and "\<forall>e \<in> set (endpointMappings sr). fst e \<noteq> path_of (names @ [brace p])
          \<longrightarrow> \<not> pathMatchesEndpoint (names @ [x]) (fst e)"
  shows "\<exists>sr' w ps n. SetEndpoint (path_of (names @ [brace p])) (Some h) accs sr = sr'
    \<and> SimpleRouteNode ko wo sr' (path_of (names @ [x])) = Some (Some w, Some ps, False)
    \<and> nodes (s_routes sr') (unwrap w) = Some n \<and> n_handler n = Some h \<and> GetID p ps = x"
proof -
  let ?st = "\<lparr>ss_mapping = no_mapping, ss_custom = False, ss_early = False\<rparr>"
  let ?path = "path_of (names @ [brace p])"
  have t: "wf_tree (s_routes sr)" "nodes (s_routes sr) 0 \<noteq> None" "s_root sr = 0"
    using assms(1) by (auto simp: wf_simple_def wf_tree_def)
  have st: "list_all static_part names" "names \<noteq> []" using assms(2) by (auto simp: static_words_def words_def)
  have w1: "words (names @ [brace p])" and w2: "words (names @ [x])"
    using assms(2,3,5) by (auto simp: static_words_def words_def plain_word_def brace_def)
  from set_loop_descend [OF t(1,2) st(1), of "Some h" accs "brace p" "[]" ?st x] obtain rs1 q where
    d: "set_loop (Some h) accs (names @ [brace p]) 0 ?st (s_routes sr)
        = set_loop (Some h) accs [brace p] q ?st rs1"
      "wf_tree rs1" "walk rs1 0 names = Some q" "nodes rs1 q \<noteq> None"
      "walk (s_routes sr) 0 (names @ [x]) = None \<longrightarrow> child_of rs1 q x = None"
    by (elim exE conjE) (rule that; assumption)
  from walk_name [OF d(2,3) st(2)] obtain n where n: "nodes rs1 q = Some n" "n_name n = last names" by auto
  let ?f = "\<lambda>n. n\<lparr>n_type := RouteTypeEndPoint, n_handler := Some h, n_acceptances := accs\<rparr>"
  define rs2 where "rs2 = upd_node q ?f rs1"
  define m where "m = no_mapping\<lparr>nodeToParamName := [n_name n \<mapsto> p],
    nodeToParamUsePrefixedKey := (\<lambda>_. False)(n_name n := True)\<rparr>"
  have loop: "set_loop (Some h) accs [brace p] q ?st rs1 = (?st\<lparr>ss_mapping := m, ss_custom := True\<rparr>, rs2)"
    using brace_param assms(4) n(1)
    by (simp add: note_param_def name_of_def m_def no_mapping_def rs2_def Let_def)
  define sr' where "sr' = SetEndpoint ?path (Some h) accs sr"
  have sr': "sr' = sr\<lparr>s_routes := rs2\<lparr>registered := registered rs2 @ [h]\<rparr>,
      endpointMappings := put_mapping ?path m (endpointMappings sr)\<rparr>"
    unfolding sr'_def SetEndpoint_words [OF w1] using t(3) d(1) loop by simp
  have n': "nodes (s_routes sr') q = Some (?f n)" using n by (simp add: sr' rs2_def upd_node_def)
  have wf': "wf_tree (s_routes sr')"
    using upd_node_wf [OF d(2), of ?f q] by (simp add: sr' rs2_def same_shape_def)
  have child: "child_of rs2 = child_of rs1" using n by (auto simp: rs2_def upd_node_def child_of_def fun_eq_iff)
  have "walk rs2 c ns = walk rs1 c ns" for c ns
    by (induction ns arbitrary: c) (simp_all add: walk_child child del: walk.simps(2) split: option.splits)
  then have walk': "walk (s_routes sr') 0 names = Some q" using d(3) by (simp add: sr')
  have x: "n_resources n x = None" using d(5) assms(7) n by (simp add: child_of_def)
  have q0: "q \<noteq> 0" proof -
    have "last names \<noteq> []"
      using assms(2) st(2) by (auto simp: static_words_def words_def plain_word_def list_all_iff)
    with n d(2) show ?thesis by (cases "q = 0") (auto simp: wf_tree_def)
  qed
  let ?key = "getParamKeyForPath (ko (length names)) (endpointMappings sr') (names @ [x]) (n_name n)"
  have "pathMatchesEndpoint (names @ [x]) ?path"
  proof -
    have "hd ?path \<noteq> CHR ''/''"
      using Join_hd [of "names @ [brace p]" "CHR ''/''"] assms(2) st(2)
      by (cases names) (auto simp: path_of_def static_words_def words_def plain_word_def dest: hd_in_set)
    then have "TrimLeft ?path (CHR ''/'') = ?path" by (intro TrimLeft_id) simp
    then show ?thesis
      using parts_match_param [OF brace_param(2)] path_of_words(3) [OF w1]
      by (simp add: pathMatchesEndpoint_def)
  qed
  then have key: "?key = ''[gone-http]p:'' @ p"
    using the_mapping [of "ko (length names)" "names @ [x]" ?path "endpointMappings sr" m] assms(6,8)
    by (simp add: getParamKeyForPath_def sr' m_def)
  have "SimpleRouteNode ko wo sr' (path_of (names @ [x]))
      = simple_loop ko wo sr' (names @ [x]) 0 Map.empty 0 (Some 0) (names @ [x])"
    using t(3) sr' by (simp only: SimpleRouteNode_words [OF w2]) simp
  also have "\<dots> = simple_loop ko wo sr' (names @ [x]) (0 + length names) Map.empty q
      (if names = [] then Some 0 else Some q) [x]"
    by (rule simple_loop_names [OF wf' walk' st(1) root_not_star [OF wf']])
  also have "\<dots> = finish wo sr' (names @ [x]) q [?key \<mapsto> x] False"
    using n' x q0 t(3) sr' by (simp add: Let_def)
  finally show ?thesis
    using finish_unwraps [OF wf', of wo "names @ [x]" q "[?key \<mapsto> x]" False] n' key sr'_def
    by (intro exI [of _ sr']) (auto simp: GetID_def)
qed

text \<open>
  A wildcard below a group takes the rest of the path: when no child of the group fits, the
  remaining segments are joined again and stored under "*", and the wildcard's node is answered.
  Below the root (or an endpoint) it takes nothing: one unknown segment is not found there, even if
  "/*" was registered.
\<close>

theorem wildcard_scope:
  assumes "wf_simple sr" and "list_all static_part names" and "words (names @ s # rest)"
    and "walk (s_routes sr) 0 names = Some g" and "nodes (s_routes sr) g = Some n"
    and "n_resources n s = None" and "n_resources n ''*'' = Some w"
  shows "(n_type n = RouteTypeGroup \<longrightarrow>
      SimpleRouteNode ko wo sr (path_of (names @ s # rest))
        = Some (Some (Plain w), Some [''*'' \<mapsto> path_of (s # rest)], False))
    \<and> (names = [] \<and> rest = [] \<and> n_type n = RouteTypeRootEndPoint \<longrightarrow>
      SimpleRouteNode ko wo sr (path_of [s]) = Some (None, None, False))"
proof -
  have t: "wf_tree (s_routes sr)" "s_root sr = 0" using assms(1) by (auto simp: wf_simple_def)
  have "SimpleRouteNode ko wo sr (path_of (names @ s # rest))
      = simple_loop ko wo sr (names @ s # rest) 0 Map.empty 0 (Some 0) (names @ s # rest)"
    using t(2) by (simp only: SimpleRouteNode_words [OF assms(3)])
  also have "\<dots> = simple_loop ko wo sr (names @ s # rest) (0 + length names) Map.empty g
      (if names = [] then Some 0 else Some g) (s # rest)"
    by (rule simple_loop_names [OF t(1) assms(4,2) root_not_star [OF t(1)]])
  finally have eq: "SimpleRouteNode ko wo sr (path_of (names @ s # rest)) = \<dots>" .
  have "s \<noteq> []" using assms(3) by (auto simp: words_def plain_word_def)
  show ?thesis
  proof (intro conjI impI)
    assume "n_type n = RouteTypeGroup"
    then show "SimpleRouteNode ko wo sr (path_of (names @ s # rest))
        = Some (Some (Plain w), Some [''*'' \<mapsto> path_of (s # rest)], False)"
      unfolding eq using assms(5-7) by (subst simple_loop.simps(2)) (simp add: Let_def path_of_def)
  next
    assume r: "names = [] \<and> rest = [] \<and> n_type n = RouteTypeRootEndPoint"
    then have "g = 0" using assms(4) by simp
    with r show "SimpleRouteNode ko wo sr (path_of [s]) = Some (None, None, False)"
      using eq assms(5-7) t(2) \<open>s \<noteq> []\<close> by (simp add: Let_def snot_found_def)
  qed
qed

text \<open>
  Two patterns that name the same parameter differently make the name depend on chance: with
  "/users/{uid}" and "/users/:user_id/books" registered, the request "/users/5/books" stores the id
  under "p:uid" or under "user_id" according to the order in which Go ranges over the table.
\<close>

definition two_patterns :: "(string, string) simple_route" where
  "two_patterns = SetEndpoint ''users/:user_id/books'' (Some ''B'') []
     (SetEndpoint ''users/{uid}'' (Some ''U'') [] NewSimpleRoute)"

lemma two_patterns_parts:
  "trim_path ''users/{uid}'' = ''users/{uid}''"
  "trim_path ''users/:user_id/books'' = ''users/:user_id/books''"
  "trim_path ''/users/5/books'' = ''users/5/books''"
  "extractParamName ''users'' = []" "extractParamName ''books'' = []"
  "extractParamName ''{uid}'' = ''uid''" "extractParamName '':user_id'' = ''user_id''"
  "HasPrefix ''{uid}'' ''{''" "HasSuffix ''{uid}'' ''}''"
  "\<not> HasPrefix '':user_id'' ''{''" "HasSuffix ''user_id'' ''_id''" "\<not> HasSuffix ''uid'' ''_id''"
  "isParamPlaceholder ''{uid}''" "isParamPlaceholder '':user_id''" "\<not> isParamPlaceholder ''users''"
  "\<not> isParamPlaceholder ''books''"
  by (simp_all add: trim_path_def TrimLeft_def TrimRight_def extractParamName_def HasPrefix_def
      HasSuffix_def TrimPrefix_def TrimSuffix_def isParamPlaceholder_def)

lemma two_patterns_eval:
  "two_patterns = \<lparr>s_routes = \<lparr>nodes =
       [0 \<mapsto> \<lparr>n_parent = None, n_handler = None, n_name = [], n_acceptances = [],
              n_resources = [''users'' \<mapsto> 1], n_type = RouteTypeRootEndPoint\<rparr>,
        2 \<mapsto> \<lparr>n_parent = Some 1, n_handler = Some ''B'', n_name = ''books'', n_acceptances = [],
              n_resources = Map.empty, n_type = RouteTypeEndPoint\<rparr>,
        1 \<mapsto> \<lparr>n_parent = Some 0, n_handler = Some ''U'', n_name = ''users'', n_acceptances = [],
              n_resources = [''books'' \<mapsto> 2], n_type = RouteTypeEndPoint\<rparr>],
       n_fresh = 3, registered = [''U'', ''B'']\<rparr>,
     s_root = 0,
     endpointMappings =
       [(''users/{uid}'', \<lparr>nodeToParamName = [''users'' \<mapsto> ''uid''],
           nodeToParamUsePrefixedKey = (\<lambda>_. False)(''users'' := True)\<rparr>),
        (''users/:user_id/books'', \<lparr>nodeToParamName = [''users'' \<mapsto> ''user_id''],
           nodeToParamUsePrefixedKey = \<lambda>_. False\<rparr>)]\<rparr>"
  by (simp add: two_patterns_def SetEndpoint_def two_patterns_parts NewSimpleRoute_def note_param_def
      name_of_def upd_node_def grow_def new_node_def put_mapping_def no_mapping_def Let_def
      eval_nat_numeral)

lemma two_patterns_wf: "wf_tree (s_routes two_patterns)"
  by (auto simp: two_patterns_eval wf_tree_def wf_node_def split: if_splits)

theorem parameter_name_depends_on_map_order:
  "an_order (\<lambda>ms. ms) \<and> an_order rev
   \<and> (\<exists>w. SimpleRouteNode (\<lambda>_ ms. ms) (\<lambda>_ ms. ms) two_patterns ''/users/5/books''
        = Some (Some w, Some [''[gone-http]p:uid'' \<mapsto> ''5''], True))
   \<and> (\<exists>w. SimpleRouteNode (\<lambda>_. rev) (\<lambda>_. rev) two_patterns ''/users/5/books''
        = Some (Some w, Some [''[gone-http]user_id'' \<mapsto> ''5''], True))"
proof -
  let ?parts = "[''users'', ''5'', ''books'']"
  have u: "TrimLeft ''users/{uid}'' (CHR ''/'') = ''users/{uid}''"
    "TrimLeft ''users/:user_id/books'' (CHR ''/'') = ''users/:user_id/books''"
    by (simp_all add: TrimLeft_def)
  have "SimpleRouteNode (\<lambda>_ ms. ms) wo two_patterns ''/users/5/books''
      = finish wo two_patterns ?parts 2 [''[gone-http]p:uid'' \<mapsto> ''5''] True" for wo
    by (simp add: SimpleRouteNode_def two_patterns_parts two_patterns_eval Let_def
        getParamKeyForPath_def findBestMatchingMapping_def pathMatchesEndpoint_def u)
  moreover have "SimpleRouteNode (\<lambda>_. rev) wo two_patterns ''/users/5/books''
      = finish wo two_patterns ?parts 2 [''[gone-http]user_id'' \<mapsto> ''5''] True" for wo
    by (simp add: SimpleRouteNode_def two_patterns_parts two_patterns_eval Let_def
        getParamKeyForPath_def findBestMatchingMapping_def pathMatchesEndpoint_def u)
  ultimately show ?thesis
    using finish_unwraps [OF two_patterns_wf, of "\<lambda>_ ms. ms" ?parts 2 "[''[gone-http]p:uid'' \<mapsto> ''5'']" True]
      finish_unwraps [OF two_patterns_wf, of "\<lambda>_. rev" ?parts 2 "[''[gone-http]user_id'' \<mapsto> ''5'']" True]
    by (auto simp: an_order_def)
qed

text \<open>
  GetID of the task helper reads a colon parameter under its full name; GetID of an acceptance
  skips that key and reads the empty string.
\<close>

theorem acceptance_misses_colon_parameter:
  assumes "HasSuffix p ''_id''"
  shows "GetID p [''[gone-http]'' @ p \<mapsto> x] = x \<and> acceptance_GetID p [''[gone-http]'' @ p \<mapsto> x] = []"
proof -
  have "''[gone-http]p:'' @ p \<noteq> ''[gone-http]'' @ p"
    by (rule notI, drule arg_cong [of _ _ length]) simp
  moreover have "''[gone-http]'' @ p @ ''_id'' \<noteq> ''[gone-http]'' @ p"
    by (rule notI, drule arg_cong [of _ _ length]) simp
  ultimately show ?thesis by (simp add: GetID_def acceptance_GetID_def del: append_Cons)
qed

theorem acceptance_misses_colon_parameter_witness:
  "acceptance_GetID ''org_id'' [''[gone-http]org_id'' \<mapsto> ''7''] = []"
  using acceptance_misses_colon_parameter [of "''org_id''" "''7''"]
  by (simp add: HasSuffix_def HasPrefix_def)

section \<open>Concrete routers\<close>

lemma new_simple_wf: "wf_simple NewSimpleRoute"
  by (simp add: wf_simple_def wf_tree_def wf_node_def NewSimpleRoute_def)

lemma demo_words:
  "static_words [''a'', ''b'']" "static_words [''users'']" "plain_word (CHR ''/'') ''5''"
  by (simp_all add: static_words_def words_def plain_word_def static_part_def extractParamName_def HasPrefix_def)

theorem simple_route_stays_wf_witness:
  "wf_simple (SetEndpoint ''a/{b}/*'' (Some ''H'') [''acc''] NewSimpleRoute)"
  using simple_route_stays_wf [of NewSimpleRoute] by blast

theorem new_endpoint_found_witness:
  "\<exists>w n. SimpleRouteNode (\<lambda>_ ms. ms) (\<lambda>_ ms. ms)
      (SetEndpoint (path_of [''a'', ''b'']) (Some ''H'') [''acc''] NewSimpleRoute) (path_of [''a'', ''b''])
      = Some (Some w, Some Map.empty, True)
    \<and> nodes (s_routes (SetEndpoint (path_of [''a'', ''b'']) (Some ''H'') [''acc''] NewSimpleRoute)) (unwrap w) = Some n
    \<and> n_handler n = Some ''H''"
proof -
  have "walk (s_routes (NewSimpleRoute :: (string, string) simple_route)) 0 [''a'', ''b''] = None"
    by (simp add: NewSimpleRoute_def)
  from new_endpoint_found [OF new_simple_wf demo_words(1) this] show ?thesis by blast
qed

theorem existing_path_keeps_handler_witness:
  "nodes (s_routes (SetEndpoint (path_of [''users'']) (Some ''NEW'') [] two_patterns)) 1
     = Some \<lparr>n_parent = Some 0, n_handler = Some ''U'', n_name = ''users'', n_acceptances = [],
         n_resources = [''books'' \<mapsto> 2], n_type = RouteTypeEndPoint\<rparr>"
proof -
  have wf: "wf_simple two_patterns" using two_patterns_wf by (simp add: wf_simple_def two_patterns_eval)
  have "walk (s_routes two_patterns) 0 [''users''] = Some 1" by (simp add: two_patterns_eval)
  from existing_path_keeps_handler [OF wf demo_words(2) this] show ?thesis
    by (simp add: two_patterns_eval)
qed

theorem brace_parameter_roundtrip_witness:
  "\<exists>sr' w ps n. SetEndpoint (path_of ([''users''] @ [brace ''uid''])) (Some ''H'') [''acc''] NewSimpleRoute = sr'
    \<and> SimpleRouteNode (\<lambda>_ ms. ms) (\<lambda>_ ms. ms) sr' (path_of ([''users''] @ [''5''])) = Some (Some w, Some ps, False)
    \<and> nodes (s_routes sr') (unwrap w) = Some n \<and> n_handler n = Some ''H'' \<and> GetID ''uid'' ps = ''5''"
  by (rule brace_parameter_roundtrip [OF new_simple_wf demo_words(2,3)])
    (simp_all add: an_order_def NewSimpleRoute_def)

definition star_route :: "(string, string) simple_route" where
  "star_route = SetEndpoint ''s/*'' (Some ''W'') [] NewSimpleRoute"

lemma star_route_eval:
  "star_route = \<lparr>s_routes = \<lparr>nodes =
       [0 \<mapsto> \<lparr>n_parent = None, n_handler = None, n_name = [], n_acceptances = [],
              n_resources = [''s'' \<mapsto> 1], n_type = RouteTypeRootEndPoint\<rparr>,
        2 \<mapsto> \<lparr>n_parent = Some 1, n_handler = Some ''W'', n_name = ''*'', n_acceptances = [],
              n_resources = Map.empty, n_type = RouteTypeRecursiveEndPoint\<rparr>,
        1 \<mapsto> \<lparr>n_parent = Some 0, n_handler = None, n_name = ''s'', n_acceptances = [],
              n_resources = [''*'' \<mapsto> 2], n_type = RouteTypeGroup\<rparr>],
       n_fresh = 3, registered = []\<rparr>, s_root = 0, endpointMappings = []\<rparr>"
  by (simp add: star_route_def SetEndpoint_def trim_path_def TrimLeft_def TrimRight_def NewSimpleRoute_def
      extractParamName_def HasPrefix_def HasSuffix_def upd_node_def grow_def new_node_def Let_def
      eval_nat_numeral)

theorem wildcard_scope_witness:
  "SimpleRouteNode (\<lambda>_ ms. ms) (\<lambda>_ ms. ms) star_route (path_of [''s'', ''x'', ''y''])
     = Some (Some (Plain 2), Some [''*'' \<mapsto> path_of [''x'', ''y'']], False)"
proof -
  have wf: "wf_simple star_route"
    by (auto simp: star_route_eval wf_simple_def wf_tree_def wf_node_def split: if_splits)
  show ?thesis
    using wildcard_scope [OF wf, of "[''s'']" "''x''" "[''y'']" 1 _ 2]
    by (simp add: star_route_eval words_def plain_word_def static_part_def extractParamName_def HasPrefix_def)
qed

end
