(* ===== verification/Ghttp_Dispatch.thy ===== *)
theory Ghttp_Dispatch
  imports Ghttp_Range Ghttp_SimpleRoute
begin

text \<open>
  The dispatcher of \<open>ghttp/httpdispatchhandler.go\<close>: it finds the node of a request, asks the
  acceptances, calls the methods of the task, turns errors and panics into an answer and writes the
  response once, in the deferred functions that run in every case. Tasks and acceptances are arbitrary
  functions on the state they can change, and any of their calls can panic. The lemmas show in which
  order the calls come and what the client is sent on every path.
\<close>

section \<open>Parameters\<close>

text \<open>The values the dispatcher keeps in \<open>Params\<close>, a map from strings to anything.\<close>

datatype pvalue = PString string | PBool bool | PNode string | PDispatcher | PPack | PNanos int
  | PExtend "string \<rightharpoonup> string"

type_synonym dparams = "string \<rightharpoonup> pvalue"

text \<open>The readers; None is the panic of a failed type assertion.\<close>

fun as_string :: "pvalue \<Rightarrow> string option" where
  "as_string (PString s) = Some s"
| "as_string _ = None"

definition TaskGetID :: "string \<Rightarrow> dparams \<Rightarrow> string option" where
  "TaskGetID name ps =
     (case ps (''[gone-http]p:'' @ name) of Some v \<Rightarrow> as_string v
      | None \<Rightarrow> (case ps (''[gone-http]'' @ name) of Some v \<Rightarrow> as_string v
      | None \<Rightarrow> (case ps (''[gone-http]'' @ name @ ''_id'') of Some v \<Rightarrow> as_string v
      | None \<Rightarrow> Some [])))"

definition IsIndex :: "dparams \<Rightarrow> bool" where
  "IsIndex ps \<longleftrightarrow> ps ''[gone-http]is_index'' = Some (PBool True)"

definition acceptance_IsIndex :: "dparams \<Rightarrow> string option" where
  "acceptance_IsIndex ps = (case ps ''[gone-http]is_index'' of None \<Rightarrow> Some [] | Some v \<Rightarrow> as_string v)"

definition GetNodeName :: "dparams \<Rightarrow> string option" where
  "GetNodeName ps = (case ps ''[gone-http]node_name'' of None \<Rightarrow> Some [] | Some v \<Rightarrow> as_string v)"

definition LogExtend :: "string \<Rightarrow> string \<Rightarrow> dparams \<Rightarrow> dparams option" where
  "LogExtend key v ps = (case ps ''[gone-http]extend'' of
       None \<Rightarrow> Some (ps(''[gone-http]extend'' \<mapsto> PExtend [key \<mapsto> v]))
     | Some (PExtend m) \<Rightarrow> Some (ps(''[gone-http]extend'' \<mapsto> PExtend (m(key \<mapsto> v))))
     | Some _ \<Rightarrow> None)"

section \<open>Tasks and acceptances\<close>

text \<open>
  What a call answers: a value, or a panic with an error response, a caught panic or anything else.
\<close>

datatype hpanic = ThrowError err_ref | ThrowCaught string | ThrowOther string

datatype 'r ret = Return 'r | Throw hpanic

text \<open>What tasks and acceptances can change.\<close>

record ('b, 'x) core =
  c_req :: "'b request"
  c_resp :: "'b response"
  c_params :: dparams
  c_heap :: err_heap
  c_separate :: bool
  c_user :: 'x

datatype task_call = TPreCheck | TBefore | TIndex | TGet | TCreate | TPost | TPut | TDelete | TOptions
  | TPatch | TTrace | TConnect | TAfter

record ('b, 'x) task =
  t_call :: "task_call \<Rightarrow> ('b, 'x) core \<Rightarrow> ('b, 'x) core \<times> err_ref option ret"
  t_CORSHelper :: "('b, 'x) core \<Rightarrow> ('b, 'x) core \<times> unit ret"
  t_ErrorCaught :: "err_ref \<Rightarrow> hpanic option \<Rightarrow> ('b, 'x) core \<Rightarrow> ('b, 'x) core \<times> string option ret"
  t_autoRange :: bool
  t_skipPreCheck :: bool

text \<open>An acceptance passes, interrupts, or fails with an error that may be an error response.\<close>

datatype acc_result = AccPass | AccInterrupt | AccError "err_ref option"

record ('b, 'x) acceptance =
  a_skipOptions :: bool
  a_Do :: "('b, 'x) core \<Rightarrow> ('b, 'x) core \<times> acc_result ret"

text \<open>The node a route answers; the task is None when it is nil or not an \<open>HttpHandlerTask\<close>.\<close>

record ('b, 'x) found_node =
  f_type :: route_type
  f_name :: string
  f_task :: "('b, 'x) task option"
  f_acceptances :: "('b, 'x) acceptance list"
  f_params :: "params option"
  f_last :: bool

record session_conf =
  SessionKey :: string
  SessionExpireTime :: int
  SessionDomain :: string
  SessionHttpOnly :: bool
  SessionSecure :: bool

text \<open>
  The dispatcher with what it uses: the route, the table of status responses, the predefined errors,
  the clock (\<open>elapsed\<close> is the number kept under each timing key, \<open>now\<close> the Unix time) and the
  functions of the package hash.
\<close>

record ('b, 'x) dispatcher =
  d_ops :: "'b bytebuf_ops"
  d_json :: "err_obj \<times> data_map \<Rightarrow> string option"
  d_route :: "string \<Rightarrow> ('b, 'x) found_node option"
  DefaultStatusCode :: int
  DefaultStatusResponse :: "int \<rightharpoonup> (('b, 'x) core \<Rightarrow> ('b, 'x) core \<times> unit ret)"
  d_NotImplemented :: err_ref
  d_ServerErrorPanic :: err_ref
  d_elapsed :: "string \<Rightarrow> int"
  d_now :: int
  d_TimestampOfTimeHash :: "string \<Rightarrow> int"
  d_TimeHash :: "string \<Rightarrow> int \<Rightarrow> string"
  d_sessionId :: "session_ref \<Rightarrow> string"
  d_session :: session_conf

text \<open>
  A run of the dispatcher: the state, and the calls it has made, in order. \<open>CallWrite\<close> holds the
  response as it is handed to \<open>ctx.Write\<close>.
\<close>

datatype 'b dcall = CallAcceptance nat | CallTask task_call | CallCORS
  | CallErrorCaught err_ref "hpanic option" | CallSave session_ref | CallFireRead | CallWrite "'b response"

record ('b, 'x) run_state =
  core :: "('b, 'x) core"
  calls :: "'b dcall list"

definition noting :: "'b dcall \<Rightarrow> ('b, 'x) run_state \<Rightarrow> ('b, 'x) run_state" where
  "noting c s = s\<lparr>calls := calls s @ [c]\<rparr>"

definition upd_core :: "(('b, 'x) core \<Rightarrow> ('b, 'x) core) \<Rightarrow> ('b, 'x) run_state \<Rightarrow> ('b, 'x) run_state" where
  "upd_core f s = s\<lparr>core := f (core s)\<rparr>"

definition upd_resp :: "('b response \<Rightarrow> 'b response) \<Rightarrow> ('b, 'x) run_state \<Rightarrow> ('b, 'x) run_state" where
  "upd_resp f = upd_core (\<lambda>c. c\<lparr>c_resp := f (c_resp c)\<rparr>)"

definition set_param :: "string \<Rightarrow> pvalue \<Rightarrow> ('b, 'x) run_state \<Rightarrow> ('b, 'x) run_state" where
  "set_param k v = upd_core (\<lambda>c. c\<lparr>c_params := (c_params c)(k \<mapsto> v)\<rparr>)"

definition timing :: "('b, 'x) dispatcher \<Rightarrow> string \<Rightarrow> ('b, 'x) run_state \<Rightarrow> ('b, 'x) run_state" where
  "timing h k = set_param k (PNanos (d_elapsed h k))"

text \<open>A call of a function of the task, noted.\<close>

definition call_with ::
  "'b dcall \<Rightarrow> (('b, 'x) core \<Rightarrow> ('b, 'x) core \<times> 'r) \<Rightarrow> ('b, 'x) run_state \<Rightarrow> ('b, 'x) run_state \<times> 'r" where
  "call_with c f s = (let (k, r) = f (core s) in ((noting c s)\<lparr>core := k\<rparr>, r))"

definition call_task ::
  "('b, 'x) task \<Rightarrow> task_call \<Rightarrow> ('b, 'x) run_state \<Rightarrow> ('b, 'x) run_state \<times> err_ref option ret" where
  "call_task t c = call_with (CallTask c) (t_call t c)"

section \<open>Acceptances\<close>

text \<open>\<open>response.ResponseError(cast)\<close>; a nil error panics.\<close>

definition respond_error ::
  "('b, 'x) dispatcher \<Rightarrow> err_ref \<Rightarrow> ('b, 'x) core \<Rightarrow> ('b, 'x) core \<times> unit ret" where
  "respond_error h er c = (case ResponseError (d_ops h) (d_json h) (c_req c) er (c_resp c, c_heap c) of
       None \<Rightarrow> (c, Throw (ThrowOther ''nil pointer''))
     | Some (r, hp) \<Rightarrow> (c\<lparr>c_resp := r, c_heap := hp\<rparr>, Return ()))"

definition req_method :: "('b, 'x) run_state \<Rightarrow> string" where
  "req_method s = r_method (c_req (core s))"

text \<open>The loop over the acceptances; the answer says whether all passed.\<close>

fun run_acceptances ::
  "('b, 'x) dispatcher \<Rightarrow> nat \<Rightarrow> ('b, 'x) acceptance list \<Rightarrow> ('b, 'x) run_state
     \<Rightarrow> ('b, 'x) run_state \<times> bool ret" where
  "run_acceptances h i [] s = (s, Return True)"
| "run_acceptances h i (a # as) s =
     (if req_method s = ''OPTIONS'' \<and> a_skipOptions a then run_acceptances h (Suc i) as s
      else (case call_with (CallAcceptance i) (a_Do a) s of
          (s1, Throw p) \<Rightarrow> (s1, Throw p)
        | (s1, Return AccPass) \<Rightarrow> run_acceptances h (Suc i) as s1
        | (s1, Return AccInterrupt) \<Rightarrow> (s1, Return False)
        | (s1, Return (AccError e)) \<Rightarrow>
            (let s2 = timing h ''[gone-http]h_acceptance_time'' s1 in
             (case e of
                None \<Rightarrow> (s2, Return False)
              | Some er \<Rightarrow>
                  if statusCode (c_resp (core s2)) = 0
                  then (case respond_error h er (core s2) of
                      (k, Throw p) \<Rightarrow> (s2\<lparr>core := k\<rparr>, Throw p)
                    | (k, Return _) \<Rightarrow> (s2\<lparr>core := k\<rparr>, Return False))
                  else (s2, Return False)))))"

section \<open>The task's methods\<close>

text \<open>Calls one after the other, until one answers an error or panics.\<close>

definition seq_ret ::
  "('b, 'x) run_state \<times> err_ref option ret
     \<Rightarrow> (('b, 'x) run_state \<Rightarrow> ('b, 'x) run_state \<times> err_ref option ret)
     \<Rightarrow> ('b, 'x) run_state \<times> err_ref option ret" where
  "seq_ret m f = (case m of (s, Return None) \<Rightarrow> f s | _ \<Rightarrow> m)"

text \<open>\<open>Index\<close> before \<open>Get\<close>, \<open>Create\<close> before \<open>Post\<close>: the second when the first is not implemented.\<close>

definition first_or ::
  "('b, 'x) dispatcher \<Rightarrow> ('b, 'x) task \<Rightarrow> bool \<Rightarrow> task_call \<Rightarrow> task_call \<Rightarrow> ('b, 'x) run_state
     \<Rightarrow> ('b, 'x) run_state \<times> err_ref option ret" where
  "first_or h t isLast c1 c2 s =
     (if isLast then (case call_task t c1 s of
          (s1, Return (Some e)) \<Rightarrow> if e = d_NotImplemented h then call_task t c2 s1 else (s1, Return (Some e))
        | other \<Rightarrow> other)
      else call_task t c2 s)"

definition match_method ::
  "('b, 'x) dispatcher \<Rightarrow> ('b, 'x) task \<Rightarrow> bool \<Rightarrow> ('b, 'x) run_state
     \<Rightarrow> ('b, 'x) run_state \<times> err_ref option ret" where
  "match_method h t isLast s =
     (if req_method s = ''GET'' then first_or h t isLast TIndex TGet s
      else if req_method s = ''POST'' then first_or h t isLast TCreate TPost s
      else if req_method s = ''PUT'' then call_task t TPut s
      else if req_method s = ''DELETE'' then call_task t TDelete s
      else if req_method s = ''OPTIONS'' then call_task t TOptions s
      else if req_method s = ''PATCH'' then call_task t TPatch s
      else if req_method s = ''TRACE'' then call_task t TTrace s
      else if req_method s = ''CONNECT'' then call_task t TConnect s
      else (s, Return None))"

definition auto_range ::
  "('b, 'x) dispatcher \<Rightarrow> ('b, 'x) task \<Rightarrow> ('b, 'x) run_state \<Rightarrow> ('b, 'x) run_state \<times> err_ref option ret"
  where
  "auto_range h t s = (case handleAutoRange (d_ops h) (t_autoRange t) (c_req (core s)) (c_resp (core s)) of
       None \<Rightarrow> (s, Throw (ThrowOther ''slice bounds''))
     | Some r \<Rightarrow> (upd_resp (\<lambda>_. r) s, Return None))"

definition invokeMethod ::
  "('b, 'x) dispatcher \<Rightarrow> ('b, 'x) task \<Rightarrow> bool \<Rightarrow> ('b, 'x) run_state
     \<Rightarrow> ('b, 'x) run_state \<times> err_ref option ret" where
  "invokeMethod h t isLast s =
     seq_ret (if t_skipPreCheck t \<and> req_method s = ''OPTIONS'' then (s, Return None) else call_task t TPreCheck s)
       (\<lambda>s1. seq_ret (call_task t TBefore s1)
       (\<lambda>s2. seq_ret (match_method h t isLast s2)
       (\<lambda>s3. seq_ret (auto_range h t s3) (call_task t TAfter))))"

section \<open>The deferred functions\<close>

definition update_cookie :: "('b, 'x) dispatcher \<Rightarrow> session_ref \<Rightarrow> cookie" where
  "update_cookie h sid = (let c = d_session h in
     \<lparr>ck_name = SessionKey c,
      ck_value = d_TimeHash h (d_sessionId h sid) (d_now h + SessionExpireTime c),
      ck_path = ''/'', ck_maxage = SessionExpireTime c, ck_domain = SessionDomain c,
      ck_httponly = SessionHttpOnly c, ck_secure = SessionSecure c\<rparr>)"

text \<open>
  \<open>_UpdateSessionCookie\<close>: a new cookie when the request had none or it is close to its end, and the
  session is saved.
\<close>

definition UpdateSessionCookie :: "('b, 'x) dispatcher \<Rightarrow> ('b, 'x) run_state \<Rightarrow> ('b, 'x) run_state" where
  "UpdateSessionCookie h s = (case r_session (c_req (core s)) of
       None \<Rightarrow> s
     | Some sid \<Rightarrow>
        let renew = (case r_cookies (c_req (core s)) (SessionKey (d_session h)) of
              None \<Rightarrow> True
            | Some v \<Rightarrow> d_TimestampOfTimeHash h v < d_now h + SessionExpireTime (d_session h) div 10)
        in noting (CallSave sid) (if renew then upd_resp (SetCookie (update_cookie h sid)) s else s))"

definition defaultNotFound404 :: "'b bytebuf_ops \<Rightarrow> 'b response \<Rightarrow> 'b response" where
  "defaultNotFound404 ops r = SetBody (NewByteBuf ops
     (bytes_of (''<html><img src='' @ [CHR 0x27] @ ''https://http.cat/404'' @ [CHR 0x27] @ '' /></html>'')))
     (SetStatusCode 404 r)"

text \<open>The default response of a status, when the body is empty; a nil body panics.\<close>

definition fill_response :: "('b, 'x) dispatcher \<Rightarrow> ('b, 'x) core \<Rightarrow> ('b, 'x) core \<times> unit ret" where
  "fill_response h c =
     (let st = statusCode (c_resp c);
          empty = map_option (\<lambda>b. ReadableBytes (d_ops h) b = 0) (body (c_resp c)) in
      (case DefaultStatusResponse h st of
         Some ff \<Rightarrow> (case empty of None \<Rightarrow> (c, Throw (ThrowOther ''nil pointer''))
            | Some True \<Rightarrow> ff c | Some False \<Rightarrow> (c, Return ()))
       | None \<Rightarrow> if st = 404 then (case empty of None \<Rightarrow> (c, Throw (ThrowOther ''nil pointer''))
              | Some True \<Rightarrow> (c\<lparr>c_resp := defaultNotFound404 (d_ops h) (c_resp c)\<rparr>, Return ())
              | Some False \<Rightarrow> (c, Return ()))
            else (c, Return ())))"

definition default_status :: "('b, 'x) dispatcher \<Rightarrow> ('b, 'x) core \<Rightarrow> ('b, 'x) core" where
  "default_status h c = (if statusCode (c_resp c) = 0
     then c\<lparr>c_resp := SetStatusCode (DefaultStatusCode h) (c_resp c)\<rparr> else c)"

definition callWrite :: "('b, 'x) dispatcher \<Rightarrow> ('b, 'x) run_state \<Rightarrow> ('b, 'x) run_state \<times> unit ret" where
  "callWrite h s =
     (if c_separate (core s) then (s, Return ())
      else (case fill_response h (core s) of
          (c, Throw p) \<Rightarrow> (s\<lparr>core := c\<rparr>, Throw p)
        | (c, Return _) \<Rightarrow> let c' = default_status h c in
            (noting (CallWrite (c_resp c')) (s\<lparr>core := c'\<rparr>), Return ())))"

text \<open>
  \<open>_PanicCatch\<close> recovers the panic \<open>p\<close>, if there is one, and hands the error, stamped, to the task.
\<close>

definition PanicCatch ::
  "('b, 'x) dispatcher \<Rightarrow> ('b, 'x) task \<Rightarrow> err_ref option \<Rightarrow> hpanic option \<Rightarrow> ('b, 'x) run_state
     \<Rightarrow> ('b, 'x) run_state \<times> unit ret" where
  "PanicCatch h t rtn p s =
     (let erErr = (case p of None \<Rightarrow> rtn
             | Some (ThrowError r) \<Rightarrow> Some r
             | Some _ \<Rightarrow> Some (d_ServerErrorPanic h)) in
      (case erErr of
         None \<Rightarrow> (s, Return ())
       | Some r \<Rightarrow>
          (case stamped r (r_channelID (c_req (core s))) (trackID (c_req (core s))) (c_heap (core s)) of
             None \<Rightarrow> (s, Throw (ThrowOther ''nil pointer''))
           | Some (c, hp) \<Rightarrow>
              (case call_with (CallErrorCaught c p) (t_ErrorCaught t c p) (upd_core (\<lambda>k. k\<lparr>c_heap := hp\<rparr>) s) of
                 (s1, Throw q) \<Rightarrow> (s1, Throw q)
               | (s1, Return _) \<Rightarrow> (timing h ''[gone-http]h_error_time'' s1, Return ())))))"

text \<open>
  A deferred function that does not recover: it runs in any case, and its own panic replaces the one
  on its way.
\<close>

definition deferred ::
  "('s \<Rightarrow> 's \<times> unit ret) \<Rightarrow> 's \<times> hpanic option \<Rightarrow> 's \<times> hpanic option" where
  "deferred f m = (case f (fst m) of
       (s, Throw p) \<Rightarrow> (s, Some p)
     | (s, Return _) \<Rightarrow> (s, snd m))"

section \<open>Dispatching\<close>

definition locate ::
  "('b, 'x) dispatcher \<Rightarrow> ('b, 'x) found_node \<Rightarrow> ('b, 'x) run_state \<Rightarrow> ('b, 'x) run_state" where
  "locate h n s = upd_core (\<lambda>c. c\<lparr>c_params := (c_params c)(
       ''[gone-http]h_locate_time'' \<mapsto> PNanos (d_elapsed h ''[gone-http]h_locate_time''),
       ''[gone-http]node'' \<mapsto> PNode (f_name n),
       ''[gone-http]node_name'' \<mapsto> PString (f_name n),
       ''[gone-http]is_index'' \<mapsto> PBool (f_last n),
       ''[gone-http]dispatcher'' \<mapsto> PDispatcher,
       ''[gone-http]context_pack'' \<mapsto> PPack)
       ++ (case f_params n of None \<Rightarrow> Map.empty | Some ps \<Rightarrow> map_option PString \<circ> ps)\<rparr>) s"

text \<open>The body of \<open>Read\<close> for a task: the error it returned, or the panic that left it.\<close>

definition serve ::
  "('b, 'x) dispatcher \<Rightarrow> ('b, 'x) task \<Rightarrow> ('b, 'x) found_node \<Rightarrow> ('b, 'x) run_state
     \<Rightarrow> ('b, 'x) run_state \<times> err_ref option ret" where
  "serve h t n s = (case run_acceptances h 0 (f_acceptances n) s of
       (s1, Throw p) \<Rightarrow> (s1, Throw p)
     | (s1, Return False) \<Rightarrow> (s1, Return None)
     | (s1, Return True) \<Rightarrow>
         (case invokeMethod h t (f_last n) (timing h ''[gone-http]h_acceptance_time'' s1) of
            (s2, Throw p) \<Rightarrow> (s2, Throw p)
          | (s2, Return e) \<Rightarrow> (timing h ''[gone-http]handler_time'' s2, Return e)))"

definition final_steps ::
  "('b, 'x) dispatcher \<Rightarrow> ('b, 'x) run_state \<times> hpanic option \<Rightarrow> ('b, 'x) run_state \<times> hpanic option" where
  "final_steps h m = deferred (callWrite h) (deferred (\<lambda>s. (UpdateSessionCookie h s, Return ())) m)"

definition serve_task ::
  "('b, 'x) dispatcher \<Rightarrow> ('b, 'x) task \<Rightarrow> ('b, 'x) found_node \<Rightarrow> ('b, 'x) run_state
     \<Rightarrow> ('b, 'x) run_state \<times> hpanic option" where
  "serve_task h t n s =
     (let (s1, r) = serve h t n s;
          (s2, p) = deferred (call_with CallCORS (t_CORSHelper t))
                      (s1, case r of Throw q \<Rightarrow> Some q | Return _ \<Rightarrow> None);
          (s3, q) = PanicCatch h t (case r of Return e \<Rightarrow> e | Throw _ \<Rightarrow> None) p s2
      in final_steps h (s3, case q of Throw x \<Rightarrow> Some x | Return _ \<Rightarrow> None))"

text \<open>No node, or a group: 404, keeping the headers of an upgrade.\<close>

definition copy_header :: "string \<Rightarrow> ('b, 'x) run_state \<Rightarrow> ('b, 'x) run_state" where
  "copy_header k s = (let v = header_get k (r_header (c_req (core s))) in
     if v = [] then s else upd_resp (SetHeader k v) s)"

definition serve_nothing :: "('b, 'x) dispatcher \<Rightarrow> ('b, 'x) run_state \<Rightarrow> ('b, 'x) run_state \<times> hpanic option" where
  "serve_nothing h s = final_steps h (upd_resp (SetStatusCode 404)
     (copy_header ''connection'' (copy_header ''upgrade'' (timing h ''[gone-http]h_locate_time'' s))), None)"

text \<open>\<open>DispatchHandler.Read\<close> of a pack, and the panic that leaves it, if any.\<close>

definition DispatchRead ::
  "('b, 'x) dispatcher \<Rightarrow> ('b, 'x) run_state \<Rightarrow> ('b, 'x) run_state \<times> hpanic option" where
  "DispatchRead h s = (case d_route h (r_path (c_req (core s))) of
       None \<Rightarrow> serve_nothing h s
     | Some n \<Rightarrow> if f_type n = RouteTypeGroup then serve_nothing h s
         else let s1 = locate h n s in
           (case f_task n of
              None \<Rightarrow> (noting CallFireRead s1, None)
            | Some t \<Rightarrow> serve_task h t n s1))"

section \<open>The trace of a run\<close>

lemma calls_upd [simp]: "calls (upd_core f s) = calls s" "calls (upd_resp g s) = calls s"
    "calls (set_param k v s) = calls s" "calls (timing h k s) = calls s" "calls (noting c s) = calls s @ [c]"
    "core (noting c s) = core s" "core (upd_core f s) = f (core s)"
  by (simp_all add: upd_core_def upd_resp_def set_param_def timing_def noting_def)

lemma call_with_calls: "call_with c f s = (s', r) \<Longrightarrow> calls s' = calls s @ [c]"
  by (auto simp: call_with_def noting_def split: prod.splits)

lemma call_task_calls: "call_task t c s = (s', r) \<Longrightarrow> calls s' = calls s @ [CallTask c]"
  unfolding call_task_def by (rule call_with_calls)

definition grows :: "('b dcall \<Rightarrow> bool) \<Rightarrow> ('b, 'x) run_state \<Rightarrow> ('b, 'x) run_state \<Rightarrow> bool" where
  "grows P s s' \<longleftrightarrow> (\<exists>cs. calls s' = calls s @ cs \<and> list_all P cs)"

definition is_acceptance :: "'b dcall \<Rightarrow> bool" where
  "is_acceptance c \<longleftrightarrow> (\<exists>i. c = CallAcceptance i)"

definition is_task :: "'b dcall \<Rightarrow> bool" where
  "is_task c \<longleftrightarrow> (\<exists>m. c = CallTask m)"

lemma grows_refl [simp]: "calls s' = calls s \<Longrightarrow> grows P s s'"
  by (simp add: grows_def)

lemma grows_trans: "grows P s s' \<Longrightarrow> grows P s' s'' \<Longrightarrow> grows P s s''"
  by (auto simp: grows_def)

lemma grows_same: "grows P s s' \<Longrightarrow> calls s'' = calls s' \<Longrightarrow> grows P s s''"
  by (simp add: grows_def)

lemma grows_call_task: "call_task t c s = (s', r) \<Longrightarrow> grows is_task s s'"
  using call_task_calls [of t c s s' r] by (simp add: grows_def is_task_def)

lemma run_acceptances_grows: "run_acceptances h i as s = (s', r) \<Longrightarrow> grows is_acceptance s s'"
proof (induction as arbitrary: i s)
  case (Cons a as)
  show ?case
  proof (cases "req_method s = ''OPTIONS'' \<and> a_skipOptions a")
    case False
    obtain s1 o1 where one: "call_with (CallAcceptance i) (a_Do a) s = (s1, o1)"
      by (cases "call_with (CallAcceptance i) (a_Do a) s")
    have g: "grows is_acceptance s s1"
      using call_with_calls [OF one] by (simp add: grows_def is_acceptance_def)
    have "grows is_acceptance s1 s'"
      using Cons.prems False one Cons.IH [of "Suc i" s1]
      by (auto simp: Let_def split: ret.splits acc_result.splits option.splits if_splits prod.splits)
    with g show ?thesis by (rule grows_trans)
  qed (use Cons in auto)
qed simp

lemma grows_seq_ret:
  assumes "seq_ret m f = (s', r)" and "\<And>s1 r1. m = (s1, r1) \<Longrightarrow> grows P s s1"
    and "\<And>s1 s2 r2. f s1 = (s2, r2) \<Longrightarrow> grows P s1 s2"
  shows "grows P s s'"
proof -
  obtain s1 r1 where m: "m = (s1, r1)" by (cases m)
  show ?thesis
  proof (cases "r1 = Return None")
    case True
    with assms(1) m have "f s1 = (s', r)" by (simp add: seq_ret_def)
    with assms(2) [OF m] assms(3) show ?thesis by (blast intro: grows_trans)
  next
    case False
    with assms(1) m have "s' = s1" by (auto simp: seq_ret_def split: ret.splits option.splits)
    with assms(2) [OF m] show ?thesis by simp
  qed
qed

lemma first_or_grows: "first_or h t l c1 c2 s = (s', r) \<Longrightarrow> grows is_task s s'"
  by (auto simp: first_or_def split: prod.splits ret.splits option.splits if_splits
      intro: grows_call_task grows_trans)

lemma match_method_grows: "match_method h t l s = (s', r) \<Longrightarrow> grows is_task s s'"
  by (auto simp: match_method_def split: if_splits intro: first_or_grows grows_call_task)

lemma auto_range_grows: "auto_range h t s = (s', r) \<Longrightarrow> grows P s s'"
  by (auto simp: auto_range_def split: option.splits)

lemma invokeMethod_grows:
  assumes "invokeMethod h t l s = (s', r)"
  shows "grows is_task s s'"
  using assms unfolding invokeMethod_def
  by (elim grows_seq_ret)
    (auto intro: grows_call_task match_method_grows auto_range_grows split: if_splits)

lemma serve_grows:
  assumes "serve h t n s = (s', r)"
  shows "grows (\<lambda>c. is_acceptance c \<or> is_task c) s s'"
proof -
  have weaken: "grows P s1 s2 \<Longrightarrow> (\<And>c. P c \<Longrightarrow> Q c) \<Longrightarrow> grows Q s1 s2"
    for P Q and s1 s2 :: "('a, 'b) run_state"
    by (auto simp: grows_def list_all_iff)
  obtain s1 o1 where a: "run_acceptances h 0 (f_acceptances n) s = (s1, o1)"
    by (cases "run_acceptances h 0 (f_acceptances n) s")
  have g1: "grows (\<lambda>c. is_acceptance c \<or> is_task c) s s1"
    by (rule weaken [OF run_acceptances_grows [OF a]]) simp
  obtain s2 o2 where i: "invokeMethod h t (f_last n) (timing h ''[gone-http]h_acceptance_time'' s1) = (s2, o2)"
    by (cases "invokeMethod h t (f_last n) (timing h ''[gone-http]h_acceptance_time'' s1)")
  have g2: "grows (\<lambda>c. is_acceptance c \<or> is_task c) s1 s2"
    using weaken [OF invokeMethod_grows [OF i], of "\<lambda>c. is_acceptance c \<or> is_task c"]
    by (simp add: grows_def)
  show ?thesis
    using assms a i g1 grows_trans [OF g1 g2]
    by (auto simp: serve_def split: ret.splits bool.splits intro: grows_same)
qed

section \<open>The deferred functions\<close>

lemma deferred_state: "fst (deferred f m) = fst (f (fst m))"
  by (auto simp: deferred_def split: prod.splits ret.splits)

lemma UpdateSessionCookie_calls:
  "\<exists>sv. calls (UpdateSessionCookie h s) = calls s @ sv \<and> length sv \<le> 1 \<and> (\<forall>c \<in> set sv. \<exists>r. c = CallSave r)"
  by (auto simp: UpdateSessionCookie_def Let_def split: option.splits)

lemma PanicCatch_calls:
  assumes "PanicCatch h t rtn p s = (s', r)"
  shows "\<exists>ec. calls s' = calls s @ ec \<and> length ec \<le> 1 \<and> (\<forall>c \<in> set ec. \<exists>e q. c = CallErrorCaught e q)"
proof -
  have "calls s' = calls s \<or> (\<exists>c. calls s' = calls s @ [CallErrorCaught c p])"
    using assms unfolding PanicCatch_def Let_def
    by (auto split: option.splits prod.splits ret.splits hpanic.splits dest!: call_with_calls)
  then show ?thesis by auto
qed

lemma callWrite_calls:
  assumes "DefaultStatusResponse h = Map.empty" and "callWrite h s = (s', r)"
  shows "(calls s' = calls s \<and> (c_separate (core s') \<or> body (c_resp (core s')) = None))
    \<or> (calls s' = calls s @ [CallWrite (c_resp (core s'))]
        \<and> (statusCode (c_resp (core s')) = 0 \<longrightarrow> DefaultStatusCode h = 0))"
  using assms
  by (auto simp: callWrite_def fill_response_def default_status_def noting_def defaultNotFound404_def
      SetStatusCode_def SetBody_def Let_def split: option.splits if_splits bool.splits)

lemma final_steps_calls:
  assumes "DefaultStatusResponse h = Map.empty" and "final_steps h (s, q) = (s', p)"
  shows "\<exists>sv wr. calls s' = calls s @ sv @ wr
    \<and> length sv \<le> 1 \<and> (\<forall>c \<in> set sv. \<exists>r. c = CallSave r)
    \<and> ((wr = [] \<and> (c_separate (core s') \<or> body (c_resp (core s')) = None))
       \<or> (wr = [CallWrite (c_resp (core s'))] \<and> (statusCode (c_resp (core s')) = 0 \<longrightarrow> DefaultStatusCode h = 0)))"
proof -
  obtain s2 r2 where w: "callWrite h (UpdateSessionCookie h s) = (s2, r2)"
    by (cases "callWrite h (UpdateSessionCookie h s)")
  have s': "s' = s2"
    using assms(2) w by (auto simp: final_steps_def deferred_def split: ret.splits)
  obtain sv where "calls (UpdateSessionCookie h s) = calls s @ sv" "length sv \<le> 1"
      "\<forall>c \<in> set sv. \<exists>r. c = CallSave r"
    using UpdateSessionCookie_calls [of h s] by blast
  moreover have "\<exists>wr. calls s2 = calls (UpdateSessionCookie h s) @ wr
    \<and> ((wr = [] \<and> (c_separate (core s2) \<or> body (c_resp (core s2)) = None))
       \<or> (wr = [CallWrite (c_resp (core s2))] \<and> (statusCode (c_resp (core s2)) = 0 \<longrightarrow> DefaultStatusCode h = 0)))"
    using callWrite_calls [OF assms(1) w] by auto
  ultimately show ?thesis unfolding s' by (metis append.assoc)
qed

text \<open>The calls of a whole run, whatever acceptances, task and CORSHelper do.\<close>

lemma dispatch_calls:
  assumes "DefaultStatusResponse h = Map.empty" and "d_route h (r_path (c_req (core s))) = Some n"
    and "f_type n \<noteq> RouteTypeGroup" and "f_task n = Some t" and "DispatchRead h s = (s', p)"
  shows "\<exists>pre ec sv wr. calls s' = calls s @ pre @ [CallCORS] @ ec @ sv @ wr
    \<and> list_all (\<lambda>c. is_acceptance c \<or> is_task c) pre
    \<and> length ec \<le> 1 \<and> (\<forall>c \<in> set ec. \<exists>e q. c = CallErrorCaught e q)
    \<and> length sv \<le> 1 \<and> (\<forall>c \<in> set sv. \<exists>r. c = CallSave r)
    \<and> ((wr = [] \<and> (c_separate (core s') \<or> body (c_resp (core s')) = None))
       \<or> (wr = [CallWrite (c_resp (core s'))] \<and> (statusCode (c_resp (core s')) = 0 \<longrightarrow> DefaultStatusCode h = 0)))"
proof -
  define s0 where "s0 = locate h n s"
  have s0: "calls s0 = calls s" by (simp add: s0_def locate_def)
  obtain s1 r where sv: "serve h t n s0 = (s1, r)" by (cases "serve h t n s0")
  obtain pre where pre: "calls s1 = calls s @ pre" "list_all (\<lambda>c. is_acceptance c \<or> is_task c) pre"
    using serve_grows [OF sv] s0 by (auto simp: grows_def)
  define pc where "pc = (case r of Throw q \<Rightarrow> Some q | Return _ \<Rightarrow> None)"
  obtain s2 p2 where cors: "deferred (call_with CallCORS (t_CORSHelper t)) (s1, pc) = (s2, p2)"
    by (cases "deferred (call_with CallCORS (t_CORSHelper t)) (s1, pc)")
  have "s2 = fst (call_with CallCORS (t_CORSHelper t) s1)"
    using cors deferred_state [of "call_with CallCORS (t_CORSHelper t)" "(s1, pc)"] by simp
  then have c2: "calls s2 = calls s1 @ [CallCORS]"
    using call_with_calls [of CallCORS "t_CORSHelper t" s1] by (metis prod.collapse)
  define rtn where "rtn = (case r of Return e \<Rightarrow> e | Throw _ \<Rightarrow> None)"
  obtain s3 q where catch: "PanicCatch h t rtn p2 s2 = (s3, q)" by (cases "PanicCatch h t rtn p2 s2")
  obtain ec where ec: "calls s3 = calls s2 @ ec" "length ec \<le> 1"
      "\<forall>c \<in> set ec. \<exists>e q. c = CallErrorCaught e q"
    using PanicCatch_calls [OF catch] by blast
  have "final_steps h (s3, case q of Throw x \<Rightarrow> Some x | Return _ \<Rightarrow> None) = (s', p)"
    using assms(2-5) sv cors catch
    by (simp add: DispatchRead_def serve_task_def s0_def [symmetric] pc_def rtn_def)
  from final_steps_calls [OF assms(1) this] obtain sv wr where
    "calls s' = calls s3 @ sv @ wr" "length sv \<le> 1" "\<forall>c \<in> set sv. \<exists>r. c = CallSave r"
    "(wr = [] \<and> (c_separate (core s') \<or> body (c_resp (core s')) = None))
       \<or> (wr = [CallWrite (c_resp (core s'))] \<and> (statusCode (c_resp (core s')) = 0 \<longrightarrow> DefaultStatusCode h = 0))"
    by blast
  with pre c2 ec show ?thesis by (intro exI [of _ pre] exI [of _ ec] exI [of _ sv] exI [of _ wr]) simp
qed

text \<open>
  C3. Every request that reaches a task is answered exactly once, and last, whatever the acceptances,
  the task and CORSHelper do, panics included: the acceptances and the methods come first, then
  CORSHelper, then ErrorCaught at most once, then the session is saved at most once, and at the end the
  response is written as it then is; only separate mode and a nil body of a 404 leave the write out.
\<close>

theorem dispatch_answers_once:
  assumes "DefaultStatusResponse h = Map.empty" and "d_route h (r_path (c_req (core s))) = Some n"
    and "f_type n \<noteq> RouteTypeGroup" and "f_task n = Some t" and "DispatchRead h s = (s', p)"
  shows "\<exists>pre ec sv wr. calls s' = calls s @ pre @ [CallCORS] @ ec @ sv @ wr
    \<and> list_all (\<lambda>c. is_acceptance c \<or> is_task c) pre
    \<and> length ec \<le> 1 \<and> (\<forall>c \<in> set ec. \<exists>e q. c = CallErrorCaught e q)
    \<and> length sv \<le> 1 \<and> (\<forall>c \<in> set sv. \<exists>r. c = CallSave r)
    \<and> ((wr = [] \<and> (c_separate (core s') \<or> body (c_resp (core s')) = None))
       \<or> (wr = [CallWrite (c_resp (core s'))] \<and> (statusCode (c_resp (core s')) = 0 \<longrightarrow> DefaultStatusCode h = 0)))"
  by (rule dispatch_calls [OF assms])

text \<open>The acceptances that run, and the calls of a task that goes well.\<close>

definition passes :: "('b, 'x) acceptance \<Rightarrow> bool" where
  "passes a \<longleftrightarrow> (\<forall>c. \<exists>c'. a_Do a c = (c', Return AccPass) \<and> c_req c' = c_req c)"

definition asked :: "string \<Rightarrow> nat \<Rightarrow> ('b, 'x) acceptance list \<Rightarrow> 'b dcall list" where
  "asked m i as = concat (map (\<lambda>(j, a). if m = ''OPTIONS'' \<and> a_skipOptions a then [] else [CallAcceptance j])
     (enumerate i as))"

lemma asked_simps [simp]: "asked m i [] = []"
    "asked m i (a # as) = (if m = ''OPTIONS'' \<and> a_skipOptions a then [] else [CallAcceptance i]) @ asked m (Suc i) as"
  by (simp_all add: asked_def)

lemma run_acceptances_prefix:
  assumes "list_all passes as"
  shows "\<exists>s1. run_acceptances h i (as @ cs) s = run_acceptances h (i + length as) cs s1
    \<and> calls s1 = calls s @ asked (req_method s) i as \<and> c_req (core s1) = c_req (core s)"
  using assms
proof (induction as arbitrary: i s)
  case (Cons b as)
  then have pas: "list_all passes as" by simp
  show ?case
  proof (cases "req_method s = ''OPTIONS'' \<and> a_skipOptions b")
    case True
    with Cons.IH [OF pas, of "Suc i" s] show ?thesis by simp
  next
    case False
    from Cons.prems have "passes b" by simp
    then obtain c' where c': "a_Do b (core s) = (c', Return AccPass)" "c_req c' = c_req (core s)"
      unfolding passes_def by blast
    define s1 where "s1 = (noting (CallAcceptance i) s)\<lparr>core := c'\<rparr>"
    have "call_with (CallAcceptance i) (a_Do b) s = (s1, Return AccPass)"
      by (simp add: call_with_def c' s1_def)
    moreover have "req_method s1 = req_method s" using c' by (simp add: s1_def req_method_def)
    ultimately show ?thesis
      using Cons.IH [OF pas, of "Suc i" s1] False c' by (auto simp: s1_def noting_def)
  qed
next
  case Nil
  show ?case by (intro exI [of _ s]) simp
qed

lemma run_acceptances_refuse:
  assumes "a_Do a (core s) = (c', Return r)" and "r \<noteq> AccPass"
    and "\<not> (req_method s = ''OPTIONS'' \<and> a_skipOptions a)" and "run_acceptances h i (a # as) s = (s', o')"
  shows "o' \<noteq> Return True \<and> calls s' = calls s @ [CallAcceptance i]"
proof -
  have one: "call_with (CallAcceptance i) (a_Do a) s = ((noting (CallAcceptance i) s)\<lparr>core := c'\<rparr>, Return r)"
    by (simp add: call_with_def assms(1))
  show ?thesis
    using assms(2-4)
    by (cases r) (auto simp: one Let_def split: option.splits ret.splits prod.splits if_splits)
qed

lemma run_acceptances_pass:
  assumes "list_all passes as"
  shows "\<exists>s'. run_acceptances h i as s = (s', Return True) \<and> calls s' = calls s @ asked (req_method s) i as
    \<and> c_req (core s') = c_req (core s)"
  using run_acceptances_prefix [OF assms, of h i "[]" s] by auto

text \<open>A task whose methods answer no error and leave the request alone.\<close>

definition calm :: "('b, 'x) task \<Rightarrow> bool" where
  "calm t \<longleftrightarrow> (\<forall>m c. \<exists>c'. t_call t m c = (c', Return None) \<and> c_req c' = c_req c)
    \<and> (\<forall>c. \<exists>c'. t_CORSHelper t c = (c', Return ()))"

definition method_calls :: "string \<Rightarrow> bool \<Rightarrow> task_call list" where
  "method_calls m isLast =
     (if m = ''GET'' then [if isLast then TIndex else TGet]
      else if m = ''POST'' then [if isLast then TCreate else TPost]
      else if m = ''PUT'' then [TPut] else if m = ''DELETE'' then [TDelete]
      else if m = ''OPTIONS'' then [TOptions] else if m = ''PATCH'' then [TPatch]
      else if m = ''TRACE'' then [TTrace] else if m = ''CONNECT'' then [TConnect] else [])"

definition task_calls :: "('b, 'x) task \<Rightarrow> string \<Rightarrow> bool \<Rightarrow> task_call list" where
  "task_calls t m isLast = (if t_skipPreCheck t \<and> m = ''OPTIONS'' then [] else [TPreCheck])
     @ [TBefore] @ method_calls m isLast @ [TAfter]"

definition runs_ok ::
  "('b, 'x) run_state \<Rightarrow> task_call list \<Rightarrow> ('b, 'x) run_state \<times> err_ref option ret \<Rightarrow> bool" where
  "runs_ok s cs m \<longleftrightarrow> (\<exists>s'. m = (s', Return None) \<and> calls s' = calls s @ map CallTask cs
     \<and> c_req (core s') = c_req (core s))"

lemma runs_ok_method: "runs_ok s cs (s', r) \<Longrightarrow> req_method s' = req_method s"
  by (auto simp: runs_ok_def req_method_def)

lemma runs_ok_call:
  assumes "calm t"
  shows "runs_ok s [m] (call_task t m s)"
proof -
  from assms obtain c' where "t_call t m (core s) = (c', Return None)" "c_req c' = c_req (core s)"
    unfolding calm_def by blast
  then show ?thesis by (simp add: runs_ok_def call_task_def call_with_def noting_def)
qed

lemma runs_ok_seq:
  assumes "runs_ok s cs m" and "\<And>s1. req_method s1 = req_method s \<Longrightarrow> runs_ok s1 ds (f s1)"
  shows "runs_ok s (cs @ ds) (seq_ret m f)"
proof -
  from assms(1) obtain s1 where m: "m = (s1, Return None)" "calls s1 = calls s @ map CallTask cs"
      "c_req (core s1) = c_req (core s)" by (auto simp: runs_ok_def)
  with assms(2) [of s1] show ?thesis by (auto simp: runs_ok_def req_method_def seq_ret_def)
qed

lemma first_or_ok: "calm t \<Longrightarrow> runs_ok s [if l then c1 else c2] (first_or h t l c1 c2 s)"
  using runs_ok_call [of t s c1] runs_ok_call [of t s c2]
  by (auto simp: first_or_def runs_ok_def)

lemma match_method_ok: "calm t \<Longrightarrow> runs_ok s (method_calls (req_method s) l) (match_method h t l s)"
  using first_or_ok [of t s l TIndex TGet h] first_or_ok [of t s l TCreate TPost h]
  by (auto simp: match_method_def method_calls_def intro: runs_ok_call)
    (auto simp: runs_ok_def)

lemma handleAutoRange_returns:
  assumes "bytebuf ops"
  shows "handleAutoRange ops tr req resp \<noteq> None"
proof (cases "tr \<and> header_get ''range'' (r_header req) \<noteq> []
    \<and> (\<exists>b. body resp = Some b \<and> Bytes ops b \<noteq> [])")
  case True
  then obtain b where b: "body resp = Some b" "Bytes ops b \<noteq> []" "tr" "header_get ''range'' (r_header req) \<noteq> []"
    by blast
  obtain s e v where r: "ParseRange (header_get ''range'' (r_header req)) (int (length (Bytes ops b))) = (s, e, v)"
    by (rule prod_cases3)
  from bytebuf.auto_range_cases [OF assms b(1,2) refl b(4) r] b(3) show ?thesis by (metis option.distinct(1))
next
  case False
  then show ?thesis
    by (auto simp: handleAutoRange_def Let_def bytebuf.readable [OF assms] split: option.splits)
qed

lemma auto_range_ok:
  assumes "bytebuf (d_ops h)"
  shows "runs_ok s [] (auto_range h t s)"
  using handleAutoRange_returns [OF assms, of "t_autoRange t" "c_req (core s)" "c_resp (core s)"]
  by (auto simp: auto_range_def runs_ok_def upd_resp_def upd_core_def)

lemma invokeMethod_ok:
  assumes "bytebuf (d_ops h)" and "calm t"
  shows "runs_ok s (task_calls t (req_method s) l) (invokeMethod h t l s)"
proof -
  have pre: "runs_ok s (if t_skipPreCheck t \<and> req_method s = ''OPTIONS'' then [] else [TPreCheck])
      (if t_skipPreCheck t \<and> req_method s = ''OPTIONS'' then (s, Return None) else call_task t TPreCheck s)"
    using runs_ok_call [OF assms(2), of s TPreCheck] by (simp add: runs_ok_def)
  have mm: "req_method s2 = req_method s \<Longrightarrow> runs_ok s2 (method_calls (req_method s) l) (match_method h t l s2)" for s2
    using match_method_ok [OF assms(2), of s2 l h] by simp
  have tail: "runs_ok s3 [TAfter] (seq_ret (auto_range h t s3) (call_task t TAfter))" for s3
    using runs_ok_seq [of s3 "[]" "auto_range h t s3" "[TAfter]" "call_task t TAfter"]
      auto_range_ok [OF assms(1), of s3 t] runs_ok_call [OF assms(2)] by simp
  show ?thesis
    unfolding invokeMethod_def task_calls_def
    by (intro runs_ok_seq [OF pre] runs_ok_seq [OF runs_ok_call [OF assms(2)]] runs_ok_seq [OF mm] tail) simp_all
qed

lemma final_steps_tail:
  assumes "DefaultStatusResponse h = Map.empty" and "final_steps h (s, q) = (s', p)"
  shows "\<exists>fin. calls s' = calls s @ fin
    \<and> list_all (\<lambda>c. (\<exists>r. c = CallSave r) \<or> (\<exists>r. c = CallWrite r)) fin"
proof -
  from final_steps_calls [OF assms] obtain sv wr where
    sw: "calls s' = calls s @ sv @ wr" "\<forall>c \<in> set sv. \<exists>r. c = CallSave r"
      "wr = [] \<or> (\<exists>r. wr = [CallWrite r])" by blast
  then have "list_all (\<lambda>c. (\<exists>r. c = CallSave r) \<or> (\<exists>r. c = CallWrite r)) (sv @ wr)"
    by (auto simp: list_all_iff)
  with sw(1) show ?thesis by auto
qed

lemma locate_facts [simp]: "calls (locate h n s) = calls s" "c_req (core (locate h n s)) = c_req (core s)"
    "c_resp (core (locate h n s)) = c_resp (core s)" "c_separate (core (locate h n s)) = c_separate (core s)"
    "c_heap (core (locate h n s)) = c_heap (core s)"
  by (simp_all add: locate_def)

lemma timing_facts [simp]: "c_req (core (timing h k s)) = c_req (core s)"
    "c_resp (core (timing h k s)) = c_resp (core s)" "c_heap (core (timing h k s)) = c_heap (core s)"
    "c_separate (core (timing h k s)) = c_separate (core s)"
  by (simp_all add: timing_def set_param_def)

lemma DispatchRead_task:
  assumes "d_route h (r_path (c_req (core s))) = Some n" and "f_type n \<noteq> RouteTypeGroup" and "f_task n = Some t"
  shows "DispatchRead h s = serve_task h t n (locate h n s)"
  using assms by (simp add: DispatchRead_def)


text \<open>
  C31. A refused request never reaches the task: when an acceptance interrupts or answers an error, no
  method of the task runs, not even PreCheck; only CORSHelper does, and ErrorCaught when something panics.
\<close>

theorem refused_never_served:
  assumes "DefaultStatusResponse h = Map.empty"
    and "d_route h (r_path (c_req (core s))) = Some n" and "f_type n \<noteq> RouteTypeGroup" and "f_task n = Some t"
    and "f_acceptances n = as @ a # bs" and "list_all passes as"
    and "\<forall>c. \<exists>c' r. a_Do a c = (c', Return r) \<and> r \<noteq> AccPass"
    and "\<not> (req_method s = ''OPTIONS'' \<and> a_skipOptions a)"
    and "DispatchRead h s = (s', p)"
  shows "\<exists>todo. calls s' = calls s @ asked (req_method s) 0 as @ CallAcceptance (length as) # CallCORS # todo
    \<and> list_all (\<lambda>c. \<not> is_task c \<and> \<not> is_acceptance c) todo"
proof -
  define s0 where "s0 = locate h n s"
  have m0: "req_method s0 = req_method s" by (simp add: s0_def req_method_def)
  from run_acceptances_prefix [OF assms(6), of h 0 "a # bs" s0] obtain s1 where s1:
    "run_acceptances h 0 (f_acceptances n) s0 = run_acceptances h (length as) (a # bs) s1"
    "calls s1 = calls s @ asked (req_method s) 0 as" "req_method s1 = req_method s"
    using m0 by (auto simp: assms(5) s0_def req_method_def)
  from assms(7) obtain c' r where ar: "a_Do a (core s1) = (c', Return r)" "r \<noteq> AccPass" by blast
  obtain s2 o2 where run: "run_acceptances h (length as) (a # bs) s1 = (s2, o2)"
    by (cases "run_acceptances h (length as) (a # bs) s1")
  have stop: "run_acceptances h 0 (f_acceptances n) s0 = (s2, o2)" "o2 \<noteq> Return True"
      "calls s2 = calls s1 @ [CallAcceptance (length as)]"
    using run_acceptances_refuse [OF ar _ run] s1(1,3) assms(8) run
    by (simp_all del: run_acceptances.simps)
  have "\<exists>o3. serve h t n s0 = (s2, o3)"
    using stop by (cases o2) (auto simp: serve_def)
  then obtain o3 where sv: "serve h t n s0 = (s2, o3)" by blast
  define pc where "pc = (case o3 of Throw q \<Rightarrow> Some q | Return _ \<Rightarrow> None)"
  obtain s3 p3 where cors: "deferred (call_with CallCORS (t_CORSHelper t)) (s2, pc) = (s3, p3)"
    by (cases "deferred (call_with CallCORS (t_CORSHelper t)) (s2, pc)")
  have "s3 = fst (call_with CallCORS (t_CORSHelper t) s2)"
    using cors deferred_state [of "call_with CallCORS (t_CORSHelper t)" "(s2, pc)"] by simp
  then have c3: "calls s3 = calls s2 @ [CallCORS]"
    using call_with_calls [of CallCORS "t_CORSHelper t" s2] by (metis prod.collapse)
  define rtn where "rtn = (case o3 of Return e \<Rightarrow> e | Throw _ \<Rightarrow> None)"
  obtain s4 q where catch: "PanicCatch h t rtn p3 s3 = (s4, q)" by (cases "PanicCatch h t rtn p3 s3")
  obtain ec where ec: "calls s4 = calls s3 @ ec" "\<forall>c \<in> set ec. \<exists>e q. c = CallErrorCaught e q"
    using PanicCatch_calls [OF catch] by blast
  have "final_steps h (s4, case q of Throw x \<Rightarrow> Some x | Return _ \<Rightarrow> None) = (s', p)"
    using assms(9) sv cors catch
    unfolding DispatchRead_task [OF assms(2-4)] s0_def [symmetric]
    by (simp add: serve_task_def pc_def rtn_def)
  from final_steps_tail [OF assms(1) this] obtain fin where fin: "calls s' = calls s4 @ fin"
    "list_all (\<lambda>c. (\<exists>r. c = CallSave r) \<or> (\<exists>r. c = CallWrite r)) fin" by blast
  have "list_all (\<lambda>c. \<not> is_task c \<and> \<not> is_acceptance c) (ec @ fin)"
    using ec(2) fin(2) by (fastforce simp: list_all_iff is_task_def is_acceptance_def)
  then show ?thesis
    using fin(1) ec(1) c3 stop(3) s1(2) by (intro exI [of _ "ec @ fin"]) simp
qed

section \<open>Errors and panics\<close>

text \<open>\<open>DefaultHTTPHandlerTask.ErrorCaught\<close>: the error becomes the response.\<close>

definition default_ErrorCaught ::
  "('b, 'x) dispatcher \<Rightarrow> err_ref \<Rightarrow> hpanic option \<Rightarrow> ('b, 'x) core \<Rightarrow> ('b, 'x) core \<times> string option ret" where
  "default_ErrorCaught h er caught c = (case respond_error h er c of
       (c', Return _) \<Rightarrow> (c', Return None)
     | (c', Throw p) \<Rightarrow> (c', Throw p))"

text \<open>The methods of \<open>DefaultHTTPHandlerTask\<close>.\<close>

definition default_call ::
  "('b, 'x) dispatcher \<Rightarrow> task_call \<Rightarrow> ('b, 'x) core \<Rightarrow> ('b, 'x) core \<times> err_ref option ret" where
  "default_call h m c = (c, Return (if m = TIndex \<or> m = TCreate then Some (d_NotImplemented h) else None))"

definition default_CORSHelper :: "('b, 'x) core \<Rightarrow> ('b, 'x) core \<times> unit ret" where
  "default_CORSHelper c = (let rq = c_req c; hs = r_header rq;
       allow = (\<lambda>r. SetHeader ''access-control-allow-origin'' (if Origin rq = ''null'' then ''*'' else Origin rq) r);
       hdrs = (\<lambda>r. let v = header_get ''access-control-request-headers'' hs in
                 if v \<noteq> [] then SetHeader ''access-control-allow-headers'' v r else r);
       meths = (\<lambda>r. let v = header_get ''access-control-request-method'' hs in
                 if v \<noteq> [] then SetHeader ''access-control-allow-methods'' v r else r)
     in (c\<lparr>c_resp := meths (hdrs (allow (c_resp c)))\<rparr>, Return ()))"

lemma default_CORSHelper_keeps:
  "\<exists>c'. default_CORSHelper c = (c', Return ()) \<and> statusCode (c_resp c') = statusCode (c_resp c)
    \<and> body (c_resp c') = body (c_resp c) \<and> c_separate c' = c_separate c \<and> c_req c' = c_req c
    \<and> c_heap c' = c_heap c \<and> c_params c' = c_params c"
  by (simp add: default_CORSHelper_def SetHeader_def Let_def)

definition DefaultHTTPHandlerTask :: "('b, 'x) dispatcher \<Rightarrow> ('b, 'x) task" where
  "DefaultHTTPHandlerTask h = \<lparr>t_call = default_call h, t_CORSHelper = default_CORSHelper,
     t_ErrorCaught = default_ErrorCaught h, t_autoRange = True, t_skipPreCheck = True\<rparr>"

definition error_body :: "('b, 'x) dispatcher \<Rightarrow> 'b request \<Rightarrow> err_obj \<times> data_map \<Rightarrow> 'b" where
  "error_body h rq v = NewByteBuf (d_ops h) (bytes_of (case d_json h
     (fst v, (snd v)(''cid'' \<mapsto> r_channelID rq, ''tid'' \<mapsto> trackID rq)) of None \<Rightarrow> [] | Some s \<Rightarrow> s))"

lemma visible_status: "visible h r = Some (e, m) \<Longrightarrow> ErrorStatusCode r h = Some (StatusCode e)"
  by (auto simp: visible_def ErrorStatusCode_def)

lemma respond_error_visible:
  assumes "wf_heap (c_heap c)" and "visible (c_heap c) r = Some (e, m)"
  shows "\<exists>c'. respond_error h r c = (c', Return ()) \<and> statusCode (c_resp c') = StatusCode e
    \<and> body (c_resp c') = Some (error_body h (c_req c) (e, m)) \<and> c_separate c' = c_separate c \<and> c_req c' = c_req c"
proof -
  obtain k hp where st: "stamped r (r_channelID (c_req c)) (trackID (c_req c)) (c_heap c) = Some (k, hp)"
      "visible hp k = Some (e, m(''cid'' \<mapsto> r_channelID (c_req c), ''tid'' \<mapsto> trackID (c_req c)))"
    using stamped_visible [OF assms] by blast
  show ?thesis
    using st visible_status [OF st(2)]
    by (simp add: respond_error_def ResponseError_def ErrorText_def JsonResponse_def SetBody_def
        SetHeader_def SetStatusCode_def error_body_def Let_def)
qed

text \<open>An error on its way, or a panic turned into one, ends as the response of the default \<open>ErrorCaught\<close>.\<close>

lemma PanicCatch_responds:
  assumes "t_ErrorCaught t = default_ErrorCaught h" and "wf_heap (c_heap (core s))"
    and "(case p of None \<Rightarrow> rtn | Some (ThrowError r) \<Rightarrow> Some r | Some _ \<Rightarrow> Some (d_ServerErrorPanic h)) = Some r"
    and "visible (c_heap (core s)) r = Some (e, m)"
  shows "\<exists>s'. PanicCatch h t rtn p s = (s', Return ()) \<and> statusCode (c_resp (core s')) = StatusCode e
    \<and> body (c_resp (core s')) = Some (error_body h (c_req (core s)) (e, m))
    \<and> c_separate (core s') = c_separate (core s) \<and> c_req (core s') = c_req (core s)"
proof -
  let ?cid = "r_channelID (c_req (core s))" and ?tid = "trackID (c_req (core s))"
  obtain k hp where st: "stamped r ?cid ?tid (c_heap (core s)) = Some (k, hp)" "wf_heap hp"
      "visible hp k = Some (e, m(''cid'' \<mapsto> ?cid, ''tid'' \<mapsto> ?tid))"
    using stamped_visible [OF assms(2,4)] by blast
  define c1 where "c1 = (core s)\<lparr>c_heap := hp\<rparr>"
  obtain c2 where c2: "respond_error h k c1 = (c2, Return ())" "statusCode (c_resp c2) = StatusCode e"
      "body (c_resp c2) = Some (error_body h (c_req (core s)) (e, m))"
      "c_separate c2 = c_separate (core s)" "c_req c2 = c_req (core s)"
    using respond_error_visible [of c1 k e "m(''cid'' \<mapsto> ?cid, ''tid'' \<mapsto> ?tid)" h] st(2,3)
    by (auto simp: c1_def error_body_def)
  have "call_with (CallErrorCaught k p) (t_ErrorCaught t k p) (upd_core (\<lambda>x. x\<lparr>c_heap := hp\<rparr>) s)
      = ((noting (CallErrorCaught k p) (upd_core (\<lambda>x. x\<lparr>c_heap := hp\<rparr>) s))\<lparr>core := c2\<rparr>, Return None)"
    using c2(1) by (simp add: call_with_def assms(1) default_ErrorCaught_def c1_def)
  then show ?thesis
    using c2 st(1) assms(3) by (simp add: PanicCatch_def Let_def)
qed

lemma UpdateSessionCookie_keeps [simp]:
  "statusCode (c_resp (core (UpdateSessionCookie h s))) = statusCode (c_resp (core s))"
  "body (c_resp (core (UpdateSessionCookie h s))) = body (c_resp (core s))"
  "c_separate (core (UpdateSessionCookie h s)) = c_separate (core s)"
  by (auto simp: UpdateSessionCookie_def upd_resp_def upd_core_def SetCookie_def Let_def split: option.splits)

lemma final_steps_writes:
  assumes "DefaultStatusResponse h = Map.empty" and "\<not> c_separate (core s)"
    and "statusCode (c_resp (core s)) = st" and "st \<noteq> 0" and "body (c_resp (core s)) = Some b"
    and "st = 404 \<Longrightarrow> ReadableBytes (d_ops h) b \<noteq> 0"
  shows "\<exists>s' r. final_steps h (s, q) = (s', q) \<and> last (calls s') = CallWrite r \<and> statusCode r = st \<and> body r = Some b"
proof -
  let ?u = "UpdateSessionCookie h s"
  have "callWrite h ?u = (noting (CallWrite (c_resp (core ?u))) (?u\<lparr>core := core ?u\<rparr>), Return ())"
    using assms by (auto simp: callWrite_def fill_response_def default_status_def Let_def split: option.splits bool.splits)
  then show ?thesis using assms by (simp add: final_steps_def deferred_def)
qed

text \<open>
  C22. A panic in an acceptance or a method of a task with the default ErrorCaught does not get out of
  the dispatcher: the client is sent the status of ServerErrorPanic, or of the error response that was
  thrown, with that error, stamped with the ids of the channel and the request, as the body.
\<close>

theorem panic_becomes_response:
  assumes "DefaultStatusResponse h = Map.empty"
    and "d_route h (r_path (c_req (core s))) = Some n" and "f_type n \<noteq> RouteTypeGroup" and "f_task n = Some t"
    and "serve h t n (locate h n s) = (s1, Throw p)"
    and "t_CORSHelper t (core s1) = (c2, Return ())" and "t_ErrorCaught t = default_ErrorCaught h"
    and "wf_heap (c_heap c2)" and "\<not> c_separate c2"
    and "visible (c_heap c2) (case p of ThrowError r \<Rightarrow> r | _ \<Rightarrow> d_ServerErrorPanic h) = Some (e, m)"
    and "StatusCode e \<noteq> 0" and "StatusCode e \<noteq> 404"
  shows "\<exists>s' r. DispatchRead h s = (s', None) \<and> last (calls s') = CallWrite r
    \<and> statusCode r = StatusCode e \<and> body r = Some (error_body h (c_req c2) (e, m))"
proof -
  define s2 where "s2 = (noting CallCORS s1)\<lparr>core := c2\<rparr>"
  have cors: "deferred (call_with CallCORS (t_CORSHelper t)) (s1, Some p) = (s2, Some p)"
    by (simp add: deferred_def call_with_def assms(6) s2_def)
  have which: "(case Some p of None \<Rightarrow> None | Some (ThrowError r) \<Rightarrow> Some r | Some _ \<Rightarrow> Some (d_ServerErrorPanic h))
      = Some (case p of ThrowError r \<Rightarrow> r | _ \<Rightarrow> d_ServerErrorPanic h)"
    by (cases p) simp_all
  obtain s3 where s3: "PanicCatch h t None (Some p) s2 = (s3, Return ())"
      "statusCode (c_resp (core s3)) = StatusCode e"
      "body (c_resp (core s3)) = Some (error_body h (c_req c2) (e, m))" "\<not> c_separate (core s3)"
    using PanicCatch_responds [OF assms(7) _ which, of s2 e m] assms(8-10) by (auto simp: s2_def)
  have read: "DispatchRead h s = final_steps h (s3, None)"
    unfolding DispatchRead_task [OF assms(2-4)] by (simp add: serve_task_def assms(5) cors s3(1))
  show ?thesis
    unfolding read by (rule final_steps_writes [OF assms(1) s3(4,2) assms(11) s3(3)]) (use assms(12) in simp)
qed

text \<open>
  An acceptance that refuses a request with an error that is not an error response leaves the
  status at zero, so the client is told DefaultStatusCode, 200 by default, although the request was
  refused and the task never ran.
\<close>

theorem plain_refusal_answers_default:
  assumes "DefaultStatusResponse h = Map.empty"
    and "d_route h (r_path (c_req (core s))) = Some n" and "f_type n \<noteq> RouteTypeGroup" and "f_task n = Some t"
    and "f_acceptances n = [a]" and "a_Do a = (\<lambda>c. (c, Return (AccError None)))"
    and "req_method s \<noteq> ''OPTIONS''" and "t_CORSHelper t = default_CORSHelper"
    and "\<not> c_separate (core s)" and "statusCode (c_resp (core s)) = 0"
    and "DefaultStatusCode h \<noteq> 404"
  shows "\<exists>s' r. DispatchRead h s = (s', None) \<and> last (calls s') = CallWrite r \<and> statusCode r = DefaultStatusCode h
    \<and> list_all (\<lambda>c. \<not> is_task c) (drop (length (calls s)) (calls s'))"
proof -
  define s0 where "s0 = locate h n s"
  define s1 where "s1 = timing h ''[gone-http]h_acceptance_time'' (noting (CallAcceptance 0) s0)"
  have m: "req_method s0 \<noteq> ''OPTIONS''" using assms(7) by (simp add: s0_def req_method_def)
  have "serve h t n s0 = (s1, Return None)"
    using m by (simp add: serve_def assms(5,6) call_with_def s1_def Let_def noting_def)
  moreover obtain c2 where c2: "default_CORSHelper (core s1) = (c2, Return ())"
      "statusCode (c_resp c2) = 0" "c_separate c2 = c_separate (core s1)"
    using default_CORSHelper_keeps [of "core s1"] assms(10) by (auto simp: s1_def s0_def)
  moreover define s2 where "s2 = (noting CallCORS s1)\<lparr>core := c2\<rparr>"
  ultimately have read: "DispatchRead h s = final_steps h (s2, None)"
    unfolding DispatchRead_task [OF assms(2-4)] s0_def [symmetric]
    by (simp add: serve_task_def deferred_def call_with_def assms(8) PanicCatch_def)
  let ?u = "UpdateSessionCookie h s2"
  define s3 where "s3 = noting (CallWrite (c_resp (default_status h (core ?u)))) (?u\<lparr>core := default_status h (core ?u)\<rparr>)"
  have u: "\<not> c_separate (core ?u)" "statusCode (c_resp (core ?u)) = 0"
    using c2 assms(9) by (simp_all add: s2_def s1_def s0_def noting_def)
  have "callWrite h ?u = (s3, Return ())"
    using u assms(1) by (simp add: callWrite_def fill_response_def s3_def Let_def)
  then have "DispatchRead h s = (s3, None)" by (simp add: read final_steps_def deferred_def)
  moreover have "last (calls s3) = CallWrite (c_resp (default_status h (core ?u)))" by (simp add: s3_def)
  moreover have "statusCode (c_resp (default_status h (core ?u))) = DefaultStatusCode h"
    using u by (simp add: default_status_def SetStatusCode_def)
  moreover have "list_all (\<lambda>c. \<not> is_task c) (drop (length (calls s)) (calls s3))"
    using UpdateSessionCookie_calls [of h s2]
    by (auto simp: s3_def s2_def s1_def s0_def is_task_def list_all_iff)
  ultimately show ?thesis by blast
qed

text \<open>
  The dispatcher keeps its own values beside the ids: GetID of a task answers the id that the route
  found under the name of a node, except for the six names the dispatcher uses itself, where it panics
  (node, is_index, dispatcher, context_pack, h_locate_time) or answers the name of the node (node_name).
  IsIndex of an acceptance, which expects a string, panics on every request the dispatcher has located.
\<close>

theorem get_id_reserved_names:
  assumes "f_params n = Some [id_key name \<mapsto> x]" and "c_params (core s) = Map.empty"
  shows "TaskGetID name (c_params (core (locate h n s)))
    = (if name \<in> {''node'', ''is_index'', ''dispatcher'', ''context_pack'', ''h_locate_time''} then None
       else if name = ''node_name'' then Some (f_name n) else Some x)
    \<and> acceptance_IsIndex (c_params (core (locate h n s))) = None"
proof (rule conjI)
  have len: "''p:'' @ name \<noteq> name @ ''_id''" "name \<noteq> name @ ''_id''"
    by (auto dest: arg_cong [of _ _ length])
  have ps: "c_params (core (locate h n s)) = [
       ''[gone-http]h_locate_time'' \<mapsto> PNanos (d_elapsed h ''[gone-http]h_locate_time''),
       ''[gone-http]node'' \<mapsto> PNode (f_name n),
       ''[gone-http]node_name'' \<mapsto> PString (f_name n),
       ''[gone-http]is_index'' \<mapsto> PBool (f_last n),
       ''[gone-http]dispatcher'' \<mapsto> PDispatcher,
       ''[gone-http]context_pack'' \<mapsto> PPack,
       ''[gone-http]'' @ name @ ''_id'' \<mapsto> PString x]"
    using assms by (auto simp: locate_def id_key_def map_add_def fun_eq_iff)
  have noend: "name @ ''_id'' \<noteq> w" if "last w \<noteq> CHR ''d''" for w using that by auto
  show "TaskGetID name (c_params (core (locate h n s)))
    = (if name \<in> {''node'', ''is_index'', ''dispatcher'', ''context_pack'', ''h_locate_time''} then None
       else if name = ''node_name'' then Some (f_name n) else Some x)"
    unfolding TaskGetID_def ps using len by (auto simp: noend)
  have "name @ ''_id'' \<noteq> ''is_index''" by (rule noend) simp
  then show "acceptance_IsIndex (c_params (core (locate h n s))) = None"
    unfolding acceptance_IsIndex_def ps by auto
qed

text \<open>
  A path without a node, or one that ends at a group, is answered 404 with the default page when
  nothing was written to the body yet; no acceptance and no task is called.
\<close>

theorem unknown_path_404:
  assumes "bytebuf (d_ops h)" and "DefaultStatusResponse h = Map.empty" and "\<not> c_separate (core s)"
    and "case d_route h (r_path (c_req (core s))) of None \<Rightarrow> True | Some n \<Rightarrow> f_type n = RouteTypeGroup"
    and "body (c_resp (core s)) = Some b" and "Bytes (d_ops h) b = []"
  shows "\<exists>s' sv r. DispatchRead h s = (s', None) \<and> calls s' = calls s @ sv @ [CallWrite r]
    \<and> (\<forall>c \<in> set sv. \<exists>k. c = CallSave k)
    \<and> statusCode r = 404 \<and> body r = body (defaultNotFound404 (d_ops h) (c_resp (core s)))"
proof -
  have cp: "calls (copy_header k z) = calls z" "body (c_resp (core (copy_header k z))) = body (c_resp (core z))"
    "c_separate (core (copy_header k z)) = c_separate (core z)" for k z
    by (simp_all add: copy_header_def upd_resp_def upd_core_def SetHeader_def Let_def)
  define s1 where "s1 = upd_resp (SetStatusCode 404)
     (copy_header ''connection'' (copy_header ''upgrade'' (timing h ''[gone-http]h_locate_time'' s)))"
  have s1: "calls s1 = calls s" "\<not> c_separate (core s1)" "body (c_resp (core s1)) = Some b"
      "statusCode (c_resp (core s1)) = 404"
    using assms(3,5) by (simp_all add: s1_def cp) (simp_all add: upd_resp_def upd_core_def SetStatusCode_def cp)
  have read: "DispatchRead h s = final_steps h (s1, None)"
    using assms(4) by (auto simp: DispatchRead_def serve_nothing_def s1_def split: option.splits)
  let ?u = "UpdateSessionCookie h s1"
  obtain sv where sv: "calls ?u = calls s @ sv" "\<forall>c \<in> set sv. \<exists>k. c = CallSave k"
    using UpdateSessionCookie_calls [of h s1] s1(1) by auto
  define c2 where "c2 = (core ?u)\<lparr>c_resp := defaultNotFound404 (d_ops h) (c_resp (core ?u))\<rparr>"
  have "fill_response h (core ?u) = (c2, Return ())"
    using s1 assms(2,6) bytebuf.readable [OF assms(1), of b] by (simp add: fill_response_def c2_def Let_def)
  moreover have "default_status h c2 = c2"
    by (simp add: default_status_def c2_def defaultNotFound404_def SetStatusCode_def SetBody_def)
  ultimately have "callWrite h ?u = (noting (CallWrite (c_resp c2)) (?u\<lparr>core := c2\<rparr>), Return ())"
    using s1 by (simp add: callWrite_def)
  then have "DispatchRead h s = (noting (CallWrite (c_resp c2)) (?u\<lparr>core := c2\<rparr>), None)"
    by (simp add: read final_steps_def deferred_def)
  moreover have "statusCode (c_resp c2) = 404"
      "body (c_resp c2) = body (defaultNotFound404 (d_ops h) (c_resp (core s)))"
    by (simp_all add: c2_def defaultNotFound404_def SetStatusCode_def SetBody_def)
  ultimately show ?thesis using sv
    by (intro exI [of _ "noting (CallWrite (c_resp c2)) (?u\<lparr>core := c2\<rparr>)"] exI [of _ sv] exI [of _ "c_resp c2"])
      (simp add: noting_def)
qed

section \<open>Concrete runs\<close>

definition pass_acceptance :: "(byte list, unit) acceptance" where
  "pass_acceptance = \<lparr>a_skipOptions = False, a_Do = (\<lambda>c. (c, Return AccPass))\<rparr>"

definition refuse_acceptance :: "(byte list, unit) acceptance" where
  "refuse_acceptance = \<lparr>a_skipOptions = False, a_Do = (\<lambda>c. (c, Return (AccError None)))\<rparr>"

definition demo_json :: "err_obj \<times> data_map \<Rightarrow> string option" where
  "demo_json v = Some (ErrorCode (fst v))"

definition demo_dispatcher :: "(string \<Rightarrow> (byte list, unit) found_node option) \<Rightarrow> (byte list, unit) dispatcher" where
  "demo_dispatcher rt = \<lparr>d_ops = list_bytebuf, d_json = demo_json, d_route = rt, DefaultStatusCode = 200,
     DefaultStatusResponse = Map.empty, d_NotImplemented = 0, d_ServerErrorPanic = 1, d_elapsed = (\<lambda>_. 0),
     d_now = 0, d_TimestampOfTimeHash = (\<lambda>_. 0), d_TimeHash = (\<lambda>s _. s), d_sessionId = (\<lambda>_. ''id''),
     d_session = \<lparr>SessionKey = ''DEFAULT'', SessionExpireTime = 86400, SessionDomain = [],
       SessionHttpOnly = False, SessionSecure = False\<rparr>\<rparr>"

text \<open>A task whose methods do nothing, or throw.\<close>

definition demo_task :: "hpanic option \<Rightarrow> (byte list, unit) task" where
  "demo_task p = \<lparr>t_call = (\<lambda>_ c. (c, case p of None \<Rightarrow> Return None | Some q \<Rightarrow> Throw q)),
     t_CORSHelper = default_CORSHelper, t_ErrorCaught = default_ErrorCaught (demo_dispatcher (\<lambda>_. None)),
     t_autoRange = True, t_skipPreCheck = True\<rparr>"

definition demo_node :: "(byte list, unit) acceptance list \<Rightarrow> hpanic option \<Rightarrow> (byte list, unit) found_node" where
  "demo_node as p = \<lparr>f_type = RouteTypeEndPoint, f_name = ''node'', f_task = Some (demo_task p),
     f_acceptances = as, f_params = Some [id_key ''node'' \<mapsto> ''7''], f_last = False\<rparr>"

definition demo_run :: "(byte list, unit) run_state" where
  "demo_run = \<lparr>core = \<lparr>c_req = demo_request, c_resp = NewResponse list_bytebuf, c_params = Map.empty,
     c_heap = two_errors, c_separate = False, c_user = ()\<rparr>, calls = []\<rparr>"

lemma demo_facts [simp]:
  "DefaultStatusResponse (demo_dispatcher rt) = Map.empty" "d_ops (demo_dispatcher rt) = list_bytebuf"
  "d_route (demo_dispatcher rt) = rt" "DefaultStatusCode (demo_dispatcher rt) = 200"
  "d_ServerErrorPanic (demo_dispatcher rt) = 1" "d_json (demo_dispatcher rt) = demo_json"
  "f_type (demo_node as p) = RouteTypeEndPoint" "f_task (demo_node as p) = Some (demo_task p)"
  "f_acceptances (demo_node as p) = as" "f_params (demo_node as p) = Some [id_key ''node'' \<mapsto> ''7'']"
  "f_last (demo_node as p) = False" "t_CORSHelper (demo_task p) = default_CORSHelper"
  "c_req (core demo_run) = demo_request" "c_resp (core demo_run) = NewResponse list_bytebuf"
  "c_params (core demo_run) = Map.empty" "c_heap (core demo_run) = two_errors"
  "c_separate (core demo_run) = False" "calls demo_run = []" "req_method demo_run = ''GET''"
  "t_skipPreCheck (demo_task p) = True"
  by (simp_all add: demo_dispatcher_def demo_node_def demo_task_def demo_run_def demo_request_def req_method_def)

lemma demo_calm: "calm (demo_task None)"
  using default_CORSHelper_keeps by (fastforce simp: calm_def demo_task_def)

lemma demo_ErrorCaught: "t_ErrorCaught (demo_task p) = default_ErrorCaught (demo_dispatcher rt)"
  by (simp add: demo_task_def demo_dispatcher_def default_ErrorCaught_def respond_error_def fun_eq_iff)

theorem dispatch_answers_once_witness:
  "\<exists>s' p pre ec sv wr. DispatchRead (demo_dispatcher (\<lambda>_. Some (demo_node [pass_acceptance] None))) demo_run = (s', p)
    \<and> calls s' = pre @ [CallCORS] @ ec @ sv @ wr \<and> length ec \<le> 1"
proof -
  let ?h = "demo_dispatcher (\<lambda>_. Some (demo_node [pass_acceptance] None))"
  obtain s' p where r: "DispatchRead ?h demo_run = (s', p)" by (cases "DispatchRead ?h demo_run")
  have rt: "d_route ?h (r_path (c_req (core demo_run))) = Some (demo_node [pass_acceptance] None)" by simp
  from dispatch_answers_once [OF _ rt _ _ r] obtain pre ec sv wr where
    "calls s' = pre @ [CallCORS] @ ec @ sv @ wr" "length ec \<le> 1"
    by auto
  with r show ?thesis by blast
qed


theorem refused_never_served_witness:
  "\<exists>s' p todo. DispatchRead (demo_dispatcher (\<lambda>_. Some (demo_node [pass_acceptance, refuse_acceptance] None))) demo_run = (s', p)
    \<and> calls s' = [CallAcceptance 0, CallAcceptance 1, CallCORS] @ todo \<and> list_all (\<lambda>c. \<not> is_task c \<and> \<not> is_acceptance c) todo"
proof -
  let ?h = "demo_dispatcher (\<lambda>_. Some (demo_node [pass_acceptance, refuse_acceptance] None))"
  obtain s' p where r: "DispatchRead ?h demo_run = (s', p)" by (cases "DispatchRead ?h demo_run")
  have rt: "d_route ?h (r_path (c_req (core demo_run))) = Some (demo_node [pass_acceptance, refuse_acceptance] None)"
    by simp
  have pa: "list_all passes [pass_acceptance]" by (simp add: passes_def pass_acceptance_def)
  from refused_never_served [OF _ rt _ _ _ pa _ _ r, of "demo_task None" refuse_acceptance "[]"]
  have "\<exists>todo. calls s' = [CallAcceptance 0, CallAcceptance 1, CallCORS] @ todo
      \<and> list_all (\<lambda>c. \<not> is_task c \<and> \<not> is_acceptance c) todo"
    by (simp add: refuse_acceptance_def)
  with r show ?thesis by blast
qed

theorem panic_becomes_response_witness:
  "\<exists>s' r. DispatchRead (demo_dispatcher (\<lambda>_. Some (demo_node [] (Some (ThrowOther ''boom''))))) demo_run = (s', None)
    \<and> last (calls s') = CallWrite r \<and> statusCode r = 500"
proof -
  let ?n = "demo_node [] (Some (ThrowOther ''boom''))"
  let ?h = "demo_dispatcher (\<lambda>_. Some ?n)"
  have rt: "d_route ?h (r_path (c_req (core demo_run))) = Some ?n" by simp
  obtain s1 where s1: "serve ?h (demo_task (Some (ThrowOther ''boom''))) ?n (locate ?h ?n demo_run)
      = (s1, Throw (ThrowOther ''boom''))" "c_heap (core s1) = two_errors" "\<not> c_separate (core s1)"
    by (simp add: serve_def invokeMethod_def seq_ret_def call_task_def call_with_def demo_task_def
        timing_def set_param_def upd_core_def noting_def req_method_def demo_request_def)
  obtain c2 where c2: "default_CORSHelper (core s1) = (c2, Return ())" "c_heap c2 = two_errors" "\<not> c_separate c2"
    using default_CORSHelper_keeps [of "core s1"] s1 by auto
  have v: "visible two_errors 1 = Some (ServerErrorPanic, Map.empty)" "StatusCode ServerErrorPanic = 500"
    by (simp_all add: two_errors_def no_errors_def alloc_err_def Register_def visible_def ServerErrorPanic_def err_lit_def)
  from panic_becomes_response [OF _ rt _ _ s1(1) _ demo_ErrorCaught, of c2 ServerErrorPanic Map.empty]
  show ?thesis using c2 v two_errors_facts(1) by auto
qed

theorem plain_refusal_answers_default_witness:
  "\<exists>s' r. DispatchRead (demo_dispatcher (\<lambda>_. Some (demo_node [refuse_acceptance] None))) demo_run = (s', None)
    \<and> last (calls s') = CallWrite r \<and> statusCode r = 200"
proof -
  let ?h = "demo_dispatcher (\<lambda>_. Some (demo_node [refuse_acceptance] None))"
  have rt: "d_route ?h (r_path (c_req (core demo_run))) = Some (demo_node [refuse_acceptance] None)" by simp
  from plain_refusal_answers_default [OF _ rt, of "demo_task None" refuse_acceptance] show ?thesis
    by (auto simp: refuse_acceptance_def NewResponse_def)
qed

theorem get_id_reserved_names_witness:
  "TaskGetID ''node'' (c_params (core (locate (demo_dispatcher (\<lambda>_. None)) (demo_node [] None) demo_run))) = None"
  using get_id_reserved_names [of "demo_node [] None" "''node''" "''7''" demo_run "demo_dispatcher (\<lambda>_. None)"]
  by simp

theorem unknown_path_404_witness:
  "\<exists>s' sv r. DispatchRead (demo_dispatcher (\<lambda>_. None)) demo_run = (s', None) \<and> calls s' = sv @ [CallWrite r] \<and> statusCode r = 404"
  using unknown_path_404 [of "demo_dispatcher (\<lambda>_. None)" demo_run "[]"]
  by (auto simp: lb.bytebuf_axioms NewResponse_def)

end
