(* ===== verification/Ghttp_SSE.thy ===== *)
theory Ghttp_SSE
  imports Ghttp_Dispatch
begin

text \<open>
  Server-sent events: \<open>SSEMode\<close> and \<open>DefaultSSEOperation\<close> of \<open>ghttp/httphandlertask.go\<close>,
  \<open>callWriteHeader\<close> of the dispatcher and the last step of every response, \<open>Channel.UnsafeWrite\<close> of
  \<open>ghttp/httpclientchannel.go\<close>, which fills the \<open>http.ResponseWriter\<close>. The lemmas show what a client
  receives, and that it reads the messages back when their fields hold no line break.
\<close>

section \<open>The response writer\<close>

text \<open>
  The part of \<open>http.ResponseWriter\<close> the code uses: the header map, sent with the first
  \<open>WriteHeader\<close>, and the bytes written.
\<close>

record writer =
  w_header :: headers
  w_cookies :: "cookie list"
  w_status :: "int option"
  w_sent :: "headers option"
  w_body :: "byte list"

definition new_writer :: writer where
  "new_writer = \<lparr>w_header = Map.empty, w_cookies = [], w_status = None, w_sent = None, w_body = []\<rparr>"

definition writer_WriteHeader :: "int \<Rightarrow> writer \<Rightarrow> writer" where
  "writer_WriteHeader st w = (case w_status w of
       None \<Rightarrow> w\<lparr>w_status := Some st, w_sent := Some (w_header w)\<rparr>
     | Some _ \<Rightarrow> w)"

text \<open>
  The loops over the header and the cookies: every key of the response replaces the writer's, and the
  cookies are appended, in the order \<open>ck\<close> in which Go ranges over the map.
\<close>

definition copy_headers :: "headers \<Rightarrow> writer \<Rightarrow> writer" where
  "copy_headers h w = w\<lparr>w_header := w_header w ++ h\<rparr>"

definition copy_cookies :: "cookie list \<Rightarrow> writer \<Rightarrow> writer" where
  "copy_cookies cs w = w\<lparr>w_cookies := w_cookies w @ cs\<rparr>"

definition write_bytes :: "byte list \<Rightarrow> writer \<Rightarrow> writer" where
  "write_bytes bs w = (writer_WriteHeader 200 w)\<lparr>w_body := w_body w @ bs\<rparr>"

text \<open>
  \<open>Channel.UnsafeWrite\<close> of a pack with a response. \<open>lost\<close> says whether \<open>Write\<close> of the writer fails;
  the answer is whether there was no error, None a panic on a nil body.
\<close>

definition http_UnsafeWrite ::
  "'b bytebuf_ops \<Rightarrow> ((string \<rightharpoonup> cookie list) \<Rightarrow> cookie list) \<Rightarrow> bool \<Rightarrow> ('b, writer) core
     \<Rightarrow> (('b, writer) core \<times> bool) option" where
  "http_UnsafeWrite ops ck lost c =
     (let r = c_resp c; w = c_user c;
          head = writer_WriteHeader (statusCode r) (copy_cookies (ck (cookies r)) (copy_headers (header r) w)) in
      if c_separate c then
        (if \<not> headerWritten r then Some (c\<lparr>c_user := head, c_resp := r\<lparr>headerWritten := True\<rparr>\<rparr>, True)
         else (case body r of
             None \<Rightarrow> None
           | Some b \<Rightarrow> Some (c\<lparr>c_user := (if lost then w else write_bytes (Bytes ops b) w)\<rparr>, \<not> lost)))
      else (case body r of
          None \<Rightarrow> None
        | Some b \<Rightarrow> Some (c\<lparr>c_user := (if lost then head else write_bytes (Bytes ops b) head)\<rparr>, \<not> lost)))"

text \<open>
  The network below the dispatcher, for one call: whether the channel is active, whether the
  connection is lost, and the order of the cookies. \<open>ctx.Write(obj, future).Sync()\<close> refuses on an
  inactive channel.
\<close>

record net =
  n_active :: bool
  n_lost :: bool
  n_cookies :: "(string \<rightharpoonup> cookie list) \<Rightarrow> cookie list"

definition ctx_Write :: "'b bytebuf_ops \<Rightarrow> net \<Rightarrow> ('b, writer) core \<Rightarrow> ('b, writer) core \<times> bool ret" where
  "ctx_Write ops net c =
     (if \<not> n_active net then (c, Return False)
      else (case http_UnsafeWrite ops (n_cookies net) (n_lost net) c of
          None \<Rightarrow> (c, Throw (ThrowOther ''nil pointer''))
        | Some (c', ok) \<Rightarrow> (c', Return ok)))"

section \<open>The messages\<close>

record sse_message =
  m_comment :: string
  m_event :: string
  m_data :: "string list"
  m_id :: string
  m_retry :: int

definition SSE_Validate :: "sse_message \<Rightarrow> bool" where
  "SSE_Validate m \<longleftrightarrow> \<not> (m_comment m = [] \<and> m_event m = [] \<and> length (m_data m) = 0 \<and> m_id m = [] \<and> m_retry m = 0)"

definition newline :: char where
  "newline = CHR 0x0A"

definition line_of :: "string \<Rightarrow> string" where
  "line_of s = s @ [newline]"

text \<open>The fields that are there, in the order they are written.\<close>

definition sse_lines :: "sse_message \<Rightarrow> string list" where
  "sse_lines m =
     (if m_comment m \<noteq> [] then ['': '' @ m_comment m] else [])
     @ (if m_event m \<noteq> [] then [''event: '' @ m_event m] else [])
     @ (if length (m_data m) > 0 then map (\<lambda>d. ''data: '' @ d) (m_data m) else [])
     @ (if m_id m \<noteq> [] then [''id: '' @ m_id m] else [])
     @ (if m_retry m > 0 then [''retry: '' @ show_int (m_retry m)] else [])"

definition sse_text :: "sse_message \<Rightarrow> string" where
  "sse_text m = concat (map line_of (sse_lines m))"

definition SSEMode :: "('b, 'x) core \<Rightarrow> ('b, 'x) core \<times> bool" where
  "SSEMode c = (case c_params c ''[gone-http]context_pack'' of
       None \<Rightarrow> (c, False)
     | Some _ \<Rightarrow> (c\<lparr>c_resp := SetHeader ''transfer-encoding'' ''identity''
           (SetHeader ''connection'' ''keep-alive''
             (SetHeader ''cache-control'' ''no-cache''
               (SetHeader ''content-type'' ''text/event-stream'' (c_resp c)))), c_separate := True\<rparr>, True))"

text \<open>\<open>callWriteHeader\<close> with a pack; the answer is whether the future it returns succeeds.\<close>

definition callWriteHeader ::
  "('b, writer) dispatcher \<Rightarrow> net \<Rightarrow> ('b, writer) core \<Rightarrow> ('b, writer) core \<times> bool ret" where
  "callWriteHeader h net c =
     (if headerWritten (c_resp c) then (c, Return True)
      else (case fill_response h c of
          (c', Throw p) \<Rightarrow> (c', Throw p)
        | (c', Return _) \<Rightarrow> ctx_Write (d_ops h) net (default_status h c')))"

definition SSE_WriteHeader ::
  "('b, writer) dispatcher \<Rightarrow> net \<Rightarrow> headers \<Rightarrow> ('b, writer) core \<Rightarrow> ('b, writer) core \<times> bool ret" where
  "SSE_WriteHeader h net hs c =
     (if c_params c ''[gone-http]context_pack'' \<noteq> None \<and> c_params c ''[gone-http]dispatcher'' \<noteq> None
      then callWriteHeader h net (c\<lparr>c_resp := (c_resp c)\<lparr>header := hs\<rparr>\<rparr>)
      else (c, Return False))"

definition SSE_WriteMessage ::
  "('b, writer) dispatcher \<Rightarrow> net \<Rightarrow> sse_message \<Rightarrow> ('b, writer) core \<Rightarrow> ('b, writer) core \<times> bool ret" where
  "SSE_WriteMessage h net m c =
     (if c_params c ''[gone-http]context_pack'' = None then (c, Return False)
      else (case (if headerWritten (c_resp c) then (c, Return True)
                  else SSE_WriteHeader h net (header (c_resp c)) c) of
          (c1, Throw p) \<Rightarrow> (c1, Throw p)
        | (c1, Return False) \<Rightarrow> (c1, Return False)
        | (c1, Return True) \<Rightarrow>
            (let text = sse_text m in
             if text = [] then (c1, Return False)
             else ctx_Write (d_ops h) net
                (c1\<lparr>c_resp := SetBody (WriteBytes (d_ops h) (EmptyByteBuf (d_ops h)) (bytes_of (text @ [newline])))
                   (c_resp c1)\<rparr>))))"

fun write_each ::
  "('b, writer) dispatcher \<Rightarrow> net \<Rightarrow> sse_message list \<Rightarrow> ('b, writer) core \<Rightarrow> ('b, writer) core \<times> bool ret" where
  "write_each h net [] c = (c, Return True)"
| "write_each h net (m # ms) c = (case SSE_WriteMessage h net m c of
       (c', Return True) \<Rightarrow> write_each h net ms c'
     | other \<Rightarrow> other)"

definition SSE_WriteMessages ::
  "('b, writer) dispatcher \<Rightarrow> net \<Rightarrow> sse_message list \<Rightarrow> ('b, writer) core \<Rightarrow> ('b, writer) core \<times> bool ret" where
  "SSE_WriteMessages h net ms c =
     (if ms = [] then (c, Return False)
      else if \<not> list_all SSE_Validate ms then (c, Return False)
      else write_each h net ms c)"

section \<open>What a client reads\<close>

text \<open>
  The format as a client reads it (the HTML standard, section 9.2.6): the stream is cut into lines; a
  line is a comment or a field with its value, one blank after the colon dropped; an empty line ends
  the message, and what follows the last line break is not a line yet. The reader keeps the comment,
  which a browser drops.
\<close>

definition value_after :: "string \<Rightarrow> string \<Rightarrow> string" where
  "value_after field l = drop (length field) l"

definition read_line :: "sse_message \<Rightarrow> string \<Rightarrow> sse_message" where
  "read_line m l =
     (if HasPrefix l '': '' then m\<lparr>m_comment := value_after '': '' l\<rparr>
      else if HasPrefix l ''event: '' then m\<lparr>m_event := value_after ''event: '' l\<rparr>
      else if HasPrefix l ''data: '' then m\<lparr>m_data := m_data m @ [value_after ''data: '' l]\<rparr>
      else if HasPrefix l ''id: '' then m\<lparr>m_id := value_after ''id: '' l\<rparr>
      else if HasPrefix l ''retry: '' then
        (case ParseInt (value_after ''retry: '' l) of None \<Rightarrow> m | Some n \<Rightarrow> m\<lparr>m_retry := n\<rparr>)
      else m)"

definition blank_message :: sse_message where
  "blank_message = \<lparr>m_comment = [], m_event = [], m_data = [], m_id = [], m_retry = 0\<rparr>"

fun read_lines :: "sse_message \<Rightarrow> string list \<Rightarrow> sse_message list" where
  "read_lines m [] = []"
| "read_lines m (l # ls) = (if l = [] then m # read_lines blank_message ls else read_lines (read_line m l) ls)"

definition sse_client :: "string \<Rightarrow> sse_message list" where
  "sse_client s = read_lines blank_message (butlast (Split newline s))"

text \<open>A message whose fields fit on a line.\<close>

definition one_line :: "string \<Rightarrow> bool" where
  "one_line s \<longleftrightarrow> newline \<notin> set s"

definition sse_clean :: "sse_message \<Rightarrow> bool" where
  "sse_clean m \<longleftrightarrow> one_line (m_comment m) \<and> one_line (m_event m) \<and> list_all one_line (m_data m)
     \<and> one_line (m_id m) \<and> 0 \<le> m_retry m \<and> m_retry m < 2 ^ 63"

lemma sse_lines_clean:
  assumes "sse_clean m"
  shows "list_all (\<lambda>l. one_line l \<and> l \<noteq> []) (sse_lines m)"
proof -
  have "newline \<notin> set (show_nat n)" for n by (rule show_nat_no) (simp add: newline_def)
  then show ?thesis
    using assms by (auto simp: sse_lines_def sse_clean_def one_line_def list_all_iff newline_def show_int_def)
qed

lemma Split_lines:
  "list_all one_line ls \<Longrightarrow> Split newline (concat (map line_of ls) @ s) = ls @ Split newline s"
  by (induction ls) (simp_all add: line_of_def one_line_def Split_append)

lemma read_lines_fold:
  "list_all (\<lambda>l. l \<noteq> []) ls \<Longrightarrow> read_lines m (ls @ [] # rest) = fold (\<lambda>l k. read_line k l) ls m # read_lines blank_message rest"
  by (induction ls arbitrary: m) auto

lemma read_line_fields:
  "read_line m ('': '' @ v) = m\<lparr>m_comment := v\<rparr>"
  "read_line m (''event: '' @ v) = m\<lparr>m_event := v\<rparr>"
  "read_line m (''data: '' @ v) = m\<lparr>m_data := m_data m @ [v]\<rparr>"
  "read_line m (''id: '' @ v) = m\<lparr>m_id := v\<rparr>"
  "0 < n \<Longrightarrow> n < 2 ^ 63 \<Longrightarrow> read_line m (''retry: '' @ show_int n) = m\<lparr>m_retry := n\<rparr>"
  using ParseInt_show [of "nat n"]
  by (simp_all add: read_line_def HasPrefix_def value_after_def show_int_def)

lemma read_data: "fold (\<lambda>l k. read_line k l) (map (\<lambda>d. ''data: '' @ d) ds) m = m\<lparr>m_data := m_data m @ ds\<rparr>"
proof (induction ds arbitrary: m)
  case (Cons d ds)
  have "fold (\<lambda>l k. read_line k l) (map (\<lambda>d. ''data: '' @ d) (d # ds)) m
      = fold (\<lambda>l k. read_line k l) (map (\<lambda>d. ''data: '' @ d) ds) (read_line m (''data: '' @ d))"
    by (simp only: list.map fold_simps)
  then show ?case by (simp only: Cons.IH read_line_fields(3)) simp
qed simp

lemma read_message:
  assumes "sse_clean m"
  shows "fold (\<lambda>l k. read_line k l) (sse_lines m) blank_message = m"
proof -
  have fields: "fold (\<lambda>l k. read_line k l) (if P then [x] else []) k = (if P then read_line k x else k)"
    for P x k by simp
  show ?thesis
    using assms unfolding sse_lines_def fold_append comp_def fields sse_clean_def
    by (cases m) (auto simp only: read_line_fields read_data sse_message.simps blank_message_def
        length_greater_0_conv split: if_splits, auto)
qed

lemma sse_keys:
  "CanonicalHeaderKey ''content-type'' = ''Content-Type''"
  "CanonicalHeaderKey ''cache-control'' = ''Cache-Control''"
  "CanonicalHeaderKey ''connection'' = ''Connection''"
  "CanonicalHeaderKey ''transfer-encoding'' = ''Transfer-Encoding''"
  by code_simp+

section \<open>The stream of a response\<close>

definition chars_of :: "byte list \<Rightarrow> string" where
  "chars_of bs = map (\<lambda>b. char_of (unat b)) bs"

lemma chars_of_bytes [simp]: "chars_of (bytes_of s) = s"
proof -
  have "char_of (unat (of_nat (of_char c) :: byte)) = c" for c :: char
    using of_char_mod_256 [of c, where ?'a = nat] by (simp add: unat_of_nat)
  then show ?thesis by (simp add: chars_of_def bytes_of_def comp_def)
qed

definition sse_wire :: "sse_message list \<Rightarrow> string" where
  "sse_wire ms = concat (map (\<lambda>m. sse_text m @ [newline]) ms)"

lemma sse_client_wire: "list_all sse_clean ms \<Longrightarrow> sse_client (sse_wire ms) = ms"
proof (induction ms)
  case Nil
  then show ?case by (simp add: sse_client_def sse_wire_def)
next
  case (Cons m ms)
  then have m: "sse_clean m" and ms: "list_all sse_clean ms" by simp_all
  let ?rest = "Split newline (sse_wire ms)"
  have lines: "list_all one_line (sse_lines m)" "list_all (\<lambda>l. l \<noteq> []) (sse_lines m)"
    using sse_lines_clean [OF m] by (simp_all add: list_all_iff)
  have "Split newline (sse_wire (m # ms)) = sse_lines m @ [] # ?rest"
    using Split_lines [OF lines(1), of "newline # sse_wire ms"] by (simp add: sse_wire_def sse_text_def)
  then have "butlast (Split newline (sse_wire (m # ms))) = sse_lines m @ [] # butlast ?rest"
    by (simp add: butlast_append)
  then have "sse_client (sse_wire (m # ms)) = m # read_lines blank_message (butlast ?rest)"
    using read_lines_fold [OF lines(2), of blank_message "butlast ?rest"]
    by (simp add: sse_client_def read_message [OF m])
  then show ?case using Cons.IH [OF ms] by (simp add: sse_client_def)
qed

lemma sse_text_nonempty: "sse_clean m \<Longrightarrow> SSE_Validate m \<Longrightarrow> sse_text m \<noteq> []"
  by (auto simp: sse_text_def sse_lines_def SSE_Validate_def sse_clean_def line_of_def split: if_splits)

text \<open>A response in separate mode on a live channel.\<close>

definition streaming :: "('b, writer) core \<Rightarrow> bool" where
  "streaming c \<longleftrightarrow> c_separate c \<and> headerWritten (c_resp c) \<and> w_status (c_user c) \<noteq> None
    \<and> c_params c ''[gone-http]context_pack'' \<noteq> None"

definition usable :: "('b, writer) dispatcher \<Rightarrow> net \<Rightarrow> bool" where
  "usable h net \<longleftrightarrow> bytebuf (d_ops h) \<and> DefaultStatusResponse h = Map.empty \<and> n_active net \<and> \<not> n_lost net"

lemma WriteMessage_streaming:
  assumes "usable h net" and "streaming c" and "sse_text m \<noteq> []"
  shows "\<exists>c'. SSE_WriteMessage h net m c = (c', Return True) \<and> streaming c'
    \<and> c_user c' = (c_user c)\<lparr>w_body := w_body (c_user c) @ bytes_of (sse_text m @ [newline])\<rparr>"
proof -
  have written: "Bytes (d_ops h) (WriteBytes (d_ops h) (EmptyByteBuf (d_ops h)) bs) = bs" for bs
    using assms(1) by (simp add: usable_def bytebuf.bytes_write bytebuf.bytes_empty)
  show ?thesis
    using assms(2,3) assms(1) [unfolded usable_def]
    by (auto simp: SSE_WriteMessage_def streaming_def ctx_Write_def http_UnsafeWrite_def SetBody_def Let_def
        written write_bytes_def writer_WriteHeader_def)
qed

lemma write_each_streaming:
  assumes "usable h net" and "streaming c" and "list_all (\<lambda>m. sse_text m \<noteq> []) ms"
  shows "\<exists>c'. write_each h net ms c = (c', Return True) \<and> streaming c'
    \<and> c_user c' = (c_user c)\<lparr>w_body := w_body (c_user c) @ bytes_of (sse_wire ms)\<rparr>"
  using assms(2,3)
proof (induction ms arbitrary: c)
  case Nil
  then show ?case by (simp add: sse_wire_def bytes_of_def)
next
  case (Cons m ms)
  then have "sse_text m \<noteq> []" and ms: "list_all (\<lambda>m. sse_text m \<noteq> []) ms" by simp_all
  from WriteMessage_streaming [OF assms(1) Cons.prems(1) this(1)] obtain c1 where c1:
    "SSE_WriteMessage h net m c = (c1, Return True)" "streaming c1"
    "c_user c1 = (c_user c)\<lparr>w_body := w_body (c_user c) @ bytes_of (sse_text m @ [newline])\<rparr>" by blast
  from Cons.IH [OF c1(2) ms] c1 show ?case by (auto simp: sse_wire_def bytes_of_def)
qed

text \<open>The header goes out once, before the first message.\<close>

definition ready :: "('b, writer) core \<Rightarrow> bool" where
  "ready c \<longleftrightarrow> c_separate c \<and> \<not> headerWritten (c_resp c) \<and> w_status (c_user c) = None
    \<and> statusCode (c_resp c) \<noteq> 404
    \<and> c_params c ''[gone-http]context_pack'' \<noteq> None \<and> c_params c ''[gone-http]dispatcher'' \<noteq> None"

definition sent_status :: "('b, 'x) dispatcher \<Rightarrow> ('b, 'x) core \<Rightarrow> int" where
  "sent_status h c = (if statusCode (c_resp c) = 0 then DefaultStatusCode h else statusCode (c_resp c))"

lemma WriteHeader_ready:
  assumes "usable h net" and "ready c"
  shows "\<exists>c'. SSE_WriteHeader h net (header (c_resp c)) c = (c', Return True) \<and> streaming c'
    \<and> w_status (c_user c') = Some (sent_status h c) \<and> w_body (c_user c') = w_body (c_user c)
    \<and> w_sent (c_user c') = Some (w_header (c_user c) ++ header (c_resp c))"
  using assms
  by (auto simp: SSE_WriteHeader_def callWriteHeader_def ready_def usable_def fill_response_def default_status_def
      ctx_Write_def http_UnsafeWrite_def Let_def streaming_def writer_WriteHeader_def copy_cookies_def
      copy_headers_def sent_status_def SetStatusCode_def split: option.splits)

lemma WriteMessage_first:
  assumes "usable h net" and "ready c"
  shows "\<exists>c'. SSE_WriteMessage h net m c = SSE_WriteMessage h net m c' \<and> streaming c'
    \<and> w_status (c_user c') = Some (sent_status h c) \<and> w_body (c_user c') = w_body (c_user c)
    \<and> w_sent (c_user c') = Some (w_header (c_user c) ++ header (c_resp c))"
proof -
  from WriteHeader_ready [OF assms] obtain c' where c':
    "SSE_WriteHeader h net (header (c_resp c)) c = (c', Return True)" "streaming c'"
    "w_status (c_user c') = Some (sent_status h c) \<and> w_body (c_user c') = w_body (c_user c)
    \<and> w_sent (c_user c') = Some (w_header (c_user c) ++ header (c_resp c))" by blast
  moreover have "SSE_WriteMessage h net m c = SSE_WriteMessage h net m c'"
    using assms(2) c'(1,2) by (auto simp: SSE_WriteMessage_def ready_def streaming_def)
  ultimately show ?thesis by blast
qed


text \<open>
  A line break in a field is written as it is, so one datum can forge other fields and whole messages:
  the reader sees two messages, the second with an event nobody sent.
\<close>

theorem sse_line_break_forges:
  "sse_client (sse_wire [blank_message\<lparr>m_data := [''a'' @ newline # newline # ''event: forged'']\<rparr>])
    = [blank_message\<lparr>m_data := [''a'']\<rparr>, blank_message\<lparr>m_event := ''forged''\<rparr>]"
  by code_simp

definition sse_dispatcher :: "(byte list, writer) dispatcher" where
  "sse_dispatcher = \<lparr>d_ops = list_bytebuf, d_json = demo_json, d_route = (\<lambda>_. None), DefaultStatusCode = 200,
     DefaultStatusResponse = Map.empty, d_NotImplemented = 0, d_ServerErrorPanic = 1, d_elapsed = (\<lambda>_. 0),
     d_now = 0, d_TimestampOfTimeHash = (\<lambda>_. 0), d_TimeHash = (\<lambda>s _. s), d_sessionId = (\<lambda>_. ''id''),
     d_session = \<lparr>SessionKey = ''DEFAULT'', SessionExpireTime = 86400, SessionDomain = [],
       SessionHttpOnly = False, SessionSecure = False\<rparr>\<rparr>"

definition sse_core :: "(byte list, writer) core" where
  "sse_core = \<lparr>c_req = demo_request, c_resp = NewResponse list_bytebuf,
     c_params = [''[gone-http]context_pack'' \<mapsto> PPack, ''[gone-http]dispatcher'' \<mapsto> PDispatcher],
     c_heap = two_errors, c_separate = False, c_user = new_writer\<rparr>"

definition up_net :: net where
  "up_net = \<lparr>n_active = True, n_lost = False, n_cookies = (\<lambda>_. [])\<rparr>"


end
