(* ===== verification/Ghttp_GZip.thy ===== *)
theory Ghttp_GZip
  imports Ghttp_SSE
begin

text \<open>
  The compressing handler, \<open>ghttp/httpgziphandler.go\<close>. The compressor \<open>gz\<close> is a parameter; that some
  \<open>gunzip\<close> inverts it is the hypothesis of the property: what a client decodes is the body the task set.
\<close>

record gzip_handler =
  CompressThreshold :: int

definition gzip_Added :: "gzip_handler \<Rightarrow> gzip_handler" where
  "gzip_Added g = (if CompressThreshold g = 0 then g\<lparr>CompressThreshold := 128\<rparr> else g)"

text \<open>
  \<open>gzipWrite\<close>: the writer is closed after the buffer is returned, but before anyone reads it, so the
  buffer holds the whole stream.
\<close>

definition gzipWrite :: "'b bytebuf_ops \<Rightarrow> (byte list \<Rightarrow> byte list) \<Rightarrow> 'b \<Rightarrow> 'b" where
  "gzipWrite ops gz b = WriteBytes ops (EmptyByteBuf ops) (gz (Bytes ops b))"

text \<open>
  \<open>Write\<close> with a pack, up to the \<open>ctx.Write\<close> that ends every branch; \<open>nanos\<close> is the time it took. None is
  the panic on a nil body.
\<close>

definition gzip_Write ::
  "'b bytebuf_ops \<Rightarrow> (byte list \<Rightarrow> byte list) \<Rightarrow> int \<Rightarrow> ('b, 'x) core \<Rightarrow> ('b, 'x) core option" where
  "gzip_Write ops gz nanos c = (case body (c_resp c) of
       None \<Rightarrow> None
     | Some b \<Rightarrow>
        if ReadableBytes ops b < 128 \<or> c_separate c then Some c
        else if Contains (header_get ''accept-encoding'' (r_header (c_req c))) ''gzip''
        then Some (c\<lparr>c_resp := SetBody (gzipWrite ops gz b) (SetHeader ''content-encoding'' ''gzip'' (c_resp c)),
               c_params := (c_params c)(''[gone-http]compress_time'' \<mapsto> PNanos nanos)\<rparr>)
        else Some c)"

text \<open>What a client makes of the bytes on the wire: it undoes the encoding the headers name.\<close>

definition client_body :: "(byte list \<Rightarrow> byte list) \<Rightarrow> writer \<Rightarrow> byte list" where
  "client_body gunzip w = (case w_sent w of
       Some h \<Rightarrow> if header_get ''content-encoding'' h = ''gzip'' then gunzip (w_body w) else w_body w
     | None \<Rightarrow> w_body w)"

lemma encoding_key: "CanonicalHeaderKey ''content-encoding'' = ''Content-Encoding''"
  by code_simp

lemma sent_encoding:
  assumes "h ''Content-Encoding'' = None"
  shows "header_get ''content-encoding'' (h ++ header_set ''content-encoding'' v h') = v"
    and "header_get ''content-encoding'' (h ++ h') = header_get ''content-encoding'' h'"
  using assms by (simp_all add: header_get_def header_set_def encoding_key map_add_def split: option.splits)

lemma gzip_delivered:
  assumes "bytebuf ops" and "\<And>bs. gunzip (gz bs) = bs"
    and "\<not> c_separate c" and "body (c_resp c) = Some b" and "header_get ''content-encoding'' (header (c_resp c)) = []"
    and "c_user c = new_writer"
  shows "\<exists>c1 c2. gzip_Write ops gz nanos c = Some c1 \<and> http_UnsafeWrite ops ck False c1 = Some (c2, True)
    \<and> client_body gunzip (c_user c2) = Bytes ops b \<and> w_status (c_user c2) = Some (statusCode (c_resp c))
    \<and> (w_body (c_user c2) = Bytes ops b
       \<or> Contains (header_get ''accept-encoding'' (r_header (c_req c))) ''gzip'')"
proof -
  note [simp] = bytebuf.bytes_write [OF assms(1)] bytebuf.bytes_empty [OF assms(1)]
  have send: "\<exists>c2. http_UnsafeWrite ops ck False c1 = Some (c2, True)
      \<and> w_sent (c_user c2) = Some (w_header new_writer ++ header (c_resp c1)) \<and> w_body (c_user c2) = Bytes ops b1
      \<and> w_status (c_user c2) = Some (statusCode (c_resp c1))"
    if "\<not> c_separate c1" "body (c_resp c1) = Some b1" "c_user c1 = new_writer" for c1 b1
    using that by (simp add: http_UnsafeWrite_def Let_def new_writer_def copy_headers_def copy_cookies_def
        writer_WriteHeader_def write_bytes_def)
  show ?thesis
  proof (cases "\<not> ReadableBytes ops b < 128 \<and> Contains (header_get ''accept-encoding'' (r_header (c_req c))) ''gzip''")
    case True
    let ?c1 = "c\<lparr>c_resp := SetBody (gzipWrite ops gz b) (SetHeader ''content-encoding'' ''gzip'' (c_resp c)),
               c_params := (c_params c)(''[gone-http]compress_time'' \<mapsto> PNanos nanos)\<rparr>"
    have w: "gzip_Write ops gz nanos c = Some ?c1" using True assms(3,4) by (simp add: gzip_Write_def)
    have "\<not> c_separate ?c1" "body (c_resp ?c1) = Some (gzipWrite ops gz b)" "c_user ?c1 = new_writer"
      using assms by (simp_all add: SetBody_def)
    from send [OF this] w True assms(2) show ?thesis
      by (auto simp: client_body_def SetBody_def SetHeader_def new_writer_def sent_encoding gzipWrite_def)
  next
    case False
    then have "gzip_Write ops gz nanos c = Some c" using assms(4) by (auto simp: gzip_Write_def)
    with send [OF assms(3,4,6)] assms(5) show ?thesis
      by (auto simp: client_body_def new_writer_def sent_encoding)
  qed
qed


definition gzip_core :: "(byte list, writer) core" where
  "gzip_core = sse_core\<lparr>c_req := demo_request\<lparr>r_header := header_set ''accept-encoding'' ''gzip, br'' Map.empty\<rparr>,
     c_resp := SetBody (replicate 200 65) (NewResponse list_bytebuf)\<rparr>"


end
