(* ===== verification/Gws_Messages.thy ===== *)
theory Gws_Messages
  imports Byte_Buf Channel_Net
begin

text \<open>
  WebSocket messages and channels: the messages of \<open>gws/wsobjects.go\<close> with their wire form, the builder
  and the default task of \<open>gws/wshandlertask.go\<close>, the reads, writes and control handlers of
  \<open>gws/websocketchannel.go\<close>, and the handler of \<open>gws/wsinvokehandler.go\<close> that hands a message to the
  task. The connection of the gorilla/websocket package is a parameter.
\<close>

section \<open>Messages\<close>

definition TextMessageType :: int where "TextMessageType = 1"
definition BinaryMessageType :: int where "BinaryMessageType = 2"
definition CloseMessageType :: int where "CloseMessageType = 8"
definition PingMessageType :: int where "PingMessageType = 9"
definition PongMessageType :: int where "PongMessageType = 10"
definition CloseNormalClosure :: int where "CloseNormalClosure = 1000"
definition CloseNoStatusReceived :: int where "CloseNoStatusReceived = 1005"

lemmas type_codes = TextMessageType_def BinaryMessageType_def CloseMessageType_def PingMessageType_def
  PongMessageType_def

text \<open>The struct \<open>DefaultMessage\<close>; a nil slice is None, a deadline is the clock's number.\<close>

record ws_body =
  MessageType :: int
  Message :: "byte list option"
  Dead :: "int option"

text \<open>
  A value of the interface \<open>Message\<close>: a pointer to one of the package's four structs, a nil
  \<open>*DefaultMessage\<close>, which is not a nil interface, or another implementation, given by what its
  three methods answer.
\<close>

datatype ws_message =
    DefaultMsg ws_body
  | CloseMsg ws_body int
  | PingMsg ws_body
  | PongMsg ws_body
  | NilDefaultMsg
  | AlienMsg int "byte list" "int option"

definition bytes_of :: "byte list option \<Rightarrow> byte list" where
  "bytes_of m = (case m of None \<Rightarrow> [] | Some bs \<Rightarrow> bs)"

fun msg_Type :: "ws_message \<Rightarrow> panic + int" where
  "msg_Type (DefaultMsg b) = Inr (MessageType b)"
| "msg_Type (CloseMsg b _) = Inr (MessageType b)"
| "msg_Type (PingMsg b) = Inr (MessageType b)"
| "msg_Type (PongMsg b) = Inr (MessageType b)"
| "msg_Type NilDefaultMsg = Inl NilDeref"
| "msg_Type (AlienMsg t _ _) = Inr t"

fun msg_Deadline :: "ws_message \<Rightarrow> panic + int option" where
  "msg_Deadline (DefaultMsg b) = Inr (Dead b)"
| "msg_Deadline (CloseMsg b _) = Inr (Dead b)"
| "msg_Deadline (PingMsg b) = Inr (Dead b)"
| "msg_Deadline (PongMsg b) = Inr (Dead b)"
| "msg_Deadline NilDefaultMsg = Inl NilDeref"
| "msg_Deadline (AlienMsg _ _ d) = Inr d"

text \<open>\<open>StringMessage\<close>: a Go string is its bytes.\<close>

definition StringMessage :: "ws_body \<Rightarrow> byte list" where
  "StringMessage b = bytes_of (Message b)"

text \<open>
  \<open>CloseMessage.Encoded\<close>: the two bytes of the code, cut to 16 bits, before the message. It replaces a
  nil message by an empty one, so the message is answered too.
\<close>

definition close_Encoded :: "ws_body \<Rightarrow> int \<Rightarrow> byte list \<times> ws_body" where
  "close_Encoded b code = (if code = CloseNoStatusReceived then ([], b)
     else (let b' = (if Message b = None then b\<lparr>Message := Some []\<rparr> else b)
           in (be_bytes 2 (unat (word_of_int code :: u16)) @ bytes_of (Message b'), b')))"

fun Encoded :: "ws_message \<Rightarrow> panic + byte list \<times> ws_message" where
  "Encoded (DefaultMsg b) = Inr (bytes_of (Message b), DefaultMsg b)"
| "Encoded (CloseMsg b code) = (case close_Encoded b code of (bs, b') \<Rightarrow> Inr (bs, CloseMsg b' code))"
| "Encoded (PingMsg b) = Inr (bytes_of (Message b), PingMsg b)"
| "Encoded (PongMsg b) = Inr (bytes_of (Message b), PongMsg b)"
| "Encoded NilDefaultMsg = Inl NilDeref"
| "Encoded (AlienMsg t bs d) = Inr (bs, AlienMsg t bs d)"

text \<open>\<open>_ParseMessage\<close>: an unknown type gives the nil pointer.\<close>

definition ParseMessage :: "int \<Rightarrow> byte list option \<Rightarrow> ws_message" where
  "ParseMessage t bs =
     (if t = 1 then DefaultMsg \<lparr>MessageType = TextMessageType, Message = bs, Dead = None\<rparr>
      else if t = 2 then DefaultMsg \<lparr>MessageType = BinaryMessageType, Message = bs, Dead = None\<rparr>
      else NilDefaultMsg)"

text \<open>\<open>DefaultMessageBuilder\<close>.\<close>

definition build_Text :: "byte list \<Rightarrow> ws_message" where
  "build_Text s = DefaultMsg \<lparr>MessageType = TextMessageType, Message = Some s, Dead = None\<rparr>"

definition build_Binary :: "byte list option \<Rightarrow> ws_message" where
  "build_Binary m = DefaultMsg \<lparr>MessageType = BinaryMessageType, Message = m, Dead = None\<rparr>"

definition build_Close :: "byte list option \<Rightarrow> int \<Rightarrow> ws_message" where
  "build_Close m code = CloseMsg \<lparr>MessageType = CloseMessageType, Message = m, Dead = None\<rparr> code"

definition build_Ping :: "byte list option \<Rightarrow> int option \<Rightarrow> ws_message" where
  "build_Ping m d = PingMsg \<lparr>MessageType = PingMessageType, Message = m, Dead = d\<rparr>"

definition build_Pong :: "byte list option \<Rightarrow> int option \<Rightarrow> ws_message" where
  "build_Pong m d = PongMsg \<lparr>MessageType = PongMessageType, Message = m, Dead = d\<rparr>"

section \<open>The channel\<close>

text \<open>
  The connection of the WebSocket library: the two writes, the read limit, and \<open>ReadMessage\<close>, which
  answers the control frames it handed to the handlers on the way, in order, and then the message or
  the error. Frames and codes are as the library gives them. \<open>Dial\<close> answers a connection.
\<close>

datatype control_frame = GotPing "byte list" | GotPong "byte list" | GotClose int "byte list"

record 'w ws_ops =
  WriteControl :: "int \<Rightarrow> byte list \<Rightarrow> int \<Rightarrow> 'w \<Rightarrow> net_err option \<times> 'w"
  WriteMessage :: "int \<Rightarrow> byte list \<Rightarrow> 'w \<Rightarrow> net_err option \<times> 'w"
  SetReadLimit :: "int \<Rightarrow> 'w \<Rightarrow> 'w"
  ReadMessage :: "'w \<Rightarrow> (control_frame list \<times> (net_err + int \<times> byte list)) \<times> 'w"

text \<open>
  \<open>gws.Channel\<close>: whether it is active (its alive future), whether it has a connection, the WebSocket
  connection, and whether there is a response, which the log lines read.
\<close>

record 'w ws_channel =
  wc_active :: bool
  wc_conn :: bool
  wsConn :: "'w option"
  wc_response :: bool

datatype ws_obj = WsMessage ws_message | WsObject string

text \<open>What the channel fires into its pipeline.\<close>

datatype ws_event = WsRead ws_message | WsReadCompleted

fun handle_control :: "control_frame \<Rightarrow> ws_event list" where
  "handle_control (GotPing m) = [WsRead (PingMsg \<lparr>MessageType = PingMessageType, Message = Some m, Dead = None\<rparr>), WsReadCompleted]"
| "handle_control (GotPong m) = [WsRead (PongMsg \<lparr>MessageType = PongMessageType, Message = Some m, Dead = None\<rparr>), WsReadCompleted]"
| "handle_control (GotClose c m) =
     [WsRead (CloseMsg \<lparr>MessageType = CloseMessageType, Message = Some m, Dead = None\<rparr> c), WsReadCompleted]"

text \<open>Three seconds, in nanoseconds: the deadline of a control frame that has none.\<close>

definition control_deadline :: "int \<Rightarrow> int option \<Rightarrow> int" where
  "control_deadline now d = (case d of None \<Rightarrow> now + 3 * 10 ^ 9 | Some t \<Rightarrow> t)"

text \<open>The write itself, the inner function of \<open>UnsafeWrite\<close>.\<close>

definition send_message ::
  "'w ws_ops \<Rightarrow> int \<Rightarrow> ws_message \<Rightarrow> 'w option \<Rightarrow> panic + net_err option \<times> 'w option" where
  "send_message W now m conn = (case Encoded m of
       Inl p \<Rightarrow> Inl p
     | Inr (bs, m') \<Rightarrow>
        (case m' of
           DefaultMsg b \<Rightarrow> (case conn of None \<Rightarrow> Inl NilDeref
              | Some w \<Rightarrow> (case WriteMessage W (MessageType b) bs w of (err, w') \<Rightarrow> Inr (err, Some w')))
         | AlienMsg _ _ _ \<Rightarrow> Inr (Some (ErrOther ''wrong object type''), conn)
         | _ \<Rightarrow> (case (msg_Deadline m', msg_Type m') of
              (Inr d, Inr t) \<Rightarrow> (case conn of None \<Rightarrow> Inl NilDeref
                 | Some w \<Rightarrow> (case WriteControl W t bs (control_deadline now d) w of (err, w') \<Rightarrow> Inr (err, Some w')))
            | (Inl p, _) \<Rightarrow> Inl p
            | (_, Inl p) \<Rightarrow> Inl p)))"

text \<open>\<open>UnsafeWrite\<close>: a failed write is logged, and the log line reads the response.\<close>

definition ws_UnsafeWrite ::
  "'w ws_ops \<Rightarrow> int \<Rightarrow> ws_obj \<Rightarrow> 'w ws_channel \<Rightarrow> (panic + net_err option) \<times> 'w ws_channel" where
  "ws_UnsafeWrite W now obj ch =
     (if \<not> wc_active ch then (Inr (Some ErrNetClosed), ch)
      else (case obj of
          WsObject _ \<Rightarrow> (Inr (Some ErrUnknownObjectType), ch)
        | WsMessage m \<Rightarrow> (case send_message W now m (wsConn ch) of
              Inl p \<Rightarrow> (Inl p, ch)
            | Inr (None, c) \<Rightarrow> (Inr None, ch\<lparr>wsConn := c\<rparr>)
            | Inr (Some e, c) \<Rightarrow> (if wc_response ch then Inr (Some e) else Inl NilDeref, ch\<lparr>wsConn := c\<rparr>))))"

text \<open>\<open>UnsafeRead\<close>: the events its control handlers fired, then what it answers.\<close>

datatype ws_read = WsGot ws_message | WsErr net_err | WsPanic panic

definition ws_UnsafeRead ::
  "'w ws_ops \<Rightarrow> params \<Rightarrow> 'w ws_channel \<Rightarrow> (ws_event list \<times> ws_read) \<times> 'w ws_channel" where
  "ws_UnsafeRead W ps ch =
     (if \<not> wc_conn ch then (([], WsErr ErrNilObject), ch)
      else if \<not> wc_active ch then (([], WsErr ErrNetClosed), ch)
      else (case wsConn ch of
          None \<Rightarrow> (([], WsPanic NilDeref), ch)
        | Some w \<Rightarrow>
           (case ReadMessage W (SetReadLimit W (GetParamInt64Default ps ''ws_read_limit'' 0) w) of
              ((ctl, Inl e), w') \<Rightarrow> ((concat (map handle_control ctl), WsErr e), ch\<lparr>wsConn := Some w'\<rparr>)
            | ((ctl, Inr (t, bs)), w') \<Rightarrow>
                ((concat (map handle_control ctl), WsGot (ParseMessage t (Some bs))), ch\<lparr>wsConn := Some w'\<rparr>))))"

text \<open>\<open>UnsafeConnect\<close>; the address is None when it is not a \<open>WSCustomConnectConfig\<close>.\<close>

definition ws_UnsafeConnect ::
  "(string \<times> 'hd \<Rightarrow> net_err + 'w) \<Rightarrow> (string \<times> 'hd) option \<Rightarrow> 'w ws_channel \<Rightarrow> net_err option \<times> 'w ws_channel" where
  "ws_UnsafeConnect dial conf ch = (case conf of
       None \<Rightarrow> (Some ErrUnknownObjectType, ch)
     | Some c \<Rightarrow> (case dial c of
          Inl e \<Rightarrow> (Some e, ch)
        | Inr w \<Rightarrow> (None, ch\<lparr>wsConn := Some w, wc_response := True, wc_conn := True\<rparr>)))"

section \<open>The task and the handler that calls it\<close>

text \<open>
  A task's callback answers the messages it writes to the context, or panics after writing some. The
  calls of \<open>WSErrorCaught\<close> take the panic.
\<close>

datatype task_event = CalledText | CalledBinary | CalledClose | CalledPing | CalledPong

record ws_task =
  WSText :: "ws_body \<Rightarrow> ws_message list \<times> panic option"
  WSBinary :: "ws_body \<Rightarrow> ws_message list \<times> panic option"
  WSClose :: "ws_body \<Rightarrow> int \<Rightarrow> ws_message list \<times> panic option"
  WSPing :: "ws_body \<Rightarrow> ws_message list \<times> panic option"
  WSPong :: "ws_body \<Rightarrow> ws_message list \<times> panic option"
  WSErrorCaught :: "panic \<Rightarrow> ws_message list"

text \<open>The body of \<open>_Call\<close>: dispatch on the declared type, then assert the struct.\<close>

definition call_by_type :: "ws_task \<Rightarrow> ws_message \<Rightarrow> task_event list \<times> ws_message list \<times> panic option" where
  "call_by_type k m = (case msg_Type m of
       Inl p \<Rightarrow> ([], [], Some p)
     | Inr t \<Rightarrow>
        if t = TextMessageType then
          (case m of DefaultMsg b \<Rightarrow> ([CalledText], WSText k b) | _ \<Rightarrow> ([], [], Some BadAssertion))
        else if t = BinaryMessageType then
          (case m of DefaultMsg b \<Rightarrow> ([CalledBinary], WSBinary k b) | _ \<Rightarrow> ([], [], Some BadAssertion))
        else if t = CloseMessageType then
          (case m of CloseMsg b c \<Rightarrow> ([CalledClose], WSClose k b c) | _ \<Rightarrow> ([], [], Some BadAssertion))
        else if t = PingMessageType then
          (case m of PingMsg b \<Rightarrow> ([CalledPing], WSPing k b) | _ \<Rightarrow> ([], [], Some BadAssertion))
        else if t = PongMessageType then
          (case m of PongMsg b \<Rightarrow> ([CalledPong], WSPong k b) | _ \<Rightarrow> ([], [], Some BadAssertion))
        else ([], [], None))"

text \<open>\<open>_Call\<close>: a panic is caught and handed to \<open>WSErrorCaught\<close>.\<close>

definition ws_Call :: "ws_task \<Rightarrow> ws_message \<Rightarrow> task_event list \<times> ws_message list \<times> panic option" where
  "ws_Call k m = (case call_by_type k m of
       (cs, ws, None) \<Rightarrow> (cs, ws, None)
     | (cs, ws, Some p) \<Rightarrow> (cs, ws @ WSErrorCaught k p, Some p))"

text \<open>
  \<open>InvokeHandler.Read\<close>: Inl is the object fired on, Inr what \<open>_Call\<close> did. \<open>is_ws\<close> says whether the
  context's channel is a \<open>*gws.Channel\<close>.
\<close>

definition invoke_Read ::
  "ws_task \<Rightarrow> bool \<Rightarrow> ws_obj \<Rightarrow> ws_obj + task_event list \<times> ws_message list \<times> panic option" where
  "invoke_Read k is_ws obj = (case obj of
       WsMessage m \<Rightarrow> if is_ws then Inr (ws_Call k m) else Inl obj
     | WsObject _ \<Rightarrow> Inl obj)"

text \<open>\<open>DefaultHandlerTask\<close>: a ping is answered, with a minute to send it; the rest does nothing.\<close>

definition default_WSPing :: "int \<Rightarrow> ws_body \<Rightarrow> ws_message list" where
  "default_WSPing now b =
     [PongMsg \<lparr>MessageType = PongMessageType, Message = Message b, Dead = Some (now + 60 * 10 ^ 9)\<rparr>]"

definition default_ws_task :: "int \<Rightarrow> ws_task" where
  "default_ws_task now = \<lparr>
     WSText = \<lambda>_. ([], None), WSBinary = \<lambda>_. ([], None), WSClose = \<lambda>_ _. ([], None),
     WSPing = \<lambda>b. (default_WSPing now b, None), WSPong = \<lambda>_. ([], None), WSErrorCaught = \<lambda>_. []\<rparr>"

section \<open>Properties\<close>

text \<open>
  How RFC 6455 (5.5.1) reads the body of a close frame: no body is code 1005, otherwise two bytes of code
  and the reason.
\<close>

definition parse_close :: "byte list \<Rightarrow> int \<times> byte list" where
  "parse_close bs = (if bs = [] then (1005, []) else (int (be_value (take 2 bs)), drop 2 bs))"

lemma parse_close_frame: "parse_close (be_bytes 2 v @ bs) = (int (v mod 65536), bs)"
proof -
  have "length (be_bytes 2 v) \<noteq> 0" by simp
  then have "be_bytes 2 v \<noteq> []" by (metis list.size(3))
  then show ?thesis by (simp add: parse_close_def be_value_bytes)
qed

lemma unat_code: "int (unat (word_of_int code :: u16)) = code mod 65536"
  by (simp add: uint_word_of_int)

text \<open>
  C19. A close message travels: its encoding, read the way the protocol reads a close frame, gives the
  code modulo \<open>2^16\<close> and the reason, except that code 1005 sends an empty frame and the reason is lost;
  and the message a receiving channel makes of the frame encodes to the same bytes again, unless the code
  had more than 16 bits.
\<close>

theorem close_frame_roundtrip:
  "\<exists>bs m'. Encoded (build_Close msg code) = Inr (bs, m')
     \<and> parse_close bs = (if code = 1005 then (1005, []) else (code mod 65536, bytes_of msg))
     \<and> length bs = (if code = 1005 then 0 else 2 + length (bytes_of msg))
     \<and> (code \<in> {0 ..< 65536} \<longrightarrow>
          (\<exists>b. handle_control (GotClose (fst (parse_close bs)) (snd (parse_close bs)))
                 = [WsRead (CloseMsg b code), WsReadCompleted]
             \<and> Encoded (CloseMsg b code) = Inr (bs, CloseMsg b code)))"
proof (cases "code = 1005")
  case True
  then show ?thesis
    by (simp add: build_Close_def close_Encoded_def CloseNoStatusReceived_def parse_close_def)
next
  case False
  define bs where "bs = be_bytes 2 (unat (word_of_int code :: u16)) @ bytes_of msg"
  define b where "b = \<lparr>MessageType = CloseMessageType, Message = Some (bytes_of msg), Dead = None\<rparr>"
  have enc: "close_Encoded \<lparr>MessageType = CloseMessageType, Message = msg, Dead = None\<rparr> code = (bs, b)"
    using False by (cases msg) (simp_all add: close_Encoded_def CloseNoStatusReceived_def bs_def b_def bytes_of_def)
  have p: "parse_close bs = (code mod 65536, bytes_of msg)"
    by (simp add: bs_def parse_close_frame zmod_int uint_word_of_int)
  have len: "length bs = 2 + length (bytes_of msg)" by (simp add: bs_def)
  have again: "close_Encoded b code = (bs, b)"
    using False by (simp add: close_Encoded_def CloseNoStatusReceived_def bs_def b_def bytes_of_def)
  have "code \<in> {0 ..< 65536} \<Longrightarrow> code mod 65536 = code" by simp
  with False p enc len again show ?thesis by (auto simp: build_Close_def b_def)
qed

theorem close_frame_roundtrip_witness:
  "\<exists>bs m'. Encoded (build_Close (Some [111, 107]) 1000) = Inr (bs, m')
     \<and> parse_close bs = (1000, [111, 107]) \<and> length bs = 4
     \<and> (\<exists>b. handle_control (GotClose 1000 [111, 107]) = [WsRead (CloseMsg b 1000), WsReadCompleted]
             \<and> Encoded (CloseMsg b 1000) = Inr (bs, CloseMsg b 1000))"
  using close_frame_roundtrip [of "Some [111, 107]" 1000] by (auto simp: bytes_of_def)

text \<open>The messages a read delivers to the pipeline, in order.\<close>

definition delivered :: "ws_event list \<times> ws_read \<Rightarrow> ws_message list" where
  "delivered r = [m. WsRead m \<leftarrow> fst r] @ (case snd r of WsGot m \<Rightarrow> [m] | _ \<Rightarrow> [])"

text \<open>The callback meant for a message and what it does.\<close>

fun meant :: "ws_task \<Rightarrow> ws_message \<Rightarrow> (task_event \<times> ws_message list \<times> panic option) option" where
  "meant k (DefaultMsg b) = (if MessageType b = 1 then Some (CalledText, WSText k b)
     else if MessageType b = 2 then Some (CalledBinary, WSBinary k b) else None)"
| "meant k (CloseMsg b c) = (if MessageType b = 8 then Some (CalledClose, WSClose k b c) else None)"
| "meant k (PingMsg b) = (if MessageType b = 9 then Some (CalledPing, WSPing k b) else None)"
| "meant k (PongMsg b) = (if MessageType b = 10 then Some (CalledPong, WSPong k b) else None)"
| "meant k NilDefaultMsg = None"
| "meant k (AlienMsg _ _ _) = None"

lemma call_meant:
  "meant k m = Some (c, ws, p) \<Longrightarrow> call_by_type k m = ([c], ws, p)"
  by (cases m) (auto simp: call_by_type_def type_codes split: if_splits)

lemma call_not_meant:
  "meant k m = None \<Longrightarrow> call_by_type k m = ([], [],
     case msg_Type m of Inl p \<Rightarrow> Some p | Inr t \<Rightarrow> if t \<in> {1, 2, 8, 9, 10} then Some BadAssertion else None)"
  by (cases m) (auto simp: call_by_type_def type_codes split: if_splits)

lemma delivered_controls:
  "[m. WsRead m \<leftarrow> concat (map handle_control ctl)] = concat (map (\<lambda>c. [m. WsRead m \<leftarrow> handle_control c]) ctl)"
  by (induction ctl) auto

definition control_msg :: "control_frame \<Rightarrow> ws_message" where
  "control_msg c = (case c of
       GotPing m \<Rightarrow> build_Ping (Some m) None
     | GotPong m \<Rightarrow> build_Pong (Some m) None
     | GotClose code m \<Rightarrow> build_Close (Some m) code)"

lemma delivered_control [simp]: "[m. WsRead m \<leftarrow> handle_control c] = [control_msg c]"
  by (cases c) (simp_all add: control_msg_def build_Ping_def build_Pong_def build_Close_def)

lemma delivered_reads:
  "delivered (concat (map handle_control ctl), r) = map control_msg ctl @ (case r of WsGot m \<Rightarrow> [m] | _ \<Rightarrow> [])"
  by (simp add: delivered_def delivered_controls concat_map_singleton)

lemma ws_UnsafeRead_cases:
  assumes "ws_UnsafeRead W ps ch = (r, ch')"
  shows "delivered r = [] \<or> (\<exists>w ctl x w'. wsConn ch = Some w
    \<and> ReadMessage W (SetReadLimit W (GetParamInt64Default ps ''ws_read_limit'' 0) w) = ((ctl, x), w')
    \<and> delivered r = map control_msg ctl
        @ (case x of Inl _ \<Rightarrow> [] | Inr (t, bs) \<Rightarrow> [ParseMessage t (Some bs)]))"
proof (cases "\<not> wc_conn ch \<or> \<not> wc_active ch \<or> wsConn ch = None")
  case True
  with assms show ?thesis by (auto simp: ws_UnsafeRead_def delivered_def split: if_splits)
next
  case False
  then obtain w where w: "wsConn ch = Some w" and ok: "wc_conn ch" "wc_active ch" by auto
  obtain ctl x w' where r: "ReadMessage W (SetReadLimit W (GetParamInt64Default ps ''ws_read_limit'' 0) w) = ((ctl, x), w')"
    by (metis prod.collapse)
  have "delivered r = map control_msg ctl @ (case x of Inl _ \<Rightarrow> [] | Inr (t, bs) \<Rightarrow> [ParseMessage t (Some bs)])"
    using assms w ok r by (cases x) (auto simp: ws_UnsafeRead_def delivered_reads)
  with r w show ?thesis by blast
qed


lemma delivered_meant:
  assumes "ws_UnsafeRead W ps ch = (r, ch')"
    and "\<forall>w ctl t bs w'. ReadMessage W w = ((ctl, Inr (t, bs)), w') \<longrightarrow> t \<in> {1, 2}"
    and "m \<in> set (delivered r)"
  shows "meant k m \<noteq> None"
proof -
  from ws_UnsafeRead_cases [OF assms(1)] assms(3) obtain w ctl x w' where
    r: "ReadMessage W w = ((ctl, x), w')" and m: "m \<in> set (map control_msg ctl
      @ (case x of Inl _ \<Rightarrow> [] | Inr (t, bs) \<Rightarrow> [ParseMessage t (Some bs)]))" by auto
  from m consider c where "m = control_msg c" | t bs where "x = Inr (t, bs)" "m = ParseMessage t (Some bs)"
    by (auto split: sum.splits)
  then show ?thesis
  proof cases
    case (1 c)
    then show ?thesis
      by (cases c) (simp_all add: control_msg_def build_Ping_def build_Pong_def build_Close_def type_codes)
  next
    case (2 t bs)
    with assms(2) r have "t \<in> {1, 2}" by blast
    with 2 show ?thesis by (auto simp: ParseMessage_def type_codes)
  qed
qed

text \<open>
  What a WebSocket channel delivers reaches the callback of its kind: when the connection yields only
  text and binary messages, every message a read delivers, the control frames that came before it
  included, makes exactly one call, the one meant for it; a panic of that callback goes to
  \<open>WSErrorCaught\<close> and no further, and none comes from the dispatch itself.
\<close>

theorem delivered_dispatch:
  assumes "ws_UnsafeRead W ps ch = (r, ch')"
    and "\<forall>w ctl t bs w'. ReadMessage W w = ((ctl, Inr (t, bs)), w') \<longrightarrow> t \<in> {1, 2}"
    and "m \<in> set (delivered r)"
  shows "\<exists>c ws p. meant k m = Some (c, ws, p)
     \<and> invoke_Read k True (WsMessage m)
         = Inr ([c], (case p of None \<Rightarrow> ws | Some e \<Rightarrow> ws @ WSErrorCaught k e), p)"
proof -
  from delivered_meant [OF assms] obtain c ws p where e: "meant k m = Some (c, ws, p)" by fast
  with call_meant [OF e] show ?thesis
    by (auto simp: invoke_Read_def ws_Call_def split: option.splits)
qed

text \<open>
  A message whose struct does not fit its declared type, a nil message and a message of an unknown
  type reach no callback: the first two are reported to \<open>WSErrorCaught\<close>, the last is dropped in silence.
\<close>

theorem misfit_dispatch:
  assumes "meant k m = None"
  shows "invoke_Read k True (WsMessage m) = Inr ([],
     (case msg_Type m of
        Inl p \<Rightarrow> WSErrorCaught k p
      | Inr t \<Rightarrow> if t \<in> {1, 2, 8, 9, 10} then WSErrorCaught k BadAssertion else []),
     (case msg_Type m of Inl p \<Rightarrow> Some p | Inr t \<Rightarrow> if t \<in> {1, 2, 8, 9, 10} then Some BadAssertion else None))"
  by (simp add: invoke_Read_def ws_Call_def call_not_meant [OF assms] split: sum.splits)

theorem misfit_dispatch_witness:
  "invoke_Read (default_ws_task 0) True (WsMessage (AlienMsg 8 [] None)) = Inr ([], [], Some BadAssertion)
   \<and> meant (default_ws_task 0) (AlienMsg 8 [] None) = None"
  using misfit_dispatch [of "default_ws_task 0" "AlienMsg 8 [] None"] by (simp add: default_ws_task_def)

text \<open>What a list of writes leaves of the channel; the first failed one ends it.\<close>

fun write_all :: "'w ws_ops \<Rightarrow> int \<Rightarrow> ws_message list \<Rightarrow> 'w ws_channel \<Rightarrow> (panic + net_err option) \<times> 'w ws_channel" where
  "write_all W now [] ch = (Inr None, ch)"
| "write_all W now (m # ms) ch = (case ws_UnsafeWrite W now (WsMessage m) ch of
     (Inr None, ch') \<Rightarrow> write_all W now ms ch'
   | (r, ch') \<Rightarrow> (r, ch'))"

text \<open>The control writes of a list of payloads as the connection sees them.\<close>

fun pongs :: "'w ws_ops \<Rightarrow> int \<Rightarrow> byte list list \<Rightarrow> 'w \<Rightarrow> net_err option \<times> 'w" where
  "pongs W dl [] w = (None, w)"
| "pongs W dl (m # ms) w = (case WriteControl W 10 m dl w of
     (None, w') \<Rightarrow> pongs W dl ms w'
   | (e, w') \<Rightarrow> (e, w'))"

definition ping_payloads :: "control_frame list \<Rightarrow> byte list list" where
  "ping_payloads ctl = [m. GotPing m \<leftarrow> ctl]"

lemma default_answers:
  "concat (map (\<lambda>m. fst (snd (ws_Call (default_ws_task now) m))) (map control_msg ctl))
     = map (\<lambda>m. build_Pong (Some m) (Some (now + 60 * 10 ^ 9))) (ping_payloads ctl)"
proof (induction ctl)
  case (Cons c ctl)
  then show ?case
    by (cases c) (simp_all add: ping_payloads_def control_msg_def build_Ping_def build_Pong_def build_Close_def
      ws_Call_def call_by_type_def type_codes default_ws_task_def default_WSPing_def)
qed (simp add: ping_payloads_def)

lemma default_data_silent:
  "fst (snd (ws_Call (default_ws_task now) (ParseMessage t bs))) = []"
  by (simp add: ParseMessage_def ws_Call_def call_by_type_def type_codes default_ws_task_def)

lemma write_pong:
  assumes "wc_active ch" and "wsConn ch = Some w"
  shows "ws_UnsafeWrite W now (WsMessage (build_Pong (Some m) (Some dl))) ch =
    (case WriteControl W 10 m dl w of
       (None, w') \<Rightarrow> (Inr None, ch\<lparr>wsConn := Some w'\<rparr>)
     | (Some e, w') \<Rightarrow> (if wc_response ch then Inr (Some e) else Inl NilDeref, ch\<lparr>wsConn := Some w'\<rparr>))"
  using assms by (auto simp: ws_UnsafeWrite_def send_message_def build_Pong_def bytes_of_def type_codes
    control_deadline_def split: prod.splits option.splits)

lemma write_pongs:
  assumes "wc_active ch" and "wsConn ch = Some w" and "pongs W dl ps w = (None, w')"
  shows "write_all W now (map (\<lambda>m. build_Pong (Some m) (Some dl)) ps) ch = (Inr None, ch\<lparr>wsConn := Some w'\<rparr>)"
  using assms
proof (induction ps arbitrary: ch w)
  case (Cons m ps)
  from Cons.prems(3) obtain v where v: "WriteControl W 10 m dl w = (None, v)" and rest: "pongs W dl ps v = (None, w')"
    by (auto split: prod.splits option.splits)
  show ?case using Cons.IH [of "ch\<lparr>wsConn := Some v\<rparr>" v] Cons.prems(1,2) rest v
    by (simp add: write_pong)
qed simp

text \<open>
  Every ping is answered. With the default task, what the messages of one read make it write are the
  pongs of the pings received, in order and with their payloads, and nothing else; and as long as the
  connection takes them, writing them puts exactly those pong frames on it, due within a minute.
\<close>

theorem pings_answered:
  assumes "ws_UnsafeRead W ps ch = (r, ch')" and "delivered r \<noteq> []"
  shows "\<exists>ctl x w w'. wsConn ch = Some w
    \<and> ReadMessage W (SetReadLimit W (GetParamInt64Default ps ''ws_read_limit'' 0) w) = ((ctl, x), w') \<and>
    (let answers = concat (map (\<lambda>m. fst (snd (ws_Call (default_ws_task now) m))) (delivered r));
         due = now + 60 * 10 ^ 9
     in answers = map (\<lambda>m. build_Pong (Some m) (Some due)) (ping_payloads ctl)
      \<and> (\<forall>v v' out. wc_active out \<and> wsConn out = Some v \<and> pongs W due (ping_payloads ctl) v = (None, v')
           \<longrightarrow> write_all W now answers out = (Inr None, out\<lparr>wsConn := Some v'\<rparr>)))"
proof -
  from ws_UnsafeRead_cases [OF assms(1)] assms(2) obtain w ctl x w' where
    w: "wsConn ch = Some w"
    and r: "ReadMessage W (SetReadLimit W (GetParamInt64Default ps ''ws_read_limit'' 0) w) = ((ctl, x), w')"
    and d: "delivered r = map control_msg ctl
        @ (case x of Inl _ \<Rightarrow> [] | Inr (t, bs) \<Rightarrow> [ParseMessage t (Some bs)])" by blast
  have "concat (map (\<lambda>m. fst (snd (ws_Call (default_ws_task now) m)))
      (case x of Inl _ \<Rightarrow> [] | Inr (t, bs) \<Rightarrow> [ParseMessage t (Some bs)])) = []"
    by (auto simp: default_data_silent split: sum.splits)
  then have a: "concat (map (\<lambda>m. fst (snd (ws_Call (default_ws_task now) m))) (delivered r))
      = map (\<lambda>m. build_Pong (Some m) (Some (now + 60 * 10 ^ 9))) (ping_payloads ctl)"
    unfolding d map_append concat_append default_answers by simp
  show ?thesis
    unfolding Let_def a
    by (intro exI [of _ ctl] exI [of _ x] exI [of _ w] exI [of _ w'] conjI allI impI w r refl)
       (blast intro: write_pongs)
qed

text \<open>A connection that yields a ping and a text, and keeps what is written to it.\<close>

definition demo_ws :: "(int \<times> byte list) list ws_ops" where
  "demo_ws = \<lparr>WriteControl = \<lambda>t bs d w. (None, w @ [(t, bs)]), WriteMessage = \<lambda>t bs w. (None, w @ [(t, bs)]),
     SetReadLimit = \<lambda>n w. w, ReadMessage = \<lambda>w. (([GotPing [7, 8]], Inr (1, [104])), w)\<rparr>"

definition demo_ws_channel :: "(int \<times> byte list) list ws_channel" where
  "demo_ws_channel = \<lparr>wc_active = True, wc_conn = True, wsConn = Some [], wc_response = True\<rparr>"

lemma demo_read:
  "ws_UnsafeRead demo_ws (\<lambda>_. None) demo_ws_channel
     = ((handle_control (GotPing [7, 8]), WsGot (ParseMessage 1 (Some [104]))), demo_ws_channel)"
  by (simp add: ws_UnsafeRead_def demo_ws_def demo_ws_channel_def)

lemma demo_delivered: "delivered (handle_control (GotPing [7, 8]), WsGot (ParseMessage 1 (Some [104])))
    = [control_msg (GotPing [7, 8]), ParseMessage 1 (Some [104])]"
  by (simp add: delivered_def control_msg_def build_Ping_def)

theorem delivered_dispatch_witness:
  "\<exists>ws p. invoke_Read (default_ws_task 0) True (WsMessage (ParseMessage 1 (Some [104]))) = Inr ([CalledText], ws, p)"
proof -
  have only: "\<forall>w ctl t bs w'. ReadMessage demo_ws w = ((ctl, Inr (t, bs)), w') \<longrightarrow> t \<in> {1, 2}"
    by (simp add: demo_ws_def)
  have m: "ParseMessage 1 (Some [104])
      \<in> set (delivered (handle_control (GotPing [7, 8]), WsGot (ParseMessage 1 (Some [104]))))"
    by (simp only: demo_delivered) simp
  from delivered_dispatch [OF demo_read only m, of "default_ws_task 0"] show ?thesis
    by (auto simp: ParseMessage_def type_codes)
qed

theorem pings_answered_witness:
  "\<exists>ctl x w'. ReadMessage demo_ws [] = ((ctl, x), w') \<and> ping_payloads ctl = [[7, 8]]
     \<and> write_all demo_ws 0 (map (\<lambda>m. build_Pong (Some m) (Some 60000000000)) (ping_payloads ctl)) demo_ws_channel
         = (Inr None, demo_ws_channel\<lparr>wsConn := Some [(10, [7, 8])]\<rparr>)"
proof -
  have "delivered (handle_control (GotPing [7, 8]), WsGot (ParseMessage 1 (Some [104]))) \<noteq> []"
    by (simp only: demo_delivered) simp
  from pings_answered [OF demo_read this, of 0] obtain ctl x w' where
    r: "ReadMessage demo_ws [] = ((ctl, x), w')" and all: "\<forall>v v' out. wc_active out \<and> wsConn out = Some v
      \<and> pongs demo_ws 60000000000 (ping_payloads ctl) v = (None, v')
      \<longrightarrow> write_all demo_ws 0 (map (\<lambda>m. build_Pong (Some m) (Some 60000000000)) (ping_payloads ctl)) out
           = (Inr None, out\<lparr>wsConn := Some v'\<rparr>)"
    by (auto simp: Let_def demo_ws_channel_def demo_ws_def)
  from r have p: "ping_payloads ctl = [[7, 8]]" by (auto simp: demo_ws_def ping_payloads_def)
  have "pongs demo_ws 60000000000 [[7, 8]] [] = (None, [(10, [7, 8])])" by (simp add: demo_ws_def)
  with all p r show ?thesis by (metis demo_ws_channel_def ws_channel.select_convs(1,3))
qed

end
