(* ===== verification/Gws_Upgrade.thy ===== *)
theory Gws_Upgrade
  imports Ghttp_Dispatch Channel_Pipeline_Use Channel_Net
begin

text \<open>
  The upgrade of an HTTP request to a WebSocket: the handler of \<open>gws/wsupgradeprocessor.go\<close>, which stands
  behind the dispatcher of \<open>Ghttp_Dispatch\<close> and gets the requests whose node has no HTTP task. It runs
  the node's acceptances and the two checks, hijacks the connection through gorilla/websocket (a
  parameter) and puts a handler in its own place in the pipeline of \<open>Channel_Pipeline\<close>.
\<close>

section \<open>The processor\<close>

text \<open>The two callbacks of a \<open>ServerHandlerTask\<close> the processor calls.\<close>

record ('b, 'x) ws_server_task =
  k_WSUpgrade :: "('b, 'x) core \<Rightarrow> ('b, 'x) core \<times> bool ret"
  k_WSConnected :: "('b, 'x) core \<Rightarrow> ('b, 'x) core \<times> unit ret"

text \<open>The default task lets every request pass.\<close>

definition default_WSUpgrade :: "('b, 'x) core \<Rightarrow> ('b, 'x) core \<times> bool ret" where
  "default_WSUpgrade c = (c, Return True)"

definition default_WSConnected :: "('b, 'x) core \<Rightarrow> ('b, 'x) core \<times> unit ret" where
  "default_WSConnected c = (c, Return ())"

text \<open>
  \<open>UpgradeProcessor\<close>: the origin check given to the library (None is its own, the same origin), the
  check of the application, and the library's \<open>Upgrade\<close>, which says whether there is a connection.
\<close>

record ('b, 'x) upgrade_processor =
  u_CheckOrigin :: "(('b, 'x) core \<Rightarrow> bool) option"
  UpgradeCheckFunc :: "(('b, 'x) core \<Rightarrow> ('b, 'x) core \<times> bool ret) option"
  u_Upgrade :: "(('b, 'x) core \<Rightarrow> bool) option \<Rightarrow> ('b, 'x) core \<Rightarrow> bool"
  u_elapsed :: int

definition upgrade_Added :: "params \<Rightarrow> ('b, 'x) upgrade_processor \<Rightarrow> ('b, 'x) upgrade_processor" where
  "upgrade_Added ps u = u\<lparr>u_CheckOrigin :=
     (if \<not> Channel_Net.GetParamBoolDefault ps ''check_origin'' True then Some (\<lambda>_. True) else None)\<rparr>"

text \<open>What the processor does to the outside, in order.\<close>

datatype up_event = UpAcceptance nat | UpCheck | UpAsk | UpWrite | UpHijack | UpDisconnect
  | UpSetChannel | UpSetHandlers | UpConnected | UpRead | UpFireRead

record ('b, 'x, 'h) up_state =
  u_core :: "('b, 'x) core"
  u_pipe :: "'h pipeline"
  u_events :: "up_event list"

text \<open>How the handler ends: it returns, a callback panics, the pipeline panics or never answers.\<close>

datatype up_end = UpDone | UpThrow hpanic | UpPanic panic | UpStuck

definition did :: "up_event \<Rightarrow> ('b, 'x, 'h) up_state \<Rightarrow> ('b, 'x, 'h) up_state" where
  "did e s = s\<lparr>u_events := u_events s @ [e]\<rparr>"

definition up_call ::
  "up_event \<Rightarrow> (('b, 'x) core \<Rightarrow> ('b, 'x) core \<times> 'r ret) \<Rightarrow> ('b, 'x, 'h) up_state
     \<Rightarrow> ('b, 'x, 'h) up_state \<times> 'r ret" where
  "up_call e f s = (case f (u_core s) of (c, r) \<Rightarrow> ((did e s)\<lparr>u_core := c\<rparr>, r))"

text \<open>
  The loop over the acceptances: True when all passed. An interrupt returns without an answer, any
  other error writes the response.
\<close>

fun up_acceptances ::
  "nat \<Rightarrow> ('b, 'x) acceptance list \<Rightarrow> ('b, 'x, 'h) up_state \<Rightarrow> ('b, 'x, 'h) up_state \<times> bool ret" where
  "up_acceptances i [] s = (s, Return True)"
| "up_acceptances i (a # as) s = (case up_call (UpAcceptance i) (a_Do a) s of
     (s1, Throw p) \<Rightarrow> (s1, Throw p)
   | (s1, Return AccPass) \<Rightarrow> up_acceptances (Suc i) as s1
   | (s1, Return AccInterrupt) \<Rightarrow> (s1, Return False)
   | (s1, Return (AccError _)) \<Rightarrow> (did UpWrite s1, Return False))"

text \<open>The check of the application, and then the task's, only when that passed.\<close>

definition up_checks ::
  "('b, 'x) upgrade_processor \<Rightarrow> ('b, 'x) ws_server_task \<Rightarrow> ('b, 'x, 'h) up_state
     \<Rightarrow> ('b, 'x, 'h) up_state \<times> bool ret" where
  "up_checks u k s = (case (case UpgradeCheckFunc u of None \<Rightarrow> (s, Return True) | Some f \<Rightarrow> up_call UpCheck f s) of
       (s1, Return True) \<Rightarrow> up_call UpAsk (k_WSUpgrade k) s1
     | m \<Rightarrow> m)"

text \<open>
  The new handler in front of the processor's context, then the processor removed. \<open>name\<close> is
  \<open>ctx.Name()\<close>, \<open>invoker\<close> the \<open>InvokeHandler\<close> of the task and the parameters.
\<close>

definition swap_handler :: "'h hooks \<Rightarrow> string \<Rightarrow> 'h \<Rightarrow> 'h pipeline \<Rightarrow> 'h pipeline run" where
  "swap_handler hooks name invoker p =
     seq_run (AddBefore hooks name ''WS_INVOKER'' (Some (UserHandler invoker)) p) (RemoveByName hooks name)"

text \<open>What follows a successful upgrade; \<open>is_http\<close> is the assertion on the type of the channel.\<close>

definition up_replace ::
  "'h hooks \<Rightarrow> string \<Rightarrow> 'h \<Rightarrow> bool \<Rightarrow> ('b, 'x) upgrade_processor \<Rightarrow> ('b, 'x) ws_server_task
     \<Rightarrow> ('b, 'x, 'h) up_state \<Rightarrow> ('b, 'x, 'h) up_state \<times> up_end" where
  "up_replace hooks name invoker is_http u k s =
     (let s1 = s\<lparr>u_core := (u_core s)\<lparr>c_params :=
                 (c_params (u_core s))(''[gone-http]ws_upgrade_time'' \<mapsto> PNanos (u_elapsed u))\<rparr>\<rparr>
      in if \<not> is_http then (s1, UpPanic BadAssertion)
      else (let s2 = did UpSetChannel s1 in
        (case swap_handler hooks name invoker (u_pipe s2) of
           None \<Rightarrow> (s2, UpStuck)
         | Some (Panicked e p) \<Rightarrow> (s2\<lparr>u_pipe := p\<rparr>, UpPanic e)
         | Some (Done p) \<Rightarrow>
            (case up_call UpConnected (k_WSConnected k) (did UpSetHandlers (s2\<lparr>u_pipe := p\<rparr>)) of
               (s3, Throw e) \<Rightarrow> (s3, UpThrow e)
             | (s3, Return _) \<Rightarrow> (did UpRead s3, UpDone)))))"

text \<open>
  The object read: nil, a pack with the acceptances and the task of its node (the task None when it is
  no \<open>ServerHandlerTask\<close>), or anything else, a pack without a node included.
\<close>

datatype ('b, 'x) up_object = UpNil | UpPack "('b, 'x) acceptance list" "('b, 'x) ws_server_task option" | UpOther

definition up_pack ::
  "'h hooks \<Rightarrow> string \<Rightarrow> 'h \<Rightarrow> bool \<Rightarrow> ('b, 'x) upgrade_processor \<Rightarrow> ('b, 'x) acceptance list
     \<Rightarrow> ('b, 'x) ws_server_task \<Rightarrow> ('b, 'x, 'h) up_state \<Rightarrow> ('b, 'x, 'h) up_state \<times> up_end" where
  "up_pack hooks name invoker is_http u as k s = (case up_acceptances 0 as s of
       (s1, Throw p) \<Rightarrow> (s1, UpThrow p)
     | (s1, Return False) \<Rightarrow> (s1, UpDone)
     | (s1, Return True) \<Rightarrow> (case up_checks u k s1 of
          (s2, Throw p) \<Rightarrow> (s2, UpThrow p)
        | (s2, Return False) \<Rightarrow> (did UpWrite s2, UpDone)
        | (s2, Return True) \<Rightarrow>
            if u_Upgrade u (u_CheckOrigin u) (u_core s2)
            then up_replace hooks name invoker is_http u k (did UpHijack s2)
            else (did UpDisconnect s2, UpDone)))"

definition upgrade_Read ::
  "'h hooks \<Rightarrow> string \<Rightarrow> 'h \<Rightarrow> bool \<Rightarrow> ('b, 'x) upgrade_processor \<Rightarrow> ('b, 'x) up_object
     \<Rightarrow> ('b, 'x, 'h) up_state \<Rightarrow> ('b, 'x, 'h) up_state \<times> up_end" where
  "upgrade_Read hooks name invoker is_http u obj s = (case obj of
       UpNil \<Rightarrow> (s, UpDone)
     | UpPack as (Some k) \<Rightarrow> up_pack hooks name invoker is_http u as k s
     | UpPack as None \<Rightarrow> (did UpFireRead s, UpDone)
     | UpOther \<Rightarrow> (did UpFireRead s, UpDone))"

section \<open>What comes before an upgrade\<close>

lemma did_facts [simp]:
  "u_events (did e s) = u_events s @ [e]" "u_core (did e s) = u_core s" "u_pipe (did e s) = u_pipe s"
  by (simp_all add: did_def)

lemma up_call_facts:
  "up_call e f s = (s', r) \<Longrightarrow> u_events s' = u_events s @ [e] \<and> u_pipe s' = u_pipe s \<and> f (u_core s) = (u_core s', r)"
  by (auto simp: up_call_def split: prod.splits)

text \<open>The events of the acceptances: those that ran, and a write when one refused with an error.\<close>

lemma up_acceptances_pass:
  "up_acceptances i as s = (s', Return True) \<Longrightarrow>
     u_events s' = u_events s @ map UpAcceptance [i ..< i + length as] \<and> u_pipe s' = u_pipe s"
proof (induction as arbitrary: i s)
  case (Cons a as)
  obtain s1 r1 where c: "up_call (UpAcceptance i) (a_Do a) s = (s1, r1)" by fastforce
  with Cons.prems have "r1 = Return AccPass" and "up_acceptances (Suc i) as s1 = (s', Return True)"
    by (auto split: ret.splits acc_result.splits)
  moreover have "[i ..< i + length (a # as)] = i # [Suc i ..< Suc i + length as]" by (simp add: upt_rec)
  ultimately show ?case using Cons.IH [of "Suc i" s1] up_call_facts [OF c] by simp
qed simp

lemma up_acceptances_refuse:
  "up_acceptances i as s = (s', r) \<Longrightarrow> r \<noteq> Return True \<Longrightarrow>
     \<exists>n w. u_events s' = u_events s @ map UpAcceptance [i ..< i + n] @ w \<and> w \<in> {[], [UpWrite]}
       \<and> 0 < n \<and> n \<le> length as \<and> u_pipe s' = u_pipe s"
proof (induction as arbitrary: i s)
  case (Cons a as)
  obtain s1 r1 where c: "up_call (UpAcceptance i) (a_Do a) s = (s1, r1)" by fastforce
  note f = up_call_facts [OF c]
  show ?case
  proof (cases "r1 = Return AccPass")
    case True
    with Cons.prems(1) c have "up_acceptances (Suc i) as s1 = (s', r)" by simp
    from Cons.IH [OF this Cons.prems(2)] obtain n w where
      n: "u_events s' = u_events s1 @ map UpAcceptance [Suc i ..< Suc i + n] @ w"
      "w \<in> {[], [UpWrite]}" "n \<le> length as" "u_pipe s' = u_pipe s1" by blast
    have "[i ..< i + Suc n] = i # [Suc i ..< Suc i + n]" by (simp add: upt_rec)
    with n f have "u_events s' = u_events s @ map UpAcceptance [i ..< i + Suc n] @ w" by simp
    with n f show ?thesis by (intro exI [of _ "Suc n"] exI [of _ w]) simp
  next
    case False
    with Cons.prems c consider "s' = s1" | "s' = did UpWrite s1" by (auto split: ret.splits acc_result.splits)
    then show ?thesis
    proof cases
      case 1
      with f show ?thesis by (intro exI [of _ 1] exI [of _ "[]"]) simp
    next
      case 2
      with f show ?thesis by (intro exI [of _ 1] exI [of _ "[UpWrite]"]) simp
    qed
  qed
qed simp

text \<open>The checks that run.\<close>

definition check_events :: "('b, 'x) upgrade_processor \<Rightarrow> up_event list" where
  "check_events u = (if UpgradeCheckFunc u = None then [] else [UpCheck])"

lemma up_checks_pass:
  "up_checks u k s = (s', Return True) \<Longrightarrow>
     u_events s' = u_events s @ check_events u @ [UpAsk] \<and> u_pipe s' = u_pipe s"
  by (auto simp: up_checks_def check_events_def split: option.splits prod.splits ret.splits bool.splits
      dest!: up_call_facts)

lemma up_checks_refuse:
  "up_checks u k s = (s', r) \<Longrightarrow> r \<noteq> Return True \<Longrightarrow>
     (u_events s' = u_events s @ check_events u \<or> u_events s' = u_events s @ check_events u @ [UpAsk])
       \<and> u_pipe s' = u_pipe s"
  by (auto simp: up_checks_def check_events_def split: option.splits prod.splits ret.splits bool.splits
      dest!: up_call_facts)

lemma up_replace_events:
  "up_replace hooks name invoker is_http u k s = (s', e) \<Longrightarrow>
     \<exists>es. u_events s' = u_events s @ es \<and> set es \<subseteq> {UpSetChannel, UpSetHandlers, UpConnected, UpRead}"
  by (auto simp: up_replace_def Let_def split: if_splits option.splits outcome.splits prod.splits ret.splits
      dest!: up_call_facts)


section \<open>An upgrade that succeeds\<close>

lemma up_acceptances_all:
  "list_all passes as \<Longrightarrow> \<exists>s'. up_acceptances i as s = (s', Return True)"
proof (induction as arbitrary: i s)
  case (Cons a as)
  then obtain c' where c: "a_Do a (u_core s) = (c', Return AccPass)" by (fastforce simp: passes_def)
  have "up_call (UpAcceptance i) (a_Do a) s = ((did (UpAcceptance i) s)\<lparr>u_core := c'\<rparr>, Return AccPass)"
    by (simp add: up_call_def c)
  with Cons.IH [of "Suc i" "(did (UpAcceptance i) s)\<lparr>u_core := c'\<rparr>"] Cons.prems show ?case by simp
qed simp

lemma up_checks_all:
  assumes "\<forall>f c. UpgradeCheckFunc u = Some f \<longrightarrow> snd (f c) = Return True" and "\<forall>c. snd (k_WSUpgrade k c) = Return True"
  shows "\<exists>s'. up_checks u k s = (s', Return True)"
proof (cases "UpgradeCheckFunc u")
  case None
  then show ?thesis using assms(2) by (auto simp: up_checks_def up_call_def split: prod.splits) (metis snd_conv)
next
  case (Some f)
  obtain c r where f: "f (u_core s) = (c, r)" by fastforce
  obtain c' r' where k: "k_WSUpgrade k c = (c', r')" by fastforce
  from assms(1) Some f have "r = Return True" by (metis snd_conv)
  moreover from assms(2) k have "r' = Return True" by (metis snd_conv)
  ultimately have "r = Return True" "r' = Return True" by simp_all
  with f k Some show ?thesis by (simp add: up_checks_def up_call_def)
qed

text \<open>The new handler takes the place of the first handler of that name.\<close>

lemma swap_handler_in_place:
  assumes "holds_all p (us @ (name, Some h) # vs)" and "\<forall>e \<in> set us. fst e \<noteq> name" and "\<not> sentinel_name name"
    and "name \<noteq> ''WS_INVOKER''" and "quiet_hooks hooks"
  shows "\<exists>p'. swap_handler hooks name invoker p = Some (Done p')
    \<and> holds_all p' (us @ (''WS_INVOKER'', Some (UserHandler invoker)) # vs)"
proof -
  let ?w = "(''WS_INVOKER'', Some (UserHandler invoker))"
  have add: "list_step (DoAddBefore name ''WS_INVOKER'' (UserHandler invoker)) (us @ (name, Some h) # vs)
      = (us @ [?w]) @ (name, Some h) # vs"
    using assms(2) by (simp add: insert_before_split)
  have rem: "list_step (DoRemoveByName name) ((us @ [?w]) @ (name, Some h) # vs) = (us @ [?w]) @ vs"
  proof -
    have none: "\<forall>x \<in> set (us @ [?w]). \<not> fst x = name" using assms(2,4) by auto
    have "remove_first (\<lambda>e. fst e = name) ((us @ [?w]) @ (name, Some h) # vs) = (us @ [?w]) @ vs"
      by (rule remove_first_split [OF none]) simp
    with assms(3) show ?thesis by simp
  qed
  have safe: "link_safe (DoAddBefore name ''WS_INVOKER'' (UserHandler invoker)) (us @ (name, Some h) # vs)"
    using assms(3) by (simp add: sentinel_name_def)
  from pipe_step_run [OF assms(1,5) safe] add obtain p1 where
    1: "AddBefore hooks name ''WS_INVOKER'' (Some (UserHandler invoker)) p = Some (Done p1)"
    and h1: "holds_all p1 ((us @ [?w]) @ (name, Some h) # vs)" by auto
  have s2: "link_safe (DoRemoveByName name) ((us @ [?w]) @ (name, Some h) # vs)" by simp
  from pipe_step_run [OF h1 assms(5) s2] rem obtain p2 where
    "RemoveByName hooks name p1 = Some (Done p2)" "holds_all p2 ((us @ [?w]) @ vs)" by auto
  with 1 show ?thesis by (simp add: swap_handler_def)
qed

text \<open>
  C16. From the request to the WebSocket. When the route finds a node whose task is no HTTP task, the
  dispatcher does nothing but hand the request on; and when then every acceptance passes, the checks
  agree and the library upgrades, the processor runs to its end, with exactly these events in this
  order, and the pipeline is the one before with the processor's entry replaced, in place, by the
  handler that serves the messages.
\<close>

theorem upgrade_in_place:
  assumes "d_route h (r_path (c_req (core r))) = Some n" and "f_type n \<noteq> RouteTypeGroup" and "f_task n = None"
    and "list_all passes (f_acceptances n)"
    and "\<And>f c. UpgradeCheckFunc u = Some f \<Longrightarrow> snd (f c) = Return True"
    and "\<And>c. snd (k_WSUpgrade k c) = Return True" and "\<And>c. snd (k_WSConnected k c) = Return ()"
    and "\<And>c. u_Upgrade u (u_CheckOrigin u) c"
    and "holds_all p (us @ (name, Some x) # vs)" and "\<forall>e \<in> set us. fst e \<noteq> name" and "\<not> sentinel_name name"
    and "name \<noteq> ''WS_INVOKER''" and "quiet_hooks hooks"
  shows "\<exists>r' s'. DispatchRead h r = (r', None) \<and> calls r' = calls r @ [CallFireRead]
    \<and> upgrade_Read hooks name invoker True u (UpPack (f_acceptances n) (Some k))
         \<lparr>u_core = core r', u_pipe = p, u_events = []\<rparr> = (s', UpDone)
    \<and> u_events s' = map UpAcceptance [0 ..< length (f_acceptances n)] @ check_events u
         @ [UpAsk, UpHijack, UpSetChannel, UpSetHandlers, UpConnected, UpRead]
    \<and> holds_all (u_pipe s') (us @ (''WS_INVOKER'', Some (UserHandler invoker)) # vs)"
proof -
  define r' where "r' = noting CallFireRead (locate h n r)"
  define s where "s = \<lparr>u_core = core r', u_pipe = p, u_events = []\<rparr>"
  have d: "DispatchRead h r = (r', None)" "calls r' = calls r @ [CallFireRead]"
    using assms(1-3) by (simp_all add: DispatchRead_def r'_def noting_def)
  obtain s1 where a: "up_acceptances 0 (f_acceptances n) s = (s1, Return True)"
    using up_acceptances_all [OF assms(4)] by blast
  obtain s2 where c: "up_checks u k s1 = (s2, Return True)"
    using up_checks_all [of u k s1] assms(5,6) by blast
  note ev = up_acceptances_pass [OF a] up_checks_pass [OF c]
  have pipe: "u_pipe s2 = p" using ev by (simp add: s_def)
  obtain p' where sw: "swap_handler hooks name invoker p = Some (Done p')"
    and h': "holds_all p' (us @ (''WS_INVOKER'', Some (UserHandler invoker)) # vs)"
    using swap_handler_in_place [OF assms(9-13)] by blast
  define s3 where "s3 = (did UpSetChannel ((did UpHijack s2)\<lparr>u_core := (u_core s2)\<lparr>c_params :=
      (c_params (u_core s2))(''[gone-http]ws_upgrade_time'' \<mapsto> PNanos (u_elapsed u))\<rparr>\<rparr>))\<lparr>u_pipe := p'\<rparr>"
  obtain c' where conn: "k_WSConnected k (u_core (did UpSetHandlers s3)) = (c', Return ())"
    using assms(7) by (metis prod.collapse)
  define s4 where "s4 = did UpRead ((did UpConnected (did UpSetHandlers s3))\<lparr>u_core := c'\<rparr>)"
  have "up_replace hooks name invoker True u k (did UpHijack s2) = (s4, UpDone)"
    using conn by (simp add: up_replace_def sw pipe s3_def s4_def up_call_def)
  then have "upgrade_Read hooks name invoker True u (UpPack (f_acceptances n) (Some k)) s = (s4, UpDone)"
    by (simp add: upgrade_Read_def up_pack_def a c assms(8))
  moreover have "u_pipe s4 = p'" "u_events s4 = u_events s2 @ [UpHijack, UpSetChannel, UpSetHandlers, UpConnected, UpRead]"
    by (simp_all add: s4_def s3_def did_def)
  moreover have "u_events s2 = map UpAcceptance [0 ..< length (f_acceptances n)] @ check_events u @ [UpAsk]"
    using ev by (simp add: s_def)
  ultimately show ?thesis using d h' unfolding s_def by (intro exI [of _ r'] exI [of _ s4]) simp
qed

section \<open>Concrete runs\<close>

definition ws_node :: "(byte list, unit) acceptance list \<Rightarrow> (byte list, unit) found_node" where
  "ws_node as = (demo_node as None)\<lparr>f_task := None\<rparr>"

definition ws_demo_task :: "bool \<Rightarrow> (byte list, unit) ws_server_task" where
  "ws_demo_task ok = \<lparr>k_WSUpgrade = (\<lambda>c. (c, Return ok)), k_WSConnected = default_WSConnected\<rparr>"

definition ws_demo_processor :: "(byte list, unit) upgrade_processor" where
  "ws_demo_processor = \<lparr>u_CheckOrigin = None, UpgradeCheckFunc = None, u_Upgrade = (\<lambda>_ _. True), u_elapsed = 5\<rparr>"

lemma ws_demo_pipeline:
  "\<exists>p. holds_all p [(''DISPATCHER'', Some (UserHandler 1)), (''WS_UPGRADE'', Some (UserHandler (2::nat)))]"
proof -
  have q: "quiet_hooks silent_hooks" by (simp add: quiet_hooks_def silent_hooks_def)
  have "holds_all NewDefaultPipeline []" using new_holds by (simp add: holds_all_def)
  from programs_run [OF this q, of "[DoAddLast ''DISPATCHER'' (UserHandler 1), DoAddLast ''WS_UPGRADE'' (UserHandler 2)]"]
  show ?thesis by auto
qed

theorem upgrade_in_place_witness:
  "\<exists>r' s' p. DispatchRead (demo_dispatcher (\<lambda>_. Some (ws_node [pass_acceptance]))) demo_run = (r', None)
     \<and> calls r' = [CallFireRead]
     \<and> upgrade_Read silent_hooks ''WS_UPGRADE'' (3::nat) True ws_demo_processor
         (UpPack [pass_acceptance] (Some (ws_demo_task True))) \<lparr>u_core = core r', u_pipe = p, u_events = []\<rparr> = (s', UpDone)
     \<and> u_events s' = [UpAcceptance 0, UpAsk, UpHijack, UpSetChannel, UpSetHandlers, UpConnected, UpRead]
     \<and> holds_all (u_pipe s') [(''DISPATCHER'', Some (UserHandler 1)), (''WS_INVOKER'', Some (UserHandler 3))]"
proof -
  let ?h = "demo_dispatcher (\<lambda>_. Some (ws_node [pass_acceptance]))"
  have rt: "d_route ?h (r_path (c_req (core demo_run))) = Some (ws_node [pass_acceptance])" by simp
  have n: "f_type (ws_node as) \<noteq> RouteTypeGroup" "f_task (ws_node as) = None" "f_acceptances (ws_node as) = as" for as
    by (simp_all add: ws_node_def)
  have pass: "list_all passes (f_acceptances (ws_node [pass_acceptance]))"
    by (simp add: n passes_def pass_acceptance_def)
  obtain p where p: "holds_all p ([(''DISPATCHER'', Some (UserHandler 1))] @ (''WS_UPGRADE'', Some (UserHandler (2::nat))) # [])"
    using ws_demo_pipeline by auto
  have "\<exists>r' s'. DispatchRead ?h demo_run = (r', None) \<and> calls r' = calls demo_run @ [CallFireRead]
    \<and> upgrade_Read silent_hooks ''WS_UPGRADE'' 3 True ws_demo_processor
        (UpPack (f_acceptances (ws_node [pass_acceptance])) (Some (ws_demo_task True)))
         \<lparr>u_core = core r', u_pipe = p, u_events = []\<rparr> = (s', UpDone)
    \<and> u_events s' = map UpAcceptance [0 ..< length (f_acceptances (ws_node [pass_acceptance]))]
         @ check_events ws_demo_processor @ [UpAsk, UpHijack, UpSetChannel, UpSetHandlers, UpConnected, UpRead]
    \<and> holds_all (u_pipe s') ([(''DISPATCHER'', Some (UserHandler 1))] @ (''WS_INVOKER'', Some (UserHandler 3)) # [])"
    by (rule upgrade_in_place [OF rt n(1,2) pass _ _ _ _ p])
       (simp_all add: ws_demo_processor_def ws_demo_task_def default_WSConnected_def sentinel_name_def
          PipelineHeadHandlerContextName_def PipelineTailHandlerContextName_def quiet_hooks_def silent_hooks_def)
  then obtain r' s' where "DispatchRead ?h demo_run = (r', None)" and "calls r' = calls demo_run @ [CallFireRead]"
    and "upgrade_Read silent_hooks ''WS_UPGRADE'' 3 True ws_demo_processor
        (UpPack (f_acceptances (ws_node [pass_acceptance])) (Some (ws_demo_task True)))
         \<lparr>u_core = core r', u_pipe = p, u_events = []\<rparr> = (s', UpDone)"
    and "u_events s' = map UpAcceptance [0 ..< length (f_acceptances (ws_node [pass_acceptance]))]
         @ check_events ws_demo_processor @ [UpAsk, UpHijack, UpSetChannel, UpSetHandlers, UpConnected, UpRead]"
    and "holds_all (u_pipe s') ([(''DISPATCHER'', Some (UserHandler 1))] @ (''WS_INVOKER'', Some (UserHandler 3)) # [])"
    by (elim exE conjE)
  then show ?thesis
    by (intro exI [of _ r'] exI [of _ s'] exI [of _ p]) (simp add: n check_events_def ws_demo_processor_def)
qed


end
