(* ===== verification/Channel_Server.thy ===== *)
theory Channel_Server
  imports Channel_Lifecycle
begin

text \<open>
  Server channels: the children of \<open>channel/serverchannel.go\<close>, the accept loop of \<open>Bind\<close> in
  \<open>channel/unsafe.go\<close>, and the listener of \<open>gtcp/tcpserverchannel.go\<close>, as a transition system of
  threads: the goroutine of \<open>Bind\<close>, the accept loop, for each child the two goroutines that activate it
  and time it out, the clean-ups \<open>inactiveChannel\<close> leaves on child and server, and \<open>Close\<close>. One step is
  one access to shared state.
\<close>

section \<open>State\<close>

text \<open>
  A child: \<open>k_alive\<close> and \<open>k_closed\<close> as in \<open>Channel_Lifecycle\<close>, the future of its acceptance, and the
  events it fired.
\<close>

datatype kevent = KRegistered | KActive | KInactiveE | KUnregisteredE

record 'f child =
  k_alive :: alive
  k_closed :: bool
  k_fut :: "'f"
  k_events :: "kevent list"

definition new_child :: "'f promise_ops \<Rightarrow> 'f child" where
  "new_child F = \<lparr>k_alive = Never, k_closed = False, k_fut = PNew F, k_events = []\<rparr>"

text \<open>
  The server: \<open>v_listening\<close> is the field \<open>active\<close> of the TCP channel, which \<open>IsActive\<close> answers;
  \<open>v_alive\<close>, \<open>v_gen\<close> its alive future, \<open>v_hooked\<close> the activations whose callback on the children is
  registered, \<open>v_cleaned\<close> those whose clean-up is done; \<open>v_map\<close> the child map, by serial number;
  \<open>v_children\<close> every child there ever was. \<open>v_incoming\<close> is what the listener will answer, True a
  connection. \<open>v_waited\<close> is history: the children a clean-up found in the map and waited for.
\<close>

datatype sevent = SvActive | SvInactive | SvUnregistered

record 'f server =
  v_listening :: bool
  v_alive :: alive
  v_gen :: nat
  v_hooked :: "nat set"
  v_cleaned :: "nat set"
  v_closed :: bool
  v_serial :: nat
  v_map :: "nat list"
  v_children :: "nat \<rightharpoonup> 'f child"
  v_incoming :: "bool list"
  v_events :: "sevent list"
  v_waited :: "nat list"

definition upd_child :: "nat \<Rightarrow> ('f child \<Rightarrow> 'f child) \<Rightarrow> 'f server \<Rightarrow> 'f server" where
  "upd_child c f s = s\<lparr>v_children := (v_children s)(c := map_option f (v_children s c))\<rparr>"

definition child_fires :: "kevent \<Rightarrow> nat \<Rightarrow> 'f server \<Rightarrow> 'f server" where
  "child_fires e c = upd_child c (\<lambda>k. k\<lparr>k_events := k_events k @ [e]\<rparr>)"

definition server_fires :: "sevent \<Rightarrow> 'f server \<Rightarrow> 'f server" where
  "server_fires e s = s\<lparr>v_events := v_events s @ [e]\<rparr>"

definition child_closed :: "'f server \<Rightarrow> nat \<Rightarrow> bool" where
  "child_closed s c = (case v_children s c of None \<Rightarrow> False | Some k \<Rightarrow> k_closed k)"

definition child_active :: "'f server \<Rightarrow> nat \<Rightarrow> bool" where
  "child_active s c = (case v_children s c of None \<Rightarrow> False | Some k \<Rightarrow> \<exists>g. k_alive k = Pending g)"

section \<open>Threads\<close>

text \<open>
  Bind: BCheck asks \<open>IsActive\<close>, BListen opens the listener, BActive, BFire and BHook are \<open>activeChannel\<close>, BInact
  and BUnreg \<open>inactiveChannel\<close> after a failure. Close: CInact, CAwait, CUnsafe, CFut. Accepting: ALoop,
  AAccept, AStore, ASpawn. A child's activation: KReg, KAct, KFire, KSucc; its timer KTimer; an
  \<open>inactiveChannel\<close> on it KInact, KNever; its clean-up KC1 to KC4. The callback that inactivates the
  children: HRange, HLoop, HKill, HNever. The server's clean-up: WRange, WLoop, WFire, WUnreg, WDone.
\<close>

datatype spc =
    BCheck | BListen | BActive | BFire nat | BHook nat | BInact | BUnreg
  | CInact | CAwait nat | CUnsafe | CFut
  | ALoop | AAccept | AStore nat | ASpawn nat
  | KReg nat | KAct nat | KFire nat | KSucc nat | KTimer nat | KInact nat | KNever nat
  | KC1 nat | KC2 nat | KC3 nat | KC4 nat
  | HRange | HLoop "nat list" | HKill nat "nat list" | HNever nat "nat list"
  | WRange nat | WLoop nat "nat list" "nat list" | WFire nat "nat list" | WUnreg nat | WDone nat
  | SEnded

text \<open>\<open>inactiveChannel\<close> of a child, and of the server; the callback on the children runs when it was registered.\<close>

definition inactivate_child :: "nat \<Rightarrow> spc \<Rightarrow> spc \<Rightarrow> 'f server \<Rightarrow> spc \<times> 'f server \<times> spc list" where
  "inactivate_child c done never s = (case v_children s c of
       None \<Rightarrow> (done, s, [])
     | Some k \<Rightarrow> (case k_alive k of
          Pending g \<Rightarrow> (done, upd_child c (\<lambda>k. k\<lparr>k_alive := Settled\<rparr>) s, [KC1 c])
        | Never \<Rightarrow> (never, upd_child c (\<lambda>k. k\<lparr>k_alive := Settled\<rparr>) s, [])
        | Settled \<Rightarrow> (done, s, [])))"

definition inactivate_server :: "(nat \<Rightarrow> spc) \<Rightarrow> spc \<Rightarrow> spc \<Rightarrow> 'f server \<Rightarrow> spc \<times> 'f server \<times> spc list" where
  "inactivate_server first never later s = (case v_alive s of
       Pending g \<Rightarrow> (first g, s\<lparr>v_alive := Settled\<rparr>, (if g \<in> v_hooked s then [HRange] else []) @ [WRange g])
     | Never \<Rightarrow> (never, s\<lparr>v_alive := Settled\<rparr>, [])
     | Settled \<Rightarrow> (later, s, []))"

text \<open>\<open>Bind\<close> up to the accept loop, with \<open>activeChannel\<close> of a server inside. \<open>ok\<close> says whether \<open>net.Listen\<close> succeeds.\<close>

fun bind_thread :: "bool \<Rightarrow> spc \<Rightarrow> 'f server \<Rightarrow> (spc \<times> 'f server \<times> spc list) option" where
  "bind_thread ok BCheck s = Some (if v_listening s then BInact else BListen, s, [])"
| "bind_thread ok BListen s = (if ok
     then Some (BActive, s\<lparr>v_listening := True\<rparr>, []) else Some (BInact, s, []))"
| "bind_thread ok BActive s =
     Some (BFire (v_gen s), s\<lparr>v_alive := Pending (v_gen s), v_gen := Suc (v_gen s)\<rparr>, [])"
| "bind_thread ok (BFire g) s = Some (BHook g, server_fires SvActive s, [])"
| "bind_thread ok (BHook g) s =
     (if v_alive s = Pending g then Some (SEnded, s\<lparr>v_hooked := insert g (v_hooked s)\<rparr>, [ALoop])
      else Some (SEnded, s, [HRange, ALoop]))"
| "bind_thread ok BInact s = Some (inactivate_server (\<lambda>_. SEnded) BUnreg SEnded s)"
| "bind_thread ok BUnreg s = Some (SEnded, server_fires SvUnregistered s, [])"

text \<open>\<open>Close\<close>; CAwait waits for the clean-up.\<close>

fun close_thread :: "spc \<Rightarrow> 'f server \<Rightarrow> (spc \<times> 'f server \<times> spc list) option" where
  "close_thread CInact s = Some (inactivate_server CAwait CUnsafe CUnsafe s)"
| "close_thread (CAwait g) s = (if g \<in> v_cleaned s then Some (CUnsafe, s, []) else None)"
| "close_thread CUnsafe s = Some (CFut, s\<lparr>v_listening := False\<rparr>, [])"
| "close_thread CFut s = Some (SEnded, s\<lparr>v_closed := True\<rparr>, [])"

text \<open>The accept loop, with the derivation of a child; AAccept waits for the listener, which answers an error once it is closed.\<close>

fun accept_thread :: "'f promise_ops \<Rightarrow> spc \<Rightarrow> 'f server \<Rightarrow> (spc \<times> 'f server \<times> spc list) option" where
  "accept_thread F ALoop s = Some (if v_listening s then AAccept else SEnded, s, [])"
| "accept_thread F AAccept s = (if \<not> v_listening s then Some (ALoop, s, [])
     else (case v_incoming s of
        [] \<Rightarrow> None
      | True # r \<Rightarrow> Some (AStore (v_serial s), s\<lparr>v_incoming := r, v_serial := Suc (v_serial s),
                      v_children := (v_children s)(v_serial s \<mapsto> new_child F)\<rparr>, [])
      | False # r \<Rightarrow> Some (ALoop, s\<lparr>v_incoming := r\<rparr>, [])))"
| "accept_thread F (AStore c) s = Some (ASpawn c, s\<lparr>v_map := c # v_map s\<rparr>, [])"
| "accept_thread F (ASpawn c) s = Some (ALoop, s, [KReg c, KTimer c])"

text \<open>The two goroutines of a child: activation and time-out.\<close>

fun kid_thread :: "'f promise_ops \<Rightarrow> spc \<Rightarrow> 'f server \<Rightarrow> (spc \<times> 'f server \<times> spc list) option" where
  "kid_thread F (KReg c) s = Some (KAct c, child_fires KRegistered c s, [])"
| "kid_thread F (KAct c) s = Some (KFire c, upd_child c (\<lambda>k. k\<lparr>k_alive := Pending 0\<rparr>) s, [])"
| "kid_thread F (KFire c) s = Some (KSucc c, child_fires KActive c s, [])"
| "kid_thread F (KSucc c) s = Some (SEnded, upd_child c (\<lambda>k. k\<lparr>k_fut := snd (PComplete F (k_fut k))\<rparr>) s, [])"
| "kid_thread F (KTimer c) s = (case v_children s c of
       None \<Rightarrow> Some (SEnded, s, [])
     | Some k \<Rightarrow> (case PFail F ''accept timeout'' (k_fut k) of
          (b, f) \<Rightarrow> Some (if b then KInact c else SEnded, upd_child c (\<lambda>k. k\<lparr>k_fut := f\<rparr>) s, [])))"

text \<open>\<open>inactiveChannel\<close> of a child with its callback, which releases it from the map.\<close>

fun kid_cleanup :: "spc \<Rightarrow> 'f server \<Rightarrow> (spc \<times> 'f server \<times> spc list) option" where
  "kid_cleanup (KInact c) s = Some (inactivate_child c SEnded (KNever c) s)"
| "kid_cleanup (KNever c) s = Some (SEnded, child_fires KUnregisteredE c s, [])"
| "kid_cleanup (KC1 c) s = Some (KC2 c, child_fires KInactiveE c s, [])"
| "kid_cleanup (KC2 c) s = Some (KC3 c, child_fires KUnregisteredE c s, [])"
| "kid_cleanup (KC3 c) s = Some (KC4 c, upd_child c (\<lambda>k. k\<lparr>k_closed := True\<rparr>) s, [])"
| "kid_cleanup (KC4 c) s = Some (SEnded, s\<lparr>v_map := removeAll c (v_map s)\<rparr>, [])"

text \<open>The callback of \<open>activeChannel\<close> of a server, which inactivates the children.\<close>

fun hook_thread :: "spc \<Rightarrow> 'f server \<Rightarrow> (spc \<times> 'f server \<times> spc list) option" where
  "hook_thread HRange s = Some (HLoop (v_map s), s, [])"
| "hook_thread (HLoop cs) s = Some (case cs of [] \<Rightarrow> SEnded
     | c # cs' \<Rightarrow> if child_active s c then HKill c cs' else HLoop cs', s, [])"
| "hook_thread (HKill c cs) s = Some (inactivate_child c (HLoop cs) (HNever c cs) s)"
| "hook_thread (HNever c cs) s = Some (HLoop cs, child_fires KUnregisteredE c s, [])"

text \<open>The callback of \<open>inactiveChannel\<close> on a server: WLoop waits for a child's close future. The second list of WLoop and of WFire is what it found.\<close>

fun wait_thread :: "spc \<Rightarrow> 'f server \<Rightarrow> (spc \<times> 'f server \<times> spc list) option" where
  "wait_thread (WRange g) s = Some (WLoop g (v_map s) (v_map s), s, [])"
| "wait_thread (WLoop g cs w) s = (case cs of
       [] \<Rightarrow> Some (WFire g w, s, [])
     | c # cs' \<Rightarrow> if child_closed s c then Some (WLoop g cs' w, s, []) else None)"
| "wait_thread (WFire g w) s = Some (WUnreg g, server_fires SvInactive (s\<lparr>v_waited := w @ v_waited s\<rparr>), [])"
| "wait_thread (WUnreg g) s = Some (WDone g, server_fires SvUnregistered s, [])"
| "wait_thread (WDone g) s = Some (SEnded, s\<lparr>v_cleaned := insert g (v_cleaned s)\<rparr>, [])"

fun sthread :: "'f promise_ops \<Rightarrow> bool \<Rightarrow> spc \<Rightarrow> 'f server \<Rightarrow> (spc \<times> 'f server \<times> spc list) option" where
  "sthread F ok BCheck s = bind_thread ok BCheck s"
| "sthread F ok BListen s = bind_thread ok BListen s"
| "sthread F ok BActive s = bind_thread ok BActive s"
| "sthread F ok (BFire g) s = bind_thread ok (BFire g) s"
| "sthread F ok (BHook g) s = bind_thread ok (BHook g) s"
| "sthread F ok BInact s = bind_thread ok BInact s"
| "sthread F ok BUnreg s = bind_thread ok BUnreg s"
| "sthread F ok CInact s = close_thread CInact s"
| "sthread F ok (CAwait g) s = close_thread (CAwait g) s"
| "sthread F ok CUnsafe s = close_thread CUnsafe s"
| "sthread F ok CFut s = close_thread CFut s"
| "sthread F ok ALoop s = accept_thread F ALoop s"
| "sthread F ok AAccept s = accept_thread F AAccept s"
| "sthread F ok (AStore c) s = accept_thread F (AStore c) s"
| "sthread F ok (ASpawn c) s = accept_thread F (ASpawn c) s"
| "sthread F ok (KReg c) s = kid_thread F (KReg c) s"
| "sthread F ok (KAct c) s = kid_thread F (KAct c) s"
| "sthread F ok (KFire c) s = kid_thread F (KFire c) s"
| "sthread F ok (KSucc c) s = kid_thread F (KSucc c) s"
| "sthread F ok (KTimer c) s = kid_thread F (KTimer c) s"
| "sthread F ok (KInact c) s = kid_cleanup (KInact c) s"
| "sthread F ok (KNever c) s = kid_cleanup (KNever c) s"
| "sthread F ok (KC1 c) s = kid_cleanup (KC1 c) s"
| "sthread F ok (KC2 c) s = kid_cleanup (KC2 c) s"
| "sthread F ok (KC3 c) s = kid_cleanup (KC3 c) s"
| "sthread F ok (KC4 c) s = kid_cleanup (KC4 c) s"
| "sthread F ok HRange s = hook_thread HRange s"
| "sthread F ok (HLoop cs) s = hook_thread (HLoop cs) s"
| "sthread F ok (HKill c cs) s = hook_thread (HKill c cs) s"
| "sthread F ok (HNever c cs) s = hook_thread (HNever c cs) s"
| "sthread F ok (WRange g) s = wait_thread (WRange g) s"
| "sthread F ok (WLoop g cs w) s = wait_thread (WLoop g cs w) s"
| "sthread F ok (WFire g w) s = wait_thread (WFire g w) s"
| "sthread F ok (WUnreg g) s = wait_thread (WUnreg g) s"
| "sthread F ok (WDone g) s = wait_thread (WDone g) s"
| "sthread F ok SEnded s = None"

text \<open>
  The system. Somebody binds or closes the server, which the close future stops; a peer connects or an
  accept fails; a child is inactivated from its own side, by its reads, its writes or its user; and a
  loop over the map may also visit a child stored while it runs, as \<open>sync.Map\<close> allows.
\<close>

inductive srun :: "'f promise_ops \<Rightarrow> 'f server \<times> spc list \<Rightarrow> 'f server \<times> spc list \<Rightarrow> bool" for F where
  "sthread F ok p s = Some (p', s', new) \<Longrightarrow> srun F (s, xs @ p # ys) (s', xs @ p' # ys @ new)"

inductive sstep :: "'f promise_ops \<Rightarrow> 'f server \<times> spc list \<Rightarrow> 'f server \<times> spc list \<Rightarrow> bool" for F where
  thread: "srun F c c' \<Longrightarrow> sstep F c c'"
| bind: "\<not> v_closed s \<Longrightarrow> sstep F (s, ps) (s, ps @ [BCheck])"
| close: "\<not> v_closed s \<Longrightarrow> sstep F (s, ps) (s, ps @ [CInact])"
| connect: "sstep F (s, ps) (s\<lparr>v_incoming := v_incoming s @ [b]\<rparr>, ps)"
| child: "sstep F (s, ps) (s, ps @ [KInact c])"
| late_kill: "c \<in> set (v_map s) \<Longrightarrow> sstep F (s, xs @ HLoop cs # ys) (s, xs @ HLoop (c # cs) # ys)"
| late_wait: "c \<in> set (v_map s) \<Longrightarrow> sstep F (s, xs @ WLoop g cs w # ys) (s, xs @ WLoop g (c # cs) (c # w) # ys)"

definition new_server :: "'f server" where
  "new_server = \<lparr>v_listening = False, v_alive = Never, v_gen = 0, v_hooked = {}, v_cleaned = {}, v_closed = False,
     v_serial = 0, v_map = [], v_children = Map.empty, v_incoming = [], v_events = [], v_waited = []\<rparr>"

definition sreach :: "'f promise_ops \<Rightarrow> 'f server \<Rightarrow> spc list \<Rightarrow> bool" where
  "sreach F s ps \<longleftrightarrow> (sstep F)\<^sup>*\<^sup>* (new_server, []) (s, ps)"

lemma sreach_induct [consumes 1, case_names start step]:
  assumes "sreach F s ps" and "I new_server []"
    and "\<And>s ps s' ps'. I s ps \<Longrightarrow> sstep F (s, ps) (s', ps') \<Longrightarrow> I s' ps'"
  shows "I s ps"
proof -
  from assms(1) have "case (s, ps) of (s, ps) \<Rightarrow> I s ps"
    unfolding sreach_def by (induction rule: rtranclp_induct) (use assms(2,3) in auto)
  then show ?thesis by simp
qed

lemma srun_thread:
  assumes "srun F (s, ps) (s', ps')"
  shows "\<exists>ok p p' new xs ys. sthread F ok p s = Some (p', s', new) \<and> ps = xs @ p # ys \<and> ps' = xs @ p' # ys @ new"
  using assms by (cases rule: srun.cases) blast

lemma sstep_cases:
  assumes "sstep F (s, ps) (s', ps')"
  obtains (thread) ok p p' new xs ys where "sthread F ok p s = Some (p', s', new)"
      "ps = xs @ p # ys" "ps' = xs @ p' # ys @ new"
  | (call) p where "s' = s" "ps' = ps @ [p]" "p = BCheck \<or> p = CInact \<or> (\<exists>c. p = KInact c)"
  | (connect) b where "s' = s\<lparr>v_incoming := v_incoming s @ [b]\<rparr>" "ps' = ps"
  | (late_kill) c cs xs ys where "c \<in> set (v_map s)" "s' = s" "ps = xs @ HLoop cs # ys" "ps' = xs @ HLoop (c # cs) # ys"
  | (late_wait) c g cs w xs ys where "c \<in> set (v_map s)" "s' = s"
      "ps = xs @ WLoop g cs w # ys" "ps' = xs @ WLoop g (c # cs) (c # w) # ys"
  using assms
proof (cases rule: sstep.cases)
  case thread
  from srun_thread [OF this] that(1) show ?thesis by blast
next
  case bind
  with that(2) [of BCheck] show ?thesis by simp
next
  case close
  with that(2) [of CInact] show ?thesis by simp
next
  case (connect b)
  with that(3) [of b] show ?thesis by simp
next
  case (child c)
  with that(2) [of "KInact c"] show ?thesis by simp
next
  case (late_kill c xs cs ys)
  with that(4) [of c xs cs ys] show ?thesis by simp
next
  case (late_wait c xs g cs w ys)
  with that(5) [of c xs g cs w ys] show ?thesis by simp
qed

lemmas server_defs = Let_def inactivate_child_def inactivate_server_def upd_child_def child_fires_def server_fires_def
  child_closed_def child_active_def new_child_def

lemmas server_splits = if_splits option.splits prod.splits list.splits bool.splits alive.splits

section \<open>The child map\<close>

text \<open>
  How far a child is: 0 to 3 before its activation, 4 to 7 in its clean-up. Each child has at most one
  such thread.
\<close>

fun stage :: "nat \<Rightarrow> spc \<Rightarrow> nat list" where
  "stage c (AStore d) = (if d = c then [0] else [])"
| "stage c (ASpawn d) = (if d = c then [1] else [])"
| "stage c (KReg d) = (if d = c then [2] else [])"
| "stage c (KAct d) = (if d = c then [3] else [])"
| "stage c (KC1 d) = (if d = c then [4] else [])"
| "stage c (KC2 d) = (if d = c then [5] else [])"
| "stage c (KC3 d) = (if d = c then [6] else [])"
| "stage c (KC4 d) = (if d = c then [7] else [])"
| "stage c _ = []"

definition stages :: "nat \<Rightarrow> spc list \<Rightarrow> nat list" where
  "stages c ps = concat (map (stage c) ps)"

lemma stages_simps [simp]:
  "stages c [] = []" "stages c (p # ps) = stage c p @ stages c ps" "stages c (ps @ qs) = stages c ps @ stages c qs"
  by (simp_all add: stages_def)

text \<open>What matters of a child: whether it exists, is alive and is closed, and whether the map has it.\<close>

type_synonym kid_view = "(alive \<times> bool) option \<times> bool"

definition kid_view :: "'f server \<Rightarrow> nat \<Rightarrow> kid_view" where
  "kid_view s c = (map_option (\<lambda>k. (k_alive k, k_closed k)) (v_children s c), c \<in> set (v_map s))"

fun kid_ok :: "nat list \<Rightarrow> kid_view \<Rightarrow> bool" where
  "kid_ok [] (None, m) = (\<not> m)"
| "kid_ok [] (Some (Pending g, d), m) = (\<not> d \<and> m)"
| "kid_ok [] (Some (Settled, d), m) = (d \<and> \<not> m)"
| "kid_ok [i] (Some (a, d), m) = (if i < 4 then (a = Never \<or> a = Settled) \<and> \<not> d \<and> m = (i \<noteq> 0)
     else a = Settled \<and> d = (i = 7) \<and> m)"
| "kid_ok _ _ = False"

text \<open>What one step does to a child and its thread.\<close>

inductive kid_step :: "nat list \<Rightarrow> kid_view \<Rightarrow> nat list \<Rightarrow> kid_view \<Rightarrow> bool" where
  same: "kid_step l v l v"
| die: "kid_step [] (Some (Pending g, d), m) [4] (Some (Settled, d), m)"
| fail: "kid_step l (Some (Never, d), m) l (Some (Settled, d), m)"
| born: "kid_step [] (None, m) [0] (Some (Never, False), m)"
| stored: "kid_step [0] (x, m) [1] (x, True)"
| go: "i \<in> {1, 2, 4, 5} \<Longrightarrow> kid_step [i] v [Suc i] v"
| activated: "kid_step [3] (Some (a, d), m) [] (Some (Pending 0, d), m)"
| closed: "kid_step [6] (Some (a, d), m) [7] (Some (a, True), m)"
| gone: "kid_step [7] (x, m) [] (x, False)"

definition fresh_serials :: "'f server \<Rightarrow> bool" where
  "fresh_serials s \<longleftrightarrow> (\<forall>c \<ge> v_serial s. v_children s c = None)"

definition children_ok :: "'f server \<Rightarrow> spc list \<Rightarrow> bool" where
  "children_ok s ps \<longleftrightarrow> fresh_serials s \<and> (\<forall>c. kid_ok (stages c ps) (kid_view s c))"

lemma fresh_step:
  "sthread F ok p s = Some (p', s', new) \<Longrightarrow> fresh_serials s \<Longrightarrow> fresh_serials s'"
  by (cases p) (auto simp: server_defs fresh_serials_def split: server_splits)

text \<open>The views after the basic updates.\<close>

lemma kid_view_upd [simp]:
  "kid_view (child_fires e d s) c = kid_view s c"
  "kid_view (server_fires e' s) c = kid_view s c"
  "kid_view (upd_child d (\<lambda>k. k\<lparr>k_fut := h k\<rparr>) s) c = kid_view s c"
  by (auto simp: server_defs kid_view_def option.map_comp comp_def)

lemma kid_view_fields [simp]:
  "kid_view (s\<lparr>v_listening := b\<rparr>) c = kid_view s c" "kid_view (s\<lparr>v_alive := a\<rparr>) c = kid_view s c"
  "kid_view (s\<lparr>v_gen := g\<rparr>) c = kid_view s c" "kid_view (s\<lparr>v_hooked := h\<rparr>) c = kid_view s c"
  "kid_view (s\<lparr>v_cleaned := h\<rparr>) c = kid_view s c" "kid_view (s\<lparr>v_closed := b\<rparr>) c = kid_view s c"
  "kid_view (s\<lparr>v_incoming := i\<rparr>) c = kid_view s c" "kid_view (s\<lparr>v_waited := w\<rparr>) c = kid_view s c"
  by (simp_all add: kid_view_def)

lemma kid_go:
  "kid_step [Suc 0] v [2] v" "kid_step [2] v [3] v" "kid_step [4] v [5] v" "kid_step [5] v [6] v"
  using kid_step.go [of 1 v] kid_step.go [of 2 v] kid_step.go [of 4 v] kid_step.go [of 5 v]
  by (simp_all add: eval_nat_numeral)

lemma kid_view_inactivate:
  "inactivate_child d x y s = (p', s', new) \<Longrightarrow> stage c x = [] \<Longrightarrow> stage c y = [] \<Longrightarrow>
     kid_step [] (kid_view s c) (stage c p' @ stages c new) (kid_view s' c)"
  by (auto simp: server_defs kid_view_def kid_step.same kid_step.die kid_step.fail split: server_splits)

lemma kid_view_server:
  "inactivate_server x y z s = (p', s', new) \<Longrightarrow> (\<And>g. stage c (x g) = []) \<Longrightarrow> stage c y = [] \<Longrightarrow> stage c z = [] \<Longrightarrow>
     stage c p' @ stages c new = [] \<and> kid_view s' c = kid_view s c"
  by (auto simp: server_defs kid_view_def split: server_splits)

text \<open>One step of a thread, seen from a child.\<close>

lemma kid_thread:
  assumes "sthread F ok p s = Some (p', s', new)" and "fresh_serials s"
    and "stage c p \<noteq> [] \<longrightarrow> v_children s c \<noteq> None"
  shows "kid_step (stage c p) (kid_view s c) (stage c p' @ stages c new) (kid_view s' c)"
proof (cases p)
  case (KInact d)
  with assms(1) have "inactivate_child d SEnded (KNever d) s = (p', s', new)" by simp
  from kid_view_inactivate [OF this, of c] KInact show ?thesis by simp
next
  case (HKill d cs)
  with assms(1) have "inactivate_child d (HLoop cs) (HNever d cs) s = (p', s', new)" by simp
  from kid_view_inactivate [OF this, of c] HKill show ?thesis by simp
next
  case BInact
  with assms(1) have "inactivate_server (\<lambda>_. SEnded) BUnreg SEnded s = (p', s', new)" by simp
  from kid_view_server [OF this, of c] BInact show ?thesis by (simp add: kid_step.same)
next
  case CInact
  with assms(1) have "inactivate_server CAwait CUnsafe CUnsafe s = (p', s', new)" by simp
  from kid_view_server [OF this, of c] CInact show ?thesis by (simp add: kid_step.same)
next
  case AAccept
  have "kid_view s (v_serial s) = (None, v_serial s \<in> set (v_map s))"
    using assms(2) by (simp add: kid_view_def fresh_serials_def)
  with AAccept assms(1) show ?thesis
    by (auto simp: kid_view_def new_child_def kid_step.same kid_step.born split: server_splits)
next
  case (AStore d)
  with assms(1) show ?thesis by (auto simp: kid_view_def kid_step.same kid_step.stored [simplified])
next
  case (KAct d)
  then show ?thesis using assms by (auto simp: kid_view_def upd_child_def kid_step.same kid_step.activated)
next
  case (KC3 d)
  then show ?thesis using assms by (auto simp: kid_view_def upd_child_def kid_step.same kid_step.closed)
next
  case (KC4 d)
  with assms(1) show ?thesis by (auto simp: kid_view_def kid_step.same kid_step.gone)
qed (use assms(1) in \<open>auto simp: kid_step.same kid_go split: server_splits\<close>)

lemma kid_ok_short: "kid_ok l v \<Longrightarrow> length l \<le> 1"
  by (cases "(l, v)" rule: kid_ok.cases) auto

lemma kid_ok_exists: "kid_ok l v \<Longrightarrow> l \<noteq> [] \<Longrightarrow> fst v \<noteq> None"
  by (cases "(l, v)" rule: kid_ok.cases) auto

lemma kid_frame:
  assumes "kid_step l v l' v'" and "kid_ok (xs @ l @ ys) v" and "l' = l1 @ l2"
  shows "kid_ok (xs @ l1 @ ys @ l2) v'"
proof -
  have short: "length (xs @ l @ ys) \<le> 1" using kid_ok_short [OF assms(2)] .
  have two: "l1 = [] \<or> l2 = []" if "length l' \<le> 1" using that assms(3) by (cases l1; cases l2) auto
  show ?thesis
    using assms(1)
  proof cases
    case same
    with short two assms(2,3) show ?thesis
      by (cases l1; cases l2; cases xs; cases ys) auto
  next
    case (die g d m)
    with assms(2) have "xs @ ys = []" by (cases "(xs @ ys, v)" rule: kid_ok.cases) (auto split: if_splits)
    with die two assms(2,3) show ?thesis by auto
  next
    case (fail d m)
    with short two assms(2,3) show ?thesis
      by (cases l1; cases l2; cases xs; cases ys) auto
  next
    case (born m)
    with assms(2) have "xs @ ys = []" by (cases "(xs @ ys, v)" rule: kid_ok.cases) auto
    with born two assms(2,3) show ?thesis by auto
  next
    case (stored x m)
    with short have "xs = [] \<and> ys = []" by simp
    with stored two assms(2,3) show ?thesis by (cases x) (auto split: if_splits)
  next
    case (go i)
    with short have "xs = [] \<and> ys = []" by simp
    with go two assms(2,3) show ?thesis by (cases v; cases "fst v") (auto split: if_splits)
  next
    case (activated a d m)
    with short have "xs = [] \<and> ys = []" by simp
    with activated two assms(2,3) show ?thesis by auto
  next
    case (closed a d m)
    with short have "xs = [] \<and> ys = []" by simp
    with closed two assms(2,3) show ?thesis by auto
  next
    case (gone x m)
    with short have "xs = [] \<and> ys = []" by simp
    with gone two assms(2,3) show ?thesis by (cases x) auto
  qed
qed

lemma children_step:
  assumes "children_ok s ps" and "sstep F (s, ps) (s', ps')"
  shows "children_ok s' ps'"
  using assms(2)
proof (cases rule: sstep_cases)
  case (thread ok p p' new xs ys)
  have fresh: "fresh_serials s" and kids: "\<And>c. kid_ok (stages c xs @ stage c p @ stages c ys) (kid_view s c)"
    using assms(1) thread(2) by (simp_all add: children_ok_def)
  have "kid_ok (stages c xs @ stage c p' @ stages c ys @ stages c new) (kid_view s' c)" for c
  proof (rule kid_frame [OF kid_thread [OF thread(1) fresh] kids refl])
    show "stage c p \<noteq> [] \<longrightarrow> v_children s c \<noteq> None"
      using kid_ok_exists [OF kids [of c]] by (auto simp: kid_view_def)
  qed
  with fresh_step [OF thread(1) fresh] thread(3) show ?thesis by (simp add: children_ok_def)
next
  case (call p)
  then have "stage c p = []" for c by auto
  with call assms(1) show ?thesis by (simp add: children_ok_def)
next
  case (connect b)
  with assms(1) show ?thesis by (simp add: children_ok_def kid_view_def fresh_serials_def)
qed (use assms(1) in \<open>simp_all add: children_ok_def\<close>)

lemma reach_children: "sreach F s ps \<Longrightarrow> children_ok s ps"
proof (induction rule: sreach_induct)
  case start
  show ?case by (simp add: children_ok_def new_server_def fresh_serials_def kid_view_def)
qed (rule children_step)

section \<open>Waiting for the children\<close>

lemma closed_view: "child_closed s c \<longleftrightarrow> (\<exists>a. fst (kid_view s c) = Some (a, True))"
  by (auto simp: child_closed_def kid_view_def split: option.splits)

lemma active_view: "child_active s c \<longleftrightarrow> (\<exists>g d. fst (kid_view s c) = Some (Pending g, d))"
  by (auto simp: child_active_def kid_view_def split: option.splits)

text \<open>A closed child stays closed.\<close>

lemma closed_stays:
  assumes "kid_step l v l' v'" and "fst v = Some (a, True)"
  shows "\<exists>b. fst v' = Some (b, True)"
  using assms by (cases rule: kid_step.cases) auto

text \<open>The children a clean-up has found are those it still looks at and closed ones.\<close>

fun waiting_ok :: "'f server \<Rightarrow> spc \<Rightarrow> bool" where
  "waiting_ok s (WLoop g cs w) = (\<forall>c \<in> set w. c \<in> set cs \<or> child_closed s c)"
| "waiting_ok s (WFire g w) = (\<forall>c \<in> set w. child_closed s c)"
| "waiting_ok s p = True"

definition waited_ok :: "'f server \<Rightarrow> spc list \<Rightarrow> bool" where
  "waited_ok s ps \<longleftrightarrow> (\<forall>p \<in> set ps. waiting_ok s p) \<and> (\<forall>c \<in> set (v_waited s). child_closed s c)"

lemma waiting_mono:
  "waiting_ok s p \<Longrightarrow> (\<And>c. child_closed s c \<Longrightarrow> child_closed s' c) \<Longrightarrow> waiting_ok s' p"
  by (cases p) auto

lemma waiting_thread:
  assumes "sthread F ok p s = Some (p', s', new)" and "waiting_ok s p"
  shows "waiting_ok s p' \<and> (\<forall>q \<in> set new. waiting_ok s q)
    \<and> (\<forall>c \<in> set (v_waited s'). c \<in> set (v_waited s) \<or> child_closed s c)"
  using assms
  by (cases p) (auto simp: inactivate_child_def inactivate_server_def upd_child_def child_fires_def server_fires_def
    split: server_splits)

lemma waited_step:
  assumes "waited_ok s ps" and "children_ok s ps" and "sstep F (s, ps) (s', ps')"
  shows "waited_ok s' ps'"
  using assms(3)
proof (cases rule: sstep_cases)
  case (thread ok p p' new xs ys)
  have mono: "child_closed s' c" if "child_closed s c" for c
  proof -
    have "stage c p \<noteq> [] \<longrightarrow> v_children s c \<noteq> None"
      using that by (auto simp: child_closed_def split: option.splits)
    from kid_thread [OF thread(1) _ this] assms(2) that closed_stays show ?thesis
      unfolding closed_view children_ok_def by metis
  qed
  have "waiting_ok s p" using assms(1) thread(2) by (simp add: waited_ok_def)
  from waiting_thread [OF thread(1) this] assms(1) thread(2,3) waiting_mono [OF _ mono] mono
  show ?thesis unfolding waited_ok_def by (simp only: set_append set_simps ball_Un ball_simps Un_iff) blast
next
  case (call p)
  with assms(1) show ?thesis by (auto simp: waited_ok_def)
next
  case (connect b)
  then have "child_closed s' c = child_closed s c" for c by (simp add: child_closed_def)
  with connect assms(1) waiting_mono [of s _ s'] show ?thesis by (auto simp: waited_ok_def)
qed (use assms(1) in \<open>auto simp: waited_ok_def\<close>)

lemma reach_waited: "sreach F s ps \<Longrightarrow> children_ok s ps \<and> waited_ok s ps"
proof (induction rule: sreach_induct)
  case start
  show ?case by (simp add: waited_ok_def children_ok_def new_server_def fresh_serials_def kid_view_def)
qed (use children_step waited_step in blast)

section \<open>The future of an acceptance\<close>

fun settles :: "nat \<Rightarrow> spc \<Rightarrow> bool" where
  "settles c (AStore d) = (d = c)"
| "settles c (ASpawn d) = (d = c)"
| "settles c (KTimer d) = (d = c)"
| "settles c _ = False"

text \<open>What matters of a child here: its future, and whether it was active.\<close>

definition fut_view :: "'f server \<Rightarrow> nat \<Rightarrow> ('f \<times> bool) option" where
  "fut_view s c = map_option (\<lambda>k. (k_fut k, KActive \<in> set (k_events k))) (v_children s c)"

lemma fut_view_fields [simp]:
  "fut_view (s\<lparr>v_listening := b\<rparr>) c = fut_view s c" "fut_view (s\<lparr>v_alive := a\<rparr>) c = fut_view s c"
  "fut_view (s\<lparr>v_gen := g\<rparr>) c = fut_view s c" "fut_view (s\<lparr>v_hooked := h\<rparr>) c = fut_view s c"
  "fut_view (s\<lparr>v_cleaned := h\<rparr>) c = fut_view s c" "fut_view (s\<lparr>v_closed := b\<rparr>) c = fut_view s c"
  "fut_view (s\<lparr>v_incoming := i\<rparr>) c = fut_view s c" "fut_view (s\<lparr>v_waited := w\<rparr>) c = fut_view s c"
  "fut_view (s\<lparr>v_map := m\<rparr>) c = fut_view s c" "fut_view (server_fires e s) c = fut_view s c"
  by (simp_all add: fut_view_def server_fires_def)

lemma fut_view_upd [simp]:
  "e \<noteq> KActive \<Longrightarrow> fut_view (child_fires e d s) c = fut_view s c"
  "fut_view (upd_child d (\<lambda>k. k\<lparr>k_alive := a\<rparr>) s) c = fut_view s c"
  "fut_view (upd_child d (\<lambda>k. k\<lparr>k_closed := b\<rparr>) s) c = fut_view s c"
  by (auto simp: fut_view_def child_fires_def upd_child_def option.map_comp comp_def)

lemma fut_view_inactivate:
  "inactivate_child d x y s = (p', s', new) \<Longrightarrow> fut_view s' c = fut_view s c \<and> p' \<in> {x, y} \<and> set new \<subseteq> {KC1 d}"
  by (auto simp: inactivate_child_def split: option.splits alive.splits)

lemma fut_view_server:
  "inactivate_server x y z s = (p', s', new) \<Longrightarrow>
     fut_view s' c = fut_view s c \<and> p' \<in> insert y (insert z (range x)) \<and> set new \<subseteq> insert HRange (range WRange)"
  by (auto simp: inactivate_server_def split: alive.splits if_splits)

fun about :: "nat \<Rightarrow> spc \<Rightarrow> bool" where
  "about c (AStore d) = (d = c)"
| "about c (ASpawn d) = (d = c)"
| "about c (KReg d) = (d = c)"
| "about c (KAct d) = (d = c)"
| "about c (KFire d) = (d = c)"
| "about c (KSucc d) = (d = c)"
| "about c _ = False"

text \<open>What a step does to it: nothing, the child is born, active, accepted or timed out.\<close>

lemma fut_thread:
  assumes "sthread F ok p s = Some (p', s', new)" and "fresh_serials s"
  shows "(fut_view s' c = fut_view s c \<and> (settles c p \<longrightarrow> settles c p' \<or> (\<exists>q \<in> set new. settles c q))
        \<and> (\<forall>q \<in> insert p' (set new). (about c q \<longrightarrow> about c p) \<and> q \<noteq> KSucc c))
    \<or> (fut_view s c = None \<and> fut_view s' c = Some (PNew F, False) \<and> p = AAccept \<and> p' = AStore c \<and> new = [])
    \<or> (p = KFire c \<and> p' = KSucc c \<and> new = [] \<and> fut_view s' c = map_option (\<lambda>v. (fst v, True)) (fut_view s c))
    \<or> (p = KSucc c \<and> p' = SEnded \<and> new = []
        \<and> fut_view s' c = map_option (\<lambda>v. (snd (PComplete F (fst v)), snd v)) (fut_view s c))
    \<or> (p = KTimer c \<and> p' \<in> {KInact c, SEnded} \<and> new = []
        \<and> fut_view s' c = map_option (\<lambda>v. (snd (PFail F ''accept timeout'' (fst v)), snd v)) (fut_view s c))"
proof (cases p)
  case (KInact d)
  with assms(1) have "inactivate_child d SEnded (KNever d) s = (p', s', new)" by simp
  from fut_view_inactivate [OF this, of c] KInact show ?thesis by (intro disjI1) auto
next
  case (HKill d cs)
  with assms(1) have "inactivate_child d (HLoop cs) (HNever d cs) s = (p', s', new)" by simp
  from fut_view_inactivate [OF this, of c] HKill show ?thesis by (intro disjI1) auto
next
  case BInact
  with assms(1) have "inactivate_server (\<lambda>_. SEnded) BUnreg SEnded s = (p', s', new)" by simp
  from fut_view_server [OF this, of c] BInact show ?thesis by (intro disjI1) auto
next
  case CInact
  with assms(1) have "inactivate_server CAwait CUnsafe CUnsafe s = (p', s', new)" by simp
  from fut_view_server [OF this, of c] CInact show ?thesis by (intro disjI1) auto
next
  case AAccept
  have "fut_view s (v_serial s) = None" using assms(2) by (simp add: fut_view_def fresh_serials_def)
  with AAccept assms(1) show ?thesis
    by (auto simp: fut_view_def new_child_def split: if_splits list.splits bool.splits)
next
  case (KFire d)
  with assms(1) show ?thesis
    by (cases "d = c") (auto simp: fut_view_def child_fires_def upd_child_def option.map_comp comp_def)
next
  case (KSucc d)
  with assms(1) show ?thesis
    by (cases "d = c") (auto simp: fut_view_def upd_child_def option.map_comp comp_def)
next
  case (KTimer d)
  show ?thesis
  proof (cases "v_children s d")
    case None
    with KTimer assms(1) show ?thesis by (cases "d = c") (auto simp: fut_view_def)
  next
    case (Some k)
    obtain b f where "PFail F ''accept timeout'' (k_fut k) = (b, f)" by fastforce
    with KTimer assms(1) Some show ?thesis
      by (cases "d = c") (auto simp: fut_view_def upd_child_def split: if_splits)
  qed
next
  case (KC3 d)
  with assms(1) show ?thesis by (intro disjI1) auto
next
  case (KAct d)
  with assms(1) show ?thesis by (intro disjI1) auto
next
  case (KReg d)
  with assms(1) show ?thesis by (intro disjI1) auto
next
  case (ASpawn d)
  with assms(1) show ?thesis by (intro disjI1) auto
next
  case (AStore d)
  with assms(1) show ?thesis by (intro disjI1) auto
qed (use assms(1) in \<open>intro disjI1, auto split: if_splits list.splits\<close>)

text \<open>An open future has its timer to come; one that succeeded belongs to a child that was active.\<close>

definition accept_ok :: "'f promise_ops \<Rightarrow> nat \<Rightarrow> ('f \<times> bool) option \<Rightarrow> spc list \<Rightarrow> bool" where
  "accept_ok F c v ps \<longleftrightarrow> (case v of
       None \<Rightarrow> \<forall>p \<in> set ps. \<not> about c p
     | Some (f, a) \<Rightarrow> (IsDone F f \<or> (\<exists>p \<in> set ps. settles c p)) \<and> (IsSuccess F f \<or> KSucc c \<in> set ps \<longrightarrow> a))"

definition accepts_ok :: "'f promise_ops \<Rightarrow> 'f server \<Rightarrow> spc list \<Rightarrow> bool" where
  "accepts_ok F s ps \<longleftrightarrow> (\<forall>c. accept_ok F c (fut_view s c) ps)"

text \<open>Threads that do not concern a child do not matter.\<close>

lemma accept_more:
  "accept_ok F c v ps \<Longrightarrow> set ps' - set ps \<subseteq> {q. \<not> about c q \<and> q \<noteq> KSucc c}
     \<Longrightarrow> (\<And>q. settles c q \<Longrightarrow> q \<in> set ps \<Longrightarrow> q \<in> set ps') \<Longrightarrow> accept_ok F c v ps'"
  by (fastforce simp: accept_ok_def split: option.splits)

context promise
begin

lemma accepts_step:
  assumes "accepts_ok F s ps" and "fresh_serials s" and "sstep F (s, ps) (s', ps')"
  shows "accepts_ok F s' ps'"
  using assms(3)
proof (cases rule: sstep_cases)
  case (thread ok p p' new xs ys)
  have "accept_ok F c (fut_view s' c) ps'" for c
  proof -
    have old: "accept_ok F c (fut_view s c) ps"
      using assms(1) by (simp add: accepts_ok_def)
    have sets: "set ps = set xs \<union> {p} \<union> set ys" "set ps' = set xs \<union> {p'} \<union> set ys \<union> set new"
      using thread(2,3) by auto
    from fut_thread [OF thread(1) assms(2), of c]
    consider (same) "fut_view s' c = fut_view s c"
        "settles c p \<longrightarrow> settles c p' \<or> (\<exists>q \<in> set new. settles c q)"
        "\<forall>q \<in> insert p' (set new). (about c q \<longrightarrow> about c p) \<and> q \<noteq> KSucc c"
      | (born) "fut_view s c = None" "fut_view s' c = Some (PNew F, False)" "p' = AStore c" "new = []"
      | (fire) "p = KFire c" "p' = KSucc c" "new = []" "fut_view s' c = map_option (\<lambda>v. (fst v, True)) (fut_view s c)"
      | (succ) "p = KSucc c" "p' = SEnded" "new = []"
          "fut_view s' c = map_option (\<lambda>v. (snd (PComplete F (fst v)), snd v)) (fut_view s c)"
      | (timer) "p = KTimer c" "p' \<in> {KInact c, SEnded}" "new = []"
          "fut_view s' c = map_option (\<lambda>v. (snd (PFail F ''accept timeout'' (fst v)), snd v)) (fut_view s c)"
      by (elim disjE conjE) blast+
    then show ?thesis
    proof cases
      case same
      with old sets show ?thesis by (auto simp: accept_ok_def split: option.splits)
    next
      case born
      with old have "\<not> about c q" if "q \<in> set xs \<union> set ys" for q using that sets by (auto simp: accept_ok_def)
      then have "KSucc c \<notin> set ps'" using born(3,4) sets(2) by fastforce
      with born sets(2) show ?thesis by (auto simp: accept_ok_def)
    next
      case fire
      with old sets show ?thesis by (auto simp: accept_ok_def split: option.splits)
    next
      case succ
      with old sets success_after(1) show ?thesis by (auto simp: accept_ok_def split: option.splits)
    next
      case timer
      with old sets success_after(2) show ?thesis by (auto simp: accept_ok_def split: option.splits)
    qed
  qed
  then show ?thesis by (simp add: accepts_ok_def)
next
  case (call p)
  then have "\<not> about c p \<and> p \<noteq> KSucc c" for c by auto
  with call assms(1) accept_more [of F _ _ ps ps'] show ?thesis by (auto simp: accepts_ok_def)
next
  case (connect b)
  with assms(1) show ?thesis by (simp add: accepts_ok_def)
next
  case (late_kill c cs xs ys)
  then have "set ps' - set ps \<subseteq> {q. \<not> about d q \<and> q \<noteq> KSucc d}" "\<And>q. settles d q \<Longrightarrow> q \<in> set ps \<Longrightarrow> q \<in> set ps'" for d
    by auto
  with late_kill(2) assms(1) show ?thesis unfolding accepts_ok_def by (blast intro: accept_more)
next
  case (late_wait c g cs w xs ys)
  then have "set ps' - set ps \<subseteq> {q. \<not> about d q \<and> q \<noteq> KSucc d}" "\<And>q. settles d q \<Longrightarrow> q \<in> set ps \<Longrightarrow> q \<in> set ps'" for d
    by auto
  with late_wait(2) assms(1) show ?thesis unfolding accepts_ok_def by (blast intro: accept_more)
qed

lemma reach_accepts: "sreach F s ps \<Longrightarrow> fresh_serials s \<and> accepts_ok F s ps"
proof (induction rule: sreach_induct)
  case start
  show ?case by (simp add: accepts_ok_def accept_ok_def new_server_def fresh_serials_def fut_view_def)
next
  case (step s ps s' ps')
  from step(2) have "fresh_serials s'"
  proof (cases rule: sstep_cases)
    case (thread ok p p' new xs ys)
    with fresh_step step(1) show ?thesis by blast
  qed (use step(1) in \<open>simp_all add: fresh_serials_def\<close>)
  with accepts_step step show ?case by blast
qed

end

section \<open>Properties\<close>

lemma srun_one: "p \<in> set ps \<Longrightarrow> sthread F ok p s = Some (p', s', new) \<Longrightarrow>
    \<exists>xs ys. ps = xs @ p # ys \<and> srun F (s, ps) (s', xs @ p' # ys @ new)"
  using srun.intros split_list [of p ps] by metis

text \<open>
  C13. The child map. In every state a server can reach, with any number of binds, closes, accepts and
  children going at any moment: a child that is active is in the map, so a clean-up that looks can find
  it; a child that left the map is closed, is not active and never was without being closed; and every
  child the server waited for when it went inactive is closed.
\<close>

theorem child_map_exact:
  assumes "sreach F s ps"
  shows "(\<forall>c. child_active s c \<longrightarrow> c \<in> set (v_map s) \<and> \<not> child_closed s c)
    \<and> (\<forall>c. c < v_serial s \<and> c \<notin> set (v_map s) \<and> v_children s c \<noteq> None \<longrightarrow> AStore c \<in> set ps \<or> child_closed s c)
    \<and> (\<forall>c \<in> set (v_map s). v_children s c \<noteq> None)
    \<and> (\<forall>c \<in> set (v_waited s). child_closed s c \<and> \<not> child_active s c)"
proof -
  have kids: "kid_ok (stages c ps) (kid_view s c)" for c using reach_children [OF assms] by (simp add: children_ok_def)
  have act: "c \<in> set (v_map s) \<and> \<not> child_closed s c" if "child_active s c" for c
  proof -
    from that obtain g d where v: "fst (kid_view s c) = Some (Pending g, d)" by (auto simp: active_view)
    with kids [of c] have "\<not> d \<and> snd (kid_view s c)"
      by (cases "(stages c ps, kid_view s c)" rule: kid_ok.cases) (auto split: if_splits)
    with v show ?thesis by (auto simp: closed_view kid_view_def)
  qed
  have out: "AStore c \<in> set ps \<or> child_closed s c" if "c \<notin> set (v_map s)" "v_children s c \<noteq> None" for c
  proof -
    from that kids [of c] have "stages c ps = [0] \<or> (\<exists>a. fst (kid_view s c) = Some (a, True))"
      by (cases "(stages c ps, kid_view s c)" rule: kid_ok.cases) (auto simp: kid_view_def split: if_splits)
    moreover have "AStore c \<in> set ps" if "stages c ps = [0]"
    proof -
      from that have "(0 :: nat) \<in> set (stages c ps)" by simp
      then obtain p where "p \<in> set ps" and p: "0 \<in> set (stage c p)" by (auto simp: stages_def)
      from p have "p = AStore c" by (cases p) (auto split: if_splits)
      with \<open>p \<in> set ps\<close> show ?thesis by simp
    qed
    ultimately show ?thesis by (auto simp: closed_view)
  qed
  have mem: "v_children s c \<noteq> None" if "c \<in> set (v_map s)" for c
    using that kids [of c] by (cases "(stages c ps, kid_view s c)" rule: kid_ok.cases) (auto simp: kid_view_def)
  have "\<forall>c \<in> set (v_waited s). child_closed s c" using reach_waited [OF assms] by (simp add: waited_ok_def)
  with act out mem show ?thesis by blast
qed

text \<open>
  C17. Every acceptance is decided. From every reachable state in which the future of an accepted child is
  open, at most three steps of threads that already run, whatever the others do, settle it; and when it
  succeeded, the child was active.
\<close>

theorem acceptance_settles:
  assumes "promise F" and "sreach F s ps" and "v_children s c = Some k"
  shows "(IsSuccess F (k_fut k) \<longrightarrow> KActive \<in> set (k_events k))
    \<and> (\<exists>s' ps' k'. (srun F)\<^sup>*\<^sup>* (s, ps) (s', ps') \<and> v_children s' c = Some k' \<and> IsDone F (k_fut k'))"
proof -
  from promise.reach_accepts [OF assms(1,2)] have acc: "accepts_ok F s ps" by blast
  have view: "fut_view s c = Some (k_fut k, KActive \<in> set (k_events k))" using assms(3) by (simp add: fut_view_def)
  from acc have "accept_ok F c (fut_view s c) ps"
    unfolding accepts_ok_def by (rule spec)
  with view have ok: "IsDone F (k_fut k) \<or> (\<exists>p \<in> set ps. settles c p)" "IsSuccess F (k_fut k) \<longrightarrow> KActive \<in> set (k_events k)"
    by (auto simp: accept_ok_def)
  have timer: "\<exists>s' ps' k'. (srun F)\<^sup>*\<^sup>* (s, ps) (s', ps') \<and> v_children s' c = Some k' \<and> IsDone F (k_fut k')"
    if k: "v_children s c = Some k" and t: "KTimer c \<in> set ps" for s ps k
  proof -
    obtain b f where f: "PFail F ''accept timeout'' (k_fut k) = (b, f)" by fastforce
    then have fin: "IsDone F f" using promise.done_after(2) [OF assms(1), of "''accept timeout''" "k_fut k"] by simp
    have "sthread F True (KTimer c) s = Some (if b then KInact c else SEnded, upd_child c (\<lambda>k. k\<lparr>k_fut := f\<rparr>) s, [])"
      using k f by simp
    from srun_one [OF t this] obtain ps' where "srun F (s, ps) (upd_child c (\<lambda>k. k\<lparr>k_fut := f\<rparr>) s, ps')" by blast
    moreover have "v_children (upd_child c (\<lambda>k. k\<lparr>k_fut := f\<rparr>) s) c = Some (k\<lparr>k_fut := f\<rparr>)" by (simp add: upd_child_def k)
    moreover have "IsDone F (k_fut (k\<lparr>k_fut := f\<rparr>))" using fin by simp
    ultimately show ?thesis by (blast intro: r_into_rtranclp)
  qed
  have spawn: "\<exists>s' ps' k'. (srun F)\<^sup>*\<^sup>* (s, ps) (s', ps') \<and> v_children s' c = Some k' \<and> IsDone F (k_fut k')"
    if k: "v_children s c = Some k" and t: "ASpawn c \<in> set ps" for s ps k
  proof -
    have "sthread F True (ASpawn c) s = Some (ALoop, s, [KReg c, KTimer c])" by simp
    from srun_one [OF t this] obtain xs ys where r: "srun F (s, ps) (s, xs @ ALoop # ys @ [KReg c, KTimer c])" by blast
    have "KTimer c \<in> set (xs @ ALoop # ys @ [KReg c, KTimer c])" by simp
    from timer [OF k this] r show ?thesis by (meson converse_rtranclp_into_rtranclp)
  qed
  have "\<exists>s' ps' k'. (srun F)\<^sup>*\<^sup>* (s, ps) (s', ps') \<and> v_children s' c = Some k' \<and> IsDone F (k_fut k')"
  proof (cases "IsDone F (k_fut k)")
    case True
    with assms(3) show ?thesis by blast
  next
    case False
    with ok(1) obtain p where p: "p \<in> set ps" and "settles c p" by blast
    from \<open>settles c p\<close> consider "p = KTimer c" | "p = ASpawn c" | "p = AStore c" by (cases p) auto
    then show ?thesis
    proof cases
      case 3
      have "sthread F True (AStore c) s = Some (ASpawn c, s\<lparr>v_map := c # v_map s\<rparr>, [])" by simp
      from srun_one [OF _ this] p 3 obtain xs ys where
        r: "srun F (s, ps) (s\<lparr>v_map := c # v_map s\<rparr>, xs @ ASpawn c # ys @ [])" by blast
      have "v_children (s\<lparr>v_map := c # v_map s\<rparr>) c = Some k" "ASpawn c \<in> set (xs @ ASpawn c # ys @ [])"
        using assms(3) by simp_all
      from spawn [OF this] r show ?thesis by (meson converse_rtranclp_into_rtranclp)
    qed (use timer [OF assms(3)] spawn [OF assms(3)] p in blast)+
  qed
  with ok(2) show ?thesis by blast
qed


section \<open>Runs\<close>

text \<open>A schedule: which thread steps next, with \<open>net.Listen\<close> succeeding.\<close>

fun sfollow :: "'f promise_ops \<Rightarrow> nat list \<Rightarrow> 'f server \<times> spc list \<Rightarrow> ('f server \<times> spc list) option" where
  "sfollow F [] c = Some c"
| "sfollow F (i # is) (s, ps) =
     (if i < length ps then (case sthread F True (ps ! i) s of
          Some (p', s', new) \<Rightarrow> sfollow F is (s', ps[i := p'] @ new)
        | None \<Rightarrow> None)
      else None)"

lemma sfollow_run: "sfollow F is c = Some c' \<Longrightarrow> (srun F)\<^sup>*\<^sup>* c c'"
proof (induction F "is" c rule: sfollow.induct)
  case (2 F i "is" s ps)
  then obtain p' s' new where i: "i < length ps" "sthread F True (ps ! i) s = Some (p', s', new)"
      "sfollow F is (s', ps[i := p'] @ new) = Some c'" by (auto split: if_splits option.splits)
  from srun.intros [OF i(2), of "take i ps" "drop (Suc i) ps"] i(1)
  have "srun F (s, ps) (s', ps[i := p'] @ new)"
    by (simp add: id_take_nth_drop [symmetric] upd_conv_take_nth_drop)
  from this 2(1) [OF i(1,2) refl refl i(3)] show ?case by (rule converse_rtranclp_into_rtranclp)
qed simp

lemma sreach_step: "sreach F s ps \<Longrightarrow> sstep F (s, ps) (s', ps') \<Longrightarrow> sreach F s' ps'"
  unfolding sreach_def by (rule rtranclp.rtrancl_into_rtrancl)

lemma sfollow_reach:
  assumes "sreach F s ps" and "sfollow F is (s, ps) = Some (s', ps')"
  shows "sreach F s' ps'"
proof -
  from sfollow_run [OF assms(2)] have "(sstep F)\<^sup>*\<^sup>* (s, ps) (s', ps')"
    by (metis sstep.thread mono_rtranclp)
  with assms(1) show ?thesis unfolding sreach_def by (rule rtranclp_trans)
qed

lemma sreach_start: "sreach F new_server []"
  by (simp add: sreach_def)

text \<open>A bound server, with its accept loop waiting.\<close>

definition bound :: "'f server" where
  "bound = new_server\<lparr>v_listening := True, v_alive := Pending 0, v_gen := 1, v_hooked := {0}, v_events := [SvActive]\<rparr>"

lemma bound_reach: "sreach F bound [SEnded, AAccept]"
proof -
  have "sreach F new_server [BCheck]"
    using sreach_step [OF sreach_start sstep.bind, of F] by (simp add: new_server_def)
  moreover have "sfollow F [0, 0, 0, 0, 0, 1] (new_server, [BCheck]) = Some (bound, [SEnded, AAccept])"
    by (simp add: bound_def new_server_def server_fires_def)
  ultimately show ?thesis by (rule sfollow_reach)
qed

text \<open>
  A close that leaves a child behind. While a server that is being closed waits for its children, the
  listener is still open and the accept loop runs on; a child accepted after the clean-up looked is
  activated and told so, and is active when the server is closed, its listener gone and every thread
  ended: nothing will ever inactivate it but itself.
\<close>

theorem close_leaves_child:
  "\<exists>s ps. sreach option_promise s ps \<and> v_closed s \<and> \<not> v_listening s \<and> list_all (\<lambda>p. p = SEnded) ps
    \<and> SvInactive \<in> set (v_events s) \<and> child_active s 0 \<and> v_map s = [0]
    \<and> (\<exists>k. v_children s 0 = Some k \<and> IsSuccess option_promise (k_fut k))"
proof -
  let ?s0 = "(bound :: (string + unit) option server)\<lparr>v_incoming := [True]\<rparr>"
  have "sreach option_promise ?s0 [SEnded, AAccept]"
    using sreach_step [OF bound_reach sstep.connect [of option_promise bound "[SEnded, AAccept]" True]]
    by (simp add: bound_def new_server_def)
  then have r: "sreach option_promise ?s0 [SEnded, AAccept, CInact]"
    using sreach_step [OF _ sstep.close [of ?s0 option_promise "[SEnded, AAccept]"]] by (simp add: bound_def new_server_def)
  obtain s where f: "sfollow option_promise
      [2, 3, 3, 4, 4, 4, 4, 4, 1, 1, 1, 5, 5, 5, 5, 6, 2, 2, 2, 1] (?s0, [SEnded, AAccept, CInact])
      = Some (s, [SEnded, SEnded, SEnded, SEnded, SEnded, SEnded, SEnded])"
    and "v_closed s" "\<not> v_listening s" "SvInactive \<in> set (v_events s)" "child_active s 0" "v_map s = [0]"
      "\<exists>k. v_children s 0 = Some k \<and> IsSuccess option_promise (k_fut k)"
    by (simp add: bound_def new_server_def server_defs option_promise_def)
  then show ?thesis using sfollow_reach [OF r f] by (intro exI [of _ s] exI) auto
qed

text \<open>A bound server with one connection to accept.\<close>

definition visited :: "(string + unit) option server" where
  "visited = bound\<lparr>v_incoming := [True]\<rparr>"

lemma visited_reach: "sreach option_promise visited [SEnded, AAccept]"
  using sreach_step [OF bound_reach sstep.connect [of option_promise bound "[SEnded, AAccept]" True]]
  by (simp add: visited_def bound_def new_server_def)

text \<open>
  A child whose acceptance timed out while its Registered handlers ran is told Unregistered, and then
  activated all the same: it ends up active, in the map, with a failed acceptance.
\<close>

theorem timed_out_child_activated:
  "\<exists>s. sreach option_promise s [SEnded, AAccept, SEnded, SEnded] \<and> child_active s 0 \<and> v_map s = [0]
    \<and> (\<exists>k. v_children s 0 = Some k \<and> IsDone option_promise (k_fut k) \<and> \<not> IsSuccess option_promise (k_fut k)
         \<and> k_events k = [KUnregisteredE, KRegistered, KActive])"
proof -
  obtain s where f: "sfollow option_promise [1, 1, 1, 3, 3, 3, 2, 2, 2, 2, 1] (visited, [SEnded, AAccept])
      = Some (s, [SEnded, AAccept, SEnded, SEnded])"
    and "child_active s 0" "v_map s = [0]" "\<exists>k. v_children s 0 = Some k \<and> IsDone option_promise (k_fut k)
      \<and> \<not> IsSuccess option_promise (k_fut k) \<and> k_events k = [KUnregisteredE, KRegistered, KActive]"
    by (simp add: visited_def bound_def new_server_def server_defs option_promise_def)
  with sfollow_reach [OF visited_reach f] show ?thesis by blast
qed

text \<open>
  A second Bind on a running server is refused, and its clean-up then inactivates the server: its child
  is closed and Inactive fired, while the listener stays open and the accept loop goes on.
\<close>

theorem second_bind_inactivates:
  "\<exists>s ps s'. sreach option_promise s ps \<and> v_listening s \<and> child_active s 0
    \<and> (sstep option_promise)\<^sup>*\<^sup>* (s, ps @ [BCheck]) (s', [SEnded, AAccept, SEnded, SEnded, SEnded, SEnded, SEnded, SEnded])
    \<and> v_listening s' \<and> v_alive s' = Settled \<and> SvInactive \<in> set (v_events s') \<and> child_closed s' 0"
proof -
  obtain s where f: "sfollow option_promise [1, 1, 1, 2, 2, 2, 2, 3, 1] (visited, [SEnded, AAccept])
      = Some (s, [SEnded, AAccept, SEnded, SEnded])" and s: "v_listening s" "child_active s 0"
    and g: "\<exists>s'. sfollow option_promise [4, 4, 5, 5, 5, 5, 7, 7, 7, 7, 6, 6, 6, 6, 6] (s, [SEnded, AAccept, SEnded, SEnded] @ [BCheck])
      = Some (s', [SEnded, AAccept, SEnded, SEnded, SEnded, SEnded, SEnded, SEnded])
      \<and> v_listening s' \<and> v_alive s' = Settled \<and> SvInactive \<in> set (v_events s') \<and> child_closed s' 0"
    by (simp add: visited_def bound_def new_server_def server_defs option_promise_def)
  from g obtain s' where h: "sfollow option_promise [4, 4, 5, 5, 5, 5, 7, 7, 7, 7, 6, 6, 6, 6, 6] (s, [SEnded, AAccept, SEnded, SEnded] @ [BCheck])
      = Some (s', [SEnded, AAccept, SEnded, SEnded, SEnded, SEnded, SEnded, SEnded])"
    and s': "v_listening s'" "v_alive s' = Settled" "SvInactive \<in> set (v_events s')" "child_closed s' 0" by blast
  from sfollow_run [OF h] have "(sstep option_promise)\<^sup>*\<^sup>* (s, [SEnded, AAccept, SEnded, SEnded] @ [BCheck])
      (s', [SEnded, AAccept, SEnded, SEnded, SEnded, SEnded, SEnded, SEnded])"
    by (metis sstep.thread mono_rtranclp)
  with sfollow_reach [OF visited_reach f] s s' show ?thesis by blast
qed

theorem child_map_exact_witness:
  "\<exists>s. sreach option_promise s [SEnded, AAccept, SEnded, KTimer 0] \<and> child_active s 0 \<and> 0 \<in> set (v_map s)"
proof -
  obtain s where f: "sfollow option_promise [1, 1, 1, 2, 2, 2, 2, 1] (visited, [SEnded, AAccept])
      = Some (s, [SEnded, AAccept, SEnded, KTimer 0])" and a: "child_active s 0"
    by (simp add: visited_def bound_def new_server_def server_defs)
  have r: "sreach option_promise s [SEnded, AAccept, SEnded, KTimer 0]" by (rule sfollow_reach [OF visited_reach f])
  with child_map_exact [OF r] a show ?thesis by blast
qed

theorem acceptance_settles_witness:
  "\<exists>s s' ps' k'. sreach option_promise s [SEnded, AStore 0] \<and> (srun option_promise)\<^sup>*\<^sup>* (s, [SEnded, AStore 0]) (s', ps')
    \<and> v_children s' 0 = Some k' \<and> IsDone option_promise (k_fut k')"
proof -
  obtain s k where f: "sfollow option_promise [1] (visited, [SEnded, AAccept]) = Some (s, [SEnded, AStore 0])"
    and k: "v_children s 0 = Some k" by (simp add: visited_def bound_def new_server_def)
  have r: "sreach option_promise s [SEnded, AStore 0]" by (rule sfollow_reach [OF visited_reach f])
  from acceptance_settles [OF op.promise_axioms r k] r show ?thesis by blast
qed

end
