(* ===== verification/Gudp_Server.thy ===== *)
theory Gudp_Server
  imports Channel_Net
begin

text \<open>
  UDP servers: \<open>gudp/udpserverchannel.go\<close>, whose children are virtual connections that all read from the
  one socket of the server, and the socket of the net package as far as they use it. A child is read
  through \<open>DefaultNetChannel\<close>, so the connection is an instance of the operations of \<open>Channel_Net\<close>. The
  TCP listener of \<open>gtcp/tcpserverchannel.go\<close> is here too.
\<close>

section \<open>The socket\<close>

text \<open>
  \<open>net.UDPConn\<close>: the datagrams that have come and not been read, the read deadline (None is none), the
  clock it is compared with, what was sent, and whether it is open. An expired deadline fails a read
  even when a datagram is there; a datagram longer than the buffer is cut.
\<close>

record udp_socket =
  us_queue :: "(string \<times> byte list) list"
  us_readDeadline :: "int option"
  us_clock :: int
  us_sent :: "(string \<times> byte list) list"
  us_open :: bool

datatype 'a udp_result = UGot 'a | UErr net_err | UWait

definition read_refused :: "udp_socket \<Rightarrow> net_err option" where
  "read_refused s = (if \<not> us_open s then Some ErrNetClosed
     else (case us_readDeadline s of
         None \<Rightarrow> None
       | Some t \<Rightarrow> if t \<le> us_clock s then Some Deadline else None))"

definition ReadFromUDP :: "nat \<Rightarrow> udp_socket \<Rightarrow> (string \<times> byte list) udp_result \<times> udp_socket" where
  "ReadFromUDP n s = (case read_refused s of
       Some e \<Rightarrow> (UErr e, s)
     | None \<Rightarrow> (case us_queue s of
          [] \<Rightarrow> (UWait, s)
        | (a, bs) # q \<Rightarrow> (UGot (a, take n bs), s\<lparr>us_queue := q\<rparr>)))"

definition WriteToUDP :: "byte list \<Rightarrow> string \<Rightarrow> udp_socket \<Rightarrow> net_err option \<times> udp_socket" where
  "WriteToUDP bs a s = (if us_open s then (None, s\<lparr>us_sent := us_sent s @ [(a, bs)]\<rparr>) else (Some ErrNetClosed, s))"

section \<open>The connection of one client\<close>

record UDPClientConn =
  clientAddr :: string
  lastData :: "byte list"
  firstRead :: bool

text \<open>The loop of \<open>Read\<close>: datagrams of other clients are read and thrown away.\<close>

fun scan_own :: "nat \<Rightarrow> string \<Rightarrow> (string \<times> byte list) list \<Rightarrow> byte list option \<times> (string \<times> byte list) list" where
  "scan_own n c [] = (None, [])"
| "scan_own n c ((a, bs) # q) = (if a = c then (Some (take n bs), q) else scan_own n c q)"

definition udp_Read :: "nat \<Rightarrow> UDPClientConn \<Rightarrow> udp_socket \<Rightarrow> byte list udp_result \<times> UDPClientConn \<times> udp_socket" where
  "udp_Read n c s =
     (if \<not> firstRead c \<and> lastData c \<noteq> [] then (UGot (take n (lastData c)), c\<lparr>firstRead := True\<rparr>, s)
      else (case read_refused s of
          Some e \<Rightarrow> (UErr e, c, s)
        | None \<Rightarrow> (case scan_own n (clientAddr c) (us_queue s) of
             (Some bs, q) \<Rightarrow> (UGot bs, c, s\<lparr>us_queue := q\<rparr>)
           | (None, q) \<Rightarrow> (UWait, c, s\<lparr>us_queue := q\<rparr>))))"

definition udp_Write :: "byte list \<Rightarrow> UDPClientConn \<Rightarrow> udp_socket \<Rightarrow> net_err option \<times> udp_socket" where
  "udp_Write bs c s = WriteToUDP bs (clientAddr c) s"

text \<open>\<open>Close\<close> leaves the socket alone; the deadlines of a client are the socket's.\<close>

definition udp_Close :: "udp_socket \<Rightarrow> net_err option \<times> udp_socket" where
  "udp_Close s = (None, s)"

definition udp_SetReadDeadline :: "int \<Rightarrow> udp_socket \<Rightarrow> net_err option \<times> udp_socket" where
  "udp_SetReadDeadline t s = (if us_open s then (None, s\<lparr>us_readDeadline := Some t\<rparr>) else (Some ErrNetClosed, s))"

text \<open>
  The connection as \<open>DefaultNetChannel\<close> sees it, with the socket beside it. A read that waits is ended by
  the deadline, the time passing in the meantime; without a deadline it is not ended at all, which is
  the answer Skip here, as nothing else happens to the channel.
\<close>

definition passing :: "udp_socket \<Rightarrow> udp_socket" where
  "passing s = (case us_readDeadline s of None \<Rightarrow> s | Some t \<Rightarrow> s\<lparr>us_clock := max (us_clock s) t\<rparr>)"

definition udp_conn :: "(UDPClientConn \<times> udp_socket) conn_ops" where
  "udp_conn = \<lparr>
     CRead = (\<lambda>n (c, s). case udp_Read n c s of
         (UGot bs, c', s') \<Rightarrow> ((bs, None), (c', s'))
       | (UErr e, c', s') \<Rightarrow> (([], Some e), (c', s'))
       | (UWait, c', s') \<Rightarrow> (([], Some (if us_readDeadline s' = None then ErrSkip else Deadline)), (c', passing s'))),
     CWrite = (\<lambda>bs (c, s). case udp_Write bs c s of (e, s') \<Rightarrow> (e, (c, s'))),
     CClose = (\<lambda>(c, s). case udp_Close s of (e, s') \<Rightarrow> (e, (c, s'))),
     CReadDeadline = (\<lambda>t (c, s). case udp_SetReadDeadline t s of (e, s') \<Rightarrow> (e, (c, s'))),
     CWriteDeadline = (\<lambda>t (c, s). (if us_open s then None else Some ErrNetClosed, (c, s))),
     CLocalAddr = (\<lambda>(c, s). OtherAddr ''server''),
     CRemoteAddr = (\<lambda>(c, s). UDPAddr (clientAddr c))\<rparr>"

section \<open>The servers\<close>

text \<open>
  The two server channels: the field \<open>active\<close>, which \<open>IsActive\<close> answers, and the socket or listener.
  \<open>Listen\<close> is the parameter; None is an address it refuses.
\<close>

datatype bind_error = BindTwice | BindNotUDP | BindRefused net_err

record udp_server =
  udp_active :: bool
  udp_sock :: "udp_socket option"

definition udp_UnsafeBind ::
  "(net_address \<Rightarrow> net_err + udp_socket) \<Rightarrow> net_address \<Rightarrow> udp_server \<Rightarrow> bind_error option \<times> udp_server" where
  "udp_UnsafeBind listen a v =
     (if udp_active v then (Some BindTwice, v)
      else if \<not> is_udp a then (Some BindNotUDP, v)
      else (case listen a of
          Inl e \<Rightarrow> (Some (BindRefused e), v)
        | Inr s \<Rightarrow> (None, \<lparr>udp_active = True, udp_sock = Some s\<rparr>)))"

text \<open>
  \<open>UnsafeAccept\<close>: the datagram goes through a pooled buffer and is copied. The answer is the connection
  of a new child, for any datagram, or nil; UWait is a read that has nothing to read.
\<close>

definition udp_UnsafeAccept ::
  "nat option \<Rightarrow> udp_server \<Rightarrow> pools \<Rightarrow> UDPClientConn option udp_result \<times> udp_server \<times> pools" where
  "udp_UnsafeAccept pick v p =
     (if \<not> udp_active v then (UGot None, v, p)
      else (case udp_sock v of
          None \<Rightarrow> (UGot None, v, p)
        | Some s \<Rightarrow> (case Get Large pick p of (buf, p1) \<Rightarrow>
            (case ReadFromUDP (sl_len buf) s of
               (UErr e, s') \<Rightarrow> (UGot None, v\<lparr>udp_sock := Some s'\<rparr>, Put Large buf p1)
             | (UWait, s') \<Rightarrow> (UWait, v\<lparr>udp_sock := Some s'\<rparr>, p1)
             | (UGot (a, bs), s') \<Rightarrow>
                (let p2 = p1\<lparr>mem := store_bytes (sl_base buf) bs (mem p1)\<rparr>;
                     data = take (length bs) (slice_bytes (mem p2) buf)
                 in (UGot (Some \<lparr>clientAddr = a, lastData = data, firstRead = False\<rparr>),
                     v\<lparr>udp_sock := Some s'\<rparr>, Put Large buf p2))))))"

text \<open>\<open>UnsafeClose\<close> forgets the socket and closes it; the children still hold it, so it is answered.\<close>

definition udp_UnsafeClose :: "udp_server \<Rightarrow> udp_server \<times> udp_socket option" where
  "udp_UnsafeClose v = (\<lparr>udp_active = False, udp_sock = None\<rparr>, map_option (\<lambda>s. s\<lparr>us_open := False\<rparr>) (udp_sock v))"

text \<open>The TCP server: \<open>accept\<close> answers the next connection or an error.\<close>

record 'l tcp_server =
  tcp_active :: bool
  tcp_listen :: "'l option"

definition tcp_UnsafeBind ::
  "(net_address \<Rightarrow> net_err + 'l) \<Rightarrow> net_address \<Rightarrow> 'l tcp_server \<Rightarrow> bind_error option \<times> 'l tcp_server" where
  "tcp_UnsafeBind listen a v =
     (if tcp_active v then (Some BindTwice, v)
      else (case listen a of
          Inl e \<Rightarrow> (Some (BindRefused e), v)
        | Inr l \<Rightarrow> (None, \<lparr>tcp_active = True, tcp_listen = Some l\<rparr>)))"

definition tcp_UnsafeAccept ::
  "('l \<Rightarrow> (net_err + 'c) \<times> 'l) \<Rightarrow> 'l tcp_server \<Rightarrow> panic + 'c option \<times> 'l tcp_server" where
  "tcp_UnsafeAccept accept v = (case tcp_listen v of
       None \<Rightarrow> Inl NilDeref
     | Some l \<Rightarrow> (case accept l of
          (Inl e, l') \<Rightarrow> Inr (None, v\<lparr>tcp_listen := Some l'\<rparr>)
        | (Inr c, l') \<Rightarrow> Inr (Some c, v\<lparr>tcp_listen := Some l'\<rparr>)))"

definition tcp_UnsafeClose :: "('l \<Rightarrow> net_err option \<times> 'l) \<Rightarrow> 'l tcp_server \<Rightarrow> net_err option \<times> 'l tcp_server" where
  "tcp_UnsafeClose close v = (case tcp_listen v of
       None \<Rightarrow> (None, v\<lparr>tcp_active := False\<rparr>)
     | Some l \<Rightarrow> (case close l of (e, l') \<Rightarrow> (e, \<lparr>tcp_active = False, tcp_listen = Some l'\<rparr>)))"

section \<open>Properties\<close>

lemma Get_fresh:
  assumes "pools_inv p used" and "Get k pick p = (s, p')"
  shows "fresh_buffer p used (int (pool_size k)) s p'"
  using Get_inv [OF assms] slice_bytes_zero [of s "mem p'"] by (auto simp: fresh_buffer_def)

lemma GetBufferForSize_some: "0 \<le> n \<Longrightarrow> \<exists>s p'. GetBufferForSize pick n p = (Inl s, p')"
  by (auto simp: GetBufferForSize_def GetWithSize_def split: prod.splits)

lemma CRead_keeps:
  "CRead udp_conn n (c, s) = (x, (c', s')) \<Longrightarrow> us_open s' = us_open s \<and> us_readDeadline s' = us_readDeadline s"
  by (auto simp: udp_conn_def udp_Read_def passing_def split: prod.splits option.splits if_splits udp_result.splits)

definition own_data :: "string \<Rightarrow> (string \<times> byte list) list \<Rightarrow> byte list list" where
  "own_data a q = map snd (filter (\<lambda>d. fst d = a) q)"

lemma own_data_simps [simp]:
  "own_data a [] = []" "own_data a ((b, bs) # q) = (if b = a then [bs] else []) @ own_data a q"
  by (simp_all add: own_data_def)

lemma scan_own_none: "own_data a q = [] \<Longrightarrow> scan_own n a q = (None, [])"
  by (induction q) (auto split: if_splits)

lemma scan_own_some:
  "own_data a q = bs # rest \<Longrightarrow> \<exists>q'. scan_own n a q = (Some (take n bs), q') \<and> own_data a q' = rest"
proof (induction q)
  case (Cons d q)
  then show ?case by (cases d) (auto split: if_splits)
qed simp

text \<open>At most \<open>k\<close> reads, until one answers no data.\<close>

fun udp_reads :: "nat \<Rightarrow> nat \<Rightarrow> UDPClientConn \<Rightarrow> udp_socket \<Rightarrow> byte list list \<times> UDPClientConn \<times> udp_socket" where
  "udp_reads 0 n c s = ([], c, s)"
| "udp_reads (Suc k) n c s = (case udp_Read n c s of
     (UGot bs, c', s') \<Rightarrow> (case udp_reads k n c' s' of (r, c'', s'') \<Rightarrow> (bs # r, c'', s''))
   | (_, c', s') \<Rightarrow> ([], c', s'))"

lemma udp_reads_later:
  assumes "firstRead c \<or> lastData c = []" and "read_refused s = None" and "length (own_data (clientAddr c) (us_queue s)) < k"
  shows "udp_reads k n c s = (map (take n) (own_data (clientAddr c) (us_queue s)), c, s\<lparr>us_queue := []\<rparr>)"
  using assms
proof (induction k arbitrary: s)
  case (Suc k)
  have first: "\<not> (\<not> firstRead c \<and> lastData c \<noteq> [])" using Suc.prems(1) by blast
  show ?case
  proof (cases "own_data (clientAddr c) (us_queue s)")
    case Nil
    with Suc.prems(2) first show ?thesis by (auto simp: udp_Read_def scan_own_none)
  next
    case (Cons bs rest)
    then obtain q' where q': "scan_own n (clientAddr c) (us_queue s) = (Some (take n bs), q')"
      "own_data (clientAddr c) q' = rest" using scan_own_some by blast
    have "read_refused (s\<lparr>us_queue := q'\<rparr>) = None"
      using Suc.prems(2) by (auto simp: read_refused_def split: if_splits option.splits)
    with Suc.IH [of "s\<lparr>us_queue := q'\<rparr>"] Suc.prems q' Cons first show ?thesis by (auto simp: udp_Read_def)
  qed
qed simp


text \<open>
  Accepting a datagram. A server that may read its socket and finds a datagram of at most 64 KiB makes
  a child for its sender that holds exactly its bytes, whether or not the sender has a child already;
  the bytes are copied: the buffer goes back to its pool, the pools stay intact and no buffer in use
  changes.
\<close>

theorem udp_accept_faithful:
  assumes "udp_active v" and "udp_sock v = Some s" and "read_refused s = None" and "us_queue s = (a, bs) # q"
    and "length bs \<le> 64 * 1024" and "pools_ok p used"
  shows "\<exists>p'. udp_UnsafeAccept pick v p
      = (UGot (Some \<lparr>clientAddr = a, lastData = bs, firstRead = False\<rparr>),
         v\<lparr>udp_sock := Some (s\<lparr>us_queue := q\<rparr>)\<rparr>, p')
    \<and> pools_ok p' used \<and> (\<forall>t \<in> set used. slice_bytes (mem p') t = slice_bytes (mem p) t)"
proof -
  have inv: "pools_inv p used" using assms(6) by (simp add: pools_ok_inv)
  obtain buf p1 where g: "Get Large pick p = (buf, p1)" by fastforce
  from Get_fresh [OF inv g] have fresh: "fresh_buffer p used (int (64 * 1024)) buf p1" and len: "sl_len buf = 64 * 1024"
    by (simp_all add: fresh_buffer_def)
  let ?p2 = "p1\<lparr>mem := store_bytes (sl_base buf) bs (mem p1)\<rparr>"
  have inv1: "pools_inv p1 (buf # used)" using fresh by (simp add: fresh_buffer_def)
  then have cap: "sl_len buf \<le> sl_cap buf" by (simp add: pools_inv_def slice_ok_def)
  have data: "take (length bs) (slice_bytes (mem ?p2) buf) = bs"
    using slice_bytes_stored [of bs buf "mem p1"] assms(5) len by simp
  have "udp_UnsafeAccept pick v p = (UGot (Some \<lparr>clientAddr = a, lastData = bs, firstRead = False\<rparr>),
      v\<lparr>udp_sock := Some (s\<lparr>us_queue := q\<rparr>)\<rparr>, Put Large buf ?p2)"
    using assms(1-5) data by (simp add: udp_UnsafeAccept_def g ReadFromUDP_def len Let_def)
  moreover have "pools_inv (Put Large buf ?p2) used"
    by (rule Put_inv) (simp add: pools_inv_mem inv1)
  moreover have "slice_bytes (mem (Put Large buf ?p2)) t = slice_bytes (mem p) t" if "t \<in> set used" for t
  proof -
    have "sl_len t \<le> sl_cap t" using inv that by (simp add: pools_inv_def slice_ok_def)
    with fresh_private [OF inv fresh that] assms(5) len cap slice_bytes_kept [of buf t bs "mem p1"]
    show ?thesis by (simp add: Put_def)
  qed
  ultimately show ?thesis by (simp add: pools_ok_inv)
qed

text \<open>
  C26. A child's read deadline stops the server. The socket is shared, so after any read of a child through
  \<open>DefaultNetChannel\<close> with a read timeout, the socket carries the child's deadline; and from that moment
  on, whatever clients send, every accept answers nil at once and takes no datagram, until some child
  reads again.
\<close>

theorem udp_child_stops_accept:
  assumes "nc_conn ch = Some \<lparr>dc_conn = (c, s), dc_active = True\<rparr>" and "us_open s" and "0 < ReadTimeout ch"
    and "0 \<le> BufferSize ch" and "net_UnsafeRead udp_conn B pick now True ch p = (r, ch', p')"
  shows "\<exists>d s'. nc_conn ch' = Some d \<and> snd (dc_conn d) = s' \<and> us_open s'
    \<and> us_readDeadline s' = Some (now + ReadTimeout ch)
    \<and> (\<forall>t q v p1 pk. now + ReadTimeout ch \<le> t \<longrightarrow> udp_active v \<longrightarrow> udp_sock v = Some (s'\<lparr>us_clock := t, us_queue := q\<rparr>) \<longrightarrow>
         (\<exists>p2. udp_UnsafeAccept pk v p1 = (UGot None, v, p2)))"
proof -
  obtain b p1 where g: "GetBufferForSize pick (BufferSize ch) p = (Inl b, p1)"
    using GetBufferForSize_some [OF assms(4)] by blast
  define s1 where "s1 = s\<lparr>us_readDeadline := Some (now + ReadTimeout ch)\<rparr>"
  obtain bs e c' s' where rd: "CRead udp_conn (sl_len b) (c, s1) = ((bs, e), (c', s'))" by (metis prod.collapse)
  have s': "us_open s' \<and> us_readDeadline s' = Some (now + ReadTimeout ch)"
    using CRead_keeps [OF rd] assms(2) by (simp add: s1_def)
  have dl: "CReadDeadline udp_conn (now + ReadTimeout ch) (c, s) = (None, (c, s1))"
    by (simp add: udp_conn_def udp_SetReadDeadline_def assms(2) s1_def)
  obtain d where "nc_conn ch' = Some d" and "snd (dc_conn d) = s'"
    using assms(1,3,5) by (auto simp: net_UnsafeRead_def g read_into_def dl conn_Read_def rd after_err_def Let_def
      split: option.splits if_splits prod.splits)
  moreover have "\<exists>p2. udp_UnsafeAccept pk v p1 = (UGot None, v, p2)"
    if "now + ReadTimeout ch \<le> t" "udp_active v" "udp_sock v = Some (s'\<lparr>us_clock := t, us_queue := q\<rparr>)" for t q v p1 pk
  proof -
    have "read_refused (s'\<lparr>us_clock := t, us_queue := q\<rparr>) = Some Deadline" using s' that(1) by (simp add: read_refused_def)
    moreover have "v\<lparr>udp_sock := Some (s'\<lparr>us_clock := t, us_queue := q\<rparr>)\<rparr> = v" using that(3) by (cases v) simp
    ultimately show ?thesis using that(2,3) by (simp add: udp_UnsafeAccept_def ReadFromUDP_def split: prod.splits)
  qed
  ultimately show ?thesis using s' by blast
qed

section \<open>Concrete runs\<close>

definition demo_socket :: udp_socket where
  "demo_socket = \<lparr>us_queue = [(''A'', [1, 2]), (''B'', [3]), (''A'', [4])], us_readDeadline = None, us_clock = 0,
     us_sent = [], us_open = True\<rparr>"

definition demo_client :: UDPClientConn where
  "demo_client = \<lparr>clientAddr = ''A'', lastData = [9, 9], firstRead = False\<rparr>"


theorem udp_accept_faithful_witness:
  "\<exists>p'. udp_UnsafeAccept None \<lparr>udp_active = True, udp_sock = Some demo_socket\<rparr> no_pools
      = (UGot (Some \<lparr>clientAddr = ''A'', lastData = [1, 2], firstRead = False\<rparr>),
         \<lparr>udp_active = True, udp_sock = Some (demo_socket\<lparr>us_queue := [(''B'', [3]), (''A'', [4])]\<rparr>)\<rparr>, p')
    \<and> pools_ok p' []"
  using udp_accept_faithful [of "\<lparr>udp_active = True, udp_sock = Some demo_socket\<rparr>" demo_socket "''A''" "[1, 2]"
      "[(''B'', [3]), (''A'', [4])]" no_pools "[]" None] no_pools_ok
  by (simp add: demo_socket_def read_refused_def)

definition demo_child :: "(UDPClientConn \<times> udp_socket) net_channel" where
  "demo_child = \<lparr>nc_conn = Some \<lparr>dc_conn = (demo_client, demo_socket), dc_active = True\<rparr>, BufferSize = 1024,
     ReadTimeout = 1000000000, WriteTimeout = 0, nc_localAddr = None\<rparr>"

theorem udp_child_stops_accept_witness:
  "\<exists>s'. us_open s' \<and> (\<forall>q p. \<exists>p2. udp_UnsafeAccept None \<lparr>udp_active = True, udp_sock = Some (s'\<lparr>us_clock := 2000000000, us_queue := q\<rparr>)\<rparr> p
     = (UGot None, \<lparr>udp_active = True, udp_sock = Some (s'\<lparr>us_clock := 2000000000, us_queue := q\<rparr>)\<rparr>, p2))"
proof -
  obtain r ch' p' where run: "net_UnsafeRead udp_conn list_bytebuf None 5 True demo_child no_pools = (r, ch', p')"
    by (metis prod.collapse)
  have "nc_conn demo_child = Some \<lparr>dc_conn = (demo_client, demo_socket), dc_active = True\<rparr>" "us_open demo_socket"
    "0 < ReadTimeout demo_child" "0 \<le> BufferSize demo_child" by (simp_all add: demo_child_def demo_socket_def)
  from udp_child_stops_accept [OF this run] obtain s' where "us_open s'" and
    stop: "\<And>t q v p1 pk. 5 + ReadTimeout demo_child \<le> t \<Longrightarrow> udp_active v
      \<Longrightarrow> udp_sock v = Some (s'\<lparr>us_clock := t, us_queue := q\<rparr>) \<Longrightarrow> \<exists>p2. udp_UnsafeAccept pk v p1 = (UGot None, v, p2)"
    by blast
  moreover have late: "5 + ReadTimeout demo_child \<le> 2000000000" by (simp add: demo_child_def)
  have "\<exists>p2. udp_UnsafeAccept None \<lparr>udp_active = True, udp_sock = Some (s'\<lparr>us_clock := 2000000000, us_queue := q\<rparr>)\<rparr> p
     = (UGot None, \<lparr>udp_active = True, udp_sock = Some (s'\<lparr>us_clock := 2000000000, us_queue := q\<rparr>)\<rparr>, p2)" for q p
    by (rule stop [OF late]) simp_all
  ultimately show ?thesis by blast
qed

end
