(* ===== verification/Channel_Bootstrap.thy ===== *)
theory Channel_Bootstrap
  imports Channel_Pipeline_Use Channel_Net
begin

text \<open>
  Building channels: \<open>channel/bootstrap.go\<close>, \<open>channel/serverbootstrap.go\<close>, the derivation of a child in
  \<open>channel/serverchannel.go\<close> and \<open>channel/netserverchannel.go\<close>, the identity a channel gets in
  \<open>channel/channel.go\<close>, and the servers of \<open>gtcp/simpletcp\<close> and \<open>gudp/simpleudp\<close> that are put together
  this way. A channel is built by its type's hooks, in the order of the code, on the pipeline of
  \<open>Channel_Pipeline\<close> and with the network fields of \<open>Channel_Net\<close>.
\<close>

section \<open>Channels under construction\<close>

text \<open>
  \<open>bc_serial\<close> is the serial number; \<open>bc_whole\<close> says whether the pipeline was made for the channel as
  the bootstrap knows it, and not for the \<open>DefaultChannel\<close> embedded in it: the head handler calls
  \<open>unsafe()\<close> and the \<open>UnsafeX\<close> methods of the channel its pipeline was made for.
\<close>

record ('h, 'c) built =
  bc_serial :: nat
  bc_whole :: bool
  bc_params :: params
  bc_pipe :: "'h pipeline"
  bc_net :: "'c net_channel"
  bc_parent :: "nat option"
  bc_local :: "net_address option"
  bc_registered :: bool

definition zero_net :: "'c net_channel" where
  "zero_net = \<lparr>nc_conn = None, BufferSize = 0, ReadTimeout = 0, WriteTimeout = 0, nc_localAddr = None\<rparr>"

definition zero_channel :: "('h, 'c) built" where
  "zero_channel = \<lparr>bc_serial = 0, bc_whole = False, bc_params = Map.empty, bc_pipe = NewDefaultPipeline,
     bc_net = zero_net, bc_parent = None, bc_local = None, bc_registered = False\<rparr>"

text \<open>
  \<open>channel.init(channel)\<close>: the next serial number, which is counted in all channels, and a new pipeline
  for the channel given. The state is the counter with the channel.
\<close>

definition channel_init :: "bool \<Rightarrow> nat \<times> ('h, 'c) built \<Rightarrow> nat \<times> ('h, 'c) built" where
  "channel_init whole = (\<lambda>(n, c). (Suc n, c\<lparr>bc_serial := Suc n, bc_pipe := NewDefaultPipeline, bc_whole := whole\<rparr>))"

text \<open>
  What a type of channel brings: its \<open>Init\<close>, and the hooks before and after, which a type need not have.
  \<open>DefaultChannel.Init\<close> runs \<open>init\<close> again, for the embedded channel; \<open>DefaultNetChannel.Init\<close> reads the
  parameters.
\<close>

record ('h, 'c) channel_kind =
  ck_pre :: "nat \<times> ('h, 'c) built \<Rightarrow> nat \<times> ('h, 'c) built"
  ck_Init :: "nat \<times> ('h, 'c) built \<Rightarrow> nat \<times> ('h, 'c) built"
  ck_post :: "nat \<times> ('h, 'c) built \<Rightarrow> nat \<times> ('h, 'c) built"

definition default_Init :: "nat \<times> ('h, 'c) built \<Rightarrow> nat \<times> ('h, 'c) built" where
  "default_Init = channel_init False"

definition netchannel_Init :: "nat \<times> ('h, 'c) built \<Rightarrow> nat \<times> ('h, 'c) built" where
  "netchannel_Init = (\<lambda>(n, c). (n, c\<lparr>bc_net := net_Init (bc_params c) (bc_net c)\<rparr>))"

definition default_kind :: "('h, 'c) channel_kind" where
  "default_kind = \<lparr>ck_pre = id, ck_Init = default_Init, ck_post = id\<rparr>"

definition net_kind :: "('h, 'c) channel_kind" where
  "net_kind = \<lparr>ck_pre = id, ck_Init = netchannel_Init, ck_post = id\<rparr>"

text \<open>The handler under the name ROOT, when there is one; the answer is the pipeline's.\<close>

definition add_root ::
  "'h hooks \<Rightarrow> 'h option \<Rightarrow> nat \<times> ('h, 'c) built \<Rightarrow> (nat \<times> ('h, 'c) built) run" where
  "add_root hooks h = (\<lambda>(n, c). case h of
       None \<Rightarrow> Some (Done (n, c))
     | Some r \<Rightarrow> (case AddLast hooks ''ROOT'' (Some (UserHandler r)) (bc_pipe c) of
          None \<Rightarrow> None
        | Some (Done p) \<Rightarrow> Some (Done (n, c\<lparr>bc_pipe := p\<rparr>))
        | Some (Panicked e p) \<Rightarrow> Some (Panicked e (n, c\<lparr>bc_pipe := p\<rparr>))))"

definition copy_params :: "params \<Rightarrow> nat \<times> ('h, 'c) built \<Rightarrow> nat \<times> ('h, 'c) built" where
  "copy_params ps = (\<lambda>(n, c). (n, c\<lparr>bc_params := bc_params c ++ ps\<rparr>))"

definition fire_registered :: "nat \<times> ('h, 'c) built \<Rightarrow> nat \<times> ('h, 'c) built" where
  "fire_registered = (\<lambda>(n, c). (n, c\<lparr>bc_registered := True\<rparr>))"

section \<open>Bootstraps\<close>

record 'h bootstrap =
  bs_handler :: "'h option"
  bs_params :: params
  bs_childHandler :: "'h option"
  bs_childParams :: params

definition NewBootstrap :: "'h bootstrap" where
  "NewBootstrap = \<lparr>bs_handler = None, bs_params = Map.empty, bs_childHandler = None, bs_childParams = Map.empty\<rparr>"

definition boot_Handler :: "'h option \<Rightarrow> 'h bootstrap \<Rightarrow> 'h bootstrap" where
  "boot_Handler h b = b\<lparr>bs_handler := h\<rparr>"

definition boot_SetParams :: "string \<Rightarrow> param_value \<Rightarrow> 'h bootstrap \<Rightarrow> 'h bootstrap" where
  "boot_SetParams k v b = b\<lparr>bs_params := (bs_params b)(k \<mapsto> v)\<rparr>"

definition boot_ChildHandler :: "'h option \<Rightarrow> 'h bootstrap \<Rightarrow> 'h bootstrap" where
  "boot_ChildHandler h b = b\<lparr>bs_childHandler := h\<rparr>"

definition boot_SetChildParams :: "string \<Rightarrow> param_value \<Rightarrow> 'h bootstrap \<Rightarrow> 'h bootstrap" where
  "boot_SetChildParams k v b = b\<lparr>bs_childParams := (bs_childParams b)(k \<mapsto> v)\<rparr>"

text \<open>\<open>DefaultBootstrap.Connect\<close> up to the call of \<open>Connect\<close> on the channel it built.\<close>

definition boot_Connect ::
  "'h hooks \<Rightarrow> ('h, 'c) channel_kind \<Rightarrow> 'h bootstrap \<Rightarrow> nat \<Rightarrow> (nat \<times> ('h, 'c) built) run" where
  "boot_Connect hooks K b n =
     (let c1 = ck_pre K (n, zero_channel);
          c2 = copy_params (bs_params b) (channel_init True c1);
          c3 = ck_Init K c2
      in seq_run (add_root hooks (bs_handler b) c3) (\<lambda>c4. Some (Done (fire_registered (ck_post K c4)))))"

text \<open>
  \<open>DefaultServerBootstrap.Bind\<close> up to the call of \<open>Bind\<close>. A server channel is a channel with the handler
  and the parameters of its children and its child map, by serial number.
\<close>

record ('h, 'c) built_server =
  sb_channel :: "('h, 'c) built"
  sb_childHandler :: "'h option"
  sb_childParams :: params
  sb_childMap :: "nat \<rightharpoonup> ('h, 'c) built"

definition boot_Bind ::
  "'h hooks \<Rightarrow> ('h, 'c) channel_kind \<Rightarrow> 'h bootstrap \<Rightarrow> net_address \<Rightarrow> nat
     \<Rightarrow> (nat \<times> ('h, 'c) built_server) run" where
  "boot_Bind hooks K b addr n =
     (let c1 = ck_pre K (n, zero_channel);
          c2 = copy_params (bs_params b) (channel_init True c1)
      in (case seq_run (add_root hooks (bs_handler b) c2)
                 (\<lambda>(m, c). Some (Done (fire_registered (ck_post K (m, c\<lparr>bc_local := Some addr\<rparr>))))) of
            None \<Rightarrow> None
          | Some (Done (m, c)) \<Rightarrow> Some (Done (m, \<lparr>sb_channel = c, sb_childHandler = bs_childHandler b,
                sb_childParams = bs_childParams b, sb_childMap = Map.empty\<rparr>))
          | Some (Panicked e (m, c)) \<Rightarrow> Some (Panicked e (m, \<lparr>sb_channel = c, sb_childHandler = bs_childHandler b,
                sb_childParams = bs_childParams b, sb_childMap = Map.empty\<rparr>))))"

section \<open>Children\<close>

text \<open>
  \<open>DeriveChildChannel\<close>: the child is stored under the serial number it has before its \<open>Init\<close>. The map
  holds a pointer, so what happens to the child later shows in it; the answer is the child as it is at
  the end.
\<close>

definition DeriveChildChannel ::
  "'h hooks \<Rightarrow> ('h, 'c) channel_kind \<Rightarrow> ('h, 'c) built \<Rightarrow> nat \<times> ('h, 'c) built_server
     \<Rightarrow> ((nat \<times> ('h, 'c) built) \<times> ('h, 'c) built_server) run" where
  "DeriveChildChannel hooks K child = (\<lambda>(n, v).
     (let (n1, c1) = channel_init True (n, child);
          key = bc_serial c1;
          c2 = c1\<lparr>bc_parent := Some (bc_serial (sb_channel v))\<rparr>;
          c3 = ck_Init K (copy_params (sb_childParams v) (n1, c2));
          store = (\<lambda>c. v\<lparr>sb_childMap := (sb_childMap v)(key \<mapsto> c)\<rparr>)
      in (case add_root hooks (sb_childHandler v) c3 of
            None \<Rightarrow> None
          | Some (Done (m, c)) \<Rightarrow> Some (Done ((m, c), store c))
          | Some (Panicked e (m, c)) \<Rightarrow> Some (Panicked e ((m, c), store c)))))"

text \<open>\<open>DeriveNetChildChannel\<close>: nil for no connection.\<close>

definition DeriveNetChildChannel ::
  "'h hooks \<Rightarrow> ('h, 'c) channel_kind \<Rightarrow> ('h, 'c) built \<Rightarrow> 'c option \<Rightarrow> nat \<times> ('h, 'c) built_server
     \<Rightarrow> ((nat \<times> ('h, 'c) built) option \<times> ('h, 'c) built_server) run" where
  "DeriveNetChildChannel hooks K child conn nv = (case conn of
       None \<Rightarrow> Some (Done (None, snd nv))
     | Some x \<Rightarrow> (case DeriveChildChannel hooks K (child\<lparr>bc_net := SetConn (Some x) (bc_net child)\<rparr>) nv of
          None \<Rightarrow> None
        | Some (Done (c, v)) \<Rightarrow> Some (Done (Some c, v))
        | Some (Panicked e (c, v)) \<Rightarrow> Some (Panicked e (Some c, v))))"

text \<open>\<open>releaseChild\<close>, called by \<open>release\<close> with the child's own serial number.\<close>

definition releaseChild :: "('h, 'c) built \<Rightarrow> ('h, 'c) built_server \<Rightarrow> ('h, 'c) built_server" where
  "releaseChild c v = v\<lparr>sb_childMap := (sb_childMap v)(bc_serial c := None)\<rparr>"

section \<open>The simple servers\<close>

text \<open>
  \<open>Server.Start\<close> of both packages: a bootstrap whose child handler is the initializer \<open>root\<close> that adds
  the codec and the adapter of the user's handler.
\<close>

definition simple_entries :: "'h \<Rightarrow> 'h \<Rightarrow> 'h entry_list" where
  "simple_entries codec adapter = [(''SIMPLE_CODEC'', Some (UserHandler codec)), (''HANDLER'', Some (UserHandler adapter))]"

definition simple_Start :: "'h \<Rightarrow> 'h bootstrap" where
  "simple_Start root = boot_ChildHandler (Some root) NewBootstrap"

text \<open>\<open>Client.Start\<close> of both packages, with the reconnecting handler between codec and adapter.\<close>

definition client_entries :: "'h \<Rightarrow> 'h \<Rightarrow> 'h \<Rightarrow> 'h entry_list" where
  "client_entries codec again adapter = [(''SIMPLE_CODEC'', Some (UserHandler codec)),
     (''RECONNECT'', Some (UserHandler again)), (''HANDLER'', Some (UserHandler adapter))]"

definition client_Start :: "'h \<Rightarrow> 'h bootstrap" where
  "client_Start root = boot_Handler (Some root) NewBootstrap"

section \<open>Properties\<close>

lemmas building = channel_init_def copy_params_def netchannel_Init_def default_Init_def net_kind_def default_kind_def
  fire_registered_def zero_channel_def

text \<open>Adding the root handler to a fresh pipeline changes only the pipeline.\<close>

lemma add_root_fresh:
  assumes "bc_pipe c = NewDefaultPipeline"
    and "\<And>r. h = Some r \<Longrightarrow> \<exists>p. AddLast hooks ''ROOT'' (Some (UserHandler r)) NewDefaultPipeline = Some (Done p) \<and> holds p es"
    and "h = None \<Longrightarrow> es = []"
  shows "\<exists>p. add_root hooks h (n, c) = Some (Done (n, c\<lparr>bc_pipe := p\<rparr>)) \<and> holds p es"
proof (cases h)
  case None
  have "c\<lparr>bc_pipe := NewDefaultPipeline\<rparr> = c" using assms(1) by (cases c) simp
  with None assms(3) new_holds show ?thesis by (auto simp: add_root_def intro!: exI [of _ NewDefaultPipeline])
next
  case (Some r)
  from assms(2) [OF Some] obtain p where
    "AddLast hooks ''ROOT'' (Some (UserHandler r)) NewDefaultPipeline = Some (Done p)" "holds p es" by blast
  with Some assms(1) show ?thesis by (auto simp: add_root_def)
qed

lemma child_derived:
  assumes "\<And>r. sb_childHandler v = Some r \<Longrightarrow>
      \<exists>p. AddLast hooks ''ROOT'' (Some (UserHandler r)) NewDefaultPipeline = Some (Done p) \<and> holds p es"
    and "sb_childHandler v = None \<Longrightarrow> es = []"
  shows "\<exists>c v'. DeriveNetChildChannel hooks net_kind zero_channel (Some x) (k, v) = Some (Done (Some (Suc k, c), v'))
    \<and> sb_childMap v' = (sb_childMap v)(Suc k \<mapsto> c) \<and> bc_serial c = Suc k \<and> bc_whole c
    \<and> bc_parent c = Some (bc_serial (sb_channel v)) \<and> nc_conn (bc_net c) = WrapConn (Some x)
    \<and> BufferSize (bc_net c) = GetParamIntDefault (sb_childParams v) ''read_buffer_size'' 1024
    \<and> ReadTimeout (bc_net c) = millis (GetParamIntDefault (sb_childParams v) ''read_timeout'' 1000)
    \<and> WriteTimeout (bc_net c) = millis (GetParamIntDefault (sb_childParams v) ''write_timeout'' 100)
    \<and> holds (bc_pipe c) es"
proof -
  define c0 :: "('a, 'b) built" where "c0 = snd (netchannel_Init (copy_params (sb_childParams v)
      (Suc k, (snd (channel_init True (k, zero_channel\<lparr>bc_net := SetConn (Some x) (bc_net zero_channel)\<rparr>)))
        \<lparr>bc_parent := Some (bc_serial (sb_channel v))\<rparr>)))"
  have pipe: "bc_pipe c0 = NewDefaultPipeline" by (simp add: c0_def building)
  from add_root_fresh [OF pipe assms] obtain p where
    p: "add_root hooks (sb_childHandler v) (Suc k, c0) = Some (Done (Suc k, c0\<lparr>bc_pipe := p\<rparr>))" "holds p es" by blast
  have "DeriveNetChildChannel hooks net_kind zero_channel (Some x) (k, v)
      = Some (Done (Some (Suc k, c0\<lparr>bc_pipe := p\<rparr>), v\<lparr>sb_childMap := (sb_childMap v)(Suc k \<mapsto> c0\<lparr>bc_pipe := p\<rparr>)\<rparr>))"
    using p(1) by (simp add: DeriveNetChildChannel_def DeriveChildChannel_def c0_def building)
  moreover have "bc_serial c0 = Suc k" "bc_whole c0" "bc_parent c0 = Some (bc_serial (sb_channel v))"
    "nc_conn (bc_net c0) = WrapConn (Some x)"
    "BufferSize (bc_net c0) = GetParamIntDefault (sb_childParams v) ''read_buffer_size'' 1024"
    "ReadTimeout (bc_net c0) = millis (GetParamIntDefault (sb_childParams v) ''read_timeout'' 1000)"
    "WriteTimeout (bc_net c0) = millis (GetParamIntDefault (sb_childParams v) ''write_timeout'' 100)"
    by (simp_all add: c0_def building net_Init_def SetConn_def)
  ultimately show ?thesis using p(2)
    by (intro exI [of _ "c0\<lparr>bc_pipe := p\<rparr>"] exI [of _ "v\<lparr>sb_childMap := (sb_childMap v)(Suc k \<mapsto> c0\<lparr>bc_pipe := p\<rparr>)\<rparr>"]) simp
qed

lemma child_configured:
  assumes "boot_Bind hooks K b addr n = Some (Done (m, v))"
    and "\<And>r. bs_childHandler b = Some r \<Longrightarrow>
      \<exists>p. AddLast hooks ''ROOT'' (Some (UserHandler r)) NewDefaultPipeline = Some (Done p) \<and> holds p es"
    and "bs_childHandler b = None \<Longrightarrow> es = []"
  shows "\<exists>c v'. DeriveNetChildChannel hooks net_kind zero_channel (Some x) (k, v) = Some (Done (Some (Suc k, c), v'))
    \<and> sb_childMap v' = (sb_childMap v)(Suc k \<mapsto> c) \<and> bc_serial c = Suc k \<and> bc_whole c
    \<and> bc_parent c = Some (bc_serial (sb_channel v)) \<and> nc_conn (bc_net c) = WrapConn (Some x)
    \<and> BufferSize (bc_net c) = GetParamIntDefault (bs_childParams b) ''read_buffer_size'' 1024
    \<and> ReadTimeout (bc_net c) = millis (GetParamIntDefault (bs_childParams b) ''read_timeout'' 1000)
    \<and> WriteTimeout (bc_net c) = millis (GetParamIntDefault (bs_childParams b) ''write_timeout'' 100)
    \<and> holds (bc_pipe c) es"
proof -
  have v: "sb_childHandler v = bs_childHandler b" "sb_childParams v = bs_childParams b"
    using assms(1) by (auto simp: boot_Bind_def Let_def split: option.splits outcome.splits prod.splits)
  from child_derived [of v hooks es x k] assms(2,3) show ?thesis unfolding v by blast
qed


text \<open>
  A client channel is configured the same way: the parameters are there before \<open>Init\<close> reads them, and the
  handlers before Registered is fired.
\<close>

theorem connect_configures:
  assumes "\<And>r. bs_handler b = Some r \<Longrightarrow>
      \<exists>p. AddLast hooks ''ROOT'' (Some (UserHandler r)) NewDefaultPipeline = Some (Done p) \<and> holds p es"
    and "bs_handler b = None \<Longrightarrow> es = []"
  shows "\<exists>c. boot_Connect hooks net_kind b n = Some (Done (Suc n, c)) \<and> bc_whole c \<and> bc_registered c
    \<and> bc_params c = bs_params b \<and> holds (bc_pipe c) es
    \<and> BufferSize (bc_net c) = GetParamIntDefault (bs_params b) ''read_buffer_size'' 1024"
proof -
  define c0 :: "('a, 'b) built" where "c0 = snd (netchannel_Init (copy_params (bs_params b) (channel_init True (n, zero_channel))))"
  have "bc_pipe c0 = NewDefaultPipeline" by (simp add: c0_def building)
  from add_root_fresh [OF this assms] obtain p where
    p: "add_root hooks (bs_handler b) (Suc n, c0) = Some (Done (Suc n, c0\<lparr>bc_pipe := p\<rparr>))" "holds p es" by blast
  then have "boot_Connect hooks net_kind b n = Some (Done (Suc n, c0\<lparr>bc_pipe := p, bc_registered := True\<rparr>))"
    by (simp add: boot_Connect_def c0_def building)
  moreover have "bc_whole c0" "bc_params c0 = bs_params b"
    "BufferSize (bc_net c0) = GetParamIntDefault (bs_params b) ''read_buffer_size'' 1024"
    by (simp_all add: c0_def building net_Init_def)
  ultimately show ?thesis using p(2) by simp
qed

text \<open>
  A child of a simple server. Starting the server binds, and every connection then gets a child whose
  pipeline is exactly the codec and the adapter of the user's handler: the initializer is gone.
\<close>

theorem simple_server_child:
  assumes "on_added hooks root = initializer_Added (add_all hooks (simple_entries codec adapter))"
    and "list_all (quiet_entry hooks) (simple_entries codec adapter)"
  shows "\<exists>v c v'. boot_Bind hooks net_kind (simple_Start root) addr n = Some (Done (Suc n, v))
    \<and> DeriveNetChildChannel hooks net_kind zero_channel (Some x) (Suc n, v) = Some (Done (Some (Suc (Suc n), c), v'))
    \<and> holds (bc_pipe c) (simple_entries codec adapter) \<and> sb_childMap v' = [Suc (Suc n) \<mapsto> c]
    \<and> BufferSize (bc_net c) = 1024"
proof -
  obtain v :: "('a, 'b) built_server" where b: "boot_Bind hooks net_kind (simple_Start root) addr n = Some (Done (Suc n, v))"
    and m: "sb_childMap v = Map.empty"
    by (simp add: boot_Bind_def simple_Start_def boot_ChildHandler_def NewBootstrap_def add_root_def building)
  have root: "\<exists>p. AddLast hooks ''ROOT'' (Some (UserHandler r)) NewDefaultPipeline = Some (Done p)
      \<and> holds p (simple_entries codec adapter)" if "bs_childHandler (simple_Start root) = Some r" for r
    using initializer_installs [OF new_holds assms] that by (simp add: simple_Start_def boot_ChildHandler_def)
  have none: "bs_childHandler (simple_Start root) = None \<Longrightarrow> simple_entries codec adapter = []"
    by (simp add: simple_Start_def boot_ChildHandler_def)
  have "GetParamIntDefault (bs_childParams (simple_Start root)) ''read_buffer_size'' 1024 = 1024"
    by (simp add: simple_Start_def boot_ChildHandler_def NewBootstrap_def GetParamIntDefault_def)
  with child_configured [OF b root none, of x "Suc n"] b m show ?thesis by auto
qed

text \<open>Every connection of a simple client, the first one and those made again, has codec, reconnect handler and adapter.\<close>

theorem simple_client_channel:
  assumes "on_added hooks root = initializer_Added (add_all hooks (client_entries codec again adapter))"
    and "list_all (quiet_entry hooks) (client_entries codec again adapter)"
  shows "\<exists>c. boot_Connect hooks net_kind (client_Start root) n = Some (Done (Suc n, c)) \<and> bc_whole c \<and> bc_registered c
    \<and> holds (bc_pipe c) (client_entries codec again adapter) \<and> BufferSize (bc_net c) = 1024"
proof -
  have root: "\<exists>p. AddLast hooks ''ROOT'' (Some (UserHandler r)) NewDefaultPipeline = Some (Done p)
      \<and> holds p (client_entries codec again adapter)" if "bs_handler (client_Start root) = Some r" for r
    using initializer_installs [OF new_holds assms] that by (simp add: client_Start_def boot_Handler_def)
  have none: "bs_handler (client_Start root) = None \<Longrightarrow> client_entries codec again adapter = []"
    by (simp add: client_Start_def boot_Handler_def)
  have "GetParamIntDefault (bs_params (client_Start root)) ''read_buffer_size'' 1024 = 1024"
    by (simp add: client_Start_def boot_Handler_def NewBootstrap_def GetParamIntDefault_def)
  moreover have "\<exists>c. boot_Connect hooks net_kind (client_Start root) n = Some (Done (Suc n, c)) \<and> bc_whole c
    \<and> bc_registered c \<and> bc_params c = bs_params (client_Start root) \<and> holds (bc_pipe c) (client_entries codec again adapter)
    \<and> BufferSize (bc_net c) = GetParamIntDefault (bs_params (client_Start root)) ''read_buffer_size'' 1024"
    by (rule connect_configures) (fact root, fact none)
  ultimately show ?thesis by metis
qed

text \<open>
  A channel type that keeps \<open>DefaultChannel.Init\<close> is initialised twice: its pipeline then belongs to the
  embedded \<open>DefaultChannel\<close>, and a child of such a type stays in the map of its server for ever, since it is
  released under its second serial number.
\<close>

theorem default_child_leaks:
  assumes "bs_childHandler b = None" and "boot_Bind hooks K b addr n = Some (Done (m, v))"
  shows "\<exists>c v'. DeriveChildChannel hooks default_kind zero_channel (k, v) = Some (Done ((Suc (Suc k), c), v'))
    \<and> \<not> bc_whole c \<and> bc_serial c = Suc (Suc k) \<and> sb_childMap (releaseChild c v') (Suc k) = Some c"
proof -
  have "sb_childHandler v = None"
    using assms by (auto simp: boot_Bind_def Let_def split: option.splits outcome.splits prod.splits)
  then show ?thesis by (simp add: DeriveChildChannel_def add_root_def building releaseChild_def)
qed

section \<open>Concrete runs\<close>

definition start_hooks :: "nat hooks" where
  "start_hooks = silent_hooks\<lparr>on_added := \<lambda>h p. if h = 0
     then initializer_Added (add_all silent_hooks (simple_entries 1 2)) p else Some (Done p)\<rparr>"

lemma start_hooks_root: "on_added start_hooks 0 = initializer_Added (add_all start_hooks (simple_entries 1 2))"
proof -
  have same: "add_entry start_hooks (n, Some (UserHandler k))
      = add_entry silent_hooks (n, Some (UserHandler k))" if "k \<noteq> 0" for n k
  proof -
    have eq: "call_added start_hooks (Some (UserHandler k)) = call_added silent_hooks (Some (UserHandler k))"
      using that by (auto simp: start_hooks_def silent_hooks_def fun_eq_iff)
    then show ?thesis
      by (intro ext) (simp only: add_entry_def AddLast_def link_before_def fst_conv snd_conv)
  qed
  have eq: "add_all start_hooks (simple_entries 1 2) = add_all silent_hooks (simple_entries 1 2)"
    unfolding add_all_def fun_eq_iff
    by (intro allI run_all_cong) (auto simp: simple_entries_def same)
  show ?thesis
    unfolding eq by (simp add: start_hooks_def)
qed

theorem simple_server_child_witness:
  "\<exists>v c v'. boot_Bind start_hooks net_kind (simple_Start 0) (TCPAddr ''127.0.0.1:1'') 0 = Some (Done (Suc 0, v))
    \<and> DeriveNetChildChannel start_hooks net_kind zero_channel (Some ()) (Suc 0, v) = Some (Done (Some (Suc (Suc 0), c), v'))
    \<and> holds (bc_pipe c) [(''SIMPLE_CODEC'', Some (UserHandler 1)), (''HANDLER'', Some (UserHandler 2))]"
proof -
  have "list_all (quiet_entry start_hooks) (simple_entries 1 2)"
    by (simp add: simple_entries_def quiet_entry_def start_hooks_def silent_hooks_def)
  from simple_server_child [OF start_hooks_root this, of "TCPAddr ''127.0.0.1:1''" 0 "()"] show ?thesis
    by (auto simp: simple_entries_def)
qed



section \<open>Parameters set later\<close>

text \<open>\<open>SetParam\<close> and \<open>Param\<close> of a channel, \<open>setChildHandler\<close> and \<open>setChildParams\<close> of a server; nil is None.\<close>

definition channel_SetParam :: "string \<Rightarrow> param_value \<Rightarrow> ('h, 'c) built \<Rightarrow> ('h, 'c) built" where
  "channel_SetParam k v c = c\<lparr>bc_params := SetParam k v (bc_params c)\<rparr>"

definition channel_Param :: "string \<Rightarrow> ('h, 'c) built \<Rightarrow> param_value option" where
  "channel_Param k c = bc_params c k"

definition setChildHandler :: "'h option \<Rightarrow> ('h, 'c) built_server \<Rightarrow> ('h, 'c) built_server" where
  "setChildHandler h v = v\<lparr>sb_childHandler := h\<rparr>"

definition setChildParams :: "string \<Rightarrow> param_value \<Rightarrow> ('h, 'c) built_server \<Rightarrow> ('h, 'c) built_server" where
  "setChildParams k x v = v\<lparr>sb_childParams := SetParam k x (sb_childParams v)\<rparr>"

text \<open>
  A child parameter set on a running server is read by the \<open>Init\<close> of the next child; the children that are
  there keep what they read, and so does a channel whose own parameter is set after its \<open>Init\<close>.
\<close>

theorem late_parameters:
  assumes "\<And>r. h = Some r \<Longrightarrow>
      \<exists>p. AddLast hooks ''ROOT'' (Some (UserHandler r)) NewDefaultPipeline = Some (Done p) \<and> holds p es"
    and "h = None \<Longrightarrow> es = []"
  shows "\<exists>c v'. DeriveNetChildChannel hooks net_kind zero_channel (Some x)
        (k, setChildParams ''read_buffer_size'' (PInt n) (setChildHandler h v)) = Some (Done (Some (Suc k, c), v'))
    \<and> BufferSize (bc_net c) = sint n \<and> holds (bc_pipe c) es
    \<and> (\<forall>i. i \<noteq> Suc k \<longrightarrow> sb_childMap v' i = sb_childMap v i)
    \<and> channel_Param ''read_buffer_size'' (channel_SetParam ''read_buffer_size'' (PInt m) c) = Some (PInt m)
    \<and> BufferSize (bc_net (channel_SetParam ''read_buffer_size'' (PInt m) c)) = sint n"
proof -
  let ?v = "setChildParams ''read_buffer_size'' (PInt n) (setChildHandler h v)"
  have hv: "sb_childHandler ?v = h" by (simp add: setChildParams_def setChildHandler_def)
  have size: "GetParamIntDefault (sb_childParams ?v) ''read_buffer_size'' 1024 = sint n"
    by (simp add: setChildParams_def SetParam_def GetParamIntDefault_def)
  from child_derived [of ?v hooks es x k] assms obtain c v' where
    "DeriveNetChildChannel hooks net_kind zero_channel (Some x) (k, ?v) = Some (Done (Some (Suc k, c), v'))"
    "sb_childMap v' = (sb_childMap ?v)(Suc k \<mapsto> c)" "BufferSize (bc_net c) = sint n" "holds (bc_pipe c) es"
    unfolding hv size by blast
  moreover have "sb_childMap ?v = sb_childMap v" by (simp add: setChildParams_def setChildHandler_def)
  ultimately show ?thesis
    by (intro exI [of _ c] exI [of _ v']) (simp add: channel_Param_def channel_SetParam_def SetParam_def)
qed

end
