(* ===== verification/Ghttp_Log.thy ===== *)
theory Ghttp_Log
  imports Ghttp_Dispatch
begin

text \<open>
  The access log, \<open>ghttp/httploghandler.go\<close>: the handler that logs a request on its way in and a request
  with its response on the way out. Building a record can panic; what becomes of the request or the
  response then is the point of the properties. The logger, the decompressor and what net/http knows of
  the request beside the model's fields are parameters.
\<close>

section \<open>Records\<close>

text \<open>
  The id of the context's channel, the parts of the request the model of \<open>Ghttp_Objects\<close> leaves out, the clock, and the orders in which a
  range over the header maps of request and response visits their keys.
\<close>

record log_meta =
  lm_cid :: string
  lm_uri :: string
  lm_host :: string
  lm_created :: int
  lm_now :: int
  lm_reqKeys :: "string list"
  lm_respKeys :: "string list"

record ('b, 'x) log_handler =
  printBody :: bool
  ReqMaxBodySize :: int
  RespMaxBodySize :: int
  FilterFunc :: "('b, 'x) core \<Rightarrow> bool"

definition NewLogHandler :: "bool \<Rightarrow> ('b, 'x) log_handler" where
  "NewLogHandler p = \<lparr>printBody = p, ReqMaxBodySize = 100000, RespMaxBodySize = 100000, FilterFunc = (\<lambda>_. True)\<rparr>"

record request_log =
  rl_uri :: string
  rl_method :: string
  rl_headers :: "string \<rightharpoonup> string"
  rl_host :: string
  rl_body :: "byte list"
  rl_bodyLength :: nat

record read_log =
  dl_channel :: string
  dl_track :: string
  dl_remote :: string
  dl_remotes :: string
  dl_uri :: string
  dl_request :: request_log

record response_log =
  pl_uri :: string
  pl_status :: int
  pl_headers :: "string \<rightharpoonup> string"
  pl_body :: "byte list"
  pl_outLength :: nat
  pl_preCompress :: nat

record access_log =
  al_channel :: string
  al_track :: string
  al_method :: string
  al_uri :: string
  al_status :: int
  al_remote :: string
  al_remotes :: string
  al_request :: "request_log option"
  al_response :: "response_log"
  al_accept :: int
  al_process :: int
  al_locate :: int
  al_acceptance :: int
  al_handler :: int
  al_error :: int
  al_compress :: int
  al_extend :: "pvalue option"

text \<open>A step that may panic, then the rest.\<close>

definition bind_panic :: "panic + 'a \<Rightarrow> ('a \<Rightarrow> panic + 'b) \<Rightarrow> panic + 'b" where
  "bind_panic m f = (case m of Inl e \<Rightarrow> Inl e | Inr x \<Rightarrow> f x)"

lemma bind_panic_simps [simp]: "bind_panic (Inl e) f = Inl e" "bind_panic (Inr x) f = f x"
  by (simp_all add: bind_panic_def)

section \<open>Building them\<close>

text \<open>The values of one header joined by semicolons; an empty list is indexed all the same.\<close>

definition join_values :: "string list \<Rightarrow> panic + string" where
  "join_values vs = (case vs of
       [] \<Rightarrow> Inl OutOfRange
     | v # us \<Rightarrow> Inr (foldl (\<lambda>a u. a @ '';'' @ u) v us))"

fun log_headers :: "headers \<Rightarrow> string list \<Rightarrow> panic + (string \<rightharpoonup> string)" where
  "log_headers h [] = Inr Map.empty"
| "log_headers h (k # ks) = (case h k of
     None \<Rightarrow> log_headers h ks
   | Some vs \<Rightarrow> bind_panic (join_values vs) (\<lambda>v.
       bind_panic (log_headers h ks) (\<lambda>m. Inr (m(k \<mapsto> v)))))"

text \<open>The addresses, each followed by a comma and a blank, without the last two characters.\<close>

definition join_addrs :: "string list \<Rightarrow> panic + string" where
  "join_addrs as = (let r = concat (map (\<lambda>a. a @ '', '') as) in
     if length r < 2 then Inl OutOfRange else Inr (take (length r - 2) r))"

text \<open>\<open>bytes[:max]\<close> of a body longer than \<open>max\<close>.\<close>

definition cut_body :: "int \<Rightarrow> byte list \<Rightarrow> panic + byte list" where
  "cut_body mx bs = (if int (length bs) > mx then (if mx < 0 then Inl OutOfRange else Inr (take (nat mx) bs)) else Inr bs)"

definition constructReq ::
  "'b bytebuf_ops \<Rightarrow> ('b, 'x) log_handler \<Rightarrow> log_meta \<Rightarrow> 'b request \<Rightarrow> panic + request_log" where
  "constructReq ops h m req =
     bind_panic (log_headers (r_header req) (lm_reqKeys m)) (\<lambda>hs.
     bind_panic (if printBody h then cut_body (ReqMaxBodySize h) (Bytes ops (r_body req)) else Inr []) (\<lambda>b.
       Inr \<lparr>rl_uri = lm_uri m, rl_method = r_method req, rl_headers = hs, rl_host = lm_host m, rl_body = b,
         rl_bodyLength = (if printBody h then ReadableBytes ops (r_body req) else 0)\<rparr>))"

text \<open>
  The response's body: of a compressed one what \<open>gunzip\<close> makes of it, cut, with the length of the cut
  text as the length before compression, and nothing when it does not decompress.
\<close>

definition logged_body ::
  "(byte list \<Rightarrow> byte list option) \<Rightarrow> int \<Rightarrow> string \<Rightarrow> byte list \<Rightarrow> panic + byte list \<times> nat" where
  "logged_body gunzip mx enc bs =
     (if enc = ''gzip'' then (case gunzip bs of
         None \<Rightarrow> Inr ([], 0)
       | Some ds \<Rightarrow> bind_panic (cut_body mx ds) (\<lambda>b. Inr (b, length b)))
      else bind_panic (cut_body mx bs) (\<lambda>b. Inr (b, 0)))"

definition constructResp ::
  "'b bytebuf_ops \<Rightarrow> (byte list \<Rightarrow> byte list option) \<Rightarrow> ('b, 'x) log_handler \<Rightarrow> log_meta \<Rightarrow> 'b response \<Rightarrow> panic + response_log"
  where
  "constructResp ops gunzip h m resp =
     bind_panic (log_headers (header resp) (lm_respKeys m)) (\<lambda>hs.
       (case body resp of
          None \<Rightarrow> Inl NilDeref
        | Some bd \<Rightarrow>
            bind_panic (if printBody h then logged_body gunzip (RespMaxBodySize h) (GetHeader ''content-encoding'' resp) (Bytes ops bd)
                        else Inr ([], 0)) (\<lambda>(b, pre).
              Inr \<lparr>pl_uri = lm_uri m, pl_status = statusCode resp, pl_headers = hs, pl_body = b,
                pl_outLength = ReadableBytes ops bd, pl_preCompress = pre\<rparr>)))"

text \<open>A timing kept in the parameters: none is 0, a value that is no \<open>int64\<close> panics.\<close>

definition log_time :: "string \<Rightarrow> dparams \<Rightarrow> panic + int" where
  "log_time k ps = (case ps k of
       None \<Rightarrow> Inr 0
     | Some (PNanos n) \<Rightarrow> Inr n
     | Some _ \<Rightarrow> Inl BadAssertion)"

text \<open>
  The record of a response, and the shorter one of a response that is written in pieces, which has no
  request and fewer timings.
\<close>

definition access_record ::
  "'b bytebuf_ops \<Rightarrow> (byte list \<Rightarrow> byte list option) \<Rightarrow> ('b, 'x) log_handler \<Rightarrow> log_meta \<Rightarrow> ('b, 'x) core \<Rightarrow> panic + access_log"
  where
  "access_record ops gunzip h m c =
     bind_panic (join_addrs (remoteAddrs (c_req c))) (\<lambda>ra.
     bind_panic (if c_separate c then Inr None
                 else bind_panic (constructReq ops h m (c_req c)) (\<lambda>q. Inr (Some q))) (\<lambda>rq.
     bind_panic (constructResp ops gunzip h m (c_resp c)) (\<lambda>rp.
     bind_panic (log_time ''[gone-http]h_locate_time'' (c_params c)) (\<lambda>t1.
     bind_panic (log_time ''[gone-http]h_acceptance_time'' (c_params c)) (\<lambda>t2.
     bind_panic (if c_separate c then Inr 0 else log_time ''[gone-http]handler_time'' (c_params c)) (\<lambda>t3.
     bind_panic (if c_separate c then Inr 0 else log_time ''[gone-http]h_error_time'' (c_params c)) (\<lambda>t4.
     bind_panic (if c_separate c then Inr 0 else log_time ''[gone-http]compress_time'' (c_params c)) (\<lambda>t5.
       Inr \<lparr>al_channel = lm_cid m, al_track = trackID (c_req c), al_method = r_method (c_req c),
         al_uri = lm_uri m, al_status = statusCode (c_resp c), al_remote = r_remoteAddr (c_req c), al_remotes = ra,
         al_request = rq, al_response = rp, al_accept = lm_created m, al_process = lm_now m - lm_created m,
         al_locate = t1, al_acceptance = t2, al_handler = t3, al_error = t4, al_compress = t5,
         al_extend = c_params c ''[gone-http]extend''\<rparr>))))))))"

section \<open>The handler\<close>

text \<open>
  \<open>Read\<close> of a pack: the record logged, and whether the pack is fired on; a panic leaves the handler.
\<close>

definition log_Read ::
  "'b bytebuf_ops \<Rightarrow> ('b, 'x) log_handler \<Rightarrow> log_meta \<Rightarrow> ('b, 'x) core \<Rightarrow> panic + read_log option" where
  "log_Read ops h m c =
     (if \<not> FilterFunc h c then Inr None
      else bind_panic (join_addrs (remoteAddrs (c_req c))) (\<lambda>ra.
           bind_panic (constructReq ops h m (c_req c)) (\<lambda>q.
             Inr (Some \<lparr>dl_channel = r_channelID (c_req c), dl_track = trackID (c_req c),
               dl_remote = r_remoteAddr (c_req c), dl_remotes = ra, dl_uri = lm_uri m, dl_request = q\<rparr>))))"

text \<open>
  \<open>Write\<close> of a pack: the record logged, if any, and whether the pack was written on. \<open>deferError\<close> recovers
  from a panic, and then \<open>Write\<close> returns before the \<open>ctx.Write\<close> at its end.
\<close>

definition log_Write ::
  "'b bytebuf_ops \<Rightarrow> (byte list \<Rightarrow> byte list option) \<Rightarrow> ('b, 'x) log_handler \<Rightarrow> log_meta \<Rightarrow> ('b, 'x) core
     \<Rightarrow> access_log option \<times> bool" where
  "log_Write ops gunzip h m c =
     (if \<not> FilterFunc h c then (None, True)
      else (case access_record ops gunzip h m c of
          Inl e \<Rightarrow> (None, False)
        | Inr r \<Rightarrow> (Some r, True)))"

section \<open>The record and the response\<close>

lemma foldl_sep: "foldl (\<lambda>a u. a @ sep @ u) v us = v @ concat (map ((@) sep) us)"
  by (induction us arbitrary: v) simp_all

lemma concat_sep: "concat (map (\<lambda>a. a @ sep) (w # ws)) = (w @ concat (map ((@) sep) ws)) @ sep"
proof (induction ws arbitrary: w)
  case (Cons v vs)
  then show ?case by (simp only: list.map concat.simps append_assoc)
qed simp

lemma join_values_sep: "vs \<noteq> [] \<Longrightarrow> join_values vs = Inr (Join_sep '';'' vs)"
  using foldl_sep [of "'';''"] by (cases vs) (simp_all add: join_values_def Join_sep_def)

lemma join_addrs_sep:
  assumes "as \<noteq> []"
  shows "join_addrs as = Inr (Join_sep '', '' as)"
proof -
  obtain w ws where as: "as = w # ws" using assms by (cases as) auto
  have c: "concat (map (\<lambda>a. a @ '', '') as) = Join_sep '', '' as @ '', ''"
    by (simp only: as concat_sep Join_sep_def list.case)
  show ?thesis by (simp add: join_addrs_def c Let_def)
qed

definition headers_filled :: "headers \<Rightarrow> bool" where
  "headers_filled h \<longleftrightarrow> (\<forall>k vs. h k = Some vs \<longrightarrow> vs \<noteq> [])"

text \<open>What the methods of a response make of its header keeps every list filled.\<close>

lemma headers_filled_ops:
  assumes "headers_filled h"
  shows "headers_filled (header_set k v h)" "headers_filled (header_add k v h)" "headers_filled (header_del k h)"
  using assms by (auto simp: headers_filled_def header_set_def header_add_def header_del_def split: if_splits)

lemma log_headers_filled:
  assumes "headers_filled h"
  shows "log_headers h ks = Inr (\<lambda>k. if k \<in> set ks then map_option (Join_sep '';'') (h k) else None)"
proof (induction ks)
  case (Cons k ks)
  show ?case
  proof (cases "h k")
    case None
    with Cons show ?thesis by (auto simp: fun_eq_iff)
  next
    case (Some vs)
    with assms have "join_values vs = Inr (Join_sep '';'' vs)"
      by (intro join_values_sep) (simp add: headers_filled_def)
    with Cons Some show ?thesis by (auto simp: fun_eq_iff)
  qed
qed simp

lemma cut_body_total: "0 \<le> mx \<Longrightarrow> cut_body mx bs = Inr (take (nat mx) bs)"
  by (auto simp: cut_body_def)

lemma logged_body_total:
  assumes "0 \<le> mx"
  obtains b n where "logged_body gunzip mx enc bs = Inr (b, n)" and "length b \<le> nat mx"
    and "enc \<noteq> ''gzip'' \<Longrightarrow> b = take (nat mx) bs"
    and "\<And>ds. enc = ''gzip'' \<Longrightarrow> gunzip bs = Some ds \<Longrightarrow> b = take (nat mx) ds"
  using assms
  by (cases "enc = ''gzip''"; cases "gunzip bs") (fastforce simp: logged_body_def cut_body_total)+

lemma constructReq_total:
  assumes "headers_filled (r_header req)" and "0 \<le> ReqMaxBodySize h"
  shows "\<exists>q. constructReq ops h m req = Inr q \<and> rl_method q = r_method req
    \<and> rl_body q = (if printBody h then take (nat (ReqMaxBodySize h)) (Bytes ops (r_body req)) else [])"
  using assms by (auto simp: constructReq_def log_headers_filled cut_body_total)

lemma constructResp_total:
  assumes "headers_filled (header resp)" and "0 \<le> RespMaxBodySize h" and "body resp = Some bd"
  shows "\<exists>p. constructResp ops gunzip h m resp = Inr p \<and> pl_status p = statusCode resp
    \<and> pl_headers p = (\<lambda>k. if k \<in> set (lm_respKeys m) then map_option (Join_sep '';'') (header resp k) else None)
    \<and> length (pl_body p) \<le> nat (RespMaxBodySize h)
    \<and> (printBody h \<longrightarrow> GetHeader ''content-encoding'' resp \<noteq> ''gzip''
        \<longrightarrow> pl_body p = take (nat (RespMaxBodySize h)) (Bytes ops bd))
    \<and> (printBody h \<longrightarrow> GetHeader ''content-encoding'' resp = ''gzip''
        \<longrightarrow> (\<forall>ds. gunzip (Bytes ops bd) = Some ds \<longrightarrow> pl_body p = take (nat (RespMaxBodySize h)) ds))"
proof (cases "printBody h")
  case True
  obtain b n where b: "logged_body gunzip (RespMaxBodySize h) (GetHeader ''content-encoding'' resp) (Bytes ops bd) = Inr (b, n)"
    "length b \<le> nat (RespMaxBodySize h)"
    "GetHeader ''content-encoding'' resp \<noteq> ''gzip'' \<Longrightarrow> b = take (nat (RespMaxBodySize h)) (Bytes ops bd)"
    "\<And>ds. GetHeader ''content-encoding'' resp = ''gzip'' \<Longrightarrow> gunzip (Bytes ops bd) = Some ds
      \<Longrightarrow> b = take (nat (RespMaxBodySize h)) ds"
    using logged_body_total [OF assms(2)] by blast
  show ?thesis using b True assms by (auto simp: constructResp_def log_headers_filled)
qed (use assms in \<open>simp add: constructResp_def log_headers_filled\<close>)

lemma log_time_total: "ps k \<in> {None} \<union> range (\<lambda>n. Some (PNanos n)) \<Longrightarrow> \<exists>n. log_time k ps = Inr n"
  by (auto simp: log_time_def)

text \<open>The timings of the dispatcher and of the compressing handler are numbers of nanoseconds.\<close>

definition timed :: "dparams \<Rightarrow> bool" where
  "timed ps \<longleftrightarrow> (\<forall>k \<in> {''[gone-http]h_locate_time'', ''[gone-http]h_acceptance_time'', ''[gone-http]handler_time'',
     ''[gone-http]h_error_time'', ''[gone-http]compress_time''}. ps k \<in> {None} \<union> range (\<lambda>n. Some (PNanos n)))"

lemma access_record_total:
  assumes "remoteAddrs (c_req c) \<noteq> []" and "headers_filled (r_header (c_req c))"
    and "headers_filled (header (c_resp c))" and "body (c_resp c) = Some bd" and "timed (c_params c)"
    and "0 \<le> ReqMaxBodySize h" and "0 \<le> RespMaxBodySize h"
  shows "\<exists>r. access_record ops gunzip h m c = Inr r \<and> al_status r = statusCode (c_resp c)
    \<and> al_track r = trackID (c_req c) \<and> al_remotes r = Join_sep '', '' (remoteAddrs (c_req c))
    \<and> (al_request r = None \<longleftrightarrow> c_separate c)
    \<and> constructResp ops gunzip h m (c_resp c) = Inr (al_response r)"
proof -
  obtain q where q: "constructReq ops h m (c_req c) = Inr q"
    using constructReq_total [OF assms(2,6)] by blast
  obtain p where p: "constructResp ops gunzip h m (c_resp c) = Inr p"
    using constructResp_total [OF assms(3,7,4)] by blast
  have t: "\<exists>n. log_time k (c_params c) = Inr n"
    if "k \<in> {''[gone-http]h_locate_time'', ''[gone-http]h_acceptance_time'', ''[gone-http]handler_time'',
     ''[gone-http]h_error_time'', ''[gone-http]compress_time''}" for k
    using assms(5) that unfolding timed_def by (intro log_time_total) (rule bspec)
  obtain t1 t2 t3 t4 t5 where
    "log_time ''[gone-http]h_locate_time'' (c_params c) = Inr t1"
    "log_time ''[gone-http]h_acceptance_time'' (c_params c) = Inr t2"
    "log_time ''[gone-http]handler_time'' (c_params c) = Inr t3"
    "log_time ''[gone-http]h_error_time'' (c_params c) = Inr t4"
    "log_time ''[gone-http]compress_time'' (c_params c) = Inr t5"
    using t by (metis insertI1 insertI2)
  with q p show ?thesis
    by (cases "c_separate c") (simp_all add: access_record_def join_addrs_sep [OF assms(1)])
qed

lemma WrapRequest_addrs: "WrapRequest ops public ch track br req = Some req' \<Longrightarrow> remoteAddrs req' \<noteq> []"
  by (auto simp: WrapRequest_def Let_def split: option.splits if_splits)

text \<open>
  C23. The log handler stands between the dispatcher and the channel without changing anything: the
  response of a wrapped request with a body, filled header lists and the framework's own timings is
  always written on, and if the filter wants it, the record holds its status, all addresses of the request
  in order, every header with its values, and the body cut to the maximum.
\<close>

theorem log_transparent:
  assumes "WrapRequest ops public ch track br req0 = Some (c_req c)"
    and "headers_filled (r_header (c_req c))" and "headers_filled (header (c_resp c))"
    and "body (c_resp c) = Some bd" and "timed (c_params c)"
    and "0 \<le> ReqMaxBodySize h" and "0 \<le> RespMaxBodySize h"
  shows "\<exists>r. log_Write ops gunzip h m c = (if FilterFunc h c then Some r else None, True)
    \<and> al_status r = statusCode (c_resp c) \<and> al_remotes r = Join_sep '', '' (remoteAddrs (c_req c))
    \<and> (al_request r = None \<longleftrightarrow> c_separate c)
    \<and> (\<forall>k vs. k \<in> set (lm_respKeys m) \<and> header (c_resp c) k = Some vs
        \<longrightarrow> pl_headers (al_response r) k = Some (Join_sep '';'' vs))
    \<and> length (pl_body (al_response r)) \<le> nat (RespMaxBodySize h)
    \<and> (printBody h \<longrightarrow> GetHeader ''content-encoding'' (c_resp c) \<noteq> ''gzip''
        \<longrightarrow> pl_body (al_response r) = take (nat (RespMaxBodySize h)) (Bytes ops bd))
    \<and> (printBody h \<longrightarrow> GetHeader ''content-encoding'' (c_resp c) = ''gzip''
        \<longrightarrow> (\<forall>ds. gunzip (Bytes ops bd) = Some ds \<longrightarrow> pl_body (al_response r) = take (nat (RespMaxBodySize h)) ds))"
proof -
  obtain r where r: "access_record ops gunzip h m c = Inr r" "al_status r = statusCode (c_resp c)"
    "al_remotes r = Join_sep '', '' (remoteAddrs (c_req c))" "al_request r = None \<longleftrightarrow> c_separate c"
    "constructResp ops gunzip h m (c_resp c) = Inr (al_response r)"
    using access_record_total [OF WrapRequest_addrs [OF assms(1)] assms(2-7), of ops gunzip m]
    by (elim exE conjE) (rule that; assumption)
  obtain p where p: "constructResp ops gunzip h m (c_resp c) = Inr p"
    "pl_headers p = (\<lambda>k. if k \<in> set (lm_respKeys m) then map_option (Join_sep '';'') (header (c_resp c) k) else None)"
    "length (pl_body p) \<le> nat (RespMaxBodySize h)"
    "printBody h \<longrightarrow> GetHeader ''content-encoding'' (c_resp c) \<noteq> ''gzip''
      \<longrightarrow> pl_body p = take (nat (RespMaxBodySize h)) (Bytes ops bd)"
    "printBody h \<longrightarrow> GetHeader ''content-encoding'' (c_resp c) = ''gzip''
      \<longrightarrow> (\<forall>ds. gunzip (Bytes ops bd) = Some ds \<longrightarrow> pl_body p = take (nat (RespMaxBodySize h)) ds)"
    using constructResp_total [OF assms(3,7,4), of ops gunzip m] by (elim exE conjE) (rule that; assumption)
  from p(1) r(5) have p_def: "p = al_response r" by simp
  have "log_Write ops gunzip h m c = (if FilterFunc h c then Some r else None, True)"
    using r(1) by (simp add: log_Write_def)
  moreover have "\<forall>k vs. k \<in> set (lm_respKeys m) \<and> header (c_resp c) k = Some vs
        \<longrightarrow> pl_headers p k = Some (Join_sep '';'' vs)"
    by (simp add: p(2))
  ultimately show ?thesis
    using r(2-4) p(3-5) unfolding p_def by (intro exI [of _ r] conjI)
qed

lemma log_headers_empty: "k \<in> set ks \<Longrightarrow> h k = Some [] \<Longrightarrow> \<exists>e. log_headers h ks = Inl e"
  by (induction ks) (auto simp: join_values_def bind_panic_def split: option.splits sum.splits)

lemma constructResp_panics:
  assumes "body resp = None \<or> (\<exists>k \<in> set (lm_respKeys m). header resp k = Some [])"
  shows "\<exists>e. constructResp ops gunzip h m resp = Inl e"
  using assms log_headers_empty [of _ "lm_respKeys m" "header resp"]
  by (cases "log_headers (header resp) (lm_respKeys m)") (auto simp: constructResp_def)

text \<open>
  A response the record cannot be built for is not written at all: \<open>deferError\<close> recovers from the panic of a
  nil body, of an empty header list or of an odd timing, and Write returns before it calls \<open>ctx.Write\<close>, so
  the client gets no answer and the future of the write is never settled.
\<close>

theorem log_failure_drops_response:
  assumes "FilterFunc h c"
    and "body (c_resp c) = None
      \<or> (\<exists>k \<in> set (lm_respKeys m). header (c_resp c) k = Some [])
      \<or> (\<exists>s. c_params c ''[gone-http]h_locate_time'' = Some (PString s))"
  shows "log_Write ops gunzip h m c = (None, False)"
proof -
  have "\<exists>e. access_record ops gunzip h m c = Inl e"
  proof (cases "\<exists>e. constructResp ops gunzip h m (c_resp c) = Inl e")
    case True
    then show ?thesis by (auto simp: access_record_def bind_panic_def split: sum.split)
  next
    case False
    with assms(2) constructResp_panics [of "c_resp c" m ops gunzip h] obtain s where
      "c_params c ''[gone-http]h_locate_time'' = Some (PString s)" by blast
    then show ?thesis
      by (auto simp: access_record_def bind_panic_def log_time_def split: sum.split)
  qed
  with assms(1) show ?thesis by (auto simp: log_Write_def)
qed

definition demo_core :: "(byte list, unit) core" where
  "demo_core = \<lparr>c_req = demo_request\<lparr>r_header := Map.empty, remoteAddrs := [''10.0.0.1:99'']\<rparr>,
     c_resp = \<lparr>statusCode = 200, header = [''Vary'' \<mapsto> [''a'', ''b'']], cookies = Map.empty, body = Some [1, 2, 3],
       headerWritten = False\<rparr>,
     c_params = [''[gone-http]handler_time'' \<mapsto> PNanos 7], c_heap = two_errors, c_separate = False, c_user = ()\<rparr>"

definition demo_meta :: log_meta where
  "demo_meta = \<lparr>lm_cid = ''ch'', lm_uri = ''/'', lm_host = ''h'', lm_created = 5, lm_now = 9, lm_reqKeys = [],
     lm_respKeys = [''Vary'']\<rparr>"

theorem log_transparent_witness:
  "\<exists>r. log_Write list_bytebuf (\<lambda>_. None) ((NewLogHandler True)\<lparr>RespMaxBodySize := 2\<rparr>) demo_meta demo_core = (Some r, True)
    \<and> al_status r = 200 \<and> al_remotes r = ''10.0.0.1:99''
    \<and> pl_headers (al_response r) ''Vary'' = Some ''a;b'' \<and> pl_body (al_response r) = [1, 2]"
proof -
  let ?h = "(NewLogHandler True :: (byte list, unit) log_handler)\<lparr>RespMaxBodySize := 2\<rparr>"
  have w: "WrapRequest list_bytebuf demo_public ''ch'' ''t'' NoBody (demo_request\<lparr>r_header := Map.empty\<rparr>)
      = Some (c_req demo_core)"
    by (simp add: WrapRequest_def read_body_def header_get_def demo_request_def demo_core_def)
  have f: "headers_filled (r_header (c_req demo_core))" "headers_filled (header (c_resp demo_core))"
      "body (c_resp demo_core) = Some [1, 2, 3]" "timed (c_params demo_core)"
      "0 \<le> ReqMaxBodySize ?h" "0 \<le> RespMaxBodySize ?h"
    by (simp_all add: headers_filled_def demo_core_def timed_def NewLogHandler_def)
  have k: "CanonicalHeaderKey ''content-encoding'' = ''Content-Encoding''" by code_simp
  have e: "GetHeader ''content-encoding'' (c_resp demo_core) \<noteq> ''gzip''"
    by (simp add: GetHeader_def header_get_def k demo_core_def)
  from log_transparent [OF w f, of "\<lambda>_. None" demo_meta] obtain r where
    "log_Write list_bytebuf (\<lambda>_. None) ?h demo_meta demo_core = (if FilterFunc ?h demo_core then Some r else None, True)"
    "al_status r = statusCode (c_resp demo_core)"
    "al_remotes r = Join_sep '', '' (remoteAddrs (c_req demo_core))"
    "\<forall>k vs. k \<in> set (lm_respKeys demo_meta) \<and> header (c_resp demo_core) k = Some vs
        \<longrightarrow> pl_headers (al_response r) k = Some (Join_sep '';'' vs)"
    "printBody ?h \<longrightarrow> GetHeader ''content-encoding'' (c_resp demo_core) \<noteq> ''gzip''
        \<longrightarrow> pl_body (al_response r) = take (nat (RespMaxBodySize ?h)) (Bytes list_bytebuf [1, 2, 3])"
    by (elim exE conjE) (rule that; assumption)
  with e show ?thesis
    by (intro exI [of _ r]) (simp add: demo_core_def demo_meta_def NewLogHandler_def Join_sep_def demo_request_def)
qed

theorem log_failure_drops_response_witness:
  "log_Write list_bytebuf (\<lambda>_. None) (NewLogHandler False) demo_meta
     (demo_core\<lparr>c_resp := (c_resp demo_core)\<lparr>body := None\<rparr>\<rparr>) = (None, False)"
  by (rule log_failure_drops_response) (simp_all add: NewLogHandler_def)

end
