(* ===== verification/Ghttp_Server.thy ===== *)
theory Ghttp_Server
  imports Ghttp_GZip
begin

text \<open>
  The HTTP server channel, \<open>ghttp/httpserverchannel.go\<close>: what becomes of a request net/http hands over,
  down to the bytes its client reads, and the life of a connection between \<open>ConnContext\<close>, the accept
  loop, the state callbacks and \<open>UnsafeClose\<close>. net/http itself is a parameter: its server calls
  \<open>ConnContext\<close> in its own accept loop, \<open>ServeHTTP\<close> with the context made there, and \<open>ConnState\<close> when a
  connection is hijacked or closed.
\<close>

section \<open>A request\<close>

text \<open>\<open>http.MaxBytesReader\<close> with a limit above 0: a longer body is cut with an error.\<close>

definition limit_body :: "int \<Rightarrow> body_read \<Rightarrow> body_read" where
  "limit_body mx br = (case br of
       BodyBytes bs \<Rightarrow> if 0 < mx \<and> mx < int (length bs) then BodyTooLarge else br
     | _ \<Rightarrow> br)"

text \<open>
  \<open>ServeHTTP\<close>: without a connection or a channel in the context nothing happens; a body that is too large
  is answered at once; any other request is fired into the pipeline of its channel, as a new pack, and
  \<open>FireReadCompleted\<close> follows.
\<close>

datatype 'b served = NotServed | Answered writer | Fired "('b, writer) core"

definition new_pack :: "'b bytebuf_ops \<Rightarrow> err_heap \<Rightarrow> writer \<Rightarrow> 'b request \<Rightarrow> ('b, writer) core" where
  "new_pack ops hp w r = \<lparr>c_req = r, c_resp = NewResponse ops, c_params = Map.empty, c_heap = hp,
     c_separate = False, c_user = w\<rparr>"

definition ServeHTTP ::
  "'b bytebuf_ops \<Rightarrow> (string \<Rightarrow> bool) \<Rightarrow> err_heap \<Rightarrow> int \<Rightarrow> bool \<Rightarrow> string option \<Rightarrow> string
     \<Rightarrow> body_read \<Rightarrow> 'b request \<Rightarrow> writer \<Rightarrow> 'b served" where
  "ServeHTTP ops public hp maxBodyBytes conn cch track br req w =
     (if \<not> conn then NotServed
      else (case cch of
         None \<Rightarrow> NotServed
       | Some ch \<Rightarrow> (case WrapRequest ops public ch track (limit_body maxBodyBytes br) req of
            None \<Rightarrow> Answered (write_bytes [] (writer_WriteHeader 413 w))
          | Some r \<Rightarrow> Fired (new_pack ops hp w r))))"

section \<open>What the client reads\<close>

text \<open>
  The responses the dispatcher writes, on their way through the compressing handler to the response
  writer, in order; None is a panic.
\<close>

fun deliver ::
  "'b bytebuf_ops \<Rightarrow> ((string \<rightharpoonup> cookie list) \<Rightarrow> cookie list) \<Rightarrow> (byte list \<Rightarrow> byte list) \<Rightarrow> int \<Rightarrow> 'b dcall list
     \<Rightarrow> ('b, writer) core \<Rightarrow> ('b, writer) core option" where
  "deliver ops ck gz nanos [] c = Some c"
| "deliver ops ck gz nanos (d # ds) c = (case d of
       CallWrite r \<Rightarrow> (case gzip_Write ops gz nanos (c\<lparr>c_resp := r\<rparr>) of
          None \<Rightarrow> None
        | Some c1 \<Rightarrow> (case http_UnsafeWrite ops ck False c1 of
             None \<Rightarrow> None
           | Some (c2, _) \<Rightarrow> deliver ops ck gz nanos ds c2))
     | _ \<Rightarrow> deliver ops ck gz nanos ds c)"

text \<open>
  A pack nobody has tampered with: it is not in separate mode, its writer is untouched, its response has a
  body and no encoding of its own. The callbacks of users are asked to keep it so.
\<close>

definition plain :: "('b, writer) core \<Rightarrow> bool" where
  "plain c \<longleftrightarrow> \<not> c_separate c \<and> c_user c = new_writer \<and> body (c_resp c) \<noteq> None
     \<and> header_get ''content-encoding'' (header (c_resp c)) = []"

definition keeps_plain :: "(('b, writer) core \<Rightarrow> ('b, writer) core \<times> 'r) \<Rightarrow> bool" where
  "keeps_plain f \<longleftrightarrow> (\<forall>c. plain c \<longrightarrow> plain (fst (f c)))"

definition plain_task :: "('b, writer) task \<Rightarrow> bool" where
  "plain_task t \<longleftrightarrow> (\<forall>m. keeps_plain (t_call t m)) \<and> keeps_plain (t_CORSHelper t)
     \<and> (\<forall>e p. keeps_plain (t_ErrorCaught t e p))"

lemma other_headers: "CanonicalHeaderKey ''content-encoding'' = ''Content-Encoding''"
  "CanonicalHeaderKey ''content-type'' = ''Content-Type''" "CanonicalHeaderKey ''accept-ranges'' = ''Accept-Ranges''"
  "CanonicalHeaderKey ''content-range'' = ''Content-Range''" "CanonicalHeaderKey ''content-length'' = ''Content-Length''"
  by code_simp+

lemma plain_updates [simp]:
  "plain (c\<lparr>c_params := ps\<rparr>) = plain c" "plain (c\<lparr>c_heap := hp\<rparr>) = plain c" "plain (c\<lparr>c_req := q\<rparr>) = plain c"
  by (simp_all add: plain_def)

lemma plain_run [simp]:
  "plain (core (timing h k s)) = plain (core s)" "plain (core (locate h n s)) = plain (core s)"
  by (simp_all add: timing_def set_param_def locate_def)

lemma plain_call:
  assumes "keeps_plain f" and "plain (core s)" and "call_with c f s = (s', r)"
  shows "plain (core s')"
proof -
  obtain k where "f (core s) = (k, r)" "core s' = k"
    using assms(3) by (auto simp: call_with_def split: prod.splits)
  then show ?thesis using assms(1,2) unfolding keeps_plain_def by (metis fst_conv)
qed

lemma plain_call_task: "plain_task t \<Longrightarrow> plain (core s) \<Longrightarrow> call_task t m s = (s', r) \<Longrightarrow> plain (core s')"
  unfolding call_task_def plain_task_def by (blast intro: plain_call)

lemma plain_respond:
  assumes "plain c" and "respond_error h er c = (c', r)"
  shows "plain c'"
  using assms by (auto simp: respond_error_def ResponseError_def JsonResponse_def SetBody_def SetHeader_def
      SetStatusCode_def plain_def other_headers Let_def split: option.splits prod.splits)

lemma plain_acceptances:
  assumes "list_all (\<lambda>a. keeps_plain (a_Do a)) as" and "plain (core s)" and "run_acceptances h i as s = (s', r)"
  shows "plain (core s')"
  using assms
proof (induction as arbitrary: i s)
  case (Cons a as)
  show ?case
  proof (cases "req_method s = ''OPTIONS'' \<and> a_skipOptions a")
    case True
    with Cons show ?thesis by simp
  next
    case False
    obtain s1 q where call: "call_with (CallAcceptance i) (a_Do a) s = (s1, q)" by fastforce
    with Cons.prems have s1: "plain (core s1)" by (auto intro: plain_call)
    show ?thesis
    proof (cases "q = Return AccPass")
      case True
      with False call Cons.prems have "run_acceptances h (Suc i) as s1 = (s', r)"
        by (auto split: if_splits)
      with Cons.IH s1 Cons.prems(1) show ?thesis by simp
    next
      case other: False
      have "plain k" if "respond_error h er (core (timing h x s1)) = (k, u)" for er k u x
        using plain_respond [OF _ that] s1 by simp
      with False other call Cons.prems(3) s1 show ?thesis
        by (auto simp: Let_def split: ret.splits acc_result.splits option.splits prod.splits if_splits)
    qed
  qed
qed simp

lemma plain_match:
  assumes "plain_task t" and "plain (core s)" and "match_method h t l s = (s', r)"
  shows "plain (core s')"
proof -
  have "plain (core s2)" if "first_or h t l c1 c2 s = (s2, q)" for c1 c2 s2 q
  proof -
    obtain s1 e where c: "call_task t c1 s = (s1, e)" by fastforce
    have "plain (core s1)" by (rule plain_call_task [OF assms(1,2) c])
    with that c show ?thesis
      by (auto simp: first_or_def split: if_splits ret.splits option.splits
          intro: plain_call_task [OF assms(1)] plain_call_task [OF assms(1,2)])
  qed
  with assms show ?thesis
    by (auto simp: match_method_def split: if_splits intro: plain_call_task)
qed

lemma plain_auto_range:
  assumes "plain (core s)" and "auto_range h t s = (s', r)"
  shows "plain (core s')"
  using assms by (auto simp: auto_range_def handleAutoRange_def plain_def upd_resp_def SetBody_def SetHeader_def
      SetStatusCode_def other_headers Let_def split: option.splits if_splits prod.splits)

lemma plain_seq:
  assumes "\<And>s1 q. m = (s1, q) \<Longrightarrow> plain (core s1)"
    and "\<And>s1 s2 q. plain (core s1) \<Longrightarrow> f s1 = (s2, q) \<Longrightarrow> plain (core s2)"
    and "seq_ret m f = (s', r)"
  shows "plain (core s')"
  using assms by (cases m) (auto simp: seq_ret_def split: ret.splits option.splits)

lemma plain_invoke:
  assumes "plain_task t" and "plain (core s)" and "invokeMethod h t l s = (s', r)"
  shows "plain (core s')"
proof (rule plain_seq [OF _ _ assms(3) [unfolded invokeMethod_def]])
  show "plain (core s1)" if "(if t_skipPreCheck t \<and> req_method s = ''OPTIONS'' then (s, Return None)
      else call_task t TPreCheck s) = (s1, q)" for s1 q
    using that assms(1,2) by (auto split: if_splits intro: plain_call_task)
  fix s1 s2 :: "('a, writer) run_state" and q
  assume s1: "plain (core s1)" and "seq_ret (call_task t TBefore s1) (\<lambda>s2. seq_ret (match_method h t l s2)
       (\<lambda>s3. seq_ret (auto_range h t s3) (call_task t TAfter))) = (s2, q)"
  then show "plain (core s2)"
    by (elim plain_seq [rotated 2])
      (auto elim!: plain_seq [rotated 2] intro: plain_call_task [OF assms(1)] plain_match [OF assms(1)] plain_auto_range)
qed

lemma plain_catch:
  assumes "plain_task t" and "plain (core s)" and "PanicCatch h t rtn p s = (s', r)"
  shows "plain (core s')"
proof -
  have "plain (core s1)" if "call_with c (t_ErrorCaught t e q) (upd_core (\<lambda>k. k\<lparr>c_heap := hp\<rparr>) s) = (s1, u)" for c e q hp s1 u
    using that assms(1,2) by (intro plain_call [OF _ _ that]) (auto simp: plain_task_def)
  with assms(2,3) show ?thesis
    by (auto simp: PanicCatch_def Let_def split: option.splits prod.splits ret.splits hpanic.splits)
qed

lemma plain_final:
  assumes "plain (core s)" and "DefaultStatusResponse h = Map.empty" and "final_steps h (s, q) = (s', p)"
  shows "plain (core s')"
proof -
  define s1 where "s1 = UpdateSessionCookie h s"
  have "plain (core s1)"
    using assms(1) by (simp add: s1_def UpdateSessionCookie_def plain_def upd_resp_def SetCookie_def Let_def split: option.split)
  then have "plain c" if "fill_response h (core s1) = (c, u)" for c u
    using that assms(2) by (auto simp: fill_response_def defaultNotFound404_def plain_def SetBody_def SetStatusCode_def Let_def
        split: if_splits option.splits bool.splits)
  with \<open>plain (core s1)\<close> show ?thesis
    using assms(3) by (auto simp: final_steps_def deferred_def s1_def [symmetric] callWrite_def default_status_def
        plain_def SetStatusCode_def Let_def split: if_splits prod.splits ret.splits)
qed

lemma plain_dispatch:
  assumes "DefaultStatusResponse h = Map.empty" and "d_route h (r_path (c_req (core s))) = Some n"
    and "f_type n \<noteq> RouteTypeGroup" and "f_task n = Some t" and "DispatchRead h s = (s', p)"
    and "plain_task t" and "list_all (\<lambda>a. keeps_plain (a_Do a)) (f_acceptances n)" and "plain (core s)"
  shows "plain (core s')"
proof -
  obtain s1 r where sv: "serve h t n (locate h n s) = (s1, r)" by fastforce
  have s1: "plain (core s1)"
  proof -
    obtain s0 q where acc: "run_acceptances h 0 (f_acceptances n) (locate h n s) = (s0, q)" by fastforce
    have s0: "plain (core s0)" using plain_acceptances [OF assms(7) _ acc] assms(8) by simp
    have "plain (core s2)" if "invokeMethod h t (f_last n) (timing h ''[gone-http]h_acceptance_time'' s0) = (s2, u)" for s2 u
      using plain_invoke [OF assms(6) _ that] s0 by simp
    with sv acc s0 show ?thesis
      by (auto simp: serve_def split: ret.splits bool.splits prod.splits)
  qed
  obtain k u where cors: "call_with CallCORS (t_CORSHelper t) s1 = (k, u)" by fastforce
  have k: "plain (core k)" using plain_call [OF _ s1 cors] assms(6) by (simp add: plain_task_def)
  obtain p2 where d: "deferred (call_with CallCORS (t_CORSHelper t)) (s1, pc) = (k, p2 pc)" for pc
    using cors by (cases u) (auto simp: deferred_def)
  obtain s3 q where catch: "PanicCatch h t (case r of Return e \<Rightarrow> e | Throw _ \<Rightarrow> None)
      (p2 (case r of Throw q \<Rightarrow> Some q | Return _ \<Rightarrow> None)) k = (s3, q)" by fastforce
  have s3: "plain (core s3)" by (rule plain_catch [OF assms(6) k catch])
  have "final_steps h (s3, case q of Throw x \<Rightarrow> Some x | Return _ \<Rightarrow> None) = (s', p)"
    using assms(2-5) sv d catch by (simp add: DispatchRead_def serve_task_def)
  from plain_final [OF s3 assms(1) this] show ?thesis .
qed

lemma deliver_none: "list_all (\<lambda>d. \<forall>r. d \<noteq> CallWrite r) ds \<Longrightarrow> deliver ops ck gz nanos (ds @ es) c = deliver ops ck gz nanos es c"
  by (induction ds) (auto split: dcall.splits)

lemma fired_plain:
  assumes "ServeHTTP ops public hp mx conn cch track br req new_writer = Fired c"
  shows "plain c"
  using assms by (auto simp: ServeHTTP_def new_pack_def plain_def NewResponse_def header_get_def split: if_splits option.splits)


text \<open>A body above the limit is answered 413 with an empty body and reaches no pipeline, and only then.\<close>

theorem large_body_refused:
  assumes "0 < mx" and "conn" and "cch = Some ch"
  shows "ServeHTTP ops public hp mx conn cch track (BodyBytes bs) req new_writer
      = Answered (new_writer\<lparr>w_status := Some 413, w_sent := Some Map.empty\<rparr>) \<longleftrightarrow> mx < int (length bs)"
  using assms by (auto simp: ServeHTTP_def limit_body_def WrapRequest_def read_body_def write_bytes_def
      writer_WriteHeader_def new_writer_def Let_def split: if_splits)

theorem large_body_refused_witness:
  "ServeHTTP list_bytebuf demo_public two_errors 2 True (Some ''ch'') ''t'' (BodyBytes [1, 2, 3]) demo_request new_writer
    = Answered (new_writer\<lparr>w_status := Some 413, w_sent := Some Map.empty\<rparr>)"
  using large_body_refused [of 2 True "Some ''ch''" "''ch''" list_bytebuf demo_public two_errors "''t''" "[1, 2, 3]" demo_request]
  by simp

lemma plain_default_task: "plain_task (DefaultHTTPHandlerTask h)"
proof -
  have k: "CanonicalHeaderKey ''access-control-allow-origin'' = ''Access-Control-Allow-Origin''"
    "CanonicalHeaderKey ''access-control-allow-headers'' = ''Access-Control-Allow-Headers''"
    "CanonicalHeaderKey ''access-control-allow-methods'' = ''Access-Control-Allow-Methods''"
    by code_simp+
  have "keeps_plain (default_CORSHelper :: ('a, writer) core \<Rightarrow> _)"
    by (auto simp: keeps_plain_def default_CORSHelper_def SetHeader_def plain_def other_headers k Let_def)
  moreover have "keeps_plain (default_ErrorCaught h e p)" for e p
    unfolding keeps_plain_def default_ErrorCaught_def
    by (auto split: prod.splits ret.splits dest: plain_respond)
  moreover have "keeps_plain (default_call h m)" for m
    by (simp add: keeps_plain_def default_call_def)
  ultimately show ?thesis by (simp add: plain_task_def DefaultHTTPHandlerTask_def)
qed

definition hello_call :: "task_call \<Rightarrow> (byte list, writer) core \<Rightarrow> (byte list, writer) core \<times> err_ref option ret" where
  "hello_call m c = (if m = TGet then (c\<lparr>c_resp := SetBody [104, 105] (c_resp c)\<rparr>, Return None) else (c, Return None))"

definition hello_task :: "(byte list, writer) task" where
  "hello_task = (DefaultHTTPHandlerTask sse_dispatcher)\<lparr>t_call := hello_call\<rparr>"

definition hello_node :: "(byte list, writer) found_node" where
  "hello_node = \<lparr>f_type = RouteTypeEndPoint, f_name = ''hello'', f_task = Some hello_task, f_acceptances = [],
     f_params = None, f_last = False\<rparr>"

lemma hello_plain: "plain_task hello_task"
proof -
  have "keeps_plain (hello_call m)" for m
    by (simp add: keeps_plain_def hello_call_def plain_def SetBody_def)
  with plain_default_task [of sse_dispatcher] show ?thesis by (simp add: plain_task_def hello_task_def)
qed


end
