(* ===== verification/Ghttp_Connections.thy ===== *)
theory Ghttp_Connections
  imports Channel_Server
begin

text \<open>
  The connections of an HTTP server, \<open>ghttp/httpserverchannel.go\<close>: the hooks \<open>UnsafeBind\<close> gives to
  net/http, the hand-over of a new connection's channel to the accept loop of \<open>channel/unsafe.go\<close>, and
  \<open>UnsafeClose\<close>. Accept loop, children, Bind and Close are those of \<open>Channel_Server\<close>, on the same state;
  here the threads of net/http are added. Of net/http the model has what its documentation says: one
  goroutine accepts connections and calls \<open>ConnContext\<close> for each, a goroutine per connection serves it
  and reports how it ended to \<open>ConnState\<close>, \<open>Shutdown\<close> closes the listener and waits for the connections,
  and \<open>ListenAndServe\<close> after it answers an error. The server is bound once.
\<close>

section \<open>State\<close>

text \<open>
  The server of \<open>Channel_Server\<close>, whose \<open>v_listening\<close> is the field \<open>active\<close>; whether net/http listens and
  whether it was shut down; the channels waiting in \<open>newChChan\<close>, of the capacity the parameter
  \<open>accept_wait_count\<close> gives, at least 1; \<open>chMap\<close>, whose keys, the connections, are named by their channel;
  and the connections net/http tracks. \<open>hs_forced\<close> is history: \<open>Shutdown\<close> ran out of time.
\<close>

record 'f http_server =
  hs_base :: "'f server"
  hs_open :: bool
  hs_shut :: bool
  newChChan :: "nat list"
  chMap :: "nat list"
  hs_tracked :: "nat list"
  hs_forced :: bool

definition upd_base :: "('f server \<Rightarrow> 'f server) \<Rightarrow> 'f http_server \<Rightarrow> 'f http_server" where
  "upd_base f h = h\<lparr>hs_base := f (hs_base h)\<rparr>"

text \<open>
  Srv is a thread of \<open>Channel_Server\<close>. HBind is \<open>UnsafeBind\<close>. NListen, NAccept are the goroutine of
  \<open>ListenAndServe\<close>; NStore, NSend, NMap, NAwait are \<open>ConnContext\<close> in it. NConn is the goroutine of a
  connection, NClosed, NDereg and NHijacked what \<open>ConnState\<close> does for it. \<open>UnsafeClose\<close> returns at once when
  the server is not active; HClose to HDone is the rest of it.
\<close>

datatype hpc = Srv spc | HBind
  | NListen | NAccept | NStore nat | NSend nat | NMap nat | NAwait nat
  | NConn nat | NClosed nat | NDereg nat | NHijacked nat
  | HClose | HWait | HForce "nat list" | HKillC nat "nat list" | HNeverC nat "nat list" | HDelete nat "nat list" | HDone

section \<open>Threads\<close>

text \<open>
  The goroutine of \<open>ListenAndServe\<close>, with \<open>ConnContext\<close>: the channel of a connection is derived and stored
  in the child map, sent to the accept loop, which waits while the channel is full, entered into \<open>chMap\<close>,
  and its acceptance awaited. \<open>ok\<close> says whether the listener can be opened.
\<close>

fun serve_loop :: "'f promise_ops \<Rightarrow> nat \<Rightarrow> bool \<Rightarrow> hpc \<Rightarrow> 'f http_server \<Rightarrow> (hpc \<times> 'f http_server \<times> hpc list) option" where
  "serve_loop F cap ok NListen h =
     (if ok \<and> \<not> hs_shut h then Some (NAccept, h\<lparr>hs_open := True\<rparr>, []) else Some (Srv SEnded, h, []))"
| "serve_loop F cap ok NAccept h = (if \<not> hs_open h then Some (Srv SEnded, h, [])
     else (case v_incoming (hs_base h) of
        [] \<Rightarrow> None
      | False # r \<Rightarrow> Some (NAccept, upd_base (\<lambda>s. s\<lparr>v_incoming := r\<rparr>) h, [])
      | True # r \<Rightarrow> Some (NStore (v_serial (hs_base h)),
          upd_base (\<lambda>s. s\<lparr>v_incoming := r, v_serial := Suc (v_serial s),
            v_children := (v_children s)(v_serial s \<mapsto> new_child F)\<rparr>) h, [])))"
| "serve_loop F cap ok (NStore c) h = Some (NSend c, upd_base (\<lambda>s. s\<lparr>v_map := c # v_map s\<rparr>) h, [])"
| "serve_loop F cap ok (NSend c) h = (if length (newChChan h) < cap
     then Some (NMap c, h\<lparr>newChChan := newChChan h @ [c]\<rparr>, []) else None)"
| "serve_loop F cap ok (NMap c) h = Some (NAwait c, h\<lparr>chMap := c # chMap h\<rparr>, [])"
| "serve_loop F cap ok (NAwait c) h = (case v_children (hs_base h) c of
       None \<Rightarrow> None
     | Some k \<Rightarrow> if IsDone F (k_fut k) then Some (NAccept, h\<lparr>hs_tracked := c # hs_tracked h\<rparr>, [NConn c]) else None)"
| "serve_loop F cap ok p h = None"

text \<open>
  A connection ends closed or hijacked; net/http stops tracking it and calls \<open>ConnState\<close>, which takes the
  channel out of \<open>chMap\<close> and, when it was closed, deregisters the channel if it is active.
\<close>

fun conn_state :: "bool \<Rightarrow> hpc \<Rightarrow> 'f http_server \<Rightarrow> (hpc \<times> 'f http_server \<times> hpc list) option" where
  "conn_state ok (NConn c) h =
     Some (if ok then NClosed c else NHijacked c, h\<lparr>hs_tracked := removeAll c (hs_tracked h)\<rparr>, [])"
| "conn_state ok (NClosed c) h =
     Some (if c \<in> set (chMap h) then NDereg c else Srv SEnded, h\<lparr>chMap := removeAll c (chMap h)\<rparr>, [])"
| "conn_state ok (NDereg c) h = Some (Srv (if child_active (hs_base h) c then KInact c else SEnded), h, [])"
| "conn_state ok (NHijacked c) h = Some (Srv SEnded, h\<lparr>chMap := removeAll c (chMap h)\<rparr>, [])"
| "conn_state ok p h = None"

text \<open>\<open>UnsafeAccept\<close> receives from \<open>newChChan\<close>; nobody closes that channel.\<close>

definition http_UnsafeAccept :: "'f http_server \<Rightarrow> (hpc \<times> 'f http_server \<times> hpc list) option" where
  "http_UnsafeAccept h = (case newChChan h of
       [] \<Rightarrow> None
     | c # cs \<Rightarrow> Some (Srv (ASpawn c), h\<lparr>newChChan := cs\<rparr>, []))"

text \<open>
  \<open>UnsafeBind\<close> starts \<open>ListenAndServe\<close> in a goroutine of its own and succeeds; \<open>UnsafeClose\<close> shuts net/http
  down, and when that takes longer than 5 seconds (\<open>ok\<close> is false) deregisters what is left in \<open>chMap\<close>.
\<close>

definition http_UnsafeBind :: "'f http_server \<Rightarrow> (hpc \<times> 'f http_server \<times> hpc list) option" where
  "http_UnsafeBind h = Some (Srv BActive, upd_base (\<lambda>s. s\<lparr>v_listening := True\<rparr>) h, [NListen])"

fun http_UnsafeClose :: "bool \<Rightarrow> hpc \<Rightarrow> 'f http_server \<Rightarrow> (hpc \<times> 'f http_server \<times> hpc list) option" where
  "http_UnsafeClose ok HClose h = Some (HWait, h\<lparr>hs_open := False, hs_shut := True\<rparr>, [])"
| "http_UnsafeClose ok HWait h =
     (if \<not> ok then Some (HForce (chMap h), h\<lparr>hs_forced := True\<rparr>, [])
      else if hs_tracked h = [] then Some (HDone, h, []) else None)"
| "http_UnsafeClose ok (HForce cs) h = Some (case cs of
       [] \<Rightarrow> HDone
     | c # cs' \<Rightarrow> if child_active (hs_base h) c then HKillC c cs' else HDelete c cs', h, [])"
| "http_UnsafeClose ok (HKillC c cs) h = (case inactivate_child c SEnded (KNever c) (hs_base h) of
       (q, s, new) \<Rightarrow> Some (if q = SEnded then HDelete c cs else HNeverC c cs, h\<lparr>hs_base := s\<rparr>, map Srv new))"
| "http_UnsafeClose ok (HNeverC c cs) h = Some (HDelete c cs, upd_base (child_fires KUnregisteredE c) h, [])"
| "http_UnsafeClose ok (HDelete c cs) h = Some (HForce cs, h\<lparr>chMap := removeAll c (chMap h)\<rparr>, [])"
| "http_UnsafeClose ok HDone h = Some (Srv CFut, upd_base (\<lambda>s. s\<lparr>v_listening := False\<rparr>) h, [])"
| "http_UnsafeClose ok p h = None"

definition lift_thread :: "'f promise_ops \<Rightarrow> spc \<Rightarrow> 'f http_server \<Rightarrow> (hpc \<times> 'f http_server \<times> hpc list) option" where
  "lift_thread F p h = (case sthread F True p (hs_base h) of
       None \<Rightarrow> None
     | Some (q, s, new) \<Rightarrow> Some (Srv q, h\<lparr>hs_base := s\<rparr>, map Srv new))"

definition hthread :: "'f promise_ops \<Rightarrow> nat \<Rightarrow> bool \<Rightarrow> hpc \<Rightarrow> 'f http_server \<Rightarrow> (hpc \<times> 'f http_server \<times> hpc list) option" where
  "hthread F cap ok p h = (case p of
       Srv q \<Rightarrow> (if q = AAccept then http_UnsafeAccept h
         else if q = CUnsafe then Some (if v_listening (hs_base h) then HClose else Srv CFut, h, [])
         else lift_thread F q h)
     | HBind \<Rightarrow> http_UnsafeBind h
     | NConn c \<Rightarrow> conn_state ok p h | NClosed c \<Rightarrow> conn_state ok p h
     | NDereg c \<Rightarrow> conn_state ok p h | NHijacked c \<Rightarrow> conn_state ok p h
     | NListen \<Rightarrow> serve_loop F cap ok p h | NAccept \<Rightarrow> serve_loop F cap ok p h
     | NStore c \<Rightarrow> serve_loop F cap ok p h | NSend c \<Rightarrow> serve_loop F cap ok p h
     | NMap c \<Rightarrow> serve_loop F cap ok p h | NAwait c \<Rightarrow> serve_loop F cap ok p h
     | _ \<Rightarrow> http_UnsafeClose ok p h)"

text \<open>
  The system: the server is being bound, somebody closes it, connections arrive, channels are inactivated
  from their own side, and the loops over the maps may visit what is stored while they run.
\<close>

inductive hrun :: "'f promise_ops \<Rightarrow> nat \<Rightarrow> 'f http_server \<times> hpc list \<Rightarrow> 'f http_server \<times> hpc list \<Rightarrow> bool" for F cap where
  "hthread F cap ok p h = Some (p', h', new) \<Longrightarrow> hrun F cap (h, xs @ p # ys) (h', xs @ p' # ys @ new)"

inductive hstep :: "'f promise_ops \<Rightarrow> nat \<Rightarrow> 'f http_server \<times> hpc list \<Rightarrow> 'f http_server \<times> hpc list \<Rightarrow> bool" for F cap where
  thread: "hrun F cap c c' \<Longrightarrow> hstep F cap c c'"
| close: "\<not> v_closed (hs_base h) \<Longrightarrow> hstep F cap (h, ps) (h, ps @ [Srv CInact])"
| connect: "hstep F cap (h, ps) (upd_base (\<lambda>s. s\<lparr>v_incoming := v_incoming s @ [b]\<rparr>) h, ps)"
| child: "hstep F cap (h, ps) (h, ps @ [Srv (KInact c)])"
| late_kill: "c \<in> set (v_map (hs_base h)) \<Longrightarrow> hstep F cap (h, xs @ Srv (HLoop cs) # ys) (h, xs @ Srv (HLoop (c # cs)) # ys)"
| late_wait: "c \<in> set (v_map (hs_base h)) \<Longrightarrow>
    hstep F cap (h, xs @ Srv (WLoop g cs w) # ys) (h, xs @ Srv (WLoop g (c # cs) (c # w)) # ys)"
| late_force: "c \<in> set (chMap h) \<Longrightarrow> hstep F cap (h, xs @ HForce cs # ys) (h, xs @ HForce (c # cs) # ys)"

definition new_http :: "'f http_server" where
  "new_http = \<lparr>hs_base = new_server, hs_open = False, hs_shut = False, newChChan = [], chMap = [], hs_tracked = [],
     hs_forced = False\<rparr>"

definition hreach :: "'f promise_ops \<Rightarrow> nat \<Rightarrow> 'f http_server \<Rightarrow> hpc list \<Rightarrow> bool" where
  "hreach F cap h ps \<longleftrightarrow> (hstep F cap)\<^sup>*\<^sup>* (new_http, [HBind]) (h, ps)"

lemma hreach_induct [consumes 1, case_names start step]:
  assumes "hreach F cap h ps" and "I new_http [HBind]"
    and "\<And>h ps h' ps'. I h ps \<Longrightarrow> hstep F cap (h, ps) (h', ps') \<Longrightarrow> I h' ps'"
  shows "I h ps"
proof -
  from assms(1) have "case (h, ps) of (h, ps) \<Rightarrow> I h ps"
    unfolding hreach_def by (induction rule: rtranclp_induct) (use assms(2,3) in auto)
  then show ?thesis by simp
qed

section \<open>Where a connection is\<close>

text \<open>
  The threads a connection is in: 0 to 3 in \<open>ConnContext\<close>, 4 served, 5 and 6 on its way out; and the
  threads of its channel once the accept loop has taken it.
\<close>

fun place :: "nat \<Rightarrow> hpc \<Rightarrow> nat list" where
  "place c (NStore d) = (if d = c then [0] else [])"
| "place c (NSend d) = (if d = c then [1] else [])"
| "place c (NMap d) = (if d = c then [2] else [])"
| "place c (NAwait d) = (if d = c then [3] else [])"
| "place c (NConn d) = (if d = c then [4] else [])"
| "place c (NClosed d) = (if d = c then [5] else [])"
| "place c (NHijacked d) = (if d = c then [6] else [])"
| "place c _ = []"

definition places :: "nat \<Rightarrow> hpc list \<Rightarrow> nat list" where
  "places c ps = concat (map (place c) ps)"

lemma places_simps [simp]:
  "places c [] = []" "places c (p # ps) = place c p @ places c ps" "places c (ps @ qs) = places c ps @ places c qs"
  "places c (map Srv rs) = []"
  by (simp_all add: places_def)

definition taken :: "nat \<Rightarrow> spc \<Rightarrow> bool" where
  "taken c p \<longleftrightarrow> p \<in> {AStore c, ASpawn c, KReg c, KAct c, KFire c, KSucc c, KTimer c}"

definition taken_in :: "nat \<Rightarrow> hpc list \<Rightarrow> bool" where
  "taken_in c ps \<longleftrightarrow> (\<exists>p \<in> set ps. \<exists>q. p = Srv q \<and> taken c q)"

definition fut_done :: "'f promise_ops \<Rightarrow> 'f server \<Rightarrow> nat \<Rightarrow> bool" where
  "fut_done F s c = (case v_children s c of None \<Rightarrow> False | Some k \<Rightarrow> IsDone F (k_fut k))"

lemma sthread_serial:
  assumes "sthread F True p s = Some (p', s', new)" and "p \<noteq> AAccept"
  shows "v_serial s' = v_serial s"
  using assms by (cases p) (auto simp: server_defs split: server_splits)

lemma sthread_kept:
  assumes "sthread F True p s = Some (p', s', new)" and "p \<noteq> AAccept" and "\<not> taken c p"
  shows "\<not> taken c p' \<and> (\<forall>x \<in> set new. \<not> taken c x) \<and> fut_done F s' c = fut_done F s c"
  using assms by (cases p) (auto simp: taken_def fut_done_def server_defs split: server_splits)

text \<open>
  What matters of a connection: whether it exists, waits in \<open>newChChan\<close>, is in \<open>chMap\<close>, is tracked, and
  whether its acceptance is settled; and how one step of a thread moves it, whose places are \<open>x\<close> before
  and \<open>y\<close> after, and which is a thread of the accepted channel (\<open>k\<close>) before and after.
\<close>

record cview =
  cv_old :: bool
  cv_wait :: bool
  cv_map :: bool
  cv_track :: bool
  cv_done :: bool

definition cview :: "'f promise_ops \<Rightarrow> 'f http_server \<Rightarrow> nat \<Rightarrow> cview" where
  "cview F h c = \<lparr>cv_old = (c < v_serial (hs_base h)), cv_wait = (c \<in> set (newChChan h)), cv_map = (c \<in> set (chMap h)),
     cv_track = (c \<in> set (hs_tracked h)), cv_done = fut_done F (hs_base h) c\<rparr>"

inductive cmove :: "bool \<Rightarrow> cview \<Rightarrow> nat list \<Rightarrow> bool \<Rightarrow> cview \<Rightarrow> nat list \<Rightarrow> bool \<Rightarrow> bool" where
  idle: "cmove forced v x k v x k"
| accepted: "cmove forced v [] True (v\<lparr>cv_done := d\<rparr>) [] k"
| start: "\<not> cv_old v \<Longrightarrow> cmove forced v [] False (v\<lparr>cv_old := True, cv_done := False\<rparr>) [0] False"
| stored: "cmove forced v [0] False v [1] False"
| sent: "cmove forced v [1] False (v\<lparr>cv_wait := True\<rparr>) [2] False"
| entered: "cmove forced v [2] False (v\<lparr>cv_map := True\<rparr>) [3] False"
| served: "cv_done v \<Longrightarrow> cmove forced v [3] False (v\<lparr>cv_track := True\<rparr>) [4] False"
| closed: "cmove forced v [4] False (v\<lparr>cv_track := False\<rparr>) [5] False"
| hijacked: "cmove forced v [4] False (v\<lparr>cv_track := False\<rparr>) [6] False"
| told_closed: "cmove forced v [5] False (v\<lparr>cv_map := False\<rparr>) [] False"
| told_hijacked: "cmove forced v [6] False (v\<lparr>cv_map := False\<rparr>) [] False"
| received: "cv_wait v \<Longrightarrow> cmove forced v [] False (v\<lparr>cv_wait := False\<rparr>) [] True"
| deleted: "cmove True v [] False (v\<lparr>cv_map := False\<rparr>) [] False"

text \<open>Threads that run only after \<open>Shutdown\<close> ran out of time.\<close>

fun forcing :: "hpc \<Rightarrow> bool" where
  "forcing (HForce cs) = True"
| "forcing (HKillC c cs) = True"
| "forcing (HNeverC c cs) = True"
| "forcing (HDelete c cs) = True"
| "forcing _ = False"

text \<open>Threads of \<open>ListenAndServe\<close>, and the Bind that starts it.\<close>

fun serving :: "hpc \<Rightarrow> bool" where
  "serving HBind = True"
| "serving NListen = True"
| "serving NAccept = True"
| "serving (NStore c) = True"
| "serving (NSend c) = True"
| "serving (NMap c) = True"
| "serving (NAwait c) = True"
| "serving _ = False"

definition cinv :: "bool \<Rightarrow> cview \<Rightarrow> nat list \<Rightarrow> bool \<Rightarrow> bool" where
  "cinv forced v x k \<longleftrightarrow> length x \<le> 1
     \<and> (\<not> cv_old v \<longrightarrow> x = [] \<and> \<not> cv_wait v \<and> \<not> cv_map v \<and> \<not> cv_track v)
     \<and> (\<not> cv_old v \<or> x = [0] \<or> x = [1] \<or> cv_wait v \<longrightarrow> \<not> k \<and> \<not> cv_done v)
     \<and> (x = [0] \<or> x = [1] \<longrightarrow> \<not> cv_wait v)
     \<and> (cv_wait v \<longrightarrow> x = [2] \<or> x = [3])
     \<and> (cv_map v \<longrightarrow> x \<in> {[3], [4], [5], [6]})
     \<and> (x \<in> {[3], [4], [5], [6]} \<longrightarrow> cv_map v \<or> forced)
     \<and> (cv_track v \<longleftrightarrow> x = [4])"

lemma cinv_forced: "cinv f v x k \<Longrightarrow> f \<longrightarrow> f' \<Longrightarrow> cinv f' v x k"
  unfolding cinv_def by blast

lemma cinv_own: "cmove f v x k v' y k' \<Longrightarrow> x \<noteq> [] \<Longrightarrow> cinv f v x (k0 \<or> k) \<Longrightarrow> cinv f v' y (k0 \<or> k')"
  by (induction rule: cmove.induct) (simp_all add: cinv_def)

lemma cinv_other: "cmove f v x k v' y k' \<Longrightarrow> x = [] \<Longrightarrow> y = [] \<Longrightarrow> cinv f v z (k0 \<or> k) \<Longrightarrow> cinv f v' z (k0 \<or> k')"
  by (induction rule: cmove.induct) (auto simp: cinv_def)

lemma cinv_new: "cmove f v x k v' y k' \<Longrightarrow> x = [] \<Longrightarrow> y \<noteq> [] \<Longrightarrow> cinv f v z (k0 \<or> k) \<Longrightarrow> z = [] \<and> cinv f v' y (k0 \<or> k')"
  by (induction rule: cmove.induct) (simp_all add: cinv_def)

lemma cinv_move:
  assumes "cinv forced v (a @ x @ b) (k0 \<or> k)" and "cmove forced v x k v' y k'"
  shows "cinv forced v' (a @ y @ b) (k0 \<or> k')"
proof (cases "x = []")
  case True
  then have z: "cinv forced v (a @ b) (k0 \<or> k)" using assms(1) by simp
  show ?thesis
  proof (cases "y = []")
    case y: True
    from cinv_other [OF assms(2) True y z] y show ?thesis by simp
  next
    case y: False
    from cinv_new [OF assms(2) True y z] show ?thesis by simp
  qed
next
  case False
  then obtain i js where x: "x = i # js" by (cases x) auto
  from assms(1) have "length (a @ x @ b) \<le> 1" by (simp add: cinv_def)
  with x have "a = []" "b = []" by simp_all
  with assms(1) cinv_own [OF assms(2) False, of k0] show ?thesis by simp
qed

lemma cmove_rules:
  "v' = v \<Longrightarrow> cmove f v x k v' x k"
  "v' = v\<lparr>cv_done := d\<rparr> \<Longrightarrow> cmove f v [] True v' [] k"
  "v' = v\<lparr>cv_old := True, cv_done := False\<rparr> \<Longrightarrow> \<not> cv_old v \<Longrightarrow> cmove f v [] False v' [0] False"
  "v' = v \<Longrightarrow> cmove f v [0] False v' [Suc 0] False"
  "v' = v\<lparr>cv_wait := True\<rparr> \<Longrightarrow> cmove f v [Suc 0] False v' [2] False"
  "v' = v\<lparr>cv_map := True\<rparr> \<Longrightarrow> cmove f v [2] False v' [3] False"
  "v' = v\<lparr>cv_track := True\<rparr> \<Longrightarrow> cv_done v \<Longrightarrow> cmove f v [3] False v' [4] False"
  "v' = v\<lparr>cv_track := False\<rparr> \<Longrightarrow> cmove f v [4] False v' [5] False"
  "v' = v\<lparr>cv_track := False\<rparr> \<Longrightarrow> cmove f v [4] False v' [6] False"
  "v' = v\<lparr>cv_map := False\<rparr> \<Longrightarrow> cmove f v [5] False v' [] False"
  "v' = v\<lparr>cv_map := False\<rparr> \<Longrightarrow> cmove f v [6] False v' [] False"
  "v' = v\<lparr>cv_wait := False\<rparr> \<Longrightarrow> cv_wait v \<Longrightarrow> cmove f v [] False v' [] True"
  "v' = v\<lparr>cv_map := False\<rparr> \<Longrightarrow> cmove True v [] False v' [] False"
  by (auto intro: cmove.intros simp flip: One_nat_def)

definition of_channel :: "nat \<Rightarrow> hpc \<Rightarrow> bool" where
  "of_channel c p \<longleftrightarrow> (\<exists>q. p = Srv q \<and> taken c q)"

lemma of_channel_simps [simp]:
  "of_channel c (Srv q) = taken c q" "(\<And>q. p \<noteq> Srv q) \<Longrightarrow> \<not> of_channel c p"
  by (auto simp: of_channel_def)

lemma taken_in_simps [simp]:
  "\<not> taken_in c []" "taken_in c (p # ps) \<longleftrightarrow> of_channel c p \<or> taken_in c ps"
  "taken_in c (ps @ qs) \<longleftrightarrow> taken_in c ps \<or> taken_in c qs"
  "taken_in c (map Srv rs) \<longleftrightarrow> (\<exists>r \<in> set rs. taken c r)"
  by (auto simp: taken_in_def of_channel_def)

lemma taken_simps [simp]: "\<not> taken c SEnded" "\<not> taken c BActive" "\<not> taken c CFut" "\<not> taken c (KInact d)"
  "\<not> taken c AAccept" "\<not> taken c CUnsafe" "taken c (ASpawn d) \<longleftrightarrow> d = c"
  by (auto simp: taken_def)

text \<open>A lifted thread of \<open>Channel_Server\<close> moves no connection, and settles an acceptance only as a thread of its channel.\<close>

lemma lift_move:
  assumes "lift_thread F q h = Some (p', h', new)" and "q \<noteq> AAccept"
  shows "cmove (hs_forced h') (cview F h c) [] (taken c q) (cview F h' c) (place c p' @ places c new)
      (of_channel c p' \<or> taken_in c new) \<and> hs_forced h' = hs_forced h"
proof -
  obtain q' s' n where s: "sthread F True q (hs_base h) = Some (q', s', n)"
    and p': "p' = Srv q'" "h' = h\<lparr>hs_base := s'\<rparr>" "new = map Srv n"
    using assms(1) by (auto simp: lift_thread_def split: option.splits prod.splits)
  have v: "cview F h' c = (cview F h c)\<lparr>cv_done := fut_done F s' c\<rparr>"
    using sthread_serial [OF s assms(2)] by (simp add: cview_def p'(2))
  show ?thesis
  proof (cases "taken c q")
    case True
    with v p' show ?thesis by (auto intro: cmove_rules(2))
  next
    case False
    from sthread_kept [OF s assms(2) False] v p' False show ?thesis
      by (auto intro!: cmove_rules(1) simp: cview_def)
  qed
qed

lemma base_move:
  assumes "\<And>s. v_serial (f s) = v_serial s" and "\<And>s. fut_done F (f s) c = fut_done F s c"
  shows "cview F (upd_base f h) c = cview F h c"
  by (simp add: cview_def upd_base_def assms)

lemma idle_move: "v' = v \<Longrightarrow> x' = x \<Longrightarrow> k' = k \<Longrightarrow> cmove f v x k v' x' k'"
  by (simp add: idle)

lemma fut_done_upd: "fut_done F (child_fires e d s) c = fut_done F s c" "v_serial (child_fires e d s) = v_serial s"
  by (auto simp: fut_done_def server_defs split: option.split)

lemma inactivate_child_kept:
  assumes "inactivate_child d p q s = (r, s', new)"
  shows "v_serial s' = v_serial s \<and> fut_done F s' c = fut_done F s c \<and> (\<forall>x \<in> set new. \<not> taken c x)"
  using assms by (auto simp: taken_def fut_done_def server_defs split: server_splits)

context promise
begin

text \<open>Every step of every thread moves each connection by one of the moves.\<close>

lemma serve_loop_move:
  assumes "serve_loop F cap ok p h = Some (p', h', new)"
  shows "cmove (hs_forced h') (cview F h c) (place c p) (of_channel c p) (cview F h' c) (place c p' @ places c new)
      (of_channel c p' \<or> taken_in c new)"
proof (cases p)
  case NListen
  with assms show ?thesis by (auto split: if_splits intro!: idle_move simp: cview_def)
next
  case NAccept
  show ?thesis
  proof (cases "c = v_serial (hs_base h)")
    case True
    with NAccept assms new_open show ?thesis
      by (auto split: if_splits list.splits bool.splits intro!: cmove_rules(3)
        simp: cview_def upd_base_def fut_done_def new_child_def intro: idle)
  next
    case False
    with NAccept assms show ?thesis
      by (auto split: if_splits list.splits bool.splits intro!: idle_move simp: cview_def upd_base_def fut_done_def)
  qed
next
  case (NStore d)
  show ?thesis
  proof (cases "d = c")
    case True
    with NStore assms show ?thesis by (auto intro!: cmove_rules(4) simp: cview_def upd_base_def fut_done_def)
  qed (use NStore assms in \<open>auto intro!: idle_move simp: cview_def upd_base_def fut_done_def\<close>)
next
  case (NSend d)
  show ?thesis
  proof (cases "d = c")
    case True
    with NSend assms show ?thesis by (auto split: if_splits intro!: cmove_rules(5) simp: cview_def)
  qed (use NSend assms in \<open>auto split: if_splits intro!: idle_move simp: cview_def\<close>)
next
  case (NMap d)
  show ?thesis
  proof (cases "d = c")
    case True
    with NMap assms show ?thesis by (auto intro!: cmove_rules(6) simp: cview_def)
  qed (use NMap assms in \<open>auto intro!: idle_move simp: cview_def\<close>)
next
  case (NAwait d)
  show ?thesis
  proof (cases "d = c")
    case True
    with NAwait assms show ?thesis
      by (auto split: if_splits option.splits intro!: cmove_rules(7) simp: cview_def fut_done_def)
  qed (use NAwait assms in \<open>auto split: if_splits option.splits intro!: idle_move simp: cview_def\<close>)
qed (use assms in simp_all)

end

lemma conn_state_move:
  assumes "conn_state ok p h = Some (p', h', new)"
  shows "cmove (hs_forced h') (cview F h c) (place c p) (of_channel c p) (cview F h' c) (place c p' @ places c new)
      (of_channel c p' \<or> taken_in c new)"
proof (cases p)
  case (NConn d)
  show ?thesis
  proof (cases "d = c")
    case True
    with NConn assms show ?thesis by (cases ok) (auto intro!: cmove_rules(8,9) simp: cview_def)
  qed (use NConn assms in \<open>auto intro!: idle_move simp: cview_def\<close>)
next
  case (NClosed d)
  show ?thesis
  proof (cases "d = c")
    case True
    with NClosed assms show ?thesis by (auto intro!: cmove_rules(10) simp: cview_def)
  qed (use NClosed assms in \<open>auto intro!: idle_move simp: cview_def split: if_splits\<close>)
next
  case (NDereg d)
  with assms show ?thesis by (auto intro!: idle_move simp: cview_def split: if_splits)
next
  case (NHijacked d)
  show ?thesis
  proof (cases "d = c")
    case True
    with NHijacked assms show ?thesis by (auto intro!: cmove_rules(11) simp: cview_def)
  qed (use NHijacked assms in \<open>auto intro!: idle_move simp: cview_def\<close>)
qed (use assms in simp_all)

lemma close_move:
  assumes "http_UnsafeClose ok p h = Some (p', h', new)" and "forcing p \<longrightarrow> hs_forced h"
  shows "cmove (hs_forced h') (cview F h c) (place c p) (of_channel c p) (cview F h' c) (place c p' @ places c new)
      (of_channel c p' \<or> taken_in c new)"
proof (cases p)
  case (HDelete d cs)
  show ?thesis
  proof (cases "d = c")
    case True
    with HDelete assms show ?thesis by (auto intro!: cmove_rules(13) simp: cview_def)
  qed (use HDelete assms in \<open>auto intro!: idle_move simp: cview_def\<close>)
next
  case (HKillC d cs)
  obtain q s n where "inactivate_child d SEnded (KNever d) (hs_base h) = (q, s, n)" by (metis prod_cases3)
  with HKillC assms inactivate_child_kept [OF this] show ?thesis
    by (auto intro!: idle_move simp: cview_def split: if_splits)
next
  case HWait
  with assms show ?thesis by (auto intro!: idle_move simp: cview_def split: if_splits)
next
  case (HForce cs)
  with assms show ?thesis by (auto intro!: idle_move simp: cview_def split: if_splits list.splits)
next
  case (HNeverC d cs)
  with assms show ?thesis by (auto intro!: idle_move simp: cview_def upd_base_def fut_done_upd)
next
  case HDone
  with assms show ?thesis by (auto intro!: idle_move simp: cview_def upd_base_def fut_done_def)
qed (use assms in \<open>auto intro!: idle_move simp: cview_def\<close>)

lemma bind_move:
  "http_UnsafeBind h = Some (p', h', new) \<Longrightarrow> cview F h' c = cview F h c \<and> p' = Srv BActive \<and> new = [NListen]
    \<and> hs_forced h' = hs_forced h"
  by (auto simp: http_UnsafeBind_def upd_base_def cview_def fut_done_def)

lemma accept_move:
  assumes "http_UnsafeAccept h = Some (p', h', new)" and "distinct (newChChan h)"
  shows "cmove (hs_forced h') (cview F h c) [] False (cview F h' c) (place c p' @ places c new) (of_channel c p' \<or> taken_in c new)"
proof -
  obtain d cs where q: "newChChan h = d # cs" "p' = Srv (ASpawn d)" "h' = h\<lparr>newChChan := cs\<rparr>" "new = []"
    using assms(1) by (auto simp: http_UnsafeAccept_def split: list.splits)
  with assms(2) show ?thesis
    by (cases "d = c") (auto intro!: cmove_rules(12) intro: idle_move simp: cview_def)
qed

context promise
begin

lemma thread_move:
  assumes "hthread F cap ok p h = Some (p', h', new)" and "distinct (newChChan h)" and "forcing p \<longrightarrow> hs_forced h"
  shows "cmove (hs_forced h') (cview F h c) (place c p) (of_channel c p) (cview F h' c) (place c p' @ places c new)
      (of_channel c p' \<or> taken_in c new)"
proof (cases p)
  case (Srv q)
  show ?thesis
  proof (cases "q = AAccept \<or> q = CUnsafe")
    case True
    with assms Srv accept_move [OF _ assms(2)] show ?thesis
      by (auto simp: hthread_def intro!: idle_move split: if_splits)
  next
    case False
    with assms(1) Srv have "lift_thread F q h = Some (p', h', new)" by (simp add: hthread_def)
    from conjunct1 [OF lift_move [OF this, of c]] False Srv show ?thesis by simp
  qed
next
  case HBind
  with assms(1) bind_move [of h p' h' new F c] show ?thesis by (auto simp: hthread_def intro!: idle_move)
qed (use assms serve_loop_move conn_state_move close_move in \<open>simp_all only: hthread_def hpc.case\<close>)

end

lemma lift_new: "lift_thread F q h = Some (p', h', new) \<Longrightarrow> (\<exists>r. p' = Srv r) \<and> (\<exists>rs. new = map Srv rs)
    \<and> newChChan h' = newChChan h \<and> hs_forced h' = hs_forced h"
  by (auto simp: lift_thread_def split: option.splits prod.splits)

lemma serving_new:
  assumes "hthread F cap ok p h = Some (p', h', new)"
  shows "length (filter serving (p' # new)) \<le> (if serving p then 1 else 0)"
proof -
  have "filter serving (map Srv rs) = []" for rs by (induction rs) simp_all
  then show ?thesis
    using assms by (cases p) (auto simp: hthread_def http_UnsafeAccept_def http_UnsafeBind_def dest!: lift_new
        split: if_splits list.splits option.splits bool.splits prod.splits)
qed

lemma queue_new:
  assumes "hthread F cap ok p h = Some (p', h', new)" and "distinct (newChChan h)" and "\<And>c. p = NSend c \<Longrightarrow> c \<notin> set (newChChan h)"
  shows "distinct (newChChan h')"
  using assms by (cases p) (auto simp: hthread_def http_UnsafeAccept_def http_UnsafeBind_def upd_base_def dest!: lift_new
        split: if_splits list.splits option.splits bool.splits prod.splits)

lemma forced_new:
  assumes "hthread F cap ok p h = Some (p', h', new)"
  shows "(hs_forced h \<longrightarrow> hs_forced h') \<and> (\<forall>x \<in> set (p' # new). forcing x \<longrightarrow> forcing p \<or> hs_forced h')"
proof -
  have "\<not> forcing x" if "x \<in> set (map Srv rs)" for x rs using that by auto
  then show ?thesis
    using assms by (cases p) (fastforce simp: hthread_def http_UnsafeAccept_def http_UnsafeBind_def upd_base_def dest!: lift_new
        split: if_splits list.splits option.splits bool.splits prod.splits)+
qed

section \<open>The connections of a server\<close>

definition hinv :: "'f promise_ops \<Rightarrow> 'f http_server \<Rightarrow> hpc list \<Rightarrow> bool" where
  "hinv F h ps \<longleftrightarrow> (\<forall>c. cinv (hs_forced h) (cview F h c) (places c ps) (taken_in c ps))
     \<and> length (filter serving ps) \<le> 1 \<and> distinct (newChChan h) \<and> (\<forall>p \<in> set ps. forcing p \<longrightarrow> hs_forced h)"

lemma places_new: "length (a @ (u @ w) @ b) \<le> 1 \<Longrightarrow> a @ u @ b @ w = a @ (u @ w) @ (b :: nat list)"
  by (cases w; cases b) auto

lemma single_place: "i \<in> set l \<Longrightarrow> length l \<le> 1 \<Longrightarrow> l = [i]"
  by (cases l) auto

lemma hrun_thread:
  assumes "hrun F cap (h, ps) (h', ps')"
  shows "\<exists>ok p p' new xs ys. hthread F cap ok p h = Some (p', h', new) \<and> ps = xs @ p # ys \<and> ps' = xs @ p' # ys @ new"
  using assms by (cases rule: hrun.cases) blast

context promise
begin

lemma hinv_thread:
  assumes "hinv F h (xs @ p # ys)" and "hthread F cap ok p h = Some (p', h', new)"
  shows "hinv F h' (xs @ p' # ys @ new)"
proof -
  have d: "distinct (newChChan h)" and f: "forcing p \<longrightarrow> hs_forced h"
    and fs: "\<forall>q \<in> set (xs @ ys). forcing q \<longrightarrow> hs_forced h" and sv: "length (filter serving (xs @ p # ys)) \<le> 1"
    and c: "\<And>c. cinv (hs_forced h) (cview F h c) (places c (xs @ p # ys)) (taken_in c (xs @ p # ys))"
    using assms(1) by (auto simp: hinv_def)
  note fn = forced_new [OF assms(2)]
  have "cinv (hs_forced h') (cview F h' c) (places c (xs @ p' # ys @ new)) (taken_in c (xs @ p' # ys @ new))" for c
  proof -
    have "cinv (hs_forced h') (cview F h c) (places c xs @ place c p @ places c ys)
        ((taken_in c xs \<or> taken_in c ys) \<or> of_channel c p)"
      using cinv_forced [OF c [of c]] fn by (simp add: disj_ac)
    from cinv_move [OF this thread_move [OF assms(2) d f, of c]]
    have m: "cinv (hs_forced h') (cview F h' c) (places c xs @ (place c p' @ places c new) @ places c ys)
        ((taken_in c xs \<or> taken_in c ys) \<or> of_channel c p' \<or> taken_in c new)" .
    then have "length (places c xs @ (place c p' @ places c new) @ places c ys) \<le> 1" by (simp add: cinv_def)
    from m places_new [OF this] show ?thesis by (simp add: disj_ac)
  qed
  moreover have "length (filter serving (xs @ p' # ys @ new)) \<le> 1"
    using serving_new [OF assms(2)] sv by (auto split: if_splits)
  moreover have "distinct (newChChan h')"
  proof (rule queue_new [OF assms(2) d])
    fix c assume "p = NSend c"
    then have "1 \<in> set (places c (xs @ p # ys))" by simp
    moreover from c [of c] have "length (places c (xs @ p # ys)) \<le> 1" by (simp add: cinv_def)
    ultimately have "places c (xs @ p # ys) = [1]" by (rule single_place)
    with c [of c] show "c \<notin> set (newChChan h)" by (simp add: cinv_def cview_def)
  qed
  moreover have "\<forall>q \<in> set (xs @ p' # ys @ new). forcing q \<longrightarrow> hs_forced h'"
    using fs f fn by auto
  ultimately show ?thesis by (simp add: hinv_def)
qed

lemma cinv_same: "cinv f v x k \<Longrightarrow> v' = v \<Longrightarrow> x' = x \<Longrightarrow> k' = k \<Longrightarrow> cinv f v' x' k'"
  by simp

lemma hinv_step:
  assumes "hinv F h ps" and "hstep F cap (h, ps) (h', ps')"
  shows "hinv F h' ps'"
  using assms(2)
proof (cases rule: hstep.cases)
  case thread
  from hrun_thread [OF this] hinv_thread assms(1) show ?thesis by blast
next
  case close
  with assms(1) show ?thesis by (auto simp: hinv_def taken_def)
next
  case (connect b)
  have "cview F (upd_base (\<lambda>s. s\<lparr>v_incoming := v_incoming s @ [b]\<rparr>) h) c = cview F h c" for c
    by (simp add: cview_def upd_base_def fut_done_def)
  with connect assms(1) show ?thesis by (simp add: hinv_def upd_base_def)
next
  case (child c)
  with assms(1) show ?thesis by (auto simp: hinv_def)
next
  case (late_kill c xs cs ys)
  with assms(1) show ?thesis by (auto simp: hinv_def taken_def)
next
  case (late_wait c xs g cs w ys)
  with assms(1) show ?thesis by (auto simp: hinv_def taken_def)
next
  case (late_force c xs cs ys)
  with assms(1) show ?thesis by (auto simp: hinv_def)
qed

lemma hinv_start: "hinv F new_http [HBind]"
  by (auto simp: hinv_def cinv_def cview_def new_http_def new_server_def fut_done_def)

lemma hreach_hinv: "hreach F cap h ps \<Longrightarrow> hinv F h ps"
  by (induction rule: hreach_induct) (auto intro: hinv_start hinv_step)

end

lemma place_thread: "i \<in> set (places c ps) \<Longrightarrow> \<exists>p \<in> set ps. i \<in> set (place c p)"
  by (auto simp: places_def)

lemma place_inv:
  "2 \<in> set (place c p) \<Longrightarrow> p = NMap c" "3 \<in> set (place c p) \<Longrightarrow> p = NAwait c" "4 \<in> set (place c p) \<Longrightarrow> p = NConn c"
  "5 \<in> set (place c p) \<Longrightarrow> p = NClosed c" "6 \<in> set (place c p) \<Longrightarrow> p = NHijacked c"
  by (cases p; simp split: if_splits)+

lemma thread_place: "p \<in> set ps \<Longrightarrow> i \<in> set (place c p) \<Longrightarrow> i \<in> set (places c ps)"
  by (auto simp: places_def)

lemma one_serving:
  assumes "length (filter serving ps) \<le> 1" and "p \<in> set ps" and "q \<in> set ps" and "serving p" and "serving q"
  shows "p = q"
proof -
  have "p \<in> set (filter serving ps)" "q \<in> set (filter serving ps)" using assms by auto
  with assms(1) show ?thesis by (metis single_place singletonD list.set(1) list.set(2))
qed

text \<open>
  C14. The connections of an HTTP server. A channel is in \<open>chMap\<close> only while its connection is being
  handed over, is served, or is about to be reported closed or hijacked, and a served connection is in it
  unless a close ran out of time; a channel waits for the accept loop only while its \<open>ConnContext\<close> does,
  at most one waits, and so the hand-over never finds \<open>newChChan\<close> full.
\<close>

theorem http_connections:
  assumes "promise F" and "hreach F cap h ps"
  shows "(\<forall>c \<in> set (chMap h). \<exists>p \<in> {NAwait c, NConn c, NClosed c, NHijacked c}. p \<in> set ps)
    \<and> (\<forall>c. NConn c \<in> set ps \<longrightarrow> c \<in> set (chMap h) \<or> hs_forced h)
    \<and> (\<forall>c. c \<in> set (hs_tracked h) \<longleftrightarrow> NConn c \<in> set ps)
    \<and> (\<forall>c \<in> set (newChChan h). NMap c \<in> set ps \<or> NAwait c \<in> set ps)
    \<and> length (newChChan h) \<le> 1 \<and> (\<forall>c. NSend c \<in> set ps \<longrightarrow> newChChan h = [])"
proof -
  from promise.hreach_hinv [OF assms] have inv: "hinv F h ps" .
  then have one: "length (filter serving ps) \<le> 1" and d: "distinct (newChChan h)" by (simp_all add: hinv_def)
  define x where "x = (\<lambda>c. places c ps)"
  have len: "length (x c) \<le> 1" and wait: "c \<in> set (newChChan h) \<Longrightarrow> x c = [2] \<or> x c = [3]"
    and map: "c \<in> set (chMap h) \<Longrightarrow> x c \<in> {[3], [4], [5], [6]}"
    and kept: "x c = [4] \<Longrightarrow> c \<in> set (chMap h) \<or> hs_forced h"
    and track: "c \<in> set (hs_tracked h) \<longleftrightarrow> x c = [4]" for c
  proof -
    from inv have "cinv (hs_forced h) (cview F h c) (x c) (taken_in c ps)" by (simp add: hinv_def x_def)
    then show "length (x c) \<le> 1" "c \<in> set (newChChan h) \<Longrightarrow> x c = [2] \<or> x c = [3]"
      "c \<in> set (chMap h) \<Longrightarrow> x c \<in> {[3], [4], [5], [6]}" "x c = [4] \<Longrightarrow> c \<in> set (chMap h) \<or> hs_forced h"
      "c \<in> set (hs_tracked h) \<longleftrightarrow> x c = [4]"
      unfolding cinv_def by (simp_all add: cview_def)
  qed
  have at: "\<exists>p \<in> set ps. i \<in> set (place c p)" if "x c = [i]" for c i
    using place_thread [of i c ps] that by (simp add: x_def)
  have th: "x c = [i]" if "p \<in> set ps" "i \<in> set (place c p)" for c i p
    using single_place [OF thread_place [OF that]] len [of c] by (simp add: x_def)
  have at: "x c = [2] \<Longrightarrow> NMap c \<in> set ps" "x c = [3] \<Longrightarrow> NAwait c \<in> set ps" "x c = [4] \<Longrightarrow> NConn c \<in> set ps"
    "x c = [5] \<Longrightarrow> NClosed c \<in> set ps" "x c = [6] \<Longrightarrow> NHijacked c \<in> set ps" for c
    by (drule at, elim bexE, drule place_inv, simp)+
  have q: "NMap c \<in> set ps \<or> NAwait c \<in> set ps" if "c \<in> set (newChChan h)" for c
    using wait [OF that] at(1,2) [of c] by blast
  have same: "a = b" if "a \<in> set (newChChan h)" "b \<in> set (newChChan h)" for a b
    using q [OF that(1)] q [OF that(2)] one_serving [OF one] by fastforce
  have "length (newChChan h) \<le> 1"
  proof (cases "newChChan h")
    case (Cons a as)
    with same [of a] d show ?thesis by (cases as) auto
  qed simp
  moreover have "newChChan h = []" if "NSend c \<in> set ps" for c
  proof (rule ccontr)
    assume "newChChan h \<noteq> []"
    then obtain b where "b \<in> set (newChChan h)" by (cases "newChChan h") auto
    from q [OF this] one_serving [OF one that] show False by fastforce
  qed
  moreover have "\<exists>p \<in> {NAwait c, NConn c, NClosed c, NHijacked c}. p \<in> set ps" if "c \<in> set (chMap h)" for c
  proof -
    from map [OF that] consider "x c = [3]" | "x c = [4]" | "x c = [5]" | "x c = [6]" by blast
    then show ?thesis by cases (simp_all add: at)
  qed
  moreover have conn: "x c = [4] \<longleftrightarrow> NConn c \<in> set ps" for c
    using at(3) [of c] th [of "NConn c" 4 c] by (intro iffI) simp_all
  ultimately show ?thesis using kept track q
    by (intro conjI ballI allI impI) (simp_all add: conn)
qed

section \<open>Concrete runs\<close>

text \<open>A schedule: which thread steps next, and with which outcome.\<close>

fun hfollow :: "'f promise_ops \<Rightarrow> nat \<Rightarrow> (nat \<times> bool) list \<Rightarrow> 'f http_server \<times> hpc list \<Rightarrow> ('f http_server \<times> hpc list) option" where
  "hfollow F cap [] c = Some c"
| "hfollow F cap ((i, ok) # is) (h, ps) =
     (if i < length ps then (case hthread F cap ok (ps ! i) h of
          Some (p', h', new) \<Rightarrow> hfollow F cap is (h', ps[i := p'] @ new)
        | None \<Rightarrow> None)
      else None)"

lemma hfollow_run: "hfollow F cap is c = Some c' \<Longrightarrow> (hrun F cap)\<^sup>*\<^sup>* c c'"
proof (induction F cap "is" c rule: hfollow.induct)
  case (2 F cap i ok "is" h ps)
  then obtain p' h' new where i: "i < length ps" "hthread F cap ok (ps ! i) h = Some (p', h', new)"
      "hfollow F cap is (h', ps[i := p'] @ new) = Some c'" by (auto split: if_splits option.splits)
  from hrun.intros [OF i(2), of "take i ps" "drop (Suc i) ps"] i(1)
  have "hrun F cap (h, ps) (h', ps[i := p'] @ new)"
    by (simp add: id_take_nth_drop [symmetric] upd_conv_take_nth_drop)
  from this 2(1) [OF i(1,2) refl refl i(3)] show ?case by (rule converse_rtranclp_into_rtranclp)
qed simp

lemma hreach_step: "hreach F cap h ps \<Longrightarrow> hstep F cap (h, ps) (h', ps') \<Longrightarrow> hreach F cap h' ps'"
  unfolding hreach_def by (rule rtranclp.rtrancl_into_rtrancl)

lemma hfollow_reach:
  assumes "hreach F cap h ps" and "hfollow F cap is (h, ps) = Some (h', ps')"
  shows "hreach F cap h' ps'"
proof -
  from hfollow_run [OF assms(2)] have "(hstep F cap)\<^sup>*\<^sup>* (h, ps) (h', ps')"
    by (metis hstep.thread mono_rtranclp)
  with assms(1) show ?thesis unfolding hreach_def by (rule rtranclp_trans)
qed

lemma hreach_start: "hreach F cap new_http [HBind]"
  by (simp add: hreach_def)

lemmas http_steps = hthread_def lift_thread_def http_UnsafeAccept_def http_UnsafeBind_def upd_base_def server_defs

text \<open>A bound server, with \<open>ListenAndServe\<close> and the accept loop waiting.\<close>

definition http_bound :: "(string + unit) option http_server" where
  "http_bound = new_http\<lparr>hs_base := bound, hs_open := True\<rparr>"

lemma http_bound_reach: "hreach option_promise 4 http_bound [Srv SEnded, NAccept, Srv AAccept]"
proof -
  have "hfollow option_promise 4 [(0, True), (0, True), (0, True), (0, True), (1, True), (2, True)] (new_http, [HBind])
      = Some (http_bound, [Srv SEnded, NAccept, Srv AAccept])"
    by (simp add: http_steps http_bound_def new_http_def bound_def new_server_def)
  with hreach_start show ?thesis by (rule hfollow_reach)
qed

text \<open>A connection handed over, accepted and served.\<close>

definition http_visited :: "(string + unit) option http_server" where
  "http_visited = upd_base (\<lambda>s. s\<lparr>v_incoming := [True]\<rparr>) http_bound"

lemma http_visited_reach: "hreach option_promise 4 http_visited [Srv SEnded, NAccept, Srv AAccept]"
  using hreach_step [OF http_bound_reach hstep.connect [of option_promise 4 http_bound _ True]]
  by (simp add: http_visited_def http_bound_def bound_def new_server_def upd_base_def)

theorem http_connections_witness:
  "\<exists>h ps. hreach option_promise 4 h ps \<and> NConn 0 \<in> set ps \<and> 0 \<in> set (chMap h)"
proof -
  obtain h where f: "hfollow option_promise 4 (map (\<lambda>i. (i, True)) [1, 1, 1, 1, 2, 2, 3, 3, 3, 3, 1])
      (http_visited, [Srv SEnded, NAccept, Srv AAccept])
      = Some (h, [Srv SEnded, NAccept, Srv ALoop, Srv SEnded, Srv (KTimer 0), NConn 0])"
    and nf: "\<not> hs_forced h"
    by (simp add: http_steps http_visited_def http_bound_def new_http_def bound_def new_server_def option_promise_def)
  have r: "hreach option_promise 4 h [Srv SEnded, NAccept, Srv ALoop, Srv SEnded, Srv (KTimer 0), NConn 0]"
    by (rule hfollow_reach [OF http_visited_reach f])
  from http_connections [OF op.promise_axioms r] nf have "0 \<in> set (chMap h)" by auto
  with r show ?thesis by (intro exI conjI) (assumption, simp_all)
qed

text \<open>
  Bind succeeds before the listener is open, and what \<open>ListenAndServe\<close> answers is thrown away: with the
  address in use the server is active, its Active event fired, the accept loop waiting, and nothing
  listens or ever will.
\<close>

theorem http_bind_unheard:
  "\<exists>h. hreach option_promise cap h [Srv SEnded, Srv SEnded, Srv AAccept] \<and> v_listening (hs_base h)
    \<and> SvActive \<in> set (v_events (hs_base h)) \<and> \<not> hs_open h"
proof -
  obtain h where "hfollow option_promise cap [(0, True), (0, True), (0, True), (0, True), (1, False), (2, True)] (new_http, [HBind])
      = Some (h, [Srv SEnded, Srv SEnded, Srv AAccept])"
    "v_listening (hs_base h)" "SvActive \<in> set (v_events (hs_base h))" "\<not> hs_open h"
    by (simp add: http_steps new_http_def new_server_def)
  with hfollow_reach [OF hreach_start] show ?thesis by blast
qed

text \<open>
  A server that was closed in good order leaves its accept loop behind: it waits for a channel from
  \<open>newChChan\<close>, which nobody will send and nobody closes.
\<close>

theorem accept_loop_left:
  "\<exists>h. hreach option_promise 4 h [Srv SEnded, Srv SEnded, Srv AAccept, Srv SEnded, Srv SEnded, Srv SEnded]
    \<and> v_closed (hs_base h) \<and> \<not> v_listening (hs_base h) \<and> \<not> hs_open h
    \<and> hthread option_promise 4 ok (Srv AAccept) h = None"
proof -
  have r: "hreach option_promise 4 http_bound ([Srv SEnded, NAccept, Srv AAccept] @ [Srv CInact])"
    by (rule hreach_step [OF http_bound_reach hstep.close]) (simp add: http_bound_def bound_def new_server_def)
  obtain h where f: "hfollow option_promise 4 (map (\<lambda>i. (i, True)) [3, 4, 4, 5, 5, 5, 5, 5, 3, 3, 3, 3, 3, 3, 1])
      (http_bound, [Srv SEnded, NAccept, Srv AAccept] @ [Srv CInact])
      = Some (h, [Srv SEnded, Srv SEnded, Srv AAccept, Srv SEnded, Srv SEnded, Srv SEnded])"
    and "v_closed (hs_base h)" "\<not> v_listening (hs_base h)" "\<not> hs_open h" "newChChan h = []"
    by (simp add: http_steps http_bound_def new_http_def bound_def new_server_def)
  with hfollow_reach [OF r f] show ?thesis by (intro exI [of _ h]) (simp add: hthread_def http_UnsafeAccept_def)
qed

text \<open>
  A connection that arrives while the server is being closed can be stranded: \<open>ConnContext\<close> puts its
  channel into \<open>newChChan\<close> after the accept loop has gone, and waits without end for an acceptance whose
  timer was never started. The peer's connection stays open and unanswered.
\<close>

theorem connection_stranded:
  "\<exists>h ps. hreach option_promise 4 h ps \<and> v_closed (hs_base h) \<and> NAwait 1 \<in> set ps \<and> newChChan h = [1]
    \<and> (\<forall>p \<in> set ps. p = Srv SEnded \<or> p = NAwait 1) \<and> hthread option_promise 4 ok (NAwait 1) h = None"
proof -
  obtain h where f: "hfollow option_promise 4 (map (\<lambda>i. (i, True)) [1, 1, 1, 1, 2, 2, 3, 3, 3, 3, 1])
      (http_visited, [Srv SEnded, NAccept, Srv AAccept])
      = Some (h, [Srv SEnded, NAccept, Srv ALoop, Srv SEnded, Srv (KTimer 0), NConn 0])"
    and o: "\<not> v_closed (hs_base h)"
    and g: "\<exists>h'. hfollow option_promise 4 (map (\<lambda>i. (i, True))
        [1, 6, 7, 7, 7, 7, 9, 9, 9, 9, 8, 8, 8, 8, 8, 5, 5, 5, 6, 6, 6, 6, 6, 6, 2, 1, 1, 1, 4])
      (upd_base (\<lambda>s. s\<lparr>v_incoming := v_incoming s @ [True]\<rparr>) h,
        [Srv SEnded, NAccept, Srv ALoop, Srv SEnded, Srv (KTimer 0), NConn 0] @ [Srv CInact])
      = Some (h', [Srv SEnded, NAwait 1, Srv SEnded, Srv SEnded, Srv SEnded, Srv SEnded, Srv SEnded, Srv SEnded, Srv SEnded, Srv SEnded])
      \<and> v_closed (hs_base h') \<and> newChChan h' = [1] \<and> hthread option_promise 4 ok (NAwait 1) h' = None"
    by (simp add: http_steps http_visited_def http_bound_def new_http_def bound_def new_server_def option_promise_def)
  have r: "hreach option_promise 4 h [Srv SEnded, NAccept, Srv ALoop, Srv SEnded, Srv (KTimer 0), NConn 0]"
    by (rule hfollow_reach [OF http_visited_reach f])
  have r2: "hreach option_promise 4 (upd_base (\<lambda>s. s\<lparr>v_incoming := v_incoming s @ [True]\<rparr>) h)
      ([Srv SEnded, NAccept, Srv ALoop, Srv SEnded, Srv (KTimer 0), NConn 0] @ [Srv CInact])"
    by (rule hreach_step [OF hreach_step [OF r hstep.connect] hstep.close]) (simp add: upd_base_def o)
  from g obtain h' where f2: "hfollow option_promise 4 (map (\<lambda>i. (i, True))
        [1, 6, 7, 7, 7, 7, 9, 9, 9, 9, 8, 8, 8, 8, 8, 5, 5, 5, 6, 6, 6, 6, 6, 6, 2, 1, 1, 1, 4])
      (upd_base (\<lambda>s. s\<lparr>v_incoming := v_incoming s @ [True]\<rparr>) h,
        [Srv SEnded, NAccept, Srv ALoop, Srv SEnded, Srv (KTimer 0), NConn 0] @ [Srv CInact])
      = Some (h', [Srv SEnded, NAwait 1, Srv SEnded, Srv SEnded, Srv SEnded, Srv SEnded, Srv SEnded, Srv SEnded, Srv SEnded, Srv SEnded])"
    and h': "v_closed (hs_base h')" "newChChan h' = [1]" "hthread option_promise 4 ok (NAwait 1) h' = None" by blast
  from hfollow_reach [OF r2 f2] h' show ?thesis by (intro exI [of _ h'] exI conjI) (assumption, simp_all)
qed

end
