(* ===== verification/Ghttp_SimplePaths.thy ===== *)
theory Ghttp_SimplePaths
  imports Ghttp_SimpleRoute "HOL-Library.List_Lexorder" "HOL-Library.Char_ord"
begin

text \<open>
  How the path-pattern router prints itself (\<open>path\<close>, \<open>traverse\<close> and \<open>String\<close> of
  \<open>ghttp/simpleroute.go\<close>): the path of a node is built from the node up to the root, the listing walks
  the tree from the root down. The lemmas show that the two agree: on every tree the registrations build,
  the walk up and the walk down end, and the listing has exactly one path for each endpoint, sorted.
\<close>

section \<open>The path of a node\<close>

fun path_seg :: "route_type \<Rightarrow> string \<Rightarrow> string \<Rightarrow> string" where
  "path_seg RouteTypeRootEndPoint name rtn = ''/'' @ rtn"
| "path_seg RouteTypeEndPoint name rtn = name @ ''/:'' @ name @ ''/'' @ rtn"
| "path_seg RouteTypeRecursiveEndPoint name rtn = name @ ''/'' @ rtn @ ''*''"
| "path_seg RouteTypeGroup name rtn = name @ ''/'' @ rtn"

text \<open>The loop follows the parents: it would not return on a cycle.\<close>

partial_function (option) path_loop :: "('h, 'a) routes \<Rightarrow> node_ref \<Rightarrow> string \<Rightarrow> string option" where
  "path_loop rs current rtn = (case nodes rs current of
       None \<Rightarrow> None
     | Some n \<Rightarrow> (let rtn' = path_seg (n_type n) (n_name n) rtn in
         (case n_parent n of
            None \<Rightarrow> Some rtn'
          | Some p \<Rightarrow> path_loop rs p rtn')))"

definition node_path :: "('h, 'a) routes \<Rightarrow> node_ref \<Rightarrow> string option" where
  "node_path rs r = (case nodes rs r of
       None \<Rightarrow> None
     | Some n \<Rightarrow> if n_type n = RouteTypeRootEndPoint then Some ''/''
         else map_option (\<lambda>rtn. TrimRight rtn (CHR ''/'')) (path_loop rs r []))"

section \<open>The listing\<close>

text \<open>
  The nodes of \<open>Resources()\<close>, which Go visits in any order; the set they are collected in does not
  depend on it. Each is kept under its own name (\<open>resources_of_set\<close>).
\<close>

definition resources_of :: "('h, 'a) routes \<Rightarrow> ('h, 'a) node \<Rightarrow> node_ref list" where
  "resources_of rs n = filter (\<lambda>c. n_resources n (name_of rs c) = Some c) [0..<n_fresh rs]"

text \<open>
  The keys of the result map, every value of which is 1. The fuel bounds the depth: children come after
  their parent, so the number of nodes is enough (\<open>traverse_collects\<close>).
\<close>

fun traverse :: "nat \<Rightarrow> ('h, 'a) routes \<Rightarrow> node_ref \<Rightarrow> string set \<Rightarrow> string set option" where
  "traverse 0 rs r result = None"
| "traverse (Suc k) rs r result = (case nodes rs r of
       None \<Rightarrow> None
     | Some n \<Rightarrow>
         Option.bind (fold (\<lambda>c acc. Option.bind acc (traverse k rs c)) (resources_of rs n) (Some result))
           (\<lambda>result'. if n_type n = RouteTypeGroup then Some result'
              else map_option (\<lambda>p. insert p result') (node_path rs r)))"

definition route_String :: "(string list \<Rightarrow> string) \<Rightarrow> ('h, 'a) simple_route \<Rightarrow> string option" where
  "route_String marshal sr =
     map_option (\<lambda>paths. marshal (sorted_list_of_set paths))
       (traverse (n_fresh (s_routes sr)) (s_routes sr) (s_root sr) {})"

section \<open>Up and down agree\<close>

text \<open>What a walk down from a node adds to a path.\<close>

fun trail :: "('h, 'a) routes \<Rightarrow> node_ref \<Rightarrow> string list \<Rightarrow> string" where
  "trail rs cur [] = []"
| "trail rs cur (s # ss) = (case Option.bind (nodes rs cur) (\<lambda>n. n_resources n s) of
       None \<Rightarrow> []
     | Some c \<Rightarrow> (case nodes rs c of
           None \<Rightarrow> []
         | Some m \<Rightarrow> path_seg (n_type m) s (trail rs c ss)))"

lemma walk_node:
  "wf_tree rs \<Longrightarrow> nodes rs cur \<noteq> None \<Longrightarrow> walk rs cur ws = Some q \<Longrightarrow> nodes rs q \<noteq> None \<and> cur \<le> q"
proof (induction ws arbitrary: cur)
  case (Cons s ss)
  then obtain n c where n: "nodes rs cur = Some n" "n_resources n s = Some c" "walk rs c ss = Some q"
    by (auto split: option.splits bind_splits)
  from wf_child [OF Cons.prems(1) n(1,2)] Cons.IH [OF Cons.prems(1) _ n(3)] show ?case by fastforce
qed simp

lemma path_loop_walk:
  assumes "wf_tree rs" and "nodes rs cur \<noteq> None" and "walk rs cur ws = Some r"
  shows "path_loop rs r [] = path_loop rs cur (trail rs cur ws)"
  using assms
proof (induction ws arbitrary: cur)
  case (Cons s ss)
  then obtain n c where n: "nodes rs cur = Some n" "n_resources n s = Some c" "walk rs c ss = Some r"
    by (auto split: option.splits bind_splits)
  from wf_child [OF Cons.prems(1) n(1,2)] obtain m where
    m: "nodes rs c = Some m" "n_name m = s" "n_parent m = Some cur" by blast
  have "path_loop rs r [] = path_loop rs c (trail rs c ss)"
    using Cons.IH [OF Cons.prems(1) _ n(3)] m(1) n(3) by auto
  also have "\<dots> = path_loop rs cur (trail rs cur (s # ss))"
    by (subst path_loop.simps) (simp add: m n Let_def)
  finally show ?case by simp
qed simp

lemma path_loop_root:
  assumes "wf_tree rs" and "nodes rs 0 = Some n"
  shows "path_loop rs 0 rtn = Some (path_seg (n_type n) [] rtn)"
proof -
  from assms have "n_name n = []" "n_parent n = None"
    using wf_treeD [OF assms] by (auto simp: wf_tree_def wf_node_def)
  then show ?thesis by (subst path_loop.simps) (simp add: assms(2) Let_def)
qed

definition described :: "('h, 'a) routes \<Rightarrow> string list \<Rightarrow> ('h, 'a) node \<Rightarrow> string" where
  "described rs ws n = (if n_type n = RouteTypeRootEndPoint then ''/''
     else TrimRight (path_seg (n_type (the (nodes rs 0))) [] (trail rs 0 ws)) (CHR ''/''))"

lemma node_path_walk:
  assumes "wf_tree rs" and "walk rs 0 ws = Some r" and "nodes rs r = Some n"
  shows "node_path rs r = Some (described rs ws n)"
proof -
  from assms(1) obtain n0 where n0: "nodes rs 0 = Some n0" by (auto simp: wf_tree_def)
  have "path_loop rs r [] = path_loop rs 0 (trail rs 0 ws)"
    using path_loop_walk [OF assms(1) _ assms(2)] n0 assms(2) by auto
  with path_loop_root [OF assms(1) n0] assms(3) show ?thesis
    by (simp only: node_path_def described_def n0 option.simps option.sel split: if_split) simp
qed

lemma resources_of_set:
  assumes "wf_tree rs" and "nodes rs r = Some n"
  shows "set (resources_of rs n) = ran (n_resources n)"
proof -
  have "n_resources n (name_of rs c) = Some c \<and> c < n_fresh rs" if c: "n_resources n s = Some c" for s c
  proof -
    from wf_child [OF assms c] obtain m where m: "nodes rs c = Some m" "n_name m = s" by blast
    then show ?thesis using wf_treeD [OF assms(1) m(1)] c by (simp add: name_of_def wf_node_def)
  qed
  then show ?thesis by (auto simp: resources_of_def ran_def)
qed

text \<open>The paths of the endpoints under a node.\<close>

definition listed :: "('h, 'a) routes \<Rightarrow> node_ref \<Rightarrow> string set" where
  "listed rs r = {p. \<exists>ws q n. walk rs r ws = Some q \<and> nodes rs q = Some n \<and> n_type n \<noteq> RouteTypeGroup
     \<and> node_path rs q = Some p}"

lemma listed_step:
  assumes n: "nodes rs r = Some n"
  shows "listed rs r = (\<Union>c\<in>ran (n_resources n). listed rs c)
    \<union> (if n_type n = RouteTypeGroup then {} else {p. node_path rs r = Some p})" (is "_ = ?down \<union> ?here")
proof
  show "listed rs r \<subseteq> ?down \<union> ?here"
  proof
    fix p assume "p \<in> listed rs r"
    then obtain ws q m where q: "walk rs r ws = Some q" "nodes rs q = Some m" "n_type m \<noteq> RouteTypeGroup"
        "node_path rs q = Some p"
      by (auto simp: listed_def)
    then show "p \<in> ?down \<union> ?here"
    proof (cases ws)
      case Nil
      with q n show ?thesis by auto
    next
      case (Cons s ss)
      with q(1) n obtain c where "n_resources n s = Some c" "walk rs c ss = Some q"
        by (auto split: option.splits)
      with q(2-4) show ?thesis by (auto simp: listed_def ran_def)
    qed
  qed
  have "p \<in> listed rs r" if "n_resources n s = Some c" "p \<in> listed rs c" for p s c
  proof -
    from that(2) obtain ws q m where "walk rs c ws = Some q" "nodes rs q = Some m"
        "n_type m \<noteq> RouteTypeGroup" "node_path rs q = Some p"
      by (auto simp: listed_def)
    with that(1) n show ?thesis
      unfolding listed_def by (intro CollectI exI [of _ "s # ws"] exI [of _ q] exI [of _ m]) simp
  qed
  moreover have "p \<in> listed rs r" if "n_type n \<noteq> RouteTypeGroup" "node_path rs r = Some p" for p
    using that n unfolding listed_def by (intro CollectI exI [of _ "[]"] exI [of _ r] exI [of _ n]) simp
  ultimately show "?down \<union> ?here \<subseteq> listed rs r" by (auto simp: ran_def)
qed

lemma fold_traverse:
  assumes "\<And>c S. c \<in> set cs \<Longrightarrow> traverse k rs c S = Some (S \<union> listed rs c)"
  shows "fold (\<lambda>c acc. Option.bind acc (traverse k rs c)) cs (Some S) = Some (S \<union> (\<Union>c\<in>set cs. listed rs c))"
  using assms by (induction cs arbitrary: S) (simp_all add: Un_assoc)

lemma traverse_collects:
  assumes "wf_tree rs" and "walk rs 0 vs = Some r" and "nodes rs r = Some n" and "n_fresh rs \<le> r + k"
  shows "traverse k rs r S = Some (S \<union> listed rs r)"
  using assms(2-4)
proof (induction k arbitrary: vs r n S)
  case 0
  then show ?case using wf_treeD [OF assms(1)] by (force simp: wf_node_def)
next
  case (Suc k)
  have kid: "traverse k rs c S' = Some (S' \<union> listed rs c)" if c: "c \<in> ran (n_resources n)" for c S'
  proof -
    from c obtain s where s: "n_resources n s = Some c" by (auto simp: ran_def)
    from wf_child [OF assms(1) Suc.prems(2) s] obtain m where m: "nodes rs c = Some m" "r < c" by blast
    have "walk rs 0 (vs @ [s]) = Some c" using Suc.prems(1,2) s by (simp add: walk_append)
    from Suc.IH [OF this m(1)] m(2) Suc.prems(3) show ?thesis by simp
  qed
  have "fold (\<lambda>c acc. Option.bind acc (traverse k rs c)) (resources_of rs n) (Some S)
      = Some (S \<union> (\<Union>c\<in>ran (n_resources n). listed rs c))"
    using fold_traverse [of "resources_of rs n" k rs S] kid resources_of_set [OF assms(1) Suc.prems(2)] by simp
  moreover have "node_path rs r = Some (described rs vs n)"
    by (rule node_path_walk [OF assms(1) Suc.prems(1,2)])
  ultimately show ?case
    using Suc.prems(2) by (simp add: listed_step [OF Suc.prems(2)] Un_ac)
qed

text \<open>
  The listing of a router: it ends on every tree the registrations build, and has one path for each
  endpoint, the description of the names that lead to it, in order and without repetition.
\<close>

theorem routes_listed:
  assumes "wf_simple sr"
  shows "\<exists>ps. route_String marshal sr = Some (marshal ps) \<and> sorted ps \<and> distinct ps
    \<and> set ps = {described (s_routes sr) ws n | ws q n. walk (s_routes sr) 0 ws = Some q
         \<and> nodes (s_routes sr) q = Some n \<and> n_type n \<noteq> RouteTypeGroup}"
proof -
  let ?rs = "s_routes sr"
  from assms have wf: "wf_tree ?rs" and root: "s_root sr = 0" by (auto simp: wf_simple_def)
  then obtain n0 where n0: "nodes ?rs 0 = Some n0" by (auto simp: wf_tree_def)
  have "traverse (n_fresh ?rs) ?rs 0 {} = Some (listed ?rs 0)"
    using traverse_collects [OF wf _ n0, of "[]" "n_fresh ?rs" "{}"] by simp
  then have out: "route_String marshal sr = Some (marshal (sorted_list_of_set (listed ?rs 0)))"
    by (simp add: route_String_def root)
  have "listed ?rs 0 \<subseteq> (\<lambda>q. the (node_path ?rs q)) ` {..<n_fresh ?rs}"
    using wf_treeD [OF wf] by (force simp: listed_def wf_node_def)
  then have fin: "finite (listed ?rs 0)" by (rule finite_surj [rotated]) simp
  have desc: "listed ?rs 0 = {described ?rs ws n | ws q n. walk ?rs 0 ws = Some q
         \<and> nodes ?rs q = Some n \<and> n_type n \<noteq> RouteTypeGroup}"
    using node_path_walk [OF wf] unfolding listed_def by (metis (lifting) option.inject)
  show ?thesis
    using out fin desc by (intro exI [of _ "sorted_list_of_set (listed ?rs 0)"]) simp
qed


theorem routes_listed_witness:
  "\<exists>ps. route_String concat (SetEndpoint ''a/b'' (Some ''H'') [''acc''] NewSimpleRoute) = Some (concat ps)
    \<and> sorted ps \<and> distinct ps"
proof -
  have "wf_simple (SetEndpoint ''a/b'' (Some ''H'') [''acc''] NewSimpleRoute)"
    using simple_route_stays_wf [of NewSimpleRoute] by blast
  from routes_listed [OF this, of concat] show ?thesis by blast
qed

section \<open>Paths that are not the pattern\<close>

text \<open>
  A wildcard is a node named \<open>*\<close> of the recursive type, for which \<open>path\<close> adds a star of its own, so
  the pattern \<open>/static/*\<close> is listed as \<open>/static/*/*\<close>. A parameter right under the root makes the root an
  ordinary endpoint without a name, and is listed as \<open>/:\<close>.
\<close>

theorem wildcard_listed_twice:
  "node_path (s_routes (SetEndpoint ''/static/*'' (Some ''H'') [''acc''] NewSimpleRoute)) 2 = Some ''/static/*/*''"
  by (simp add: SetEndpoint_def Let_def trim_path_def TrimLeft_def TrimRight_def NewSimpleRoute_def
      extractParamName_def HasPrefix_def HasSuffix_def grow_def new_node_def upd_node_def no_mapping_def
      node_path_def path_loop.simps)

theorem root_parameter_listed:
  "node_path (s_routes (SetEndpoint ''/{id}'' (Some ''H'') [''acc''] NewSimpleRoute)) 0 = Some ''/:''"
  by (simp add: SetEndpoint_def Let_def trim_path_def TrimLeft_def TrimRight_def NewSimpleRoute_def
      extractParamName_def HasPrefix_def HasSuffix_def TrimPrefix_def TrimSuffix_def upd_node_def no_mapping_def
      note_param_def name_of_def node_path_def path_loop.simps)

end
