(* ===== verification/Ghttp_SessionProviders.thy ===== *)
theory Ghttp_SessionProviders
  imports Ghttp_Session
begin

text \<open>
  The registry of session providers (\<open>RegisterSessionProvider\<close> and \<open>SessionProvider\<close> of
  \<open>ghttp/httpsessionservice.go\<close>) and the JSON form of a session (\<open>ghttp/httpsession/session.go\<close>). A
  provider is any value with a type, the \<open>ty\<close> of the definitions. The lemmas show that the default
  provider is never nil and chosen for good by the first request, and which registrations it can not be.
\<close>

section \<open>The registry\<close>

record 'p providers =
  sessionProviders :: "string \<rightharpoonup> 'p"
  defaultSessionProvider :: "'p option"
  sessionProviderOnce :: bool

definition no_providers :: "'p providers" where
  "no_providers = \<lparr>sessionProviders = Map.empty, defaultSessionProvider = None, sessionProviderOnce = False\<rparr>"

definition SessionTypeMemory :: string where
  "SessionTypeMemory = ''MEMORY''"

definition RegisterSessionProvider :: "('p \<Rightarrow> string) \<Rightarrow> 'p option \<Rightarrow> 'p providers \<Rightarrow> 'p providers" where
  "RegisterSessionProvider ty provider st = (case provider of
       None \<Rightarrow> st
     | Some p \<Rightarrow> st\<lparr>sessionProviders := (sessionProviders st)(ty p \<mapsto> p)\<rparr>)"

text \<open>
  \<open>mem\<close> is the provider \<open>memory.NewSessionProvider()\<close> makes, \<open>default_type\<close> the value of
  \<open>DefaultSessionType\<close> at the call.
\<close>

definition SessionProvider ::
  "('p \<Rightarrow> string) \<Rightarrow> 'p \<Rightarrow> string \<Rightarrow> 'p providers \<Rightarrow> 'p option \<times> 'p providers" where
  "SessionProvider ty mem default_type st =
     (let st' = (if sessionProviderOnce st then st
        else let ps = (sessionProviders st)(ty mem \<mapsto> mem);
                 d = (case ps default_type of Some p \<Rightarrow> Some p | None \<Rightarrow> ps SessionTypeMemory)
             in st\<lparr>sessionProviders := ps, defaultSessionProvider := d, sessionProviderOnce := True\<rparr>)
      in (defaultSessionProvider st', st'))"

text \<open>The life of the registry: registrations and uses in any order, the default type set in between.\<close>

inductive registry_step :: "('p \<Rightarrow> string) \<Rightarrow> 'p providers \<Rightarrow> 'p providers \<Rightarrow> bool" for ty where
  register: "registry_step ty st (RegisterSessionProvider ty p st)"
| provide: "ty mem = SessionTypeMemory \<Longrightarrow> registry_step ty st (snd (SessionProvider ty mem default_type st))"

text \<open>What holds of the registry at any time: the default is there as soon as it was asked for.\<close>

definition registry_inv :: "('p \<Rightarrow> string) \<Rightarrow> 'p providers \<Rightarrow> bool" where
  "registry_inv ty st \<longleftrightarrow> (sessionProviderOnce st \<longleftrightarrow> defaultSessionProvider st \<noteq> None)
     \<and> (\<forall>t p. sessionProviders st t = Some p \<longrightarrow> ty p = t)"

lemma default_found:
  assumes "ty mem = SessionTypeMemory"
  shows "(case ((sessionProviders st)(ty mem \<mapsto> mem)) dt of Some p \<Rightarrow> Some p
     | None \<Rightarrow> ((sessionProviders st)(ty mem \<mapsto> mem)) SessionTypeMemory) \<noteq> None"
  using assms by (simp split: option.split)

lemma registry_inv_chosen:
  assumes "d \<noteq> None" and "\<And>t p. ps t = Some p \<Longrightarrow> ty p = t"
  shows "registry_inv ty (st\<lparr>sessionProviders := ps, defaultSessionProvider := d, sessionProviderOnce := True\<rparr>)"
  using assms by (simp add: registry_inv_def)

lemma registry_step_inv:
  assumes "registry_step ty st st'" and "registry_inv ty st"
  shows "registry_inv ty st'
    \<and> (sessionProviderOnce st \<longrightarrow> defaultSessionProvider st' = defaultSessionProvider st)"
  using assms(1)
proof cases
  case (register p)
  with assms(2) show ?thesis
    by (auto simp: RegisterSessionProvider_def registry_inv_def split: option.splits)
next
  case (provide mem dt)
  show ?thesis
  proof (cases "sessionProviderOnce st")
    case True
    with provide assms(2) show ?thesis by (simp add: SessionProvider_def)
  next
    case False
    let ?ps = "(sessionProviders st)(ty mem \<mapsto> mem)"
    let ?d = "case ?ps dt of Some p \<Rightarrow> Some p | None \<Rightarrow> ?ps SessionTypeMemory"
    have st': "st' = st\<lparr>sessionProviders := ?ps, defaultSessionProvider := ?d, sessionProviderOnce := True\<rparr>"
      unfolding provide(1) SessionProvider_def Let_def using False by (simp only: if_False snd_conv)
    have "ty p = t" if "?ps t = Some p" for t p
      using that assms(2) by (auto simp: registry_inv_def split: if_splits)
    then have "registry_inv ty st'"
      unfolding st' by (rule registry_inv_chosen [OF default_found [of ty mem st dt, OF provide(2)]])
    with False show ?thesis by blast
  qed
qed

text \<open>
  The provider of the first request is the one of every later request, whatever is registered in
  between and whatever the default type is set to by then.
\<close>

theorem default_provider_for_good:
  assumes "(registry_step ty)\<^sup>*\<^sup>* no_providers st" and "ty mem = SessionTypeMemory"
    and "SessionProvider ty mem dt st = (d, st1)" and "(registry_step ty)\<^sup>*\<^sup>* st1 st2"
  shows "d \<noteq> None \<and> fst (SessionProvider ty mem' dt' st2) = d"
proof -
  have inv0: "registry_inv ty st"
    using assms(1) by (induction rule: rtranclp_induct)
      (auto simp: registry_inv_def no_providers_def dest: registry_step_inv)
  have st1: "st1 = snd (SessionProvider ty mem dt st)" using assms(3) by simp
  have "registry_step ty st st1" unfolding st1 using assms(2) by (rule registry_step.provide)
  with inv0 have inv1: "registry_inv ty st1" using registry_step_inv by blast
  have d: "d = defaultSessionProvider st1" "sessionProviderOnce st1"
    using assms(3) by (auto simp: SessionProvider_def Let_def split: if_splits)
  then have some: "d \<noteq> None" using inv1 by (simp add: registry_inv_def)
  have "registry_inv ty st2 \<and> sessionProviderOnce st2 \<and> defaultSessionProvider st2 = d"
    using assms(4)
  proof (induction rule: rtranclp_induct)
    case (step y z)
    then show ?case using registry_step_inv [OF step.hyps(2)] by (auto simp: registry_inv_def)
  qed (use d inv1 in simp)
  with some show ?thesis by (simp add: SessionProvider_def)
qed

text \<open>
  A provider registered under the default type before the first request is the one chosen, unless it
  is of the memory type: that entry is overwritten by the new memory provider of the first request.
\<close>

lemma registered_provider_chosen:
  assumes "\<not> sessionProviderOnce st" and "ty mem = SessionTypeMemory"
  shows "fst (SessionProvider ty mem (ty p) (RegisterSessionProvider ty (Some p) st))
    = Some (if ty p = SessionTypeMemory then mem else p)"
  using assms by (simp add: SessionProvider_def RegisterSessionProvider_def Let_def)

section \<open>The JSON form of a session\<close>

text \<open>
  The anonymous struct of both methods; \<open>json.Marshal\<close> and \<open>json.Unmarshal\<close> of it are parameters.
  \<open>UnmarshalJSON\<close> fills a new struct, so a failure leaves the session as it was, and a field missing
  in the text becomes its zero value.
\<close>

record session_json =
  j_id :: string
  j_created :: int
  j_updated :: int
  j_expired :: int
  j_data :: "string \<rightharpoonup> string"

definition MarshalJSON :: "(session_json \<Rightarrow> string option) \<Rightarrow> session \<Rightarrow> string option" where
  "MarshalJSON marshal d = marshal \<lparr>j_id = s_id d, j_created = s_created d, j_updated = s_updated d,
     j_expired = s_expired d, j_data = s_data d\<rparr>"

definition UnmarshalJSON :: "(string \<Rightarrow> session_json option) \<Rightarrow> string \<Rightarrow> session \<Rightarrow> bool \<times> session" where
  "UnmarshalJSON unmarshal data d = (case unmarshal data of
       None \<Rightarrow> (False, d)
     | Some v \<Rightarrow> (True, d\<lparr>s_id := j_id v, s_created := j_created v, s_updated := j_updated v,
         s_expired := j_expired v, s_data := j_data v\<rparr>))"

text \<open>A session stored as JSON comes back whole, and behaves the same to every reader.\<close>

lemma session_json_roundtrip:
  assumes "\<And>v t. marshal v = Some t \<Longrightarrow> unmarshal t = Some v" and "MarshalJSON marshal d = Some t"
  shows "UnmarshalJSON unmarshal t d' = (True, d)"
  using assms(1) [OF assms(2) [unfolded MarshalJSON_def]] by (simp add: UnmarshalJSON_def)

lemma bad_json_keeps_session: "unmarshal t = None \<Longrightarrow> UnmarshalJSON unmarshal t d = (False, d)"
  by (simp add: UnmarshalJSON_def)

end
