(* ===== verification/Ghttp_TaskHelper.thy ===== *)
theory Ghttp_TaskHelper
  imports Ghttp_Dispatch
begin

text \<open>
  The helpers tasks and acceptances embed: \<open>TaskHelper\<close> (\<open>ghttp/httptaskhelper.go\<close>) and
  \<open>DispatchAcceptance\<close> (\<open>ghttp/acceptance.go\<close>), which read the parameters the dispatcher leaves and add to
  the record of the access log. The lemmas show that \<open>TaskHelper\<close> agrees with the methods of
  \<open>DefaultHandlerTask\<close>, what a task reads after the dispatcher located its node, that entries of the log
  accumulate, and that an acceptance with the default methods changes nothing.
\<close>

section \<open>TaskHelper\<close>

fun as_bool :: "pvalue \<Rightarrow> bool option" where
  "as_bool (PBool b) = Some b"
| "as_bool _ = None"

fun as_node :: "pvalue \<Rightarrow> string option" where
  "as_node (PNode n) = Some n"
| "as_node _ = None"

definition helper_IsIndex :: "dparams \<Rightarrow> bool" where
  "helper_IsIndex ps = (case ps ''[gone-http]is_index'' of
       None \<Rightarrow> False
     | Some v \<Rightarrow> (case as_bool v of Some True \<Rightarrow> True | _ \<Rightarrow> False))"

definition helper_GetNodeName :: "dparams \<Rightarrow> string option" where
  "helper_GetNodeName ps = (case ps ''[gone-http]node_name'' of None \<Rightarrow> Some [] | Some v \<Rightarrow> as_string v)"

text \<open>The node or nil; the outer None is the panic of the type assertion.\<close>

definition helper_GetNode :: "dparams \<Rightarrow> string option option" where
  "helper_GetNode ps = (case ps ''[gone-http]node'' of
       None \<Rightarrow> Some None
     | Some v \<Rightarrow> map_option Some (as_node v))"

definition extend_entry :: "string \<Rightarrow> string \<Rightarrow> pvalue \<Rightarrow> pvalue option" where
  "extend_entry key value rtn = (case rtn of PExtend m \<Rightarrow> Some (PExtend (m(key \<mapsto> value))) | _ \<Rightarrow> None)"

definition helper_LogExtend :: "string \<Rightarrow> string \<Rightarrow> dparams \<Rightarrow> dparams option" where
  "helper_LogExtend key value ps = (case ps ''[gone-http]extend'' of
       None \<Rightarrow> Some (ps(''[gone-http]extend'' \<mapsto> PExtend [key \<mapsto> value]))
     | Some rtn \<Rightarrow> map_option (\<lambda>v. ps(''[gone-http]extend'' \<mapsto> v)) (extend_entry key value rtn))"

section \<open>DispatchAcceptance\<close>

definition acceptance_GetNodeName :: "dparams \<Rightarrow> string option" where
  "acceptance_GetNodeName ps = (case ps ''[gone-http]node_name'' of None \<Rightarrow> Some [] | Some v \<Rightarrow> as_string v)"

definition acceptance_LogExtend :: "string \<Rightarrow> string \<Rightarrow> dparams \<Rightarrow> dparams option" where
  "acceptance_LogExtend key value ps = (case ps ''[gone-http]extend'' of
       None \<Rightarrow> Some (ps(''[gone-http]extend'' \<mapsto> PExtend [key \<mapsto> value]))
     | Some rtn \<Rightarrow> map_option (\<lambda>v. ps(''[gone-http]extend'' \<mapsto> v)) (extend_entry key value rtn))"

definition default_SkipMethodOptions :: bool where
  "default_SkipMethodOptions = False"

definition default_Do :: "('b, 'x) core \<Rightarrow> ('b, 'x) core \<times> acc_result ret" where
  "default_Do c = (c, Return AccPass)"

definition DispatchAcceptance :: "('b, 'x) acceptance" where
  "DispatchAcceptance = \<lparr>a_skipOptions = default_SkipMethodOptions, a_Do = default_Do\<rparr>"

text \<open>A task raises an error response by a panic.\<close>

definition ThrowErrorResponse :: "err_ref \<Rightarrow> ('b, 'x) core \<Rightarrow> ('b, 'x) core \<times> 'r ret" where
  "ThrowErrorResponse e c = (c, Throw (ThrowError e))"

section \<open>What they do\<close>

text \<open>The three copies of the helpers are the same functions, but for \<open>IsIndex\<close> of an acceptance.\<close>

lemma helpers_agree:
  "helper_IsIndex ps = IsIndex ps" "helper_GetNodeName ps = GetNodeName ps"
  "helper_LogExtend key value ps = LogExtend key value ps"
  "acceptance_GetNodeName ps = GetNodeName ps" "acceptance_LogExtend key value ps = LogExtend key value ps"
proof -
  show "helper_IsIndex ps = IsIndex ps"
    by (auto simp: helper_IsIndex_def IsIndex_def split: option.splits bool.splits elim: as_bool.elims)
qed (auto simp: helper_GetNodeName_def GetNodeName_def helper_LogExtend_def LogExtend_def extend_entry_def
    acceptance_GetNodeName_def acceptance_LogExtend_def split: option.splits pvalue.splits)

lemma params_of_locate:
  "c_params (core (locate h n s)) k = (case Option.bind (f_params n) (\<lambda>ps. ps k) of
     Some v \<Rightarrow> Some (PString v)
   | None \<Rightarrow> ((c_params (core s))(
       ''[gone-http]h_locate_time'' \<mapsto> PNanos (d_elapsed h ''[gone-http]h_locate_time''),
       ''[gone-http]node'' \<mapsto> PNode (f_name n), ''[gone-http]node_name'' \<mapsto> PString (f_name n),
       ''[gone-http]is_index'' \<mapsto> PBool (f_last n), ''[gone-http]dispatcher'' \<mapsto> PDispatcher,
       ''[gone-http]context_pack'' \<mapsto> PPack)) k)"
  by (auto simp: locate_def upd_core_def map_add_def split: option.splits)

text \<open>
  What a task reads once the dispatcher located its node, unless a parameter of the route has the
  same key.
\<close>

lemma helpers_after_locate:
  assumes "\<And>ps k. f_params n = Some ps \<Longrightarrow>
      k \<in> {''[gone-http]node'', ''[gone-http]node_name'', ''[gone-http]is_index''} \<Longrightarrow> ps k = None"
  shows "helper_IsIndex (c_params (core (locate h n s))) = f_last n"
    and "helper_GetNodeName (c_params (core (locate h n s))) = Some (f_name n)"
    and "helper_GetNode (c_params (core (locate h n s))) = Some (Some (f_name n))"
proof -
  have none: "Option.bind (f_params n) (\<lambda>ps. ps k) = None"
    if "k \<in> {''[gone-http]node'', ''[gone-http]node_name'', ''[gone-http]is_index''}" for k
    using assms that by (cases "f_params n") auto
  show "helper_IsIndex (c_params (core (locate h n s))) = f_last n"
    by (simp add: helper_IsIndex_def params_of_locate none split: bool.split)
  show "helper_GetNodeName (c_params (core (locate h n s))) = Some (f_name n)"
    by (simp add: helper_GetNodeName_def params_of_locate none)
  show "helper_GetNode (c_params (core (locate h n s))) = Some (Some (f_name n))"
    by (simp add: helper_GetNode_def params_of_locate none)
qed

text \<open>The entries for the log, as far as there are any; later entries replace earlier ones of the key.\<close>

definition extended :: "dparams \<Rightarrow> (string \<rightharpoonup> string) option" where
  "extended ps = (case ps ''[gone-http]extend'' of
       None \<Rightarrow> Some Map.empty | Some (PExtend m) \<Rightarrow> Some m | Some _ \<Rightarrow> None)"

lemma log_entries_accumulate:
  assumes "extended ps = Some m"
  shows "\<exists>ps'. helper_LogExtend key value ps = Some ps' \<and> extended ps' = Some (m(key \<mapsto> value))
    \<and> (\<forall>k. k \<noteq> ''[gone-http]extend'' \<longrightarrow> ps' k = ps k)"
proof (cases "ps ''[gone-http]extend''")
  case None
  with assms have "m = Map.empty" by (simp add: extended_def)
  with None show ?thesis by (simp add: extended_def helper_LogExtend_def)
next
  case (Some v)
  with assms have "v = PExtend m" by (cases v) (simp_all add: extended_def)
  with Some show ?thesis by (simp add: extended_def helper_LogExtend_def extend_entry_def)
qed

text \<open>Acceptances with the default methods are asked, one after the other, and change nothing.\<close>

lemma default_acceptances_pass:
  "run_acceptances h i (replicate k DispatchAcceptance) s
     = (s\<lparr>calls := calls s @ map CallAcceptance [i..<i + k]\<rparr>, Return True)"
proof (induction k arbitrary: i s)
  case (Suc k)
  have "[i..<i + Suc k] = i # [Suc i..<Suc i + k]" by (simp add: upt_rec)
  then show ?case
    using Suc [of "Suc i" "s\<lparr>calls := calls s @ [CallAcceptance i]\<rparr>"]
    by (simp add: DispatchAcceptance_def default_SkipMethodOptions_def default_Do_def call_with_def noting_def)
qed simp

end
