(* ===== verification/Channel_Facade.thy ===== *)
theory Channel_Facade
  imports Channel_Events
begin

text \<open>
  The calls of a channel that go to its pipeline (\<open>channel/channel.go\<close>, with the methods of
  \<open>channel/pipeline.go\<close> they end in): each outbound call makes a future, sends an event with it from the
  tail, and answers the future; \<open>FireRead\<close> and \<open>FireReadCompleted\<close> start at the head. The lemmas show that
  a call reaches the channel's unsafe operation once, with the arguments and the future it answered,
  after the handlers in their order.
\<close>

definition pipeline_NewFuture :: "('h, 's) world \<Rightarrow> fut \<times> ('h, 's) world" where
  "pipeline_NewFuture w = (Some (w_futures w), w\<lparr>w_futures := Suc (w_futures w)\<rparr>)"

definition channel_Bind ::
  "('h, 's, 'm, 'v) program \<Rightarrow> net_addr \<Rightarrow> ('h, 's) world \<Rightarrow> fut \<times> ('h, 's) world run" where
  "channel_Bind P localAddr w = (let (f, w1) = pipeline_NewFuture w in (f, pipeline_fire P (Bind localAddr f) w1))"

definition channel_Close :: "('h, 's, 'm, 'v) program \<Rightarrow> ('h, 's) world \<Rightarrow> fut \<times> ('h, 's) world run" where
  "channel_Close P w = (let (f, w1) = pipeline_NewFuture w in (f, pipeline_fire P (Close f) w1))"

definition channel_Connect ::
  "('h, 's, 'm, 'v) program \<Rightarrow> net_addr \<Rightarrow> net_addr \<Rightarrow> ('h, 's) world \<Rightarrow> fut \<times> ('h, 's) world run" where
  "channel_Connect P localAddr remoteAddr w =
     (let (f, w1) = pipeline_NewFuture w in (f, pipeline_fire P (Connect localAddr remoteAddr f) w1))"

definition channel_Disconnect :: "('h, 's, 'm, 'v) program \<Rightarrow> ('h, 's) world \<Rightarrow> fut \<times> ('h, 's) world run" where
  "channel_Disconnect P w = (let (f, w1) = pipeline_NewFuture w in (f, pipeline_fire P (Disconnect f) w1))"

definition channel_Deregister :: "('h, 's, 'm, 'v) program \<Rightarrow> ('h, 's) world \<Rightarrow> fut \<times> ('h, 's) world run" where
  "channel_Deregister P w = (let (f, w1) = pipeline_NewFuture w in (f, pipeline_fire P (Deregister f) w1))"

definition channel_Write :: "('h, 's, 'm, 'v) program \<Rightarrow> 'm \<Rightarrow> ('h, 's) world \<Rightarrow> fut \<times> ('h, 's) world run" where
  "channel_Write P obj w = (let (f, w1) = pipeline_NewFuture w in (f, pipeline_fire P (Write obj f) w1))"

definition channel_Read ::
  "(('h, 's) world \<Rightarrow> ('h, 's) world outcome) \<Rightarrow> ('h, 's) world \<Rightarrow> ('h, 's) world outcome" where
  "channel_Read unsafe_read w = pipeline_Read unsafe_read w"

definition channel_FireRead :: "('h, 's, 'm, 'v) program \<Rightarrow> 'm \<Rightarrow> ('h, 's) world \<Rightarrow> ('h, 's) world run" where
  "channel_FireRead P obj w = pipeline_fire P (Read obj) w"

definition channel_FireReadCompleted :: "('h, 's, 'm, 'v) program \<Rightarrow> ('h, 's) world \<Rightarrow> ('h, 's) world run" where
  "channel_FireReadCompleted P w = pipeline_fire P ReadCompleted w"

text \<open>
  The five outbound calls, by the event they send. \<open>Deregister\<close> is not among them: it starts at the
  head and ends in the tail's own method.
\<close>

datatype 'm channel_call = CallBind net_addr | CallClose | CallConnect net_addr net_addr | CallDisconnect
  | CallWrite 'm

fun call_event :: "'m channel_call \<Rightarrow> fut \<Rightarrow> 'm event" where
  "call_event (CallBind a) f = Bind a f"
| "call_event CallClose f = Close f"
| "call_event (CallConnect a b) f = Connect a b f"
| "call_event CallDisconnect f = Disconnect f"
| "call_event (CallWrite m) f = Write m f"

fun channel_do :: "('h, 's, 'm, 'v) program \<Rightarrow> 'm channel_call \<Rightarrow> ('h, 's) world \<Rightarrow> fut \<times> ('h, 's) world run" where
  "channel_do P (CallBind a) w = channel_Bind P a w"
| "channel_do P CallClose w = channel_Close P w"
| "channel_do P (CallConnect a b) w = channel_Connect P a b w"
| "channel_do P CallDisconnect w = channel_Disconnect P w"
| "channel_do P (CallWrite m) w = channel_Write P m w"

lemma channel_do_event:
  "channel_do P call w = (Some (w_futures w),
     pipeline_fire P (call_event call (Some (w_futures w))) (w\<lparr>w_futures := Suc (w_futures w)\<rparr>))"
  by (cases call) (simp_all add: channel_Bind_def channel_Close_def channel_Connect_def
      channel_Disconnect_def channel_Write_def pipeline_NewFuture_def)

lemma user_chain_futures [simp]: "user_chain (w\<lparr>w_futures := n\<rparr>) as hs = user_chain w as hs"
  by (simp add: user_chain_def user_at_def list_all2_conv_all_nth)

text \<open>
  A call on a channel whose handlers pass events on: the handlers see it from the last to the first
  with a future no call had before, then the unsafe operation runs once, with that future, which is the
  one the caller gets.
\<close>

lemma channel_call_in_order:
  assumes "user_chain w as hs" and "passes P (set hs) obs"
    and "unsafe_op P (call_event call (Some (w_futures w)))
           (w\<lparr>w_futures := Suc (w_futures w), w_user := seen obs Map.empty
              (call_event call (Some (w_futures w))) (rev hs) (w_user w)\<rparr>) = Done w'"
  shows "channel_do P call w = (Some (w_futures w), Some (Done w'))"
proof -
  let ?ev = "call_event call (Some (w_futures w))" and ?w = "w\<lparr>w_futures := Suc (w_futures w)\<rparr>"
  have "\<not> goes_next ?ev" "\<forall>e. ?ev \<noteq> ErrorCaught e" "given ?ev"
    by (cases call; simp add: given_def)+
  with fire_outbound [of ?w as hs P obs ?ev w'] assms have "pipeline_fire P ?ev ?w = Some (Done w')"
    by simp
  then show ?thesis by (simp add: channel_do_event)
qed

section \<open>Handlers that pass an event on\<close>

lemma path_mid:
  assumes "on_path w ev (pre @ x # ys @ post)" and "ys \<noteq> []"
  shows "on_path w ev ys" and "neighbour w ev x = Some (hd ys)"
  using assms by (cases ys; auto simp: successively_append_iff successively_Cons)+

lemma fire_given:
  "given ev \<Longrightarrow> fire P c ev w = (case neighbour w ev (ctx_addr c) of
     None \<Rightarrow> Some (Done w) | Some b \<Rightarrow> deliver P (ctx_values c) ev b w)"
  by (simp add: fire_def)

lemma deliver_passer:
  assumes "user_at w b h" and "\<And>c. methods P h c ev = DefaultHandler ev" and "given ev"
    and "neighbour w ev b = Some n" and "\<And>vals. deliver P vals ev n w = Some (Done w')"
  shows "deliver P vals ev b w = Some (Done w')"
  using assms
  by (simp add: deliver_def [of _ _ _ b] NewWrapHandlerContext_def handler_code_user DefaultHandler_def fire_def)

lemma deliver_passers:
  assumes "on_path w ev (bs @ [t])" and "list_all2 (user_at w) bs hs"
    and "\<And>h c. h \<in> set hs \<Longrightarrow> methods P h c ev = DefaultHandler ev" and "given ev"
    and "\<And>vals. deliver P vals ev t w = Some (Done w')"
  shows "deliver P vals ev (hd (bs @ [t])) w = Some (Done w')"
  using assms(2,1,3)
proof (induction bs hs arbitrary: vals rule: list_all2_induct)
  case Nil
  then show ?case using assms(5) by simp
next
  case (Cons b bs h hs)
  have nb: "neighbour w ev b = Some (hd (bs @ [t]))" and "on_path w ev (bs @ [t])"
    using Cons.prems(1) by (auto simp: successively_Cons)
  with Cons.IH Cons.prems(2) have "deliver P vals' ev (hd (bs @ [t])) w = Some (Done w')" for vals'
    by simp
  moreover have "methods P h c ev = DefaultHandler ev" for c using Cons.prems(2) by simp
  ultimately have "deliver P vals ev b w = Some (Done w')"
    using nb by (intro deliver_passer [OF Cons.hyps(1) _ assms(4), of P "hd (bs @ [t])" w' vals])
  then show ?case by simp
qed

end
