(* ===== verification/Simple_EndToEnd.thy ===== *)
theory Simple_EndToEnd
  imports Simple_Client Simple_Codec Channel_Facade
begin

text \<open>
  A message from one program to another: a simple client or server child (\<open>gtcp/simpletcp\<close>,
  \<open>gudp/simpleudp\<close>) with its whole pipeline, from \<open>Channel.Write\<close> over the handlers and the codec to the
  write buffer, and from the chunks a connection delivers over \<open>Channel.FireRead\<close> and the decoder to the
  user's handler. The result composes the facade, event delivery, the adapters and the codec: what one
  side writes, the user of the other side reads, whatever the chunks.
\<close>

section \<open>The handlers of a simple channel\<close>

datatype simple_handler = CodecHandler | ReconnectHandler | AdapterHandler

text \<open>
  One side: the codec's own state, whether the channel is active, the objects with their futures in
  \<open>writeBuffer\<close>, and the state of the user's handler.
\<close>

record ('b, 'a) side =
  sd_codec :: "'b simple_codec"
  sd_active :: bool
  sd_queue :: "('b obj \<times> fut) list"
  sd_app :: 'a

type_synonym ('b, 'a, 'v) simple_code = "(simple_handler, ('b, 'a) side, 'b obj, 'v) code"

fun emit_fired :: "'b fired list \<Rightarrow> ('b, 'a, 'v) simple_code \<Rightarrow> ('b, 'a, 'v) simple_code" where
  "emit_fired [] k = k"
| "emit_fired (FiredRead b # fs) k = Emit [] (Read (ObjBuf b)) (emit_fired fs k)"
| "emit_fired (FiredReadCompleted # fs) k = Emit [] ReadCompleted (emit_fired fs k)"

definition set_codec ::
  "'b simple_codec \<Rightarrow> (simple_handler, ('b, 'a) side) world \<Rightarrow> (simple_handler, ('b, 'a) side) world" where
  "set_codec h w = w\<lparr>w_user := (w_user w)\<lparr>sd_codec := h\<rparr>\<rparr>"

text \<open>
  \<open>SimpleCodec\<close> as a handler: \<open>Read\<close> is the embedded \<open>ReplayDecoder\<close>'s, which fires what it decoded only
  after the decoding; \<open>Write\<close> passes the encoded buffer on with the future it got, or nothing; the other
  methods are the default ones. \<open>codec_Read\<close> always answers (\<open>Simple_Codec_Any\<close>), so its None is no case
  of its own here.
\<close>

definition codec_methods ::
  "'b bytebuf_ops \<Rightarrow> (panic \<Rightarrow> bool) \<Rightarrow> ('b obj \<Rightarrow> 'b list outcome) \<Rightarrow> 'b obj event \<Rightarrow> ('b, 'a, 'v) simple_code" where
  "codec_methods ops swallows codec_Write ev = (case ev of
       Write obj f \<Rightarrow> (case codec_Write obj of
           Done es \<Rightarrow> foldr (\<lambda>e k. Emit [] (Write (ObjBuf e) f) k) es Finish
         | Panicked e es \<Rightarrow> Raise e)
     | Read obj \<Rightarrow> Choose (\<lambda>w. case codec_Read ops swallows (sd_codec (w_user w)) obj of
           None \<Rightarrow> Finish
         | Some (Done (h, fs)) \<Rightarrow> Act (\<lambda>w. Done (set_codec h w)) (emit_fired fs Finish)
         | Some (Panicked e (h, fs)) \<Rightarrow> Act (\<lambda>w. Done (set_codec h w)) (emit_fired fs (Raise e)))
     | _ \<Rightarrow> DefaultHandler ev)"

text \<open>
  What a caller of \<open>Unsafe.Write\<close> does: an object of an active channel goes to the buffer, which the
  writing goroutine empties in order (\<open>Channel_WriteLoop\<close>). The other operations do not touch the data.
\<close>

definition simple_unsafe ::
  "'b obj event \<Rightarrow> (simple_handler, ('b, 'a) side) world \<Rightarrow> (simple_handler, ('b, 'a) side) world outcome" where
  "simple_unsafe ev w = (case ev of
       Write obj f \<Rightarrow>
         (if obj \<noteq> ObjNil \<and> sd_active (w_user w)
          then Done (w\<lparr>w_user := (w_user w)\<lparr>sd_queue := sd_queue (w_user w) @ [(obj, f)]\<rparr>\<rparr>)
          else Done w)
     | _ \<Rightarrow> Done w)"

definition simple_program ::
  "'b bytebuf_ops \<Rightarrow> (panic \<Rightarrow> bool) \<Rightarrow> ('b obj \<Rightarrow> 'b list outcome)
     \<Rightarrow> ((simple_handler, ('b, 'a) side) world \<Rightarrow> (simple_handler, ('b, 'a) side) world outcome)
     \<Rightarrow> ((simple_handler, ('b, 'a) side) world \<Rightarrow> (simple_handler, ('b, 'a) side) world outcome)
     \<Rightarrow> ('v ctx \<Rightarrow> 'b obj event \<Rightarrow> ('b, 'a, 'v) simple_code) option \<Rightarrow> (addr \<Rightarrow> 'v)
     \<Rightarrow> (simple_handler, ('b, 'a) side, 'b obj, 'v) program" where
  "simple_program ops swallows codec_Write beat again user mk =
     \<lparr>methods = \<lambda>h c ev. (case h of
          CodecHandler \<Rightarrow> codec_methods ops swallows codec_Write ev
        | ReconnectHandler \<Rightarrow> connectionHandler beat again ev
        | AdapterHandler \<Rightarrow> clientHandlerAdapter user c ev),
      unsafe_op = simple_unsafe, log_error = \<lambda>e w. Done w, deregister_op = \<lambda>f w. Done w, mark = mk\<rparr>"

text \<open>Messages written one after the other.\<close>

fun send_all ::
  "(simple_handler, ('b, 'a) side, 'b obj, 'v) program \<Rightarrow> 'b list \<Rightarrow> (simple_handler, ('b, 'a) side) world
     \<Rightarrow> (simple_handler, ('b, 'a) side) world run" where
  "send_all P [] w = Some (Done w)"
| "send_all P (m # ms) w = seq_run (snd (channel_Write P (ObjBuf m) w)) (send_all P ms)"

text \<open>
  The reading goroutine of an active channel: what each turn of \<open>UnsafeRead\<close> answers, an object, nil, or
  \<open>ErrSkip\<close>, with the variable \<open>lastObjRead\<close>.
\<close>

datatype 'b turn = TurnObj 'b | TurnNil | TurnSkip

fun receive_all ::
  "(simple_handler, ('b, 'a) side, 'b obj, 'v) program \<Rightarrow> bool \<Rightarrow> 'b turn list
     \<Rightarrow> (simple_handler, ('b, 'a) side) world \<Rightarrow> (simple_handler, ('b, 'a) side) world run" where
  "receive_all P lastObjRead [] w = Some (Done w)"
| "receive_all P lastObjRead (TurnObj c # ts) w =
     seq_run (channel_FireRead P (ObjBuf c) w) (receive_all P True ts)"
| "receive_all P lastObjRead (TurnNil # ts) w = receive_all P lastObjRead ts w"
| "receive_all P lastObjRead (TurnSkip # ts) w =
     (if lastObjRead then seq_run (channel_FireReadCompleted P w) (receive_all P False ts)
      else receive_all P lastObjRead ts w)"

fun chunks_of :: "'b turn list \<Rightarrow> 'b list" where
  "chunks_of [] = []"
| "chunks_of (TurnObj c # ts) = c # chunks_of ts"
| "chunks_of (TurnNil # ts) = chunks_of ts"
| "chunks_of (TurnSkip # ts) = chunks_of ts"

text \<open>The bytes the queued buffers are on the wire.\<close>

definition queue_bytes :: "'b bytebuf_ops \<Rightarrow> ('b obj \<times> fut) list \<Rightarrow> byte list" where
  "queue_bytes ops q = concat (map (\<lambda>x. case fst x of ObjBuf b \<Rightarrow> Bytes ops b | _ \<Rightarrow> []) q)"

section \<open>Writing\<close>

definition writes_pass :: "('v ctx \<Rightarrow> 'b obj event \<Rightarrow> ('b, 'a, 'v) simple_code) option \<Rightarrow> bool" where
  "writes_pass user \<longleftrightarrow> (\<forall>h c obj f. user = Some h \<longrightarrow> h c (Write obj f) = DefaultHandler (Write obj f))"

definition pushed_to :: "(simple_handler, ('b, 'a) side) world \<Rightarrow> 'b obj \<Rightarrow> (simple_handler, ('b, 'a) side) world" where
  "pushed_to w obj = w\<lparr>w_futures := Suc (w_futures w),
     w_user := (w_user w)\<lparr>sd_queue := sd_queue (w_user w) @ [(obj, Some (w_futures w))]\<rparr>\<rparr>"

lemma simple_methods [simp]:
  "methods (simple_program ops sw cw beat again user mk) CodecHandler c ev = codec_methods ops sw cw ev"
  "methods (simple_program ops sw cw beat again user mk) ReconnectHandler c ev = connectionHandler beat again ev"
  "methods (simple_program ops sw cw beat again user mk) AdapterHandler c ev = clientHandlerAdapter user c ev"
  by (simp_all add: simple_program_def)

lemma write_passes:
  assumes "writes_pass user" and "h \<noteq> CodecHandler"
  shows "methods (simple_program ops sw cw beat again user mk) h c (Write obj f) = DefaultHandler (Write obj f)"
  using assms
  by (cases h; cases user)
    (simp_all add: connectionHandler_def writes_pass_def DefaultHandler_def)

text \<open>One write: it passes the handlers behind the codec, is encoded, and enters the buffer.\<close>

lemma write_reaches_buffer:
  assumes uc: "user_chain w (a # bs) (CodecHandler # rest)" and rest: "CodecHandler \<notin> set rest"
    and wp: "writes_pass user" and act: "sd_active (w_user w)" and cw: "cw (ObjBuf m) = Done [e]"
  shows "snd (channel_Write (simple_program ops sw cw beat again user mk) (ObjBuf m) w)
    = Some (Done (pushed_to w (ObjBuf e)))"
proof -
  let ?P = "simple_program ops sw cw beat again user mk"
  let ?f = "Some (w_futures w)" and ?w = "w\<lparr>w_futures := Suc (w_futures w)\<rparr>"
  let ?ev = "Write (ObjBuf m) ?f" and ?enc = "Write (ObjBuf e) ?f"
  from uc have "user_chain ?w (a # bs) (CodecHandler # rest)" by simp
  then have wf: "wf_pipeline (w_pipe ?w) (a # bs)" and at_a: "user_at ?w a CodecHandler"
    and la: "list_all2 (user_at ?w) (rev bs) (rev rest)"
    unfolding user_chain_def by simp_all
  have path: "on_path ?w ?ev ([tail (w_pipe w)] @ (rev bs @ [a]) @ [head (w_pipe w)])"
    using wf_path_prev [OF wf, of ?ev] by (simp add: chain_def)
  then have nb: "neighbour ?w ?ev (tail (w_pipe w)) = Some (hd (rev bs @ [a]))"
    and path_a: "on_path ?w ?ev (rev bs @ [a])" and nb_a: "neighbour ?w ?ev a = Some (head (w_pipe w))"
    by (auto simp: successively_append_iff successively_Cons hd_append)
  have unsafe: "unsafe_op ?P ?enc ?w = Done (pushed_to w (ObjBuf e))"
    using act by (simp add: simple_program_def simple_unsafe_def pushed_to_def)
  have "deliver ?P vals ?enc (head (w_pipe w)) ?w = Some (Done (pushed_to w (ObjBuf e)))" for vals
    using deliver_head [OF wf, of ?enc ?P vals] unsafe by simp
  then have "deliver ?P vals ?ev a ?w = Some (Done (pushed_to w (ObjBuf e)))" for vals
    using nb_a cw at_a
    by (simp add: deliver_def [of _ _ _ a] NewWrapHandlerContext_def handler_code_user codec_methods_def
        fire_given [of "Write (ObjBuf e) (Some (w_futures w))"] given_def neighbour_def)
  moreover have "methods ?P h c ?ev = DefaultHandler ?ev" if "h \<in> set (rev rest)" for h c
    using that rest by (intro write_passes [OF wp]) auto
  ultimately have "deliver ?P vals ?ev (hd (rev bs @ [a])) ?w = Some (Done (pushed_to w (ObjBuf e)))" for vals
    by (intro deliver_passers [OF path_a la]) (simp_all add: given_def)
  with nb show ?thesis
    by (simp add: channel_Write_def pipeline_NewFuture_def pipeline_fire_def fire_given given_def)
qed


text \<open>Any number of writes: the buffer then holds the encodings, in order, each with a future of its own.\<close>

lemma send_all_buffers:
  assumes "user_chain w (a # bs) (CodecHandler # rest)" and "CodecHandler \<notin> set rest" and "writes_pass user"
    and "sd_active (w_user w)" and "\<And>m. cw (ObjBuf m) = Done [enc m]"
  shows "\<exists>w'. send_all (simple_program ops sw cw beat again user mk) ms w = Some (Done w')
    \<and> map fst (sd_queue (w_user w')) = map fst (sd_queue (w_user w)) @ map (ObjBuf \<circ> enc) ms"
  using assms(1,4)
proof (induction ms arbitrary: w)
  case (Cons m ms)
  let ?w = "pushed_to w (ObjBuf (enc m))"
  have "user_chain ?w (a # bs) (CodecHandler # rest)" "sd_active (w_user ?w)"
    using Cons.prems by (simp_all add: pushed_to_def user_chain_def user_at_def list_all2_conv_all_nth)
  from Cons.IH [OF this] write_reaches_buffer [where ops = ops and sw = sw and beat = beat and again = again
      and mk = mk, OF Cons.prems(1) assms(2,3) Cons.prems(2), of cw m "enc m"] assms(5)
  show ?case by (auto simp: pushed_to_def)
qed simp

section \<open>Reading\<close>

text \<open>A user's handler that consumes what it reads, and passes ReadCompleted on.\<close>

definition app_reads ::
  "('v ctx \<Rightarrow> 'b obj event \<Rightarrow> ('b, 'a, 'v) simple_code) option \<Rightarrow> ('b \<Rightarrow> 'a \<Rightarrow> 'a) \<Rightarrow> bool" where
  "app_reads user app \<longleftrightarrow> (\<exists>h. user = Some h
     \<and> (\<forall>c m. h c (Read (ObjBuf m)) = Act (\<lambda>w. Done (w\<lparr>w_user := (w_user w)\<lparr>sd_app := app m (sd_app (w_user w))\<rparr>\<rparr>)) Finish)
     \<and> (\<forall>c. h c ReadCompleted = DefaultHandler ReadCompleted))"

definition to_app :: "('b \<Rightarrow> 'a \<Rightarrow> 'a) \<Rightarrow> 'b list \<Rightarrow> (simple_handler, ('b, 'a) side) world
    \<Rightarrow> (simple_handler, ('b, 'a) side) world" where
  "to_app app ps w = w\<lparr>w_user := (w_user w)\<lparr>sd_app := fold app ps (sd_app (w_user w))\<rparr>\<rparr>"

abbreviation receiving :: "(simple_handler, ('b, 'a) side) world \<Rightarrow> addr \<Rightarrow> addr list \<Rightarrow> addr \<Rightarrow> simple_handler list \<Rightarrow> bool" where
  "receiving w a bs t mid \<equiv> user_chain w (a # bs @ [t]) (CodecHandler # mid @ [AdapterHandler])
     \<and> set mid \<subseteq> {ReconnectHandler}"

lemma receiving_paths:
  assumes "receiving w a bs t mid" and "goes_next ev"
  shows "neighbour w ev (head (w_pipe w)) = Some a" and "neighbour w ev a = Some (hd (bs @ [t]))"
    and "on_path w ev (bs @ [t])" and "on_path w ev ((a # bs @ [t]) @ [tail (w_pipe w)])"
    and "user_at w a CodecHandler" and "user_at w t AdapterHandler" and "list_all2 (user_at w) bs mid"
    and "list_all2 (user_at w) (a # bs @ [t]) (CodecHandler # mid @ [AdapterHandler])"
proof -
  from assms(1) have wf: "wf_pipeline (w_pipe w) (a # bs @ [t])"
    and la: "list_all2 (user_at w) (a # bs @ [t]) (CodecHandler # mid @ [AdapterHandler])"
    by (simp_all add: user_chain_def)
  have "on_path w ev ([head (w_pipe w)] @ [a] @ (bs @ [t]) @ [tail (w_pipe w)])"
    using wf_path_next [OF wf assms(2)] by (simp add: chain_def)
  then show "neighbour w ev (head (w_pipe w)) = Some a" "neighbour w ev a = Some (hd (bs @ [t]))"
    "on_path w ev (bs @ [t])" "on_path w ev ((a # bs @ [t]) @ [tail (w_pipe w)])"
    by (auto simp: successively_append_iff successively_Cons hd_append)
  show "list_all2 (user_at w) (a # bs @ [t]) (CodecHandler # mid @ [AdapterHandler])" by (rule la)
  then have "length bs = length mid" by (auto dest: list_all2_lengthD)
  with la show "user_at w a CodecHandler" "user_at w t AdapterHandler" "list_all2 (user_at w) bs mid"
    by (simp_all add: list_all2_append)
qed

text \<open>A decoded message goes from the codec to the user's handler.\<close>

lemma message_reaches_app:
  assumes rc: "receiving w a bs t mid" and app: "app_reads user app" and c: "ctx_addr c = a"
  shows "fire (simple_program ops sw cw beat again user mk) c (Read (ObjBuf m)) w = Some (Done (to_app app [m] w))"
proof -
  let ?P = "simple_program ops sw cw beat again user mk"
  note ways = receiving_paths [OF rc, of "Read (ObjBuf m)"]
  have given: "given (Read (ObjBuf m))" by (simp add: given_def)
  have "deliver ?P vals (Read (ObjBuf m)) t w = Some (Done (to_app app [m] w))" for vals
    using app ways(6) by (auto simp: deliver_def NewWrapHandlerContext_def handler_code_user app_reads_def to_app_def)
  moreover have "methods ?P h c' (Read (ObjBuf m)) = DefaultHandler (Read (ObjBuf m))" if "h \<in> set mid" for h c'
    using that rc by (auto simp: connectionHandler_def)
  ultimately have "deliver ?P vals (Read (ObjBuf m)) (hd (bs @ [t])) w = Some (Done (to_app app [m] w))" for vals
    using ways(3,7) by (intro deliver_passers) (simp_all add: given)
  with ways(2) c given show ?thesis by (simp add: fire_given)
qed

lemma messages_reach_app:
  assumes "receiving w a bs t mid" and "app_reads user app" and "ctx_addr c = a"
  shows "exec (simple_program ops sw cw beat again user mk) c (emit_fired (map FiredRead ps) Finish) w
    = Some (Done (to_app app ps w))"
  using assms(1)
proof (induction ps arbitrary: w)
  case (Cons p ps)
  have "receiving (to_app app [p] w) a bs t mid" using Cons.prems by (simp add: to_app_def)
  from Cons.IH [OF this] message_reaches_app [where ops = ops and sw = sw and cw = cw and beat = beat
      and again = again and mk = mk and m = p, OF Cons.prems assms(2,3)]
  show ?case by (simp add: to_app_def)
qed (simp add: to_app_def)


text \<open>One chunk: the codec decodes it, and its messages go to the user's handler.\<close>

lemma chunk_reaches_app:
  assumes rc: "receiving w a bs t mid" and app: "app_reads user app"
    and dec: "codec_Read ops sw (sd_codec (w_user w)) (ObjBuf c) = Some (Done (h, map FiredRead ps))"
  shows "channel_FireRead (simple_program ops sw cw beat again user mk) (ObjBuf c) w
    = Some (Done (to_app app ps (set_codec h w)))"
proof -
  let ?P = "simple_program ops sw cw beat again user mk"
  note ways = receiving_paths [OF rc, of "Read (ObjBuf c)"]
  have "receiving (set_codec h w) a bs t mid" using rc by (simp add: set_codec_def)
  note reach = messages_reach_app [where ops = ops and sw = sw and cw = cw and beat = beat
      and again = again and mk = mk and ps = ps, OF this app]
  have "deliver ?P vals (Read (ObjBuf c)) a w = Some (Done (to_app app ps (set_codec h w)))" for vals
    using ways(5) dec reach
    by (simp add: deliver_def NewWrapHandlerContext_def handler_code_user codec_methods_def)
  with ways(1) show ?thesis
    by (simp add: channel_FireRead_def pipeline_fire_def fire_given given_def)
qed

lemma completed_passes:
  fixes w :: "(simple_handler, ('b, 'a) side) world"
  assumes rc: "receiving w a bs t mid" and app: "app_reads user app"
  shows "channel_FireReadCompleted (simple_program ops sw cw beat again user mk) w = Some (Done w)"
proof -
  let ?P = "simple_program ops sw cw beat again user mk"
  note ways = receiving_paths [OF rc, of "ReadCompleted :: 'b obj event"]
  have wf: "wf_pipeline (w_pipe w) (a # bs @ [t])" using rc by (simp add: user_chain_def)
  have "deliver ?P vals ReadCompleted (tail (w_pipe w)) w = Some (Done w)" for vals
    using deliver_tail [OF wf, of ReadCompleted ?P vals] by (simp add: given_def)
  moreover have "methods ?P h c ReadCompleted = DefaultHandler ReadCompleted" for h c
    using app by (cases h) (auto simp: codec_methods_def connectionHandler_def app_reads_def)
  ultimately have "deliver ?P vals ReadCompleted (hd ((a # bs @ [t]) @ [tail (w_pipe w)])) w = Some (Done w)" for vals
    by (intro deliver_passers [OF ways(4,8)]) (simp_all add: given_def)
  with ways(1) show ?thesis
    by (simp add: channel_FireReadCompleted_def pipeline_fire_def fire_given given_def)
qed

lemma fired_split:
  assumes "feed ops sw h (c # cs) = Some (Done (h2, map FiredRead ps))"
  obtains h1 qs rs where "codec_Read ops sw h (ObjBuf c) = Some (Done (h1, map FiredRead qs))"
    and "feed ops sw h1 cs = Some (Done (h2, map FiredRead rs))" and "ps = qs @ rs"
  using assms by (auto simp: append_eq_map_conv split: option.splits outcome.splits)

lemma receive_all_reaches_app:
  assumes "receiving w a bs t mid" and "app_reads user app"
    and "feed ops sw (sd_codec (w_user w)) (chunks_of ts) = Some (Done (h, map FiredRead ps))"
  shows "receive_all (simple_program ops sw cw beat again user mk) l ts w
    = Some (Done (to_app app ps (set_codec h w)))"
  using assms(1,3)
proof (induction ts arbitrary: w ps l rule: chunks_of.induct)
  case 1
  then show ?case by (simp add: to_app_def set_codec_def)
next
  case (2 c ts)
  from 2(3) obtain h1 qs rs where
    r: "codec_Read ops sw (sd_codec (w_user w)) (ObjBuf c) = Some (Done (h1, map FiredRead qs))"
      "feed ops sw h1 (chunks_of ts) = Some (Done (h, map FiredRead rs))" "ps = qs @ rs"
    unfolding chunks_of.simps by (rule fired_split)
  let ?w = "to_app app qs (set_codec h1 w)"
  have rc: "receiving ?w a bs t mid" using 2(2) by (simp add: to_app_def set_codec_def)
  have "feed ops sw (sd_codec (w_user ?w)) (chunks_of ts) = Some (Done (h, map FiredRead rs))"
    using r(2) by (simp add: to_app_def set_codec_def)
  note rest = 2(1) [OF rc this]
  have "channel_FireRead (simple_program ops sw cw beat again user mk) (ObjBuf c) w = Some (Done ?w)"
    by (rule chunk_reaches_app [OF 2(2) assms(2) r(1)])
  with rest r(3) show ?case by (simp add: to_app_def set_codec_def)
next
  case (3 ts)
  then show ?case by simp
next
  case (4 ts)
  then show ?case using completed_passes [OF 4(2) assms(2)] by simp
qed

section \<open>From one side to the other\<close>

text \<open>What the codecs of both packages make of a buffer.\<close>

lemma codecs_encode:
  "tcp_codec_Write ops (ObjBuf m) = Done [encode_msg ops m]"
  "udp_codec_Write ops (ObjBuf m) = Done [encode_msg ops m]"
  by (simp_all add: tcp_codec_Write_def udp_codec_Write_def)

lemma queue_bytes_encoded:
  "map fst q = map (ObjBuf \<circ> enc) ms \<Longrightarrow> queue_bytes ops q = arrived ops (map enc ms)"
proof -
  assume "map fst q = map (ObjBuf \<circ> enc) ms"
  moreover have "queue_bytes ops q = concat (map (case_obj (Bytes ops) [] (\<lambda>_. [])) (map fst q))"
    by (simp add: queue_bytes_def comp_def)
  ultimately show ?thesis by (simp add: arrived_def comp_def)
qed

text \<open>
  C1. End to end: one side writes messages on its active channel, through its whole pipeline, and what
  then lies in its write buffer are their frames; however a connection cuts these bytes into chunks, and
  whenever reads time out in between, the other
  side, reading them through its pipeline, hands its user's handler exactly the non-empty messages, with
  their bytes, in the order they were written and once each. Empty messages are heartbeats and are
  skipped. Every call returns, on both sides.
\<close>

theorem end_to_end:
  assumes "bytebuf ops" and "swallows InsufficientSize"
    and "user_chain ws (a # bs) (CodecHandler # rest)" and "CodecHandler \<notin> set rest"
    and "writes_pass sender" and "sd_active (w_user ws)" and "sd_queue (w_user ws) = []"
    and "user_chain wr (a' # bs' @ [t]) (CodecHandler # mid @ [AdapterHandler])"
    and "set mid \<subseteq> {ReconnectHandler}" and "app_reads receiver app"
    and "sd_codec (w_user wr) = added_codec ops"
    and "\<forall>m \<in> set msgs. length (Bytes ops m) < 2 ^ 63"
    and "cw \<in> {tcp_codec_Write ops, udp_codec_Write ops}"
  shows "\<exists>ws'. send_all (simple_program ops swallows cw beat again sender mk) msgs ws = Some (Done ws')
    \<and> queue_bytes ops (sd_queue (w_user ws')) = frames (map (Bytes ops) msgs)
    \<and> (\<forall>turns. arrived ops (chunks_of turns) = queue_bytes ops (sd_queue (w_user ws')) \<longrightarrow>
        (\<exists>wr' ps. receive_all (simple_program ops swallows cw' beat' again' receiver mk') False turns wr
             = Some (Done wr')
           \<and> sd_app (w_user wr') = fold app ps (sd_app (w_user wr))
           \<and> map (Bytes ops) ps = filter (\<lambda>m. m \<noteq> []) (map (Bytes ops) msgs)))"
proof -
  let ?S = "simple_program ops swallows cw beat again sender mk"
  let ?R = "simple_program ops swallows cw' beat' again' receiver mk'"
  have "cw (ObjBuf m) = Done [encode_msg ops m]" for m using assms(13) codecs_encode by auto
  from send_all_buffers [where cw = cw and enc = "encode_msg ops", OF assms(3-6) this]
  obtain ws' where ws': "send_all ?S msgs ws = Some (Done ws')"
    "map fst (sd_queue (w_user ws')) = map (ObjBuf \<circ> encode_msg ops) msgs"
    using assms(7) by (metis append_Nil list.simps(8))
  have wire: "queue_bytes ops (sd_queue (w_user ws')) = frames (map (Bytes ops) msgs)"
    using queue_bytes_encoded [OF ws'(2), of ops]
    by (simp add: arrived_def frames_def bytebuf.encode_msg_frame [OF assms(1)] comp_def)
  have "\<exists>wr' ps. receive_all ?R False turns wr = Some (Done wr')
      \<and> sd_app (w_user wr') = fold app ps (sd_app (w_user wr))
      \<and> map (Bytes ops) ps = filter (\<lambda>m. m \<noteq> []) (map (Bytes ops) msgs)"
    if "arrived ops (chunks_of turns) = queue_bytes ops (sd_queue (w_user ws'))" for turns
  proof -
    from that have "arrived ops (chunks_of turns) = arrived ops (map (encode_msg ops) msgs)"
      by (simp only: queue_bytes_encoded [OF ws'(2)])
    with feed_inverts [where swallows = swallows, of ops msgs "chunks_of turns"] assms(1,2,12) obtain h ps where
      f: "feed ops swallows (added_codec ops) (chunks_of turns) = Some (Done (h, map FiredRead ps))"
        "map (Bytes ops) ps = filter (\<lambda>m. m \<noteq> []) (map (Bytes ops) msgs)"
      by blast
    have rc: "receiving wr a' bs' t mid" using assms(8,9) by simp
    have "receive_all ?R False turns wr = Some (Done (to_app app ps (set_codec h wr)))"
      by (rule receive_all_reaches_app [OF rc assms(10)]) (simp add: assms(11) f(1))
    with f(2) show ?thesis by (auto simp: to_app_def set_codec_def)
  qed
  with ws'(1) wire show ?thesis by blast
qed


text \<open>A client of three handlers and a server child of two.\<close>

definition client_pipe :: "simple_handler pipeline" where
  "client_pipe = \<lparr>heap = [0 \<mapsto> \<lparr>ctx_name = PipelineHeadHandlerContextName, ctx_handler = Some HeadHandler,
        ctx_next = Some 2, ctx_prev = None\<rparr>,
      1 \<mapsto> \<lparr>ctx_name = PipelineTailHandlerContextName, ctx_handler = Some TailHandler,
        ctx_next = None, ctx_prev = Some 4\<rparr>,
      2 \<mapsto> \<lparr>ctx_name = ''SIMPLE_CODEC'', ctx_handler = Some (UserHandler CodecHandler),
        ctx_next = Some 3, ctx_prev = Some 0\<rparr>,
      3 \<mapsto> \<lparr>ctx_name = ''RECONNECT'', ctx_handler = Some (UserHandler ReconnectHandler),
        ctx_next = Some 4, ctx_prev = Some 2\<rparr>,
      4 \<mapsto> \<lparr>ctx_name = ''HANDLER'', ctx_handler = Some (UserHandler AdapterHandler),
        ctx_next = Some 1, ctx_prev = Some 3\<rparr>],
    head = 0, tail = 1, fresh = 5\<rparr>"

definition child_pipe :: "simple_handler pipeline" where
  "child_pipe = \<lparr>heap = [0 \<mapsto> \<lparr>ctx_name = PipelineHeadHandlerContextName, ctx_handler = Some HeadHandler,
        ctx_next = Some 2, ctx_prev = None\<rparr>,
      1 \<mapsto> \<lparr>ctx_name = PipelineTailHandlerContextName, ctx_handler = Some TailHandler,
        ctx_next = None, ctx_prev = Some 3\<rparr>,
      2 \<mapsto> \<lparr>ctx_name = ''SIMPLE_CODEC'', ctx_handler = Some (UserHandler CodecHandler),
        ctx_next = Some 3, ctx_prev = Some 0\<rparr>,
      3 \<mapsto> \<lparr>ctx_name = ''HANDLER'', ctx_handler = Some (UserHandler AdapterHandler),
        ctx_next = Some 1, ctx_prev = Some 2\<rparr>],
    head = 0, tail = 1, fresh = 4\<rparr>"

definition side_world :: "simple_handler pipeline \<Rightarrow> (simple_handler, (byte list, byte list list) side) world" where
  "side_world p = \<lparr>w_pipe = p, w_futures = 0,
     w_user = \<lparr>sd_codec = added_codec list_bytebuf, sd_active = True, sd_queue = [], sd_app = []\<rparr>\<rparr>"

lemma demo_chains:
  "user_chain (side_world client_pipe) [2, 3, 4] [CodecHandler, ReconnectHandler, AdapterHandler]"
  "user_chain (side_world child_pipe) [2, 3] [CodecHandler, AdapterHandler]"
proof -
  have "set (chain client_pipe [2, 3, 4]) = {0, 1, 2, 3, 4}" "set (chain child_pipe [2, 3]) = {0, 1, 2, 3}"
    by (auto simp: chain_def client_pipe_def child_pipe_def)
  then show "user_chain (side_world client_pipe) [2, 3, 4] [CodecHandler, ReconnectHandler, AdapterHandler]"
    "user_chain (side_world child_pipe) [2, 3] [CodecHandler, AdapterHandler]"
    by (auto simp: user_chain_def side_world_def client_pipe_def child_pipe_def wf_pipeline_def chain_def
        is_sentinel_def user_at_def entry_def split: if_splits)
qed

definition collector :: "nat ctx \<Rightarrow> byte list obj event \<Rightarrow> (byte list, byte list list, nat) simple_code" where
  "collector c ev = (case ev of
       Read (ObjBuf m) \<Rightarrow> Act (\<lambda>w. Done (w\<lparr>w_user := (w_user w)\<lparr>sd_app := sd_app (w_user w) @ [m]\<rparr>\<rparr>)) Finish
     | _ \<Rightarrow> DefaultHandler ev)"

definition demo_side :: "(simple_handler, (byte list, byte list list) side, byte list obj, nat) program" where
  "demo_side = simple_program list_bytebuf (\<lambda>e. e = InsufficientSize) (tcp_codec_Write list_bytebuf) Done Done
     (Some collector) (\<lambda>a. a)"

theorem end_to_end_witness:
  "\<exists>ws' wr'. send_all demo_side [[1, 2], [], [3]] (side_world client_pipe) = Some (Done ws')
    \<and> queue_bytes list_bytebuf (sd_queue (w_user ws')) = [2, 1, 2, 0, 1, 3]
    \<and> receive_all demo_side False [TurnObj [2, 1], TurnSkip, TurnObj [2, 0, 1], TurnNil, TurnObj [3], TurnSkip] (side_world child_pipe) = Some (Done wr')
    \<and> sd_app (w_user wr') = [[1, 2], [3]]"
proof -
  have fr: "frames [[1, 2], [], [3]] = [2, 1, 2, 0, 1, 3]"
    by (simp add: frame_def len_word_def varint_bytes_def varint_flag_def varint_size_def u64_of_int_def)
  have pass: "writes_pass (Some collector)" and reads: "app_reads (Some collector) (\<lambda>m ms. ms @ [m])"
    by (simp_all add: writes_pass_def app_reads_def collector_def)
  have start: "sd_active (w_user (side_world p))" "sd_queue (w_user (side_world p)) = []"
    "sd_codec (w_user (side_world p)) = added_codec list_bytebuf" "sd_app (w_user (side_world p)) = []" for p
    by (simp_all add: side_world_def)
  note run = end_to_end [where swallows = "\<lambda>e. e = InsufficientSize" and cw = "tcp_codec_Write list_bytebuf"
      and cw' = "tcp_codec_Write list_bytebuf" and mk = "\<lambda>a. a" and mk' = "\<lambda>a. a" and beat = Done
      and again = Done and beat' = Done and again' = Done and msgs = "[[1, 2], [], [3]]"
      and ws = "side_world client_pipe" and wr = "side_world child_pipe" and a = 2 and bs = "[3, 4]"
      and rest = "[ReconnectHandler, AdapterHandler]" and a' = 2 and bs' = "[]" and t = 3 and mid = "[]"
      and sender = "Some collector" and receiver = "Some collector" and app = "\<lambda>m ms. ms @ [m]" and ops = list_bytebuf]
  have "\<exists>ws'. send_all demo_side [[1, 2], [], [3]] (side_world client_pipe) = Some (Done ws')
    \<and> queue_bytes list_bytebuf (sd_queue (w_user ws')) = frames [[1, 2], [], [3]]
    \<and> (\<forall>turns. arrived list_bytebuf (chunks_of turns) = queue_bytes list_bytebuf (sd_queue (w_user ws')) \<longrightarrow>
        (\<exists>wr' ps. receive_all demo_side False turns (side_world child_pipe) = Some (Done wr')
           \<and> sd_app (w_user wr') = fold (\<lambda>m ms. ms @ [m]) ps [] \<and> ps = [[1, 2], [3]]))"
    using run [OF lb.bytebuf_axioms _ demo_chains(1) _ pass start(1,2) _ _ reads start(3)] demo_chains(2) start(4)
    by (simp add: demo_side_def)
  then obtain ws' where ws': "send_all demo_side [[1, 2], [], [3]] (side_world client_pipe) = Some (Done ws')"
    "queue_bytes list_bytebuf (sd_queue (w_user ws')) = [2, 1, 2, 0, 1, 3]"
    and all: "\<And>turns. arrived list_bytebuf (chunks_of turns) = queue_bytes list_bytebuf (sd_queue (w_user ws')) \<Longrightarrow>
        (\<exists>wr'. receive_all demo_side False turns (side_world child_pipe) = Some (Done wr')
           \<and> sd_app (w_user wr') = fold (\<lambda>m ms. ms @ [m]) [[1, 2], [3]] [])"
    unfolding fr by blast
  have "arrived list_bytebuf (chunks_of [TurnObj [2, 1], TurnSkip, TurnObj [2, 0, 1], TurnNil, TurnObj [3], TurnSkip])
      = queue_bytes list_bytebuf (sd_queue (w_user ws'))"
    by (simp add: ws'(2) arrived_def)
  from all [OF this] ws' show ?thesis by auto
qed

end
