(* ===== verification/Gws_Handler.thy ===== *)
theory Gws_Handler
  imports Gws_Messages Channel_Facade
begin

text \<open>
  \<open>InvokeHandler\<close> (\<open>gws/wsinvokehandler.go\<close>) as a handler of a pipeline: the events of a WebSocket channel
  become the callbacks of the task, and what the callbacks write goes out through the handlers before it.
  The lemmas follow the events of a connection through a whole pipeline: which callbacks are made, in
  which order, and what is handed to the connection.
\<close>

section \<open>The handler\<close>

datatype ws_handler = WsInvoke | WsOther nat

text \<open>History: the callbacks made, with their message, and the messages handed to \<open>Unsafe.Write\<close>.\<close>

datatype ws_callback = DidConnect | DidDisconnect | DidCall task_event ws_message

record 'x ws_side =
  ws_callbacks :: "ws_callback list"
  ws_out :: "(ws_obj \<times> fut) list"
  ws_errors :: "err list"
  ws_app :: 'x

type_synonym 'x ws_world = "(ws_handler, 'x ws_side) world"
type_synonym ('x, 'v) ws_code = "(ws_handler, 'x ws_side, ws_obj, 'v) code"

definition note_calls :: "ws_callback list \<Rightarrow> 'x ws_world \<Rightarrow> 'x ws_world" where
  "note_calls cs w = w\<lparr>w_user := (w_user w)\<lparr>ws_callbacks := ws_callbacks (w_user w) @ cs\<rparr>\<rparr>"

text \<open>
  \<open>WSConnected\<close> and \<open>WSDisconnected\<close> of a task may do anything to the world; the callbacks of messages
  write through the context (\<open>Gws_Messages\<close>). \<open>NewInvokeHandler\<close> keeps the task and the parameters.
\<close>

record 'x invoke_handler =
  ih_task :: ws_task
  ih_connected :: "params \<Rightarrow> 'x ws_world \<Rightarrow> 'x ws_world outcome"
  ih_disconnected :: "params \<Rightarrow> 'x ws_world \<Rightarrow> 'x ws_world outcome"
  ih_params :: params

definition NewInvokeHandler ::
  "ws_task \<Rightarrow> (params \<Rightarrow> 'x ws_world \<Rightarrow> 'x ws_world outcome) \<Rightarrow> (params \<Rightarrow> 'x ws_world \<Rightarrow> 'x ws_world outcome)
     \<Rightarrow> params option \<Rightarrow> 'x invoke_handler" where
  "NewInvokeHandler task con dis ps =
     \<lparr>ih_task = task, ih_connected = con, ih_disconnected = dis,
      ih_params = (case ps of None \<Rightarrow> Map.empty | Some m \<Rightarrow> m)\<rparr>"

definition emit_writes :: "ws_message list \<Rightarrow> ('x, 'v) ws_code \<Rightarrow> ('x, 'v) ws_code" where
  "emit_writes ms k = foldr (\<lambda>m k. Emit [] (Write (WsMessage m) None) k) ms k"

definition handler_Read :: "'x invoke_handler \<Rightarrow> bool \<Rightarrow> ws_obj \<Rightarrow> ('x, 'v) ws_code" where
  "handler_Read h is_ws obj = (case invoke_Read (ih_task h) is_ws obj of
       Inl obj' \<Rightarrow> Emit [] (Read obj') Finish
     | Inr (cs, ws, p) \<Rightarrow> Act (\<lambda>w. Done (note_calls (map (\<lambda>c. DidCall c
           (case obj of WsMessage m \<Rightarrow> m | WsObject _ \<Rightarrow> NilDefaultMsg)) cs) w)) (emit_writes ws Finish))"

definition handler_Active :: "'x invoke_handler \<Rightarrow> bool \<Rightarrow> ('x, 'v) ws_code" where
  "handler_Active h is_ws =
     (if is_ws then Act (\<lambda>w. ih_connected h (ih_params h) (note_calls [DidConnect] w)) (Emit [] Active Finish)
      else Emit [] Active Finish)"

definition handler_Inactive :: "'x invoke_handler \<Rightarrow> bool \<Rightarrow> ('x, 'v) ws_code" where
  "handler_Inactive h is_ws =
     (if is_ws then Act (\<lambda>w. ih_disconnected h (ih_params h) (note_calls [DidDisconnect] w)) (Emit [] Inactive Finish)
      else Emit [] Inactive Finish)"

text \<open>An error is logged and goes no further.\<close>

definition handler_ErrorCaught :: "err \<Rightarrow> ('x, 'v) ws_code" where
  "handler_ErrorCaught e =
     Act (\<lambda>w. Done (w\<lparr>w_user := (w_user w)\<lparr>ws_errors := ws_errors (w_user w) @ [e]\<rparr>\<rparr>)) Finish"

definition invoke_methods :: "'x invoke_handler \<Rightarrow> bool \<Rightarrow> ws_obj event \<Rightarrow> ('x, 'v) ws_code" where
  "invoke_methods h is_ws ev = (case ev of
       Read obj \<Rightarrow> handler_Read h is_ws obj
     | Active \<Rightarrow> handler_Active h is_ws
     | Inactive \<Rightarrow> handler_Inactive h is_ws
     | ErrorCaught e \<Rightarrow> handler_ErrorCaught e
     | _ \<Rightarrow> DefaultHandler ev)"

text \<open>
  A channel with this handler among others that pass everything on; \<open>Unsafe.Write\<close> of an active channel
  puts the object into the write buffer (\<open>Channel_WriteLoop\<close>).
\<close>

definition push_out :: "ws_obj \<Rightarrow> fut \<Rightarrow> 'x ws_world \<Rightarrow> 'x ws_world" where
  "push_out obj f w = w\<lparr>w_user := (w_user w)\<lparr>ws_out := ws_out (w_user w) @ [(obj, f)]\<rparr>\<rparr>"

definition ws_program ::
  "'x invoke_handler \<Rightarrow> bool \<Rightarrow> (addr \<Rightarrow> 'v) \<Rightarrow> (ws_handler, 'x ws_side, ws_obj, 'v) program" where
  "ws_program h is_ws mk =
     \<lparr>methods = \<lambda>k c ev. (case k of WsInvoke \<Rightarrow> invoke_methods h is_ws ev | WsOther _ \<Rightarrow> DefaultHandler ev),
      unsafe_op = \<lambda>ev w. (case ev of Write obj f \<Rightarrow> Done (push_out obj f w) | _ \<Rightarrow> Done w),
      log_error = \<lambda>e w. Done (w\<lparr>w_user := (w_user w)\<lparr>ws_errors := ws_errors (w_user w) @ [e]\<rparr>\<rparr>),
      deregister_op = \<lambda>f w. Done w, mark = mk\<rparr>"

section \<open>Paths through the pipeline\<close>

lemma ws_methods [simp]:
  "methods (ws_program h is_ws mk) WsInvoke c ev = invoke_methods h is_ws ev"
  "methods (ws_program h is_ws mk) (WsOther n) c ev = DefaultHandler ev"
  "unsafe_op (ws_program h is_ws mk) (Write obj f) w = Done (push_out obj f w)"
  by (simp_all add: ws_program_def)

definition ws_chain :: "'x ws_world \<Rightarrow> addr list \<Rightarrow> addr \<Rightarrow> addr list \<Rightarrow> bool" where
  "ws_chain w as a bs \<longleftrightarrow> (\<exists>ms ns. user_chain w (as @ a # bs) (map WsOther ms @ WsInvoke # map WsOther ns)
     \<and> length ms = length as)"

lemma ws_chain_state [simp]:
  "ws_chain (w\<lparr>w_user := u\<rparr>) as a bs = ws_chain w as a bs" "ws_chain (w\<lparr>w_futures := n\<rparr>) as a bs = ws_chain w as a bs"
  by (simp_all add: ws_chain_def)

lemma ws_chain_changes [simp]:
  "ws_chain (note_calls cs w) as a bs = ws_chain w as a bs" "ws_chain (push_out obj f w) as a bs = ws_chain w as a bs"
  by (simp_all add: note_calls_def push_out_def)

lemma passing: "h \<in> set (map WsOther ms) \<Longrightarrow> methods (ws_program k is_ws mk) h c ev = DefaultHandler ev"
  by auto

text \<open>What comes from the head reaches the handler, what it passes on comes to the tail.\<close>

lemma ws_down:
  assumes "ws_chain w as a bs" and "goes_next ev" and "given ev"
    and "\<And>vals. deliver (ws_program h is_ws mk) vals ev a w = Some (Done w')"
  shows "fire (ws_program h is_ws mk) (DefaultCtx (head (w_pipe w))) ev w = Some (Done w')"
proof -
  let ?P = "ws_program h is_ws mk"
  from assms(1) obtain ms ns where uc: "user_chain w (as @ a # bs) (map WsOther ms @ WsInvoke # map WsOther ns)"
    and len: "length ms = length as" by (auto simp: ws_chain_def)
  then have wf: "wf_pipeline (w_pipe w) (as @ a # bs)" and la: "list_all2 (user_at w) as (map WsOther ms)"
    by (auto simp: user_chain_def list_all2_append)
  have "on_path w ev ([] @ head (w_pipe w) # (as @ [a]) @ (bs @ [tail (w_pipe w)]))"
    using wf_path_next [OF wf assms(2)] by (simp add: chain_def)
  from path_mid [OF this] have path: "on_path w ev (as @ [a])"
    and nb: "neighbour w ev (head (w_pipe w)) = Some (hd (as @ [a]))" by simp_all
  have "deliver ?P vals ev (hd (as @ [a])) w = Some (Done w')" for vals
    by (rule deliver_passers [OF path la passing assms(3,4)])
  with nb assms(3) show ?thesis by (simp add: fire_given)
qed

lemma ws_to_tail:
  assumes "ws_chain w as a bs" and "goes_next ev" and "given ev" and "ctx_addr c = a"
    and "\<And>vals. deliver (ws_program h is_ws mk) vals ev (tail (w_pipe w)) w = Some (Done w')"
  shows "fire (ws_program h is_ws mk) c ev w = Some (Done w')"
proof -
  let ?P = "ws_program h is_ws mk"
  from assms(1) obtain ms ns where uc: "user_chain w (as @ a # bs) (map WsOther ms @ WsInvoke # map WsOther ns)"
    and len: "length ms = length as" by (auto simp: ws_chain_def)
  then have wf: "wf_pipeline (w_pipe w) (as @ a # bs)" and la: "list_all2 (user_at w) bs (map WsOther ns)"
    by (auto simp: user_chain_def list_all2_append)
  have "on_path w ev ((head (w_pipe w) # as) @ a # (bs @ [tail (w_pipe w)]) @ [])"
    using wf_path_next [OF wf assms(2)] by (simp add: chain_def)
  from path_mid [OF this] have path: "on_path w ev (bs @ [tail (w_pipe w)])"
    and nb: "neighbour w ev a = Some (hd (bs @ [tail (w_pipe w)]))" by simp_all
  have "deliver ?P vals ev (hd (bs @ [tail (w_pipe w)])) w = Some (Done w')" for vals
    by (rule deliver_passers [OF path la passing assms(3,5)])
  with nb assms(3,4) show ?thesis by (simp add: fire_given)
qed

text \<open>What the handler writes goes through the handlers before it and into the buffer.\<close>

lemma ws_write_out:
  assumes "ws_chain w as a bs" and "ctx_addr c = a"
  shows "fire (ws_program h is_ws mk) c (Write obj None) w
    = Some (Done (push_out obj (Some (w_futures w)) (w\<lparr>w_futures := Suc (w_futures w)\<rparr>)))"
proof -
  let ?P = "ws_program h is_ws mk" and ?w = "w\<lparr>w_futures := Suc (w_futures w)\<rparr>"
  let ?ev = "Write obj (Some (w_futures w))"
  from assms(1) obtain ms ns where "user_chain ?w (as @ a # bs) (map WsOther ms @ WsInvoke # map WsOther ns)"
    and len: "length ms = length as" by (auto simp: ws_chain_def)
  then have wf: "wf_pipeline (w_pipe ?w) (as @ a # bs)" and la: "list_all2 (user_at ?w) (rev as) (rev (map WsOther ms))"
    unfolding user_chain_def by (auto simp only: list_all2_append length_map list_all2_rev)
  have "on_path ?w ?ev ((tail (w_pipe w) # rev bs) @ a # (rev as @ [head (w_pipe w)]) @ [])"
    using wf_path_prev [OF wf, of ?ev] by (simp add: chain_def)
  from path_mid [OF this] have path: "on_path ?w ?ev (rev as @ [head (w_pipe w)])"
    and nb: "neighbour ?w ?ev a = Some (hd (rev as @ [head (w_pipe w)]))" by simp_all
  have "deliver ?P vals ?ev (head (w_pipe w)) ?w = Some (Done (push_out obj (Some (w_futures w)) ?w))" for vals
    using deliver_head [OF wf, of ?ev ?P vals] by simp
  then have "deliver ?P vals ?ev (hd (rev as @ [head (w_pipe w)])) ?w
      = Some (Done (push_out obj (Some (w_futures w)) ?w))" for vals
    by (intro deliver_passers [OF path la]) (auto simp: given_def)
  with nb assms(2) show ?thesis by (simp add: fire_def checkFuture_def)
qed

section \<open>Events\<close>

fun answered :: "ws_message list \<Rightarrow> 'x ws_world \<Rightarrow> 'x ws_world" where
  "answered [] w = w"
| "answered (m # ms) w =
     answered ms (push_out (WsMessage m) (Some (w_futures w)) (w\<lparr>w_futures := Suc (w_futures w)\<rparr>))"

lemma answered_facts [simp]:
  "ws_chain (answered ms w) as a bs = ws_chain w as a bs"
  "ws_callbacks (w_user (answered ms w)) = ws_callbacks (w_user w)"
  "map fst (ws_out (w_user (answered ms w))) = map fst (ws_out (w_user w)) @ map WsMessage ms"
  by (induction ms arbitrary: w) (simp_all add: push_out_def)

lemma exec_writes:
  assumes "ws_chain w as a bs" and "ctx_addr c = a"
  shows "exec (ws_program h is_ws mk) c (emit_writes ms Finish) w = Some (Done (answered ms w))"
  using assms(1)
proof (induction ms arbitrary: w)
  case (Cons m ms)
  let ?w = "push_out (WsMessage m) (Some (w_futures w)) (w\<lparr>w_futures := Suc (w_futures w)\<rparr>)"
  have "ws_chain ?w as a bs" using Cons.prems by simp
  from Cons.IH [OF this] ws_write_out [OF Cons.prems assms(2), of h is_ws mk "WsMessage m"]
  show ?case by (simp add: emit_writes_def)
qed (simp add: emit_writes_def)

lemma ws_chain_at: "ws_chain w as a bs \<Longrightarrow> user_at w a WsInvoke"
  by (auto simp: ws_chain_def user_chain_def list_all2_append)

lemma ws_chain_wf: "ws_chain w as a bs \<Longrightarrow> wf_pipeline (w_pipe w) (as @ a # bs)"
  by (auto simp: ws_chain_def user_chain_def)

text \<open>A message reaches the handler, makes its callback, and what that writes goes out.\<close>

lemma message_called:
  assumes ch: "ws_chain w as a bs" and call: "invoke_Read (ih_task h) True (WsMessage m) = Inr (cs, ws, p)"
  shows "pipeline_fire (ws_program h True mk) (Read (WsMessage m)) w
    = Some (Done (answered ws (note_calls (map (\<lambda>c. DidCall c m) cs) w)))"
proof -
  let ?P = "ws_program h True mk" and ?w = "note_calls (map (\<lambda>c. DidCall c m) cs) w"
  have "deliver ?P vals (Read (WsMessage m)) a w = Some (Done (answered ws ?w))" for vals
    using ws_chain_at [OF ch] exec_writes [of ?w as a bs _ h True mk ws] ch
    by (simp add: deliver_def NewWrapHandlerContext_def handler_code_user invoke_methods_def handler_Read_def call)
  from ws_down [OF ch _ _ this] show ?thesis by (simp add: pipeline_fire_def given_def)
qed

text \<open>An event every handler passes on.\<close>

lemma quiet_tail:
  assumes "ws_chain w as a bs" and "ev \<in> {Active, Inactive, ReadCompleted}"
  shows "deliver (ws_program h is_ws mk) vals ev (tail (w_pipe w)) w = Some (Done w)"
  using assms(2) deliver_tail [OF ws_chain_wf [OF assms(1)], of ev "ws_program h is_ws mk" vals]
  by (auto simp: given_def)

lemma completed_quiet:
  assumes ch: "ws_chain w as a bs"
  shows "pipeline_fire (ws_program h is_ws mk) ReadCompleted w = Some (Done w)"
proof -
  let ?P = "ws_program h is_ws mk"
  have "fire ?P c ReadCompleted w = Some (Done w)" if "ctx_addr c = a" for c
    by (rule ws_to_tail [OF ch _ _ that quiet_tail [OF ch]]) (simp_all add: given_def)
  then have "deliver ?P vals ReadCompleted a w = Some (Done w)" for vals
    using ws_chain_at [OF ch]
    by (simp add: deliver_def NewWrapHandlerContext_def handler_code_user invoke_methods_def DefaultHandler_def)
  from ws_down [OF ch _ _ this] show ?thesis by (simp add: pipeline_fire_def given_def)
qed

text \<open>A callback that changes the task's own state only.\<close>

definition app_only :: "(params \<Rightarrow> 'x ws_world \<Rightarrow> 'x ws_world outcome) \<Rightarrow> (params \<Rightarrow> 'x \<Rightarrow> 'x) \<Rightarrow> bool" where
  "app_only g f \<longleftrightarrow> (\<forall>ps w. g ps w = Done (w\<lparr>w_user := (w_user w)\<lparr>ws_app := f ps (ws_app (w_user w))\<rparr>\<rparr>))"

definition app_step :: "ws_callback \<Rightarrow> ('x \<Rightarrow> 'x) \<Rightarrow> 'x ws_world \<Rightarrow> 'x ws_world" where
  "app_step c f w = w\<lparr>w_user := (w_user w)\<lparr>ws_callbacks := ws_callbacks (w_user w) @ [c],
     ws_app := f (ws_app (w_user w))\<rparr>\<rparr>"

lemma app_step_facts [simp]:
  "ws_chain (app_step c f w) as a bs = ws_chain w as a bs"
  "ws_callbacks (w_user (app_step c f w)) = ws_callbacks (w_user w) @ [c]"
  "ws_out (w_user (app_step c f w)) = ws_out (w_user w)"
  by (simp_all add: app_step_def)

lemma activity_called:
  assumes ch: "ws_chain w as a bs"
  shows "app_only (ih_connected h) f \<Longrightarrow> pipeline_fire (ws_program h True mk) Active w
      = Some (Done (app_step DidConnect (f (ih_params h)) w))"
    and "app_only (ih_disconnected h) g \<Longrightarrow> pipeline_fire (ws_program h True mk) Inactive w
      = Some (Done (app_step DidDisconnect (g (ih_params h)) w))"
proof -
  let ?P = "ws_program h True mk"
  have on: "fire ?P c ev (app_step d k w) = Some (Done (app_step d k w))"
    if "ctx_addr c = a" and "ev \<in> {Active, Inactive}" for c d k and ev :: "ws_obj event"
  proof (rule ws_to_tail [OF _ _ _ that(1)])
    show "ws_chain (app_step d k w) as a bs" using ch by simp
    then show "deliver ?P vals ev (tail (w_pipe (app_step d k w))) (app_step d k w)
        = Some (Done (app_step d k w))" for vals
      using that(2) by (intro quiet_tail) auto
  qed (use that(2) in \<open>auto simp: given_def\<close>)
  note reach = deliver_def NewWrapHandlerContext_def handler_code_user invoke_methods_def
  have step: "app_only q k \<Longrightarrow> q ps (note_calls [d] w) = Done (app_step d (k ps) w)" for q k ps d
    by (simp add: app_only_def note_calls_def app_step_def)
  show "pipeline_fire ?P Active w = Some (Done (app_step DidConnect (f (ih_params h)) w))"
    if "app_only (ih_connected h) f"
  proof -
    have "deliver ?P vals Active a w = Some (Done (app_step DidConnect (f (ih_params h)) w))" for vals
      using ws_chain_at [OF ch] on step [OF that] by (simp add: reach handler_Active_def)
    from ws_down [OF ch _ _ this] show ?thesis by (simp add: pipeline_fire_def given_def)
  qed
  show "pipeline_fire ?P Inactive w = Some (Done (app_step DidDisconnect (g (ih_params h)) w))"
    if "app_only (ih_disconnected h) g"
  proof -
    have "deliver ?P vals Inactive a w = Some (Done (app_step DidDisconnect (g (ih_params h)) w))" for vals
      using ws_chain_at [OF ch] on step [OF that] by (simp add: reach handler_Inactive_def)
    from ws_down [OF ch _ _ this] show ?thesis by (simp add: pipeline_fire_def given_def)
  qed
qed


section \<open>A connection\<close>

fun fire_all ::
  "(ws_handler, 'x ws_side, ws_obj, 'v) program \<Rightarrow> ws_obj event list \<Rightarrow> 'x ws_world \<Rightarrow> 'x ws_world run" where
  "fire_all P [] w = Some (Done w)"
| "fire_all P (ev # evs) w = seq_run (pipeline_fire P ev w) (fire_all P evs)"

lemma fire_all_append: "fire_all P (evs @ evs') w = seq_run (fire_all P evs w) (fire_all P evs')"
proof (induction evs arbitrary: w)
  case (Cons ev evs)
  then have "fire_all P (evs @ evs') = (\<lambda>s. seq_run (fire_all P evs s) (fire_all P evs'))" by (rule ext)
  then show ?case by (simp add: seq_run_assoc)
qed simp

text \<open>
  The events of one turn of the reading goroutine: what the control handlers of the channel fire while it
  reads, then \<open>FireRead\<close> of the message it answers.
\<close>

definition read_events :: "ws_event list \<times> ws_read \<Rightarrow> ws_obj event list" where
  "read_events r = map (\<lambda>e. case e of WsRead m \<Rightarrow> Read (WsMessage m) | WsReadCompleted \<Rightarrow> ReadCompleted) (fst r)
     @ (case snd r of WsGot m \<Rightarrow> [Read (WsMessage m)] | _ \<Rightarrow> [])"

definition messages_in :: "ws_obj event list \<Rightarrow> ws_message list" where
  "messages_in evs = [m. Read (WsMessage m) \<leftarrow> evs]"

lemma messages_in_append [simp]: "messages_in (evs @ evs') = messages_in evs @ messages_in evs'"
  by (simp add: messages_in_def)

lemma messages_in_reads: "messages_in (read_events r) = delivered r"
proof -
  have "messages_in (map (\<lambda>e. case e of WsRead m \<Rightarrow> Read (WsMessage m) | WsReadCompleted \<Rightarrow> ReadCompleted) es)
      = [m. WsRead m \<leftarrow> es]" for es
    by (induction es) (simp_all add: messages_in_def split: ws_event.split)
  then show ?thesis
    by (simp add: read_events_def delivered_def) (simp add: messages_in_def split: ws_read.split)
qed

definition callback_of :: "ws_task \<Rightarrow> ws_message \<Rightarrow> ws_callback" where
  "callback_of k m = DidCall (fst (the (meant k m))) m"

definition replies_to :: "ws_task \<Rightarrow> ws_message \<Rightarrow> ws_message list" where
  "replies_to k m = fst (snd (ws_Call k m))"

lemma call_of_meant:
  assumes "meant k m \<noteq> None"
  shows "\<exists>c p. invoke_Read k True (WsMessage m) = Inr ([c], replies_to k m, p) \<and> callback_of k m = DidCall c m"
proof -
  from assms obtain c ws p where e: "meant k m = Some (c, ws, p)" by auto
  with call_meant [OF e] show ?thesis
    by (auto simp: invoke_Read_def ws_Call_def replies_to_def callback_of_def split: option.splits)
qed

lemma reads_called:
  assumes "ws_chain w as a bs"
    and "\<And>ev. ev \<in> set evs \<Longrightarrow> ev = ReadCompleted \<or> (\<exists>m. ev = Read (WsMessage m) \<and> meant (ih_task h) m \<noteq> None)"
  shows "\<exists>w'. fire_all (ws_program h True mk) evs w = Some (Done w') \<and> ws_chain w' as a bs
    \<and> ws_callbacks (w_user w') = ws_callbacks (w_user w) @ map (callback_of (ih_task h)) (messages_in evs)
    \<and> map fst (ws_out (w_user w')) = map fst (ws_out (w_user w))
        @ map WsMessage (concat (map (replies_to (ih_task h)) (messages_in evs)))"
  using assms
proof (induction evs arbitrary: w)
  case Nil
  then show ?case by (simp add: messages_in_def)
next
  case (Cons ev evs)
  from Cons.prems(2) [of ev] consider "ev = ReadCompleted"
    | m where "ev = Read (WsMessage m)" "meant (ih_task h) m \<noteq> None" by auto
  then show ?case
  proof cases
    case 1
    with Cons.IH [OF Cons.prems(1)] Cons.prems(2) completed_quiet [OF Cons.prems(1), of h True mk]
    show ?thesis by (simp add: messages_in_def)
  next
    case (2 m)
    from call_of_meant [OF 2(2)] obtain c p where
      c: "invoke_Read (ih_task h) True (WsMessage m) = Inr ([c], replies_to (ih_task h) m, p)"
        "callback_of (ih_task h) m = DidCall c m" by blast
    let ?w = "answered (replies_to (ih_task h) m) (note_calls [DidCall c m] w)"
    have "ws_chain ?w as a bs" using Cons.prems(1) by simp
    from Cons.IH [OF this] Cons.prems(2) obtain w' where
      "fire_all (ws_program h True mk) evs ?w = Some (Done w')" "ws_chain w' as a bs"
      "ws_callbacks (w_user w') = ws_callbacks (w_user ?w) @ map (callback_of (ih_task h)) (messages_in evs)"
      "map fst (ws_out (w_user w')) = map fst (ws_out (w_user ?w))
        @ map WsMessage (concat (map (replies_to (ih_task h)) (messages_in evs)))"
      by auto
    with message_called [OF Cons.prems(1) c(1), of mk] 2(1) c(2)
    show ?thesis by (simp add: messages_in_def note_calls_def)
  qed
qed

text \<open>
  The life of a WebSocket connection as its task sees it: \<open>WSConnected\<close> first, then one callback for
  each message the reads deliver, control frames included, the callback of its kind and in the order
  received, then \<open>WSDisconnected\<close>; and what the callbacks write is handed to the connection in that order,
  whatever other handlers that pass events on stand in the pipeline.
\<close>

theorem connection_callbacks:
  assumes "ws_chain w as a bs"
    and "app_only (ih_connected h) f" and "app_only (ih_disconnected h) g"
    and "\<forall>r \<in> set rs. \<exists>ch ch'. ws_UnsafeRead W ps ch = (r, ch')"
    and "\<forall>v ctl t bs v'. ReadMessage W v = ((ctl, Inr (t, bs)), v') \<longrightarrow> t \<in> {1, 2}"
  shows "\<exists>w'. fire_all (ws_program h True mk) (Active # concat (map read_events rs) @ [Inactive]) w = Some (Done w')
    \<and> ws_callbacks (w_user w') = ws_callbacks (w_user w)
        @ [DidConnect] @ map (callback_of (ih_task h)) (concat (map delivered rs)) @ [DidDisconnect]
    \<and> map fst (ws_out (w_user w')) = map fst (ws_out (w_user w))
        @ map WsMessage (concat (map (replies_to (ih_task h)) (concat (map delivered rs))))"
proof -
  let ?P = "ws_program h True mk" and ?evs = "concat (map read_events rs)"
  let ?w = "app_step DidConnect (f (ih_params h)) w"
  have msgs: "messages_in ?evs = concat (map delivered rs)"
    by (induction rs) (simp_all add: messages_in_reads, simp add: messages_in_def)
  have kinds: "ev = ReadCompleted \<or> (\<exists>m. ev = Read (WsMessage m) \<and> meant (ih_task h) m \<noteq> None)"
    if "ev \<in> set ?evs" for ev
  proof -
    from that obtain r where r: "r \<in> set rs" "ev \<in> set (read_events r)" by auto
    then have "ev = ReadCompleted \<or> (\<exists>m. ev = Read (WsMessage m) \<and> m \<in> set (delivered r))"
      by (auto simp: read_events_def delivered_def split: ws_event.splits ws_read.splits)
    with r(1) assms(4,5) delivered_meant show ?thesis by metis
  qed
  have "ws_chain ?w as a bs" using assms(1) by simp
  note called = reads_called [where mk = mk and evs = ?evs, OF this kinds]
  from called obtain w1 where
    w1: "fire_all ?P ?evs ?w = Some (Done w1)" "ws_chain w1 as a bs"
      "ws_callbacks (w_user w1) = ws_callbacks (w_user ?w) @ map (callback_of (ih_task h)) (messages_in ?evs)"
      "map fst (ws_out (w_user w1)) = map fst (ws_out (w_user ?w))
        @ map WsMessage (concat (map (replies_to (ih_task h)) (messages_in ?evs)))"
    by (auto simp only:)
  from activity_called(1) [OF assms(1,2), of mk] activity_called(2) [OF w1(2) assms(3), of mk] w1
  show ?thesis by (simp add: fire_all_append msgs)
qed


text \<open>
  A panic of \<open>WSConnected\<close> ends in this handler's own \<open>ErrorCaught\<close>, which logs it: the handlers behind
  see no Active, and the connection goes on.
\<close>

lemma connected_panic:
  assumes ch: "ws_chain w as a bs" and pan: "ih_connected h (ih_params h) (note_calls [DidConnect] w) = Panicked e w1"
    and pipe: "w_pipe w1 = w_pipe w"
  shows "pipeline_fire (ws_program h True mk) Active w
    = Some (Done (w1\<lparr>w_user := (w_user w1)\<lparr>ws_errors := ws_errors (w_user w1) @ [CaughtPanic e]\<rparr>\<rparr>))"
proof -
  let ?P = "ws_program h True mk"
  have at: "user_at w a WsInvoke" "user_at w1 a WsInvoke"
    using ws_chain_at [OF ch] pipe by (simp_all add: user_at_def)
  have "deliver ?P vals Active a w
      = Some (Done (w1\<lparr>w_user := (w_user w1)\<lparr>ws_errors := ws_errors (w_user w1) @ [CaughtPanic e]\<rparr>\<rparr>))" for vals
    using at pan
    by (simp add: deliver_def recovered_def NewWrapHandlerContext_def handler_code_user invoke_methods_def
        handler_Active_def handler_ErrorCaught_def)
  from ws_down [OF ch _ _ this] show ?thesis by (simp add: pipeline_fire_def given_def)
qed

text \<open>A channel after the upgrade, and a connection that sends a ping and a text.\<close>

definition ws_pipe :: "ws_handler pipeline" where
  "ws_pipe = \<lparr>heap = [0 \<mapsto> \<lparr>ctx_name = PipelineHeadHandlerContextName, ctx_handler = Some HeadHandler,
        ctx_next = Some 2, ctx_prev = None\<rparr>,
      1 \<mapsto> \<lparr>ctx_name = PipelineTailHandlerContextName, ctx_handler = Some TailHandler,
        ctx_next = None, ctx_prev = Some 3\<rparr>,
      2 \<mapsto> \<lparr>ctx_name = ''NET_STATUS'', ctx_handler = Some (UserHandler (WsOther 0)),
        ctx_next = Some 3, ctx_prev = Some 0\<rparr>,
      3 \<mapsto> \<lparr>ctx_name = ''WS_HANDLER'', ctx_handler = Some (UserHandler WsInvoke),
        ctx_next = Some 1, ctx_prev = Some 2\<rparr>],
    head = 0, tail = 1, fresh = 4\<rparr>"

definition ws_start :: "nat ws_world" where
  "ws_start = \<lparr>w_pipe = ws_pipe, w_futures = 0,
     w_user = \<lparr>ws_callbacks = [], ws_out = [], ws_errors = [], ws_app = 0\<rparr>\<rparr>"

definition counting :: "params \<Rightarrow> nat ws_world \<Rightarrow> nat ws_world outcome" where
  "counting ps w = Done (w\<lparr>w_user := (w_user w)\<lparr>ws_app := Suc (ws_app (w_user w))\<rparr>\<rparr>)"

lemma ws_start_chain: "ws_chain ws_start [2] 3 []"
proof -
  have "set (chain ws_pipe [2, 3]) = {0, 1, 2, 3}" by (auto simp: chain_def ws_pipe_def)
  then have "user_chain ws_start ([2] @ 3 # []) (map WsOther [0] @ WsInvoke # map WsOther [])"
    by (auto simp: user_chain_def ws_start_def ws_pipe_def wf_pipeline_def chain_def is_sentinel_def
        user_at_def entry_def split: if_splits)
  then show ?thesis unfolding ws_chain_def by (intro exI [of _ "[0]"] exI [of _ "[]"]) simp
qed

theorem connection_callbacks_witness:
  "\<exists>w'. fire_all (ws_program (NewInvokeHandler (default_ws_task 0) counting counting None) True (\<lambda>a. a))
       (Active # read_events (handle_control (GotPing [7, 8]), WsGot (ParseMessage 1 (Some [104]))) @ [Inactive]) ws_start
     = Some (Done w')
   \<and> ws_callbacks (w_user w') = [DidConnect, DidCall CalledPing (build_Ping (Some [7, 8]) None),
       DidCall CalledText (ParseMessage 1 (Some [104])), DidDisconnect]
   \<and> map fst (ws_out (w_user w')) = [WsMessage (build_Pong (Some [7, 8]) (Some (60 * 10 ^ 9)))]"
proof -
  let ?h = "NewInvokeHandler (default_ws_task 0) counting counting None :: nat invoke_handler"
  let ?r = "(handle_control (GotPing [7, 8]), WsGot (ParseMessage 1 (Some [104])))"
  have count: "app_only (ih_connected ?h) (\<lambda>_. Suc)" "app_only (ih_disconnected ?h) (\<lambda>_. Suc)"
    by (simp_all add: NewInvokeHandler_def app_only_def counting_def)
  have read: "\<forall>r \<in> set [?r]. \<exists>ch ch'. ws_UnsafeRead demo_ws Map.empty ch = (r, ch')"
    using demo_read by auto
  have kinds: "\<forall>v ctl t bs v'. ReadMessage demo_ws v = ((ctl, Inr (t, bs)), v') \<longrightarrow> t \<in> {1, 2}"
    by (simp add: demo_ws_def)
  have ans: "callback_of (default_ws_task 0) (build_Ping (Some [7, 8]) None) = DidCall CalledPing (build_Ping (Some [7, 8]) None)"
    "callback_of (default_ws_task 0) (ParseMessage 1 (Some [104])) = DidCall CalledText (ParseMessage 1 (Some [104]))"
    "replies_to (default_ws_task 0) (build_Ping (Some [7, 8]) None) = [build_Pong (Some [7, 8]) (Some (60 * 10 ^ 9))]"
    "replies_to (default_ws_task 0) (ParseMessage 1 (Some [104])) = []"
    by (simp_all add: callback_of_def replies_to_def ws_Call_def call_by_type_def build_Ping_def build_Pong_def
        ParseMessage_def type_codes default_ws_task_def default_WSPing_def)
  have task: "ih_task ?h = default_ws_task 0" by (simp add: NewInvokeHandler_def)
  have start: "ws_callbacks (w_user ws_start) = []" "ws_out (w_user ws_start) = []" by (simp_all add: ws_start_def)
  have once: "concat (map read_events [?r]) = read_events ?r" by (simp only: list.map concat.simps append_Nil2)
  have got: "concat (map delivered [?r]) = [build_Ping (Some [7, 8]) None, ParseMessage 1 (Some [104])]"
    by (simp only: list.map concat.simps append_Nil2 demo_delivered) (simp add: control_msg_def)
  from connection_callbacks [where mk = "\<lambda>a. a", OF ws_start_chain count read kinds]
  show ?thesis unfolding once got task start
    by (simp only: list.map concat.simps ans append.simps append_Nil2 list.simps)
qed

end
