(* ===== verification/Gws_EndToEnd.thy ===== *)
theory Gws_EndToEnd
  imports Gws_Handler
begin

text \<open>
  A WebSocket from one end to the other: messages written by \<open>UnsafeWrite\<close> of one channel, carried by the
  WebSocket library, read by \<open>UnsafeRead\<close> of the other and handed to its task by the handler of
  \<open>Gws_Handler\<close>. What the library does with frames is the locale \<open>ws_wire\<close>.
\<close>

section \<open>The wire\<close>

text \<open>A frame with the type of its message; the body of a close frame is code and reason.\<close>

datatype ws_frame = DataFrame int "byte list" | ControlFrame int "byte list"

definition control_of :: "ws_frame \<Rightarrow> control_frame" where
  "control_of f = (case f of
       DataFrame _ bs \<Rightarrow> GotPing bs
     | ControlFrame t bs \<Rightarrow> if t = 9 then GotPing bs else if t = 10 then GotPong bs
         else GotClose (fst (parse_close bs)) (snd (parse_close bs)))"

definition quiet_frame :: "ws_frame \<Rightarrow> bool" where
  "quiet_frame f = (case f of DataFrame _ _ \<Rightarrow> False | ControlFrame t _ \<Rightarrow> t = 9 \<or> t = 10)"

definition open_end :: "ws_frame list \<Rightarrow> bool" where
  "open_end fs \<longleftrightarrow> (\<forall>bs. ControlFrame 8 bs \<notin> set fs)"

text \<open>
  What gorilla/websocket documents: a message is written as one frame of its type, a control frame has at
  most 125 bytes and must be written before its deadline, nothing is written after a close frame;
  \<open>ReadMessage\<close> calls the handlers of the control frames before the next message and answers that, and an
  error when it has handled a close frame with a code it accepts. A read limit of 0 is none.
\<close>

locale ws_wire =
  fixes W :: "'w ws_ops"
    and sent :: "'w \<Rightarrow> ws_frame list"
    and inbox :: "'w \<Rightarrow> ws_frame list"
    and timely :: "int \<Rightarrow> bool"
    and accepts :: "int \<Rightarrow> bool"
  assumes write_data: "t \<in> {1, 2} \<Longrightarrow> open_end (sent w) \<Longrightarrow>
      \<exists>w'. WriteMessage W t bs w = (None, w') \<and> sent w' = sent w @ [DataFrame t bs]"
    and write_control: "t \<in> {8, 9, 10} \<Longrightarrow> length bs \<le> 125 \<Longrightarrow> timely d \<Longrightarrow> open_end (sent w) \<Longrightarrow>
      \<exists>w'. WriteControl W t bs d w = (None, w') \<and> sent w' = sent w @ [ControlFrame t bs]"
    and read_data: "inbox w = cs @ DataFrame t bs # fs \<Longrightarrow> list_all quiet_frame cs \<Longrightarrow> t \<in> {1, 2} \<Longrightarrow>
      \<exists>w'. ReadMessage W (SetReadLimit W 0 w) = ((map control_of cs, Inr (t, bs)), w') \<and> inbox w' = fs"
    and read_close: "inbox w = cs @ ControlFrame 8 bs # fs \<Longrightarrow> list_all quiet_frame cs \<Longrightarrow>
      accepts (fst (parse_close bs)) \<Longrightarrow>
      \<exists>e w'. ReadMessage W (SetReadLimit W 0 w) = ((map control_of (cs @ [ControlFrame 8 bs]), Inl e), w')"
    and read_kinds: "ReadMessage W w = ((ctl, Inr (t, bs)), w') \<Longrightarrow> t \<in> {1, 2}"

section \<open>Messages\<close>

text \<open>
  A message of the package that can be sent, its frame, and the message the other side makes of it: a nil
  body arrives empty, a deadline stays here, a close code is cut to 16 bits and 1005 has no reason.
\<close>

fun body_of :: "ws_message \<Rightarrow> int \<times> byte list" where
  "body_of (DefaultMsg b) = (MessageType b, bytes_of (Message b))"
| "body_of (CloseMsg b c) = (8, fst (close_Encoded b c))"
| "body_of (PingMsg b) = (9, bytes_of (Message b))"
| "body_of (PongMsg b) = (10, bytes_of (Message b))"
| "body_of _ = (0, [])"

fun is_data :: "ws_message \<Rightarrow> bool" where
  "is_data (DefaultMsg b) \<longleftrightarrow> MessageType b \<in> {1, 2}"
| "is_data _ \<longleftrightarrow> False"

fun is_ping_pong :: "(int \<Rightarrow> bool) \<Rightarrow> int \<Rightarrow> ws_message \<Rightarrow> bool" where
  "is_ping_pong timely now (PingMsg b) \<longleftrightarrow>
     MessageType b = 9 \<and> length (bytes_of (Message b)) \<le> 125 \<and> timely (control_deadline now (Dead b))"
| "is_ping_pong timely now (PongMsg b) \<longleftrightarrow>
     MessageType b = 10 \<and> length (bytes_of (Message b)) \<le> 125 \<and> timely (control_deadline now (Dead b))"
| "is_ping_pong timely now _ \<longleftrightarrow> False"

fun is_closing :: "(int \<Rightarrow> bool) \<Rightarrow> (int \<Rightarrow> bool) \<Rightarrow> int \<Rightarrow> ws_message \<Rightarrow> bool" where
  "is_closing timely accepts now (CloseMsg b c) \<longleftrightarrow>
     MessageType b = 8 \<and> length (bytes_of (Message b)) \<le> 123 \<and> timely (control_deadline now (Dead b))
       \<and> accepts (if c = 1005 then 1005 else c mod 65536)"
| "is_closing timely accepts now _ \<longleftrightarrow> False"

definition frame_of :: "ws_message \<Rightarrow> ws_frame" where
  "frame_of m = (case body_of m of (t, bs) \<Rightarrow> if t \<in> {1, 2} then DataFrame t bs else ControlFrame t bs)"

fun received :: "ws_message \<Rightarrow> ws_message" where
  "received (DefaultMsg b) = DefaultMsg \<lparr>MessageType = MessageType b, Message = Some (bytes_of (Message b)), Dead = None\<rparr>"
| "received (CloseMsg b c) = build_Close (Some (if c = 1005 then [] else bytes_of (Message b)))
     (if c = 1005 then 1005 else c mod 65536)"
| "received (PingMsg b) = build_Ping (Some (bytes_of (Message b))) None"
| "received (PongMsg b) = build_Pong (Some (bytes_of (Message b))) None"
| "received m = m"

lemma close_frame:
  "c = 1005 \<Longrightarrow> fst (close_Encoded b c) = []"
  "c \<noteq> 1005 \<Longrightarrow> fst (close_Encoded b c) = be_bytes 2 (unat (word_of_int c :: u16)) @ bytes_of (Message b)"
  by (simp_all add: close_Encoded_def CloseNoStatusReceived_def bytes_of_def)

lemma close_read: "parse_close (fst (close_Encoded b c))
    = (if c = 1005 then (1005, []) else (c mod 65536, bytes_of (Message b)))"
  by (auto simp: close_frame parse_close_frame uint_word_of_int zmod_int) (simp add: parse_close_def)

lemma control_received:
  "is_ping_pong timely now m \<Longrightarrow> control_msg (control_of (frame_of m)) = received m"
  "is_closing timely accepts now m \<Longrightarrow> control_msg (control_of (frame_of m)) = received m"
  by (cases m; auto simp: frame_of_def control_of_def control_msg_def close_read)+

lemma data_received: "is_data m \<Longrightarrow> ParseMessage (fst (body_of m)) (Some (snd (body_of m))) = received m"
  by (cases m) (auto simp: ParseMessage_def type_codes)

lemma frames:
  "is_data m \<Longrightarrow> frame_of m = DataFrame (fst (body_of m)) (snd (body_of m)) \<and> fst (body_of m) \<in> {1, 2}"
  "is_ping_pong timely now m \<Longrightarrow> quiet_frame (frame_of m)"
  "is_closing timely accepts now m \<Longrightarrow> frame_of m = ControlFrame 8 (snd (body_of m))"
  by (cases m; auto simp: frame_of_def quiet_frame_def)+

lemma open_end_append: "open_end (fs @ [f]) \<longleftrightarrow> open_end fs \<and> (\<forall>bs. f \<noteq> ControlFrame 8 bs)"
  by (auto simp: open_end_def)

section \<open>Writing\<close>

definition sendable :: "(int \<Rightarrow> bool) \<Rightarrow> (int \<Rightarrow> bool) \<Rightarrow> int \<Rightarrow> ws_message \<Rightarrow> bool" where
  "sendable timely accepts now m \<longleftrightarrow> is_data m \<or> is_ping_pong timely now m \<or> is_closing timely accepts now m"

context ws_wire
begin

lemma message_written:
  assumes "sendable timely accepts now m" and "wc_active ch" and "wsConn ch = Some w" and "open_end (sent w)"
  shows "\<exists>w'. ws_UnsafeWrite W now (WsMessage m) ch = (Inr None, ch\<lparr>wsConn := Some w'\<rparr>)
    \<and> sent w' = sent w @ [frame_of m]"
proof (cases m)
  case (DefaultMsg b)
  with assms(1) have t: "MessageType b \<in> {1, 2}" by (simp add: sendable_def)
  from write_data [OF this assms(4)] obtain w' where
    "WriteMessage W (MessageType b) (bytes_of (Message b)) w = (None, w')"
    "sent w' = sent w @ [DataFrame (MessageType b) (bytes_of (Message b))]" by blast
  with DefaultMsg assms(2,3) t show ?thesis
    by (intro exI [of _ w']) (simp add: ws_UnsafeWrite_def send_message_def frame_of_def)
next
  case (CloseMsg b c)
  with assms(1) have c: "MessageType b = 8" "length (bytes_of (Message b)) \<le> 123"
    "timely (control_deadline now (Dead b))" by (simp_all add: sendable_def)
  obtain bs b' where enc: "close_Encoded b c = (bs, b')" by fastforce
  then have b': "MessageType b' = 8" "Dead b' = Dead b"
    using c(1) by (auto simp: close_Encoded_def Let_def split: if_splits)
  have "length bs \<le> 125" using c(2) close_frame [of c b] enc by (cases "c = 1005") auto
  from write_control [of 8, OF _ this c(3) assms(4)] obtain w' where
    "WriteControl W 8 bs (control_deadline now (Dead b)) w = (None, w')" "sent w' = sent w @ [ControlFrame 8 bs]" by blast
  with CloseMsg assms(2,3) enc b' show ?thesis
    by (intro exI [of _ w']) (simp add: ws_UnsafeWrite_def send_message_def frame_of_def)
next
  case (PingMsg b)
  with assms(1) have c: "MessageType b = 9" "length (bytes_of (Message b)) \<le> 125"
    "timely (control_deadline now (Dead b))" by (simp_all add: sendable_def)
  from write_control [of 9, OF _ c(2,3) assms(4)] obtain w' where
    "WriteControl W 9 (bytes_of (Message b)) (control_deadline now (Dead b)) w = (None, w')"
    "sent w' = sent w @ [ControlFrame 9 (bytes_of (Message b))]" by blast
  with PingMsg assms(2,3) c(1) show ?thesis
    by (intro exI [of _ w']) (simp add: ws_UnsafeWrite_def send_message_def frame_of_def)
next
  case (PongMsg b)
  with assms(1) have c: "MessageType b = 10" "length (bytes_of (Message b)) \<le> 125"
    "timely (control_deadline now (Dead b))" by (simp_all add: sendable_def)
  from write_control [of 10, OF _ c(2,3) assms(4)] obtain w' where
    "WriteControl W 10 (bytes_of (Message b)) (control_deadline now (Dead b)) w = (None, w')"
    "sent w' = sent w @ [ControlFrame 10 (bytes_of (Message b))]" by blast
  with PongMsg assms(2,3) c(1) show ?thesis
    by (intro exI [of _ w']) (simp add: ws_UnsafeWrite_def send_message_def frame_of_def)
qed (use assms(1) in \<open>simp_all add: sendable_def\<close>)

text \<open>A close message comes last.\<close>

lemma messages_written:
  assumes "list_all (sendable timely accepts now) ms" and "list_all (\<lambda>m. \<not> is_closing timely accepts now m) (butlast ms)"
    and "wc_active ch" and "wsConn ch = Some w" and "open_end (sent w)"
  shows "\<exists>w'. write_all W now ms ch = (Inr None, ch\<lparr>wsConn := Some w'\<rparr>) \<and> sent w' = sent w @ map frame_of ms"
  using assms
proof (induction ms arbitrary: ch w)
  case Nil
  then show ?case by (cases ch) auto
next
  case (Cons m ms)
  from Cons.prems(1) message_written [OF _ Cons.prems(3-5), of now m] obtain w1 where
    w1: "ws_UnsafeWrite W now (WsMessage m) ch = (Inr None, ch\<lparr>wsConn := Some w1\<rparr>)"
      "sent w1 = sent w @ [frame_of m]" by auto
  show ?case
  proof (cases "ms = []")
    case True
    with w1 show ?thesis by auto
  next
    case False
    with Cons.prems(1,2) have "is_data m \<or> is_ping_pong timely now m" by (auto simp: sendable_def)
    then have "\<forall>bs. frame_of m \<noteq> ControlFrame 8 bs"
      using frames(1) [of m] frames(2) [of timely now m] by (auto simp: quiet_frame_def)
    with w1(2) Cons.prems(5) have op: "open_end (sent w1)" by (simp add: open_end_append)
    have "list_all (\<lambda>m. \<not> is_closing timely accepts now m) (butlast ms)" using Cons.prems(2) False by simp
    with Cons.IH [of "ch\<lparr>wsConn := Some w1\<rparr>" w1] Cons.prems(1,3) op w1 show ?thesis by auto
  qed
qed

end

section \<open>Reading\<close>

text \<open>The answers of the first n turns of the reading goroutine, with the events each fired.\<close>

fun ws_reads :: "'w ws_ops \<Rightarrow> params \<Rightarrow> nat \<Rightarrow> 'w ws_channel \<Rightarrow> (ws_event list \<times> ws_read) list" where
  "ws_reads W ps 0 ch = []"
| "ws_reads W ps (Suc n) ch = (case ws_UnsafeRead W ps ch of (r, ch') \<Rightarrow> r # ws_reads W ps n ch')"

lemma ws_reads_each: "r \<in> set (ws_reads W ps n ch) \<Longrightarrow> \<exists>ch ch'. ws_UnsafeRead W ps ch = (r, ch')"
proof (induction n arbitrary: ch)
  case (Suc n)
  obtain r1 ch1 where "ws_UnsafeRead W ps ch = (r1, ch1)" by fastforce
  with Suc show ?case by auto
qed simp

text \<open>One read for each message that ends one: text, binary or close.\<close>

definition ends_read :: "ws_message \<Rightarrow> bool" where
  "ends_read m = (case m of DefaultMsg _ \<Rightarrow> True | CloseMsg _ _ \<Rightarrow> True | _ \<Rightarrow> False)"

definition reads_for :: "ws_message list \<Rightarrow> nat" where
  "reads_for ms = length (filter ends_read ms)"

lemma sendable_kinds:
  "sendable timely accepts now m \<Longrightarrow> \<not> ends_read m \<Longrightarrow> is_ping_pong timely now m"
  "sendable timely accepts now m \<Longrightarrow> ends_read m \<Longrightarrow> is_data m \<or> is_closing timely accepts now m"
  by (cases m; auto simp: sendable_def ends_read_def)+

lemma split_first:
  assumes "ms \<noteq> []" and "ends_read (last ms)"
  obtains cs e rest where "ms = cs @ e # rest" "list_all (\<lambda>m. \<not> ends_read m) cs" "ends_read e"
    "rest = [] \<or> ends_read (last rest)" "reads_for ms = Suc (reads_for rest)"
proof -
  from assms have "\<exists>m \<in> set ms. ends_read m" by (metis last_in_set)
  from split_list_first_prop [OF this] obtain cs e rest where
    s: "ms = cs @ e # rest" "ends_read e" "\<forall>m \<in> set cs. \<not> ends_read m" by blast
  then have "rest = [] \<or> ends_read (last rest)" using assms(2) by (cases "rest = []") simp_all
  moreover have "reads_for ms = Suc (reads_for rest)" using s by (simp add: reads_for_def)
  ultimately show ?thesis using that s by (simp add: list_all_iff)
qed

definition open_reader :: "params \<Rightarrow> 'w ws_channel \<Rightarrow> 'w \<Rightarrow> bool" where
  "open_reader ps ch w \<longleftrightarrow> wc_conn ch \<and> wc_active ch \<and> wsConn ch = Some w
     \<and> GetParamInt64Default ps ''ws_read_limit'' 0 = 0"

lemma open_read:
  assumes "open_reader ps ch w" and "ReadMessage W (SetReadLimit W 0 w) = ((ctl, x), w')"
  shows "\<exists>r. ws_UnsafeRead W ps ch = (r, ch\<lparr>wsConn := Some w'\<rparr>)
    \<and> delivered r = map control_msg ctl @ (case x of Inl _ \<Rightarrow> [] | Inr (t, bs) \<Rightarrow> [ParseMessage t (Some bs)])"
  using assms by (cases x) (auto simp: ws_UnsafeRead_def open_reader_def delivered_reads split: prod.splits)

context ws_wire
begin

lemma data_read:
  assumes "open_reader ps ch w" and "inbox w = map frame_of cs @ frame_of e # fs"
    and "list_all (is_ping_pong timely now) cs" and "is_data e"
  shows "\<exists>r w'. ws_UnsafeRead W ps ch = (r, ch\<lparr>wsConn := Some w'\<rparr>) \<and> inbox w' = fs
    \<and> delivered r = map received (cs @ [e])"
proof -
  have q: "list_all quiet_frame (map frame_of cs)" using assms(3) frames(2) by (auto simp: list_all_iff)
  have c: "map control_msg (map control_of (map frame_of cs)) = map received cs"
    using assms(3) control_received(1) by (auto simp: list_all_iff)
  from assms(2) frames(1) [OF assms(4)] have
    "inbox w = map frame_of cs @ DataFrame (fst (body_of e)) (snd (body_of e)) # fs" by simp
  from read_data [OF this q] frames(1) [OF assms(4)] obtain w' where
    w': "ReadMessage W (SetReadLimit W 0 w) = ((map control_of (map frame_of cs), Inr (body_of e)), w')" "inbox w' = fs"
    by auto
  from open_read [OF assms(1) w'(1)] obtain r where "ws_UnsafeRead W ps ch = (r, ch\<lparr>wsConn := Some w'\<rparr>)"
    "delivered r = map received cs @ [ParseMessage (fst (body_of e)) (Some (snd (body_of e)))]"
    unfolding c by (auto simp: case_prod_beta)
  with w'(2) data_received [OF assms(4)] show ?thesis by (intro exI [of _ r] exI [of _ w']) simp
qed

lemma close_received:
  assumes "open_reader ps ch w" and "inbox w = map frame_of cs @ frame_of e # fs"
    and "list_all (is_ping_pong timely now) cs" and "is_closing timely accepts now e"
  shows "\<exists>r ch'. ws_UnsafeRead W ps ch = (r, ch') \<and> delivered r = map received (cs @ [e])"
proof -
  have q: "list_all quiet_frame (map frame_of cs)" using assms(3) frames(2) by (auto simp: list_all_iff)
  have c: "map control_msg (map control_of (map frame_of cs)) = map received cs"
    using assms(3) control_received(1) by (auto simp: list_all_iff)
  have f: "frame_of e = ControlFrame 8 (snd (body_of e))" using frames(3) [OF assms(4)] .
  have a: "accepts (fst (parse_close (snd (body_of e))))" using assms(4) by (cases e) (auto simp: close_read)
  from assms(2) f have "inbox w = map frame_of cs @ ControlFrame 8 (snd (body_of e)) # fs" by simp
  from read_close [OF this q a] f obtain x w' where
    w': "ReadMessage W (SetReadLimit W 0 w) = ((map control_of (map frame_of cs @ [frame_of e]), Inl x), w')" by metis
  have "map control_msg (map control_of (map frame_of cs @ [frame_of e])) = map received (cs @ [e])"
    using c control_received(2) [OF assms(4)] by simp
  with open_read [OF assms(1) w'] show ?thesis by auto
qed

lemma messages_read:
  assumes "list_all (sendable timely accepts now) ms" and "list_all (\<lambda>m. \<not> is_closing timely accepts now m) (butlast ms)"
    and "ms = [] \<or> ends_read (last ms)" and "open_reader ps ch w" and "inbox w = map frame_of ms"
  shows "concat (map delivered (ws_reads W ps (reads_for ms) ch)) = map received ms"
  using assms
proof (induction "reads_for ms" arbitrary: ms ch w)
  case 0
  then have "\<forall>m \<in> set ms. \<not> ends_read m" by (auto simp: reads_for_def filter_empty_conv)
  with 0(4) have "ms = []" using last_in_set by blast
  then show ?case by (simp add: reads_for_def)
next
  case (Suc n)
  then have "ms \<noteq> []" by (auto simp: reads_for_def)
  with Suc.prems(3) obtain cs e rest where
    ms: "ms = cs @ e # rest" and cs: "list_all (\<lambda>m. \<not> ends_read m) cs" and e: "ends_read e"
    and rest: "rest = [] \<or> ends_read (last rest)" and n: "reads_for ms = Suc (reads_for rest)"
    using split_first by blast
  have ctl: "list_all (is_ping_pong timely now) cs"
    using cs Suc.prems(1) sendable_kinds(1) [of timely accepts now] unfolding ms by (auto simp: list_all_iff)
  have inb: "inbox w = map frame_of cs @ frame_of e # map frame_of rest" using Suc.prems(5) ms by simp
  show ?case
  proof (cases "is_data e")
    case True
    from data_read [OF Suc.prems(4) inb ctl True] obtain r w' where
      r: "ws_UnsafeRead W ps ch = (r, ch\<lparr>wsConn := Some w'\<rparr>)" "inbox w' = map frame_of rest"
        "delivered r = map received (cs @ [e])" by blast
    have "list_all (\<lambda>m. \<not> is_closing timely accepts now m) (butlast rest)"
      using Suc.prems(2) ms by (cases "rest = []") (simp_all add: butlast_append)
    moreover have "list_all (sendable timely accepts now) rest" using Suc.prems(1) ms by simp
    moreover have "open_reader ps (ch\<lparr>wsConn := Some w'\<rparr>) w'" using Suc.prems(4) by (simp add: open_reader_def)
    ultimately have "concat (map delivered (ws_reads W ps (reads_for rest) (ch\<lparr>wsConn := Some w'\<rparr>))) = map received rest"
      using Suc.hyps(1) [of rest] Suc.hyps(2) n rest r(2) by simp
    with r ms n show ?thesis by simp
  next
    case False
    with e Suc.prems(1) ms have close: "is_closing timely accepts now e" using sendable_kinds(2) by auto
    with Suc.prems(2) ms have "rest = []" by (cases "rest = []") (auto simp: butlast_append)
    with close_received [OF Suc.prems(4) inb ctl close] ms n show ?thesis by (auto simp: reads_for_def)
  qed
qed

end

section \<open>From one task to the other\<close>

text \<open>
  C5. Messages written on one end of a WebSocket, pings and pongs among them and a close at most at the end,
  are all sent, and the task on the other end sees WSConnected, the callback of its kind for each of them
  with the message as it arrives, in order, and then WSDisconnected.
\<close>

theorem ws_end_to_end:
  assumes "ws_wire W sent inbox timely accepts"
    and "list_all (sendable timely accepts now) ms" and "list_all (\<lambda>m. \<not> is_closing timely accepts now m) (butlast ms)"
    and "ms = [] \<or> ends_read (last ms)"
    and "wc_active a" and "wsConn a = Some v" and "sent v = []"
    and "write_all W now ms a = (res, a')" and "wsConn a' = Some v'"
    and "open_reader ps b u" and "inbox u = sent v'"
    and "ws_chain w as c bs" and "app_only (ih_connected h) f" and "app_only (ih_disconnected h) g"
  shows "res = Inr None \<and> (\<exists>w'. fire_all (ws_program h True mk)
        (Active # concat (map read_events (ws_reads W ps (reads_for ms) b)) @ [Inactive]) w = Some (Done w')
    \<and> ws_callbacks (w_user w') = ws_callbacks (w_user w)
        @ [DidConnect] @ map (callback_of (ih_task h)) (map received ms) @ [DidDisconnect]
    \<and> map fst (ws_out (w_user w')) = map fst (ws_out (w_user w))
        @ map WsMessage (concat (map (replies_to (ih_task h)) (map received ms))))"
proof -
  have "open_end (sent v)" using assms(7) by (simp add: open_end_def)
  from ws_wire.messages_written [OF assms(1-3,5,6) this] assms(7-9) have res: "res = Inr None" and out: "sent v' = map frame_of ms"
    by auto
  have got: "concat (map delivered (ws_reads W ps (reads_for ms) b)) = map received ms"
    using ws_wire.messages_read [OF assms(1-4,10)] assms(11) out by simp
  have each: "\<forall>r \<in> set (ws_reads W ps (reads_for ms) b). \<exists>ch ch'. ws_UnsafeRead W ps ch = (r, ch')"
    using ws_reads_each by blast
  have kinds: "\<forall>v ctl t bs v'. ReadMessage W v = ((ctl, Inr (t, bs)), v') \<longrightarrow> t \<in> {1, 2}"
    using ws_wire.read_kinds [OF assms(1)] by blast
  from res connection_callbacks [OF assms(12-14) each kinds, of mk] show ?thesis unfolding got by blast
qed

section \<open>A wire\<close>

text \<open>A connection that keeps what is written, and reads frames from a list.\<close>

record wire_state =
  wq_sent :: "ws_frame list"
  wq_inbox :: "ws_frame list"

definition list_wire :: "wire_state ws_ops" where
  "list_wire = \<lparr>
     WriteControl = \<lambda>t bs d w. (None, w\<lparr>wq_sent := wq_sent w @ [ControlFrame t bs]\<rparr>),
     WriteMessage = \<lambda>t bs w. (None, w\<lparr>wq_sent := wq_sent w @ [DataFrame t bs]\<rparr>),
     SetReadLimit = \<lambda>n w. w,
     ReadMessage = \<lambda>w. (let cs = takeWhile quiet_frame (wq_inbox w) in
       case dropWhile quiet_frame (wq_inbox w) of
         [] \<Rightarrow> ((map control_of cs, Inl ErrEOF), w\<lparr>wq_inbox := []\<rparr>)
       | DataFrame t bs # fs \<Rightarrow> (if t = 1 \<or> t = 2 then ((map control_of cs, Inr (t, bs)), w\<lparr>wq_inbox := fs\<rparr>)
           else ((map control_of cs, Inl ErrEOF), w\<lparr>wq_inbox := []\<rparr>))
       | ControlFrame t bs # fs \<Rightarrow> ((map control_of (cs @ [ControlFrame t bs]), Inl ErrEOF), w\<lparr>wq_inbox := []\<rparr>))\<rparr>"

lemma quiet_front:
  assumes "list_all quiet_frame cs" and "\<not> quiet_frame f"
  shows "takeWhile quiet_frame (cs @ f # fs) = cs" "dropWhile quiet_frame (cs @ f # fs) = f # fs"
  using assms by (induction cs) auto

interpretation lw: ws_wire list_wire wq_sent wq_inbox "\<lambda>d. 0 < d" "\<lambda>c. 1000 \<le> c"
proof unfold_locales
  fix w t bs w' ctl
  assume "ReadMessage list_wire w = ((ctl, Inr (t, bs)), w')"
  then show "t \<in> {1, 2}" by (auto simp: list_wire_def Let_def split: list.splits ws_frame.splits if_splits)
qed (auto simp: list_wire_def quiet_front quiet_frame_def)

definition wire_end :: "ws_frame list \<Rightarrow> wire_state ws_channel" where
  "wire_end fs = \<lparr>wc_active = True, wc_conn = True, wsConn = Some \<lparr>wq_sent = [], wq_inbox = fs\<rparr>, wc_response = True\<rparr>"

definition demo_messages :: "ws_message list" where
  "demo_messages = [build_Ping (Some [7, 8]) None, build_Text [104], build_Close (Some [111]) 1000]"

text \<open>A ping, a text and a close: the task answers the ping and sees all three.\<close>

theorem ws_end_to_end_witness:
  "\<exists>a' v' w'. write_all list_wire 0 demo_messages (wire_end []) = (Inr None, a') \<and> wsConn a' = Some v'
     \<and> fire_all (ws_program (NewInvokeHandler (default_ws_task 0) counting counting None) True (\<lambda>a. a))
         (Active # concat (map read_events (ws_reads list_wire Map.empty 2 (wire_end (wq_sent v')))) @ [Inactive]) ws_start
       = Some (Done w')
     \<and> ws_callbacks (w_user w') = [DidConnect, DidCall CalledPing (build_Ping (Some [7, 8]) None),
         DidCall CalledText (build_Text [104]), DidCall CalledClose (build_Close (Some [111]) 1000), DidDisconnect]
     \<and> map fst (ws_out (w_user w')) = [WsMessage (build_Pong (Some [7, 8]) (Some (60 * 10 ^ 9)))]"
proof -
  let ?h = "NewInvokeHandler (default_ws_task 0) counting counting None :: nat invoke_handler"
  have count: "app_only (ih_connected ?h) (\<lambda>_. Suc)" "app_only (ih_disconnected ?h) (\<lambda>_. Suc)"
    by (simp_all add: NewInvokeHandler_def app_only_def counting_def)
  note built = demo_messages_def build_Ping_def build_Text_def build_Close_def build_Pong_def type_codes
  have send: "list_all (sendable (\<lambda>d. 0 < d) (\<lambda>c. 1000 \<le> c) 0) demo_messages"
    "list_all (\<lambda>m. \<not> is_closing (\<lambda>d. 0 < d) (\<lambda>c. 1000 \<le> c) 0 m) (butlast demo_messages)"
    "demo_messages = [] \<or> ends_read (last demo_messages)"
    by (simp_all add: built sendable_def bytes_of_def control_deadline_def ends_read_def)
  have reads: "reads_for demo_messages = 2" by (simp add: built reads_for_def ends_read_def)
  obtain res a' where wr: "write_all list_wire 0 demo_messages (wire_end []) = (res, a')" by fastforce
  from lw.messages_written [OF send(1,2), of "wire_end []" "\<lparr>wq_sent = [], wq_inbox = []\<rparr>"] wr obtain v' where
    v': "wsConn a' = Some v'" by (auto simp: wire_end_def open_end_def)
  have rd: "open_reader Map.empty (wire_end (wq_sent v')) \<lparr>wq_sent = [], wq_inbox = wq_sent v'\<rparr>"
    by (simp add: open_reader_def wire_end_def GetParamInt64Default_def)
  have task: "ih_task ?h = default_ws_task 0" by (simp add: NewInvokeHandler_def)
  have start: "ws_callbacks (w_user ws_start) = []" "ws_out (w_user ws_start) = []" by (simp_all add: ws_start_def)
  have ans: "map (callback_of (default_ws_task 0)) (map received demo_messages)
      = [DidCall CalledPing (build_Ping (Some [7, 8]) None), DidCall CalledText (build_Text [104]),
         DidCall CalledClose (build_Close (Some [111]) 1000)]"
    "concat (map (replies_to (default_ws_task 0)) (map received demo_messages))
      = [build_Pong (Some [7, 8]) (Some (60 * 10 ^ 9))]"
    by (simp_all add: built callback_of_def replies_to_def ws_Call_def call_by_type_def bytes_of_def
        default_ws_task_def default_WSPing_def)
  have "res = Inr None \<and> (\<exists>w'. fire_all (ws_program ?h True (\<lambda>a. a))
        (Active # concat (map read_events (ws_reads list_wire Map.empty (reads_for demo_messages) (wire_end (wq_sent v')))) @ [Inactive]) ws_start
      = Some (Done w')
    \<and> ws_callbacks (w_user w') = ws_callbacks (w_user ws_start)
        @ [DidConnect] @ map (callback_of (ih_task ?h)) (map received demo_messages) @ [DidDisconnect]
    \<and> map fst (ws_out (w_user w')) = map fst (ws_out (w_user ws_start))
        @ map WsMessage (concat (map (replies_to (ih_task ?h)) (map received demo_messages))))"
    by (rule ws_end_to_end [where v = "\<lparr>wq_sent = [], wq_inbox = []\<rparr>", OF lw.ws_wire_axioms send _ _ _ wr v' rd _ ws_start_chain count])
      (simp_all add: wire_end_def)
  then show ?thesis unfolding task start ans reads using wr v' by auto
qed

end
