(* ===== verification/Channel_Net_Life.thy ===== *)
theory Channel_Net_Life
  imports Channel_Lifecycle Channel_Net
begin

text \<open>
  How the end of a network channel ends its connection: \<open>inactiveChannel\<close> of \<open>channel/netchannel.go\<close>, which
  deactivates the channel (\<open>Channel_Lifecycle\<close>) and then disconnects (\<open>Channel_Net\<close>). The lemmas show that
  a usable connection is closed exactly once, by whoever deactivates the channel first, and that one
  that failed before is left open.
\<close>

text \<open>\<open>success\<close> is the first result of \<open>DefaultChannel.inactiveChannel\<close>: the future was pending.\<close>

definition inactive_success :: "('f, 'm) life \<Rightarrow> bool" where
  "inactive_success s \<longleftrightarrow> is_active s"

definition net_inactiveChannel ::
  "'c conn_ops \<Rightarrow> (nat \<Rightarrow> 'm lpc) \<Rightarrow> 'm lpc \<Rightarrow> 'm lpc \<Rightarrow> ('f, 'm) life \<times> 'c net_channel
     \<Rightarrow> ('m lpc \<times> 'm lpc list) \<times> ('f, 'm) life \<times> 'c net_channel" where
  "net_inactiveChannel N first never later st =
     (case inactivate first never later (fst st) of
        (p, s', ps) \<Rightarrow> ((p, ps), s',
          if inactive_success (fst st) then snd (net_UnsafeDisconnect N (snd st)) else snd st))"

text \<open>A connection whose closes are counted.\<close>

definition counting_close :: "'c conn_ops \<Rightarrow> ('c \<Rightarrow> nat) \<Rightarrow> bool" where
  "counting_close N closes \<longleftrightarrow> (\<forall>c. closes (snd (CClose N c)) = Suc (closes c))"

definition closes_of :: "('c \<Rightarrow> nat) \<Rightarrow> 'c net_channel \<Rightarrow> nat" where
  "closes_of closes ch = (case nc_conn ch of None \<Rightarrow> 0 | Some d \<Rightarrow> closes (dc_conn d))"

lemma inactivate_life: "fst (snd (inactivate first never later s)) = s\<lparr>l_alive := Settled\<rparr>"
  by (cases "l_alive s") (simp_all add: inactivate_def)

lemma net_inactive_parts:
  "fst (snd (net_inactiveChannel N first never later (s, ch))) = s\<lparr>l_alive := Settled\<rparr>"
  "snd (snd (net_inactiveChannel N first never later (s, ch)))
     = (if is_active s then snd (net_UnsafeDisconnect N ch) else ch)"
  using inactivate_life [of first never later s]
  by (auto simp: net_inactiveChannel_def inactive_success_def split: prod.splits)

text \<open>The calls of several goroutines, one after the other, each with what it does next.\<close>

fun inactive_calls ::
  "'c conn_ops \<Rightarrow> ((nat \<Rightarrow> 'm lpc) \<times> 'm lpc \<times> 'm lpc) list \<Rightarrow> ('f, 'm) life \<times> 'c net_channel
     \<Rightarrow> ('f, 'm) life \<times> 'c net_channel" where
  "inactive_calls N [] st = st"
| "inactive_calls N ((first, never, later) # cs) st =
     inactive_calls N cs (snd (net_inactiveChannel N first never later st))"

lemma settled_calls: "l_alive s = Settled \<Longrightarrow> inactive_calls N cs (s, ch) = (s, ch)"
proof (induction cs)
  case (Cons c cs)
  obtain first never later where c: "c = (first, never, later)" by (cases c) auto
  have "snd (net_inactiveChannel N first never later (s, ch)) = (s, ch)"
    using Cons.prems by (simp add: net_inactiveChannel_def inactivate_def inactive_success_def is_active_def)
  with Cons c show ?case by simp
qed simp

text \<open>
  However many goroutines deactivate an active channel, its connection is closed once if it was
  usable, and not at all if an earlier error of a read or write has marked it.
\<close>

theorem closed_once_or_leaked:
  assumes "is_active s" and "nc_conn ch = Some d" and "counting_close N closes" and "cs \<noteq> []"
    and "inactive_calls N cs (s, ch) = (s', ch')"
  shows "l_alive s' = Settled
    \<and> closes_of closes ch' = closes_of closes ch + (if dc_active d then 1 else 0)
    \<and> (\<exists>d'. nc_conn ch' = Some d' \<and> \<not> dc_active d')"
proof -
  from assms(4) obtain first never later rest where cs: "cs = (first, never, later) # rest"
    by (cases cs) auto
  let ?s = "s\<lparr>l_alive := Settled\<rparr>" and ?ch = "snd (net_UnsafeDisconnect N ch)"
  have "snd (net_inactiveChannel N first never later (s, ch)) = (?s, ?ch)"
    using net_inactive_parts [of N first never later s ch] assms(1) by (simp add: prod_eq_iff)
  with assms(5) cs settled_calls [of ?s N rest ?ch] have r: "s' = ?s" "ch' = ?ch" by simp_all
  show ?thesis
  proof (cases "dc_active d")
    case True
    with assms(2,3) show ?thesis
      by (simp add: r closes_of_def net_UnsafeDisconnect_def conn_Close_def counting_close_def split: prod.split)
        (metis snd_conv)
  next
    case False
    with assms(2) show ?thesis by (simp add: r closes_of_def net_UnsafeDisconnect_def)
  qed
qed

text \<open>A peer that hangs up: the read ends in EOF, the channel is deactivated, the connection stays open.\<close>

definition eof_conn :: "nat conn_ops" where
  "eof_conn = \<lparr>CRead = \<lambda>n c. (([], Some ErrEOF), c), CWrite = \<lambda>bs c. (None, c), CClose = \<lambda>c. (None, Suc c),
     CReadDeadline = \<lambda>t c. (None, c), CWriteDeadline = \<lambda>t c. (None, c),
     CLocalAddr = \<lambda>c. TCPAddr ''a'', CRemoteAddr = \<lambda>c. TCPAddr ''b''\<rparr>"

definition eof_channel :: "nat net_channel" where
  "eof_channel = \<lparr>nc_conn = WrapConn (Some 0), BufferSize = 4, ReadTimeout = 0, WriteTimeout = 0, nc_localAddr = None\<rparr>"

definition eof_life :: "((string + unit) option, string) life" where
  "eof_life = activate (new_life option_promise)"

lemma eof_counting: "counting_close eof_conn id"
  by (simp add: counting_close_def eof_conn_def)

lemma eof_life_active: "is_active eof_life"
  by (simp add: eof_life_def activate_def is_active_def)

text \<open>\<open>Close\<close> and the reading goroutine deactivate it: one close.\<close>

theorem closed_once_or_leaked_witness:
  "closes_of id (snd (inactive_calls eof_conn
      [(\<lambda>g. OpAwait 0 g, OpSucceed OClose 0, OpSucceed OClose 0), (\<lambda>g. RUnreg, RReset, RReset)]
      (eof_life, eof_channel))) = 1"
proof -
  let ?cs = "[(\<lambda>g. OpAwait 0 g, OpSucceed OClose 0, OpSucceed OClose 0), (\<lambda>g. RUnreg, RReset, RReset)] :: ((nat \<Rightarrow> string lpc) \<times> string lpc \<times> string lpc) list"
  obtain s' ch' where r: "inactive_calls eof_conn ?cs (eof_life, eof_channel) = (s', ch')" by fastforce
  from closed_once_or_leaked [OF eof_life_active _ eof_counting _ r, of "\<lparr>dc_conn = 0, dc_active = True\<rparr>"] r
  show ?thesis by (simp add: eof_channel_def WrapConn_def closes_of_def)
qed

text \<open>A read that ends in EOF before: no close at all.\<close>

theorem eof_never_closed:
  assumes "conn_Read eof_conn 4 \<lparr>dc_conn = 0, dc_active = True\<rparr> = ((bs, Some e), d)" and "cs \<noteq> []"
  shows "closes_of id (snd (inactive_calls eof_conn cs (eof_life, eof_channel\<lparr>nc_conn := Some d\<rparr>))) = 0"
proof -
  obtain s' ch' where r: "inactive_calls eof_conn cs (eof_life, eof_channel\<lparr>nc_conn := Some d\<rparr>) = (s', ch')" by fastforce
  have "d = \<lparr>dc_conn = 0, dc_active = False\<rparr>"
    using assms(1) by (auto simp: conn_Read_def eof_conn_def after_err_def)
  with closed_once_or_leaked [OF eof_life_active _ eof_counting assms(2) r, of d] r
  show ?thesis by (simp add: closes_of_def)
qed

end
