(* ===== verification/Channel_Types.thy ===== *)
theory Channel_Types
  imports Channel_Lifecycle
begin

text \<open>
  Which of the \<open>UnsafeX\<close> methods the channel types of the library have. \<open>DefaultUnsafe\<close> asks its channel by a
  type assertion, so a method counts when the struct declares it or a struct it embeds does (the promotion
  of Go). The lemmas put the types into the life cycle of \<open>Channel_Lifecycle\<close>: what can be called on which
  channel, which goroutine reads on, and that \<open>Close\<close> of a channel that is no server is never answered.
\<close>

section \<open>Structs and their methods\<close>

datatype channel_struct =
    DefaultChannel | DefaultNetChannel | DefaultServerChannel | DefaultNetServerChannel
  | TcpChannel | UdpChannel | HttpChannel | WsChannel | TcpServer | UdpServer | HttpServer

datatype unsafe_method =
    UnsafeIsAutoRead | UnsafeRead | UnsafeBind | UnsafeAccept | UnsafeClose | UnsafeWrite | UnsafeConnect
  | UnsafeDisconnect

fun embeds :: "channel_struct \<Rightarrow> channel_struct option" where
  "embeds DefaultChannel = None"
| "embeds DefaultNetChannel = Some DefaultChannel"
| "embeds DefaultServerChannel = Some DefaultChannel"
| "embeds DefaultNetServerChannel = Some DefaultServerChannel"
| "embeds TcpChannel = Some DefaultNetChannel"
| "embeds UdpChannel = Some DefaultNetChannel"
| "embeds HttpChannel = Some DefaultNetChannel"
| "embeds WsChannel = Some DefaultNetChannel"
| "embeds TcpServer = Some DefaultNetServerChannel"
| "embeds UdpServer = Some DefaultNetServerChannel"
| "embeds HttpServer = Some DefaultNetServerChannel"

text \<open>The methods each struct declares itself.\<close>

definition default_methods :: "unsafe_method list" where
  "default_methods = [UnsafeWrite, UnsafeIsAutoRead, UnsafeRead, UnsafeDisconnect, UnsafeConnect]"

definition server_methods :: "unsafe_method list" where
  "server_methods = [UnsafeBind, UnsafeAccept, UnsafeRead, UnsafeClose, UnsafeIsAutoRead]"

definition netserver_methods :: "unsafe_method list" where
  "netserver_methods = [UnsafeBind, UnsafeAccept, UnsafeClose]"

fun declares :: "channel_struct \<Rightarrow> unsafe_method list" where
  "declares DefaultChannel = default_methods"
| "declares DefaultNetChannel = [UnsafeWrite, UnsafeRead, UnsafeDisconnect, UnsafeConnect]"
| "declares DefaultServerChannel = server_methods"
| "declares DefaultNetServerChannel = netserver_methods"
| "declares TcpChannel = [UnsafeConnect]"
| "declares UdpChannel = [UnsafeConnect]"
| "declares HttpChannel = [UnsafeIsAutoRead, UnsafeRead, UnsafeWrite]"
| "declares WsChannel = [UnsafeWrite, UnsafeRead, UnsafeConnect]"
| "declares TcpServer = [UnsafeBind, UnsafeAccept, UnsafeClose]"
| "declares UdpServer = [UnsafeBind, UnsafeAccept, UnsafeClose]"
| "declares HttpServer = [UnsafeBind, UnsafeAccept, UnsafeClose]"

text \<open>The struct whose method a call reaches: the outermost that declares it.\<close>

fun depth :: "channel_struct \<Rightarrow> nat" where
  "depth DefaultChannel = 0"
| "depth DefaultNetChannel = 1"
| "depth DefaultServerChannel = 1"
| "depth DefaultNetServerChannel = 2"
| "depth TcpChannel = 2"
| "depth UdpChannel = 2"
| "depth HttpChannel = 2"
| "depth WsChannel = 2"
| "depth TcpServer = 3"
| "depth UdpServer = 3"
| "depth HttpServer = 3"

lemma embeds_depth: "embeds t = Some e \<Longrightarrow> depth e < depth t"
  by (cases t) auto

function provider :: "channel_struct \<Rightarrow> unsafe_method \<Rightarrow> channel_struct option" where
  "provider t m = (if m \<in> set (declares t) then Some t
     else case embeds t of None \<Rightarrow> None | Some e \<Rightarrow> provider e m)"
  by auto
termination by (relation "measure (depth \<circ> fst)") (auto intro: embeds_depth)

declare provider.simps [simp del]

definition implements :: "channel_struct \<Rightarrow> unsafe_method \<Rightarrow> bool" where
  "implements t m \<longleftrightarrow> provider t m \<noteq> None"

text \<open>What \<open>UnsafeIsAutoRead\<close> answers, by the struct that declares it.\<close>

definition auto_read :: "channel_struct \<Rightarrow> bool" where
  "auto_read t = (case provider t UnsafeIsAutoRead of Some DefaultChannel \<Rightarrow> True | _ \<Rightarrow> False)"

definition asked_for :: "lop \<Rightarrow> unsafe_method" where
  "asked_for op = (case op of OBind \<Rightarrow> UnsafeBind | OClose \<Rightarrow> UnsafeClose | OConnect \<Rightarrow> UnsafeConnect
     | ODisconnect \<Rightarrow> UnsafeDisconnect)"

definition type_of :: "channel_struct \<Rightarrow> chan_type" where
  "type_of t = \<lparr>ct_has = (\<lambda>op. implements t (asked_for op)),
     ct_reads = (implements t UnsafeIsAutoRead \<and> implements t UnsafeRead), ct_auto = auto_read t\<rparr>"

text \<open>\<open>ServerChannel\<close> is an interface of unexported methods, which \<open>DefaultServerChannel\<close> has.\<close>

inductive is_server :: "channel_struct \<Rightarrow> bool" where
  "is_server DefaultServerChannel"
| "embeds t = Some e \<Longrightarrow> is_server e \<Longrightarrow> is_server t"

inductive_simps is_server_struct: "is_server t"

code_pred is_server .

lemmas method_sets = implements_def provider.simps default_methods_def server_methods_def netserver_methods_def

lemma servers: "is_server t \<longleftrightarrow> t \<in> {DefaultServerChannel, DefaultNetServerChannel, TcpServer, UdpServer, HttpServer}"
  by (cases t) (simp_all add: is_server_struct [of DefaultChannel] is_server_struct [of DefaultNetChannel]
      is_server_struct [of DefaultServerChannel] is_server_struct [of DefaultNetServerChannel]
      is_server_struct [of TcpChannel] is_server_struct [of UdpChannel] is_server_struct [of HttpChannel]
      is_server_struct [of WsChannel] is_server_struct [of TcpServer] is_server_struct [of UdpServer]
      is_server_struct [of HttpServer])

text \<open>Every channel can be read and disconnected; only servers can be bound, accept, and be closed.\<close>

theorem operations_of_types:
  "ct_has (type_of t) OConnect \<and> ct_has (type_of t) ODisconnect \<and> ct_reads (type_of t)
    \<and> (ct_has (type_of t) OBind \<longleftrightarrow> is_server t) \<and> (ct_has (type_of t) OClose \<longleftrightarrow> is_server t)
    \<and> (ct_auto (type_of t) \<longleftrightarrow> \<not> is_server t \<and> t \<noteq> HttpChannel)"
  unfolding servers
  by (cases t) (simp_all add: type_of_def asked_for_def auto_read_def method_sets)

section \<open>Close\<close>

text \<open>
  On a channel that is no server a call of Close turns back at the type assertion. Its future is owed by
  the call until then and refused afterwards, and stays open for ever.
\<close>

definition close_pending :: "nat \<Rightarrow> ('f, 'm) life \<Rightarrow> 'm lpc list \<Rightarrow> bool" where
  "close_pending f s ps \<longleftrightarrow> OpStart OClose f \<in> set ps \<or> f \<in> set (l_refused s)"

lemma refused_grow: "lthread F T ok p s = Some (p', s', new) \<Longrightarrow> set (l_refused s) \<subseteq> set (l_refused s')"
  by (cases p) (auto simp: life_defs split: life_splits)

lemma close_step:
  "\<not> ct_has T OClose \<Longrightarrow> lthread F T ok (OpStart OClose f) s = Some (LEnded, refuse f s, [])"
  by simp

lemma close_pending_step:
  assumes "\<not> ct_has T OClose" and "lstep F T (s, ps) (s', ps')" and "close_pending f s ps"
  shows "close_pending f s' ps'"
  using assms(2)
proof (cases rule: lstep_cases)
  case (thread ok p p' new xs ys)
  show ?thesis
  proof (cases "p = OpStart OClose f")
    case True
    with thread(1) assms(1) have "s' = refuse f s" by simp
    then show ?thesis by (simp add: close_pending_def refuse_def)
  next
    case False
    with thread assms(3) refused_grow [OF thread(1)] show ?thesis by (auto simp: close_pending_def)
  qed
qed (use assms(3) in \<open>auto simp: close_pending_def\<close>)

theorem close_unheard:
  assumes "promise F" and "\<not> is_server t" and "lreach F (type_of t) s ps" and "OpStart OClose f \<in> set ps"
    and "(lstep F (type_of t))\<^sup>*\<^sup>* (s, ps) (s', ps')"
  shows "\<not> IsDone F (l_futs s' f) \<and> lthread F (type_of t) ok (OpStart OClose f) s = Some (LEnded, refuse f s, [])"
proof -
  have no: "\<not> ct_has (type_of t) OClose" using operations_of_types [of t] assms(2) by simp
  from assms(5) have "lreach F (type_of t) s' ps' \<and> close_pending f s' ps'"
  proof (induction rule: rtranclp_induct2)
    case refl
    with assms(3,4) show ?case by (simp add: close_pending_def)
  next
    case (step s1 ps1 s2 ps2)
    then show ?case using lreach_step close_pending_step [OF no] by metis
  qed
  with promise.reach_futures [OF assms(1)] have "futures_ok F s' ps'" "close_pending f s' ps'" by auto
  then have "\<not> IsDone F (l_futs s' f)" by (force simp: futures_ok_def close_pending_def)
  with no show ?thesis by simp
qed

text \<open>A connected TCP channel that is closed: it stays active, and the future open.\<close>

theorem close_unheard_witness:
  "\<exists>s ps. lreach option_promise (type_of TcpChannel) (s :: ((string + unit) option, nat) life) ps
    \<and> is_active s \<and> l_used s = [1, 0] \<and> \<not> IsDone option_promise (l_futs s 1) \<and> OpStart OClose 1 \<notin> set ps"
proof -
  let ?T = "type_of TcpChannel"
  let ?s0 = "(new_life option_promise)\<lparr>l_used := [0]\<rparr> :: ((string + unit) option, nat) life"
  have has: "ct_has ?T OConnect" "ct_reads ?T" "ct_has ?T OClose = False" "ct_auto ?T"
    using operations_of_types [of TcpChannel] by (simp_all add: servers)
  have "lreach option_promise ?T ?s0 [OpStart OConnect 0]"
    using lreach_step [OF lreach_start lstep.call [of 0]] by (simp add: new_life_def)
  moreover obtain s1 where f1: "follow option_promise ?T [0, 0, 0, 0, 0, 0, 0, 0, 0] (?s0, [OpStart OConnect 0])
      = Some (s1, [LEnded, RLoop False])" "l_used s1 = [0]" "is_active s1"
    using has by (simp add: new_life_def is_active_def life_defs)
  ultimately have "lreach option_promise ?T s1 [LEnded, RLoop False]" by (blast intro: follow_reach)
  then have r: "lreach option_promise ?T (s1\<lparr>l_used := [1, 0]\<rparr>) [LEnded, RLoop False, OpStart OClose 1]"
    using lreach_step [OF _ lstep.call [of 1 s1 option_promise ?T "[LEnded, RLoop False]" OClose]] f1(2) by simp
  let ?s2 = "refuse 1 (s1\<lparr>l_used := [1, 0]\<rparr>)"
  have f2: "follow option_promise ?T [2] (s1\<lparr>l_used := [1, 0]\<rparr>, [LEnded, RLoop False, OpStart OClose 1])
      = Some (?s2, [LEnded, RLoop False, LEnded])" using has by simp
  from close_unheard [OF op.promise_axioms _ r _ rtranclp_mono [THEN predicate2D, OF _ follow_run [OF f2]], of 1] f1(3)
    follow_reach [OF r f2]
  show ?thesis
    by (intro exI [of _ ?s2] exI [of _ "[LEnded, RLoop False, LEnded]"])
      (auto simp: servers refuse_def is_active_def intro: lstep.thread)
qed

section \<open>Reading\<close>

text \<open>What \<open>UnsafeRead\<close> answers where it is not overridden by one that reads a connection.\<close>

definition default_read :: "'m read_answer" where
  "default_read = RNil"

lemma lrun_at:
  "lthread F T ok p s = Some (p', s', []) \<Longrightarrow> lrun F T (s, xs @ p # ys) (s', xs @ p' # ys)"
  using lrun.intros [of F T ok p s p' s' "[]" xs ys] by simp

text \<open>One turn of the loop that reads nothing.\<close>

lemma empty_turn:
  assumes "is_active s" and "l_incoming s = default_read # as"
  shows "(lrun F T)\<^sup>*\<^sup>* (s, xs @ RLoop lo # ys)
     (s\<lparr>l_incoming := as\<rparr>, xs @ (if ct_auto T then RLoop lo else RReset) # ys)"
proof -
  note loop = lrun_at [of F T True "RLoop lo" s "RRead lo" s xs ys]
    and read = lrun_at [of F T True "RRead lo" s "RAuto lo" "s\<lparr>l_incoming := as\<rparr>" xs ys]
    and auto = lrun_at [of F T True "RAuto lo" "s\<lparr>l_incoming := as\<rparr>" "if ct_auto T then RLoop lo else RReset"
        "s\<lparr>l_incoming := as\<rparr>" xs ys]
  show ?thesis
    by (rule converse_rtranclp_into_rtranclp [OF loop converse_rtranclp_into_rtranclp [OF read r_into_rtranclp [of "lrun F T", OF auto]]])
      (simp_all add: assms default_read_def Let_def)
qed

text \<open>
  A channel of the plain \<open>DefaultChannel\<close> reads on for ever: its \<open>UnsafeRead\<close> answers nothing at once and
  its \<open>UnsafeIsAutoRead\<close> is true, so the goroutine comes back to the head of its loop with nothing
  changed, as often as it is answered.
\<close>

theorem default_reader_spins:
  assumes "is_active s"
  shows "(lrun F (type_of DefaultChannel))\<^sup>*\<^sup>*
     (s\<lparr>l_incoming := replicate n default_read\<rparr>, xs @ RLoop lo # ys) (s\<lparr>l_incoming := []\<rparr>, xs @ RLoop lo # ys)"
proof (induction n)
  case (Suc n)
  let ?s = "s\<lparr>l_incoming := replicate (Suc n) default_read\<rparr>"
  have auto: "ct_auto (type_of DefaultChannel)" using operations_of_types [of DefaultChannel] by (simp add: servers)
  have "is_active ?s" using assms by (simp add: is_active_def)
  from empty_turn [OF this, of "replicate n default_read" F "type_of DefaultChannel" xs lo ys] auto
  have "(lrun F (type_of DefaultChannel))\<^sup>*\<^sup>* (?s, xs @ RLoop lo # ys)
      (s\<lparr>l_incoming := replicate n default_read\<rparr>, xs @ RLoop lo # ys)" by simp
  from rtranclp_trans [OF this Suc.IH] show ?case .
qed simp

text \<open>An HTTP channel and a server channel: one answer for each call of Read.\<close>

theorem quiet_reader_stops:
  assumes "t = HttpChannel \<or> is_server t" and "is_active s" and "l_incoming s = default_read # as"
  shows "(lrun F (type_of t))\<^sup>*\<^sup>* (s, xs @ RLoop lo # ys) (s\<lparr>l_incoming := as, l_readS := False\<rparr>, xs @ LEnded # ys)"
proof -
  have "\<not> ct_auto (type_of t)" using operations_of_types [of t] assms(1) by auto
  with empty_turn [OF assms(2,3), of F "type_of t" xs lo ys]
  have "(lrun F (type_of t))\<^sup>*\<^sup>* (s, xs @ RLoop lo # ys) (s\<lparr>l_incoming := as\<rparr>, xs @ RReset # ys)" by simp
  moreover have "lrun F (type_of t) (s\<lparr>l_incoming := as\<rparr>, xs @ RReset # ys)
      (s\<lparr>l_incoming := as, l_readS := False\<rparr>, xs @ LEnded # ys)"
    by (rule lrun_at) simp
  ultimately show ?thesis by (rule rtranclp.rtrancl_into_rtrancl)
qed

text \<open>The plain channel after its Connect: a thousand turns later it is where it was.\<close>

theorem default_reader_spins_witness:
  "\<exists>s. is_active s \<and> (lrun option_promise (type_of DefaultChannel))\<^sup>*\<^sup>*
     (s\<lparr>l_incoming := replicate 1000 default_read\<rparr>, [LEnded, RLoop False])
     (s\<lparr>l_incoming := []\<rparr> :: ((string + unit) option, nat) life, [LEnded, RLoop False])"
proof -
  let ?s = "activate (new_life option_promise) :: ((string + unit) option, nat) life"
  have "is_active ?s" by (simp add: activate_def is_active_def)
  with default_reader_spins [OF this, of option_promise 1000 "[LEnded]" False "[]"] show ?thesis by auto
qed

end
