(* ===== verification/Ghttp_Wrapped.thy ===== *)
theory Ghttp_Wrapped
  imports Ghttp_Objects
begin

text \<open>
  \<open>WrapResponse\<close> of \<open>ghttp/httpobjects.go\<close>, the response a WebSocket client gets from its handshake. It leaves
  the map of cookies and the body nil, which the other constructors do not, so here a map may be nil. The
  lemmas compare it with the responses of \<open>Ghttp_Objects\<close>.
\<close>

section \<open>Responses whose maps may be nil\<close>

text \<open>None is nil.\<close>

record 'b go_response =
  gr_statusCode :: int
  gr_header :: "headers option"
  gr_cookies :: "(string \<rightharpoonup> cookie list) option"
  gr_body :: "'b option"
  gr_headerWritten :: bool

definition WrapResponse :: "int \<Rightarrow> headers option \<Rightarrow> 'b go_response" where
  "WrapResponse st h = \<lparr>gr_statusCode = st, gr_header = h, gr_cookies = None, gr_body = None, gr_headerWritten = False\<rparr>"

text \<open>The methods. Reading a nil map finds nothing, deleting from it does nothing, writing to it panics.\<close>

definition nil_map :: panic where
  "nil_map = PanicValue ''assignment to entry in nil map''"

definition go_SetHeaderWith :: "(headers \<Rightarrow> headers) \<Rightarrow> 'b go_response \<Rightarrow> 'b go_response outcome" where
  "go_SetHeaderWith f r = (case gr_header r of
       None \<Rightarrow> Panicked nil_map r
     | Some h \<Rightarrow> Done (r\<lparr>gr_header := Some (f h)\<rparr>))"

definition go_GetHeader :: "string \<Rightarrow> 'b go_response \<Rightarrow> string" where
  "go_GetHeader k r = (case gr_header r of None \<Rightarrow> [] | Some h \<Rightarrow> header_get k h)"

definition go_Cookie :: "string \<Rightarrow> 'b go_response \<Rightarrow> cookie option option" where
  "go_Cookie name r = (case gr_cookies r of
       None \<Rightarrow> Some None
     | Some cs \<Rightarrow> (case cs name of None \<Rightarrow> Some None | Some [] \<Rightarrow> None | Some (c # _) \<Rightarrow> Some (Some c)))"

definition go_SetCookie :: "cookie \<Rightarrow> 'b go_response \<Rightarrow> 'b go_response outcome" where
  "go_SetCookie c r = (case gr_cookies r of
       None \<Rightarrow> Panicked nil_map r
     | Some cs \<Rightarrow> Done (r\<lparr>gr_cookies := Some (cs(ck_name c \<mapsto> [c]))\<rparr>))"

text \<open>What a caller may do to a response, and how it ends with either kind of response.\<close>

datatype 'b resp_op =
    OpStatus int | OpAddHeader string string | OpSetHeader string string | OpDelHeader string
  | OpSetCookie cookie | OpSetBody 'b

fun go_op :: "'b resp_op \<Rightarrow> 'b go_response \<Rightarrow> 'b go_response outcome" where
  "go_op (OpStatus c) r = Done (r\<lparr>gr_statusCode := c\<rparr>)"
| "go_op (OpAddHeader k v) r = go_SetHeaderWith (header_add k v) r"
| "go_op (OpSetHeader k v) r = go_SetHeaderWith (header_set k v) r"
| "go_op (OpDelHeader k) r = Done (r\<lparr>gr_header := map_option (header_del k) (gr_header r)\<rparr>)"
| "go_op (OpSetCookie c) r = go_SetCookie c r"
| "go_op (OpSetBody b) r = Done (r\<lparr>gr_body := Some b\<rparr>)"

fun run_op :: "'b resp_op \<Rightarrow> 'b response \<Rightarrow> 'b response" where
  "run_op (OpStatus c) r = SetStatusCode c r"
| "run_op (OpAddHeader k v) r = AddHeader k v r"
| "run_op (OpSetHeader k v) r = SetHeader k v r"
| "run_op (OpDelHeader k) r = DelHeader k r"
| "run_op (OpSetCookie c) r = SetCookie c r"
| "run_op (OpSetBody b) r = SetBody b r"

fun go_ops :: "'b resp_op list \<Rightarrow> 'b go_response \<Rightarrow> 'b go_response outcome" where
  "go_ops [] r = Done r"
| "go_ops (x # xs) r = (case go_op x r of Done r' \<Rightarrow> go_ops xs r' | Panicked e r' \<Rightarrow> Panicked e r')"

section \<open>Comparison\<close>

text \<open>A response of \<open>Ghttp_Objects\<close> seen as one with nil-able maps; \<open>made\<close> is false for a nil cookie map.\<close>

definition seen :: "bool \<Rightarrow> 'b response \<Rightarrow> 'b go_response" where
  "seen made r = \<lparr>gr_statusCode = statusCode r, gr_header = Some (header r),
     gr_cookies = (if made then Some (cookies r) else None), gr_body = body r, gr_headerWritten = headerWritten r\<rparr>"

lemmas resp_ops_def = SetStatusCode_def AddHeader_def SetHeader_def DelHeader_def SetCookie_def SetBody_def
  go_SetHeaderWith_def go_SetCookie_def

lemma go_op_seen:
  assumes "made \<or> (\<forall>c. x \<noteq> OpSetCookie c)"
  shows "go_op x (seen made r) = Done (seen made (run_op x r))"
  using assms by (cases x) (simp_all add: resp_ops_def seen_def)

lemma go_op_cookie: "go_op (OpSetCookie c) (seen False r) = Panicked nil_map (seen False r)"
  by (simp add: go_SetCookie_def seen_def)

lemma reads_seen:
  "go_GetHeader k (seen made r) = GetHeader k r" "go_Cookie n (seen True r) = Cookie n r"
  by (simp_all add: go_GetHeader_def GetHeader_def go_Cookie_def Cookie_def seen_def)

text \<open>
  With maps that were made, any sequence of calls ends as it does in \<open>Ghttp_Objects\<close>. On a wrapped response
  it goes that far until a cookie is set, and there it panics, with what was done before kept.
\<close>

theorem response_ops:
  "go_ops xs (seen True r) = Done (seen True (fold run_op xs r))"
  by (induction xs arbitrary: r) (simp_all add: go_op_seen)

definition no_cookie :: "'b resp_op \<Rightarrow> bool" where
  "no_cookie x = (case x of OpSetCookie _ \<Rightarrow> False | _ \<Rightarrow> True)"

definition wrapped_base :: "int \<Rightarrow> headers \<Rightarrow> 'b response" where
  "wrapped_base st h = \<lparr>statusCode = st, header = h, cookies = Map.empty, body = None, headerWritten = False\<rparr>"

lemma wrapped_seen: "WrapResponse st (Some h) = seen False (wrapped_base st h)"
  by (simp add: WrapResponse_def seen_def wrapped_base_def)

theorem wrapped_ops:
  "go_ops xs (WrapResponse st (Some h)) =
     (let r = seen False (fold run_op (takeWhile no_cookie xs) (wrapped_base st h)) in
      if list_all no_cookie xs then Done r else Panicked nil_map r)"
proof -
  have "go_ops xs (seen False r) =
     (let r' = seen False (fold run_op (takeWhile no_cookie xs) r) in
      if list_all no_cookie xs then Done r' else Panicked nil_map r')" for r :: "'a response"
  proof (induction xs arbitrary: r)
    case (Cons x xs)
    show ?case
    proof (cases "no_cookie x")
      case True
      then have "False \<or> (\<forall>c. x \<noteq> OpSetCookie c)" by (auto simp: no_cookie_def)
      from go_op_seen [OF this, of r] True Cons.IH show ?thesis by simp
    next
      case False
      then obtain c where "x = OpSetCookie c" by (cases x) (auto simp: no_cookie_def)
      with False go_op_cookie [of c r] show ?thesis by (simp add: Let_def)
    qed
  qed simp
  then show ?thesis by (simp add: wrapped_seen)
qed

text \<open>So a client of a WebSocket cannot add a cookie to the response it was given, and finds none there.\<close>

lemma wrapped_has_no_cookies: "go_Cookie n (WrapResponse st h) = Some None"
  by (simp add: go_Cookie_def WrapResponse_def)

end
